(* ===== verification/Prelude.thy ===== *)
theory Prelude
  imports Main "HOL-Library.Word"
begin

text \<open>
  Shared ground of the development: the integer types of kernel/types.h, the outcome type
  every kernel operation returns (a value, a panic with the source's message, or a hart that
  spins on a lock), its sequencing operator, and generic lemmas on lists and words.
\<close>

unbundle bit_operations_syntax

section \<open>The integer types of the source\<close>

type_synonym uint8 = "8 word"
type_synonym uint16 = "16 word"
type_synonym uint32 = "32 word"
type_synonym uint64 = "64 word"

text \<open>
  A C \<^verbatim>\<open>int\<close> or \<^verbatim>\<open>long long\<close> is a word of its width read with \<^const>\<open>sint\<close>;
  its arithmetic wraps as the RISC-V instructions that gcc emits for it do.
\<close>

type_synonym int32 = "32 word"
type_synonym int64 = "64 word"

section \<open>Collections of facts\<close>

named_theorems outcome_simps \<open>how outcomes are sequenced\<close>
named_theorems frame_simps \<open>what an operation leaves alone\<close>
named_theorems lock_simps \<open>net effect of lock and interrupt operations\<close>

section \<open>Outcomes\<close>

text \<open>
  \<^verbatim>\<open>panic(msg)\<close> never returns (kernel/printf.c: it prints and loops), and a hart that finds
  a spinlock taken by another hart loops in \<^verbatim>\<open>acquire\<close>. Both are values of the outcome type.
\<close>

datatype 'a outcome = Ok 'a | Panic string | Spin

fun andThen :: "'a outcome \<Rightarrow> ('a \<Rightarrow> 'b outcome) \<Rightarrow> 'b outcome" where
  "andThen (Ok x) f = f x"
| "andThen (Panic msg) f = Panic msg"
| "andThen Spin f = Spin"

fun returns :: "'a outcome \<Rightarrow> bool" where
  "returns (Ok x) = True"
| "returns (Panic msg) = False"
| "returns Spin = False"

lemma andThen_eq_Ok [outcome_simps]:
  "andThen m f = Ok y \<longleftrightarrow> (\<exists>x. m = Ok x \<and> f x = Ok y)"
  by (cases m) auto

lemma andThen_OkE:
  assumes "andThen m f = Ok y"
  obtains x where "m = Ok x" and "f x = Ok y"
  using assms by (auto simp: outcome_simps)

lemma andThen_assoc: "andThen (andThen m f) g = andThen m (\<lambda>x. andThen (f x) g)"
  by (cases m) auto

lemma andThen_Ok_right [simp]: "andThen m Ok = m"
  by (cases m) auto

lemma andThen_cong [fundef_cong]:
  "m = m' \<Longrightarrow> (\<And>x. m' = Ok x \<Longrightarrow> f x = g x) \<Longrightarrow> andThen m f = andThen m' g"
  by (cases m') auto

lemma returns_iff: "returns m \<longleftrightarrow> (\<exists>x. m = Ok x)"
  by (cases m) auto

section \<open>Lists\<close>

lemma nth_list_update_if:
  "i < length xs \<Longrightarrow> xs[i := x] ! j = (if i = j then x else xs ! j)"
  by (cases "i = j") auto

lemma upt_append_Suc: "i \<le> j \<Longrightarrow> [i..<Suc j] = [i..<j] @ [j]"
  by simp

end
