(* ===== verification/Riscv.thy ===== *)
theory Riscv
  imports Prelude
begin

text \<open>
  The constants and macros of kernel/param.h, kernel/memlayout.h and kernel/riscv.h: system
  limits, page rounding, Sv39 page-table entries and index extraction, the virtual memory
  layout of trampoline, trapframe and kernel stacks. The lemmas give them their arithmetic
  meaning: rounding to page boundaries, the entry encoding as a round trip, and the three
  table indices as the digits of the page number.
\<close>

section \<open>Limits (kernel/param.h)\<close>

definition NPROC :: nat where "NPROC = 64"
definition NCPU :: nat where "NCPU = 8"
definition NOFILE :: nat where "NOFILE = 16"
definition NFILE :: nat where "NFILE = 100"
definition NINODE :: nat where "NINODE = 50"
definition NDEV :: nat where "NDEV = 10"
definition ROOTDEV :: uint32 where "ROOTDEV = 1"
definition MAXARG :: nat where "MAXARG = 32"
definition MAXOPBLOCKS :: int where "MAXOPBLOCKS = 10"
definition LOGSIZE :: int where "LOGSIZE = MAXOPBLOCKS * 3"
definition NBUF :: nat where "NBUF = nat (MAXOPBLOCKS * 3)"
definition FSSIZE :: nat where "FSSIZE = 2000"
definition MAXPATH :: nat where "MAXPATH = 128"

section \<open>Pages (kernel/riscv.h)\<close>

definition PGSIZE :: uint64 where "PGSIZE = 4096"

definition PGROUNDUP :: "uint64 \<Rightarrow> uint64" where
  "PGROUNDUP sz = (sz + PGSIZE - 1) AND NOT (PGSIZE - 1)"

definition PGROUNDDOWN :: "uint64 \<Rightarrow> uint64" where
  "PGROUNDDOWN a = a AND NOT (PGSIZE - 1)"

section \<open>Page-table entries (kernel/riscv.h)\<close>

definition PTE_V :: uint64 where "PTE_V = push_bit 0 1"
definition PTE_R :: uint64 where "PTE_R = push_bit 1 1"
definition PTE_W :: uint64 where "PTE_W = push_bit 2 1"
definition PTE_X :: uint64 where "PTE_X = push_bit 3 1"
definition PTE_U :: uint64 where "PTE_U = push_bit 4 1"

definition PA2PTE :: "uint64 \<Rightarrow> uint64" where
  "PA2PTE pa = push_bit 10 (drop_bit 12 pa)"

definition PTE2PA :: "uint64 \<Rightarrow> uint64" where
  "PTE2PA pte = push_bit 12 (drop_bit 10 pte)"

definition PTE_FLAGS :: "uint64 \<Rightarrow> uint64" where
  "PTE_FLAGS pte = pte AND 0x3FF"

definition PXSHIFT :: "nat \<Rightarrow> nat" where
  "PXSHIFT level = 12 + 9 * level"

definition PX :: "nat \<Rightarrow> uint64 \<Rightarrow> uint64" where
  "PX level va = drop_bit (PXSHIFT level) va AND 0x1FF"

definition MAXVA :: uint64 where "MAXVA = push_bit (9 + 9 + 9 + 12 - 1) 1"

definition MAKE_SATP :: "uint64 \<Rightarrow> uint64" where
  "MAKE_SATP pagetable = push_bit 60 8 OR drop_bit 12 pagetable"

section \<open>Memory layout (kernel/memlayout.h)\<close>

definition UART0 :: uint64 where "UART0 = 0x10000000"
definition VIRTIO0 :: uint64 where "VIRTIO0 = 0x10001000"
definition PLIC :: uint64 where "PLIC = 0x0c000000"
definition KERNBASE :: uint64 where "KERNBASE = 0x80000000"
definition PHYSTOP :: uint64 where "PHYSTOP = KERNBASE + 128 * 1024 * 1024"
definition TRAMPOLINE :: uint64 where "TRAMPOLINE = MAXVA - PGSIZE"
definition TRAPFRAME :: uint64 where "TRAPFRAME = TRAMPOLINE - PGSIZE"

definition KSTACK :: "nat \<Rightarrow> uint64" where
  "KSTACK p = TRAMPOLINE - (of_nat p + 1) * 2 * PGSIZE"

section \<open>Supervisor status bits (kernel/riscv.h)\<close>

definition SSTATUS_SPP :: uint64 where "SSTATUS_SPP = push_bit 8 1"
definition SSTATUS_SPIE :: uint64 where "SSTATUS_SPIE = push_bit 5 1"
definition SSTATUS_SIE :: uint64 where "SSTATUS_SIE = push_bit 1 1"

section \<open>What the macros compute\<close>

lemma take_bit_64_unat [simp]: "take_bit 64 (unat (a :: uint64)) = unat a"
  using unsigned_less [of a, where 'a = nat] by (simp add: take_bit_nat_eq_self)

lemma PGSIZE_minus_1: "PGSIZE - 1 = mask 12"
  by (simp add: PGSIZE_def mask_eq_exp_minus_1)

lemma PGROUNDDOWN_shift: "PGROUNDDOWN a = push_bit 12 (drop_bit 12 a)"
  unfolding PGROUNDDOWN_def PGSIZE_minus_1
  by (rule bit_word_eqI) (auto simp: bit_simps)

lemma unat_PGROUNDDOWN: "unat (PGROUNDDOWN a) = unat a div 4096 * 4096"
proof -
  have "unat a < 2 ^ 64"
    using unsigned_less [of a, where 'a = nat] by simp
  then have "unat a div 4096 * 4096 < 2 ^ 64"
    by linarith
  moreover have "unat (PGROUNDDOWN a) = take_bit 64 (push_bit 12 (drop_bit 12 (unat a)))"
    by (simp add: PGROUNDDOWN_shift unsigned_push_bit_eq unsigned_drop_bit_eq)
  ultimately show ?thesis
    by (simp add: push_bit_eq_mult drop_bit_eq_div take_bit_eq_mod)
qed

lemma PGROUNDUP_eq: "PGROUNDUP sz = PGROUNDDOWN (sz + 4095)"
  by (simp add: PGROUNDUP_def PGROUNDDOWN_def PGSIZE_def add.commute)

lemma unat_PGROUNDUP:
  assumes "unat sz + 4095 < 2 ^ 64"
  shows "unat (PGROUNDUP sz) = (unat sz + 4095) div 4096 * 4096"
  using assms by (simp add: PGROUNDUP_eq unat_PGROUNDDOWN unat_word_ariths)

lemma mask_10: "(0x3FF :: uint64) = mask 10" and mask_9: "(0x1FF :: uint64) = mask 9"
  by (simp_all add: mask_eq_exp_minus_1)

lemma PTE2PA_PA2PTE:
  assumes "take_bit 12 pa = 0" and "take_bit 56 pa = pa" and "take_bit 10 flags = flags"
  shows "PTE2PA (PA2PTE pa OR flags) = pa"
proof (rule bit_word_eqI)
  fix n assume n: "n < LENGTH(64)"
  have low: "\<not> bit pa n" if "n < 12"
    using that assms(1) by (metis bit_0_eq bit_take_bit_iff bot_apply bot_bool_def)
  have high: "\<not> bit pa n" if "56 \<le> n"
    using that assms(2) by (metis bit_take_bit_iff not_le)
  have fl: "\<not> bit flags k" if "10 \<le> k" for k
    using that assms(3) by (metis bit_take_bit_iff not_le)
  show "bit (PTE2PA (PA2PTE pa OR flags)) n = bit pa n"
    using n low high fl
    by (cases "n < 12") (auto simp: PTE2PA_def PA2PTE_def bit_simps)
qed

lemma PTE_FLAGS_PA2PTE:
  assumes "take_bit 10 flags = flags"
  shows "PTE_FLAGS (PA2PTE pa OR flags) = flags"
proof -
  have "take_bit 10 (PA2PTE pa) = 0"
    by (rule bit_word_eqI) (auto simp: PA2PTE_def bit_simps)
  then show ?thesis
    using assms by (simp add: PTE_FLAGS_def mask_10 flip: take_bit_eq_mask)
qed

lemma unat_PX: "unat (PX level va) = unat va div 2 ^ (12 + 9 * level) mod 512"
proof -
  have "unat (PX level va) = take_bit 9 (drop_bit (12 + 9 * level) (unat va))"
    by (simp add: PX_def PXSHIFT_def mask_9 unsigned_take_bit_eq unsigned_drop_bit_eq
        flip: take_bit_eq_mask)
  then show ?thesis
    by (simp add: drop_bit_eq_div take_bit_eq_mod)
qed

lemma PX_lt_512: "unat (PX level va) < 512"
  by (simp add: unat_PX)

text \<open>The three indices are the digits, in base 512, of the page number.\<close>

lemma page_number_digits:
  assumes "unat va < 2 ^ 39"
  shows "unat va div 4096 = unat (PX 2 va) * 512 ^ 2 + unat (PX 1 va) * 512 + unat (PX 0 va)"
proof -
  define p where "p = unat va div 4096"
  define q where "q = p div 512"
  have "q div 512 < 512" using assms by (simp add: p_def q_def)
  moreover have "unat (PX 0 va) = p mod 512"
    by (simp add: unat_PX p_def)
  moreover have "unat (PX 1 va) = q mod 512"
    by (simp add: unat_PX p_def q_def flip: div_mult2_eq)
  moreover have "unat (PX 2 va) = q div 512 mod 512"
    by (simp add: unat_PX p_def q_def flip: div_mult2_eq)
  moreover have "p = q div 512 * 262144 + q mod 512 * 512 + p mod 512"
    using div_mult_mod_eq [of q 512] div_mult_mod_eq [of p 512] by (fold q_def) linarith
  ultimately show ?thesis
    by (simp add: p_def [symmetric])
qed

end
