(* ===== verification/KString.thy ===== *)
theory KString
  imports Riscv
begin

text \<open>
  kernel/string.c. Block operations (\<^verbatim>\<open>memset\<close>, \<^verbatim>\<open>memcmp\<close>, \<^verbatim>\<open>memmove\<close>) work on a byte
  memory indexed by 64-bit addresses. String operations read their source through a pointer,
  seen as the function from an offset to the byte there, and write their destination, a
  fixed-size array, as a list. The lemmas show that \<^verbatim>\<open>memmove\<close> copies correctly whether or
  not the regions overlap, and that \<^verbatim>\<open>safestrcpy\<close> always terminates its result.
\<close>

type_synonym memory = "uint64 \<Rightarrow> uint8"
type_synonym cptr = "nat \<Rightarrow> uint8"

section \<open>Definitions\<close>

primrec memset :: "memory \<Rightarrow> uint64 \<Rightarrow> uint8 \<Rightarrow> nat \<Rightarrow> memory" where
  "memset m dst c 0 = m"
| "memset m dst c (Suc i) = (memset m dst c i)(dst + of_nat i := c)"

fun memcmp :: "memory \<Rightarrow> uint64 \<Rightarrow> uint64 \<Rightarrow> nat \<Rightarrow> int" where
  "memcmp m s1 s2 0 = 0"
| "memcmp m s1 s2 (Suc n) =
     (if m s1 \<noteq> m s2 then uint (m s1) - uint (m s2) else memcmp m (s1 + 1) (s2 + 1) n)"

text \<open>The two copy loops of \<^verbatim>\<open>memmove\<close>: upwards, and downwards from one past the end.\<close>

fun copy_up :: "memory \<Rightarrow> uint64 \<Rightarrow> uint64 \<Rightarrow> nat \<Rightarrow> memory" where
  "copy_up m d s 0 = m"
| "copy_up m d s (Suc n) = copy_up (m(d := m s)) (d + 1) (s + 1) n"

fun copy_down :: "memory \<Rightarrow> uint64 \<Rightarrow> uint64 \<Rightarrow> nat \<Rightarrow> memory" where
  "copy_down m d s 0 = m"
| "copy_down m d s (Suc n) = copy_down (m(d - 1 := m (s - 1))) (d - 1) (s - 1) n"

definition memmove :: "memory \<Rightarrow> uint64 \<Rightarrow> uint64 \<Rightarrow> nat \<Rightarrow> memory" where
  "memmove m dst src n =
     (if n = 0 then m
      else if src < dst \<and> src + of_nat n > dst
      then copy_down m (dst + of_nat n) (src + of_nat n) n
      else copy_up m dst src n)"

definition memcpy :: "memory \<Rightarrow> uint64 \<Rightarrow> uint64 \<Rightarrow> nat \<Rightarrow> memory" where
  "memcpy m dst src n = memmove m dst src n"

text \<open>\<open>strncmp p q n\<close>: the loop counts \<open>n\<close> down and both pointers up.\<close>

fun strncmp_at :: "cptr \<Rightarrow> cptr \<Rightarrow> nat \<Rightarrow> nat \<Rightarrow> int" where
  "strncmp_at p q i 0 = 0"
| "strncmp_at p q i (Suc n) =
     (if p i \<noteq> 0 \<and> p i = q i then strncmp_at p q (Suc i) n
      else uint (p i) - uint (q i))"

definition strncmp :: "cptr \<Rightarrow> cptr \<Rightarrow> nat \<Rightarrow> int" where
  "strncmp p q n = strncmp_at p q 0 n"

fun zero_fill :: "uint8 list \<Rightarrow> nat \<Rightarrow> nat \<Rightarrow> uint8 list" where
  "zero_fill s i 0 = s"
| "zero_fill s i (Suc n) = zero_fill (s[i := 0]) (Suc i) n"

fun strncpy_at :: "uint8 list \<Rightarrow> cptr \<Rightarrow> nat \<Rightarrow> nat \<Rightarrow> uint8 list" where
  "strncpy_at s t i 0 = s"
| "strncpy_at s t i (Suc n) =
     (if t i \<noteq> 0 then strncpy_at (s[i := t i]) t (Suc i) n
      else zero_fill (s[i := t i]) (Suc i) n)"

definition strncpy :: "uint8 list \<Rightarrow> cptr \<Rightarrow> nat \<Rightarrow> uint8 list" where
  "strncpy s t n = strncpy_at s t 0 n"

text \<open>
  \<open>safestrcpy_at s t i n\<close> is the loop of \<^verbatim>\<open>safestrcpy\<close> once \<^verbatim>\<open>--n\<close> has left \<open>n\<close>: the byte
  copied last may be the terminator, and the final store writes one more.
\<close>

fun safestrcpy_at :: "uint8 list \<Rightarrow> cptr \<Rightarrow> nat \<Rightarrow> nat \<Rightarrow> uint8 list" where
  "safestrcpy_at s t i 0 = s[i := 0]"
| "safestrcpy_at s t i (Suc n) =
     (if t i \<noteq> 0 then safestrcpy_at (s[i := t i]) t (Suc i) n
      else (s[i := t i])[Suc i := 0])"

definition safestrcpy :: "uint8 list \<Rightarrow> cptr \<Rightarrow> int \<Rightarrow> uint8 list" where
  "safestrcpy s t n = (if n \<le> 0 then s else safestrcpy_at s t 0 (nat (n - 1)))"

text \<open>\<open>strlen_from s n\<close> is \<open>None\<close> when there is no terminator to find.\<close>

partial_function (option) strlen_from :: "cptr \<Rightarrow> nat \<Rightarrow> nat option" where
  "strlen_from s n = (if s n \<noteq> 0 then strlen_from s (Suc n) else Some n)"

definition strlen :: "cptr \<Rightarrow> nat option" where
  "strlen s = strlen_from s 0"

section \<open>Blocks\<close>

lemma unat_minus_1_word:
  fixes x :: uint64
  assumes "x \<noteq> 0"
  shows "unat (x - 1) = unat x - 1"
  using assms by (simp add: unat_minus_one)

lemma memset_apply:
  assumes "n \<le> 2 ^ 64"
  shows "memset m dst c n a = (if unat (a - dst) < n then c else m a)"
  using assms
proof (induction n)
  case 0
  then show ?case by simp
next
  case (Suc n)
  have "a = dst + of_nat n \<longleftrightarrow> unat (a - dst) = n"
  proof
    assume "a = dst + of_nat n"
    then show "unat (a - dst) = n"
      using Suc.prems by (simp add: unat_of_nat)
  next
    assume "unat (a - dst) = n"
    then have "of_nat n = a - dst" by auto
    then show "a = dst + of_nat n" by simp
  qed
  with Suc show ?case by (auto simp: less_Suc_eq)
qed

text \<open>What a correct block copy leaves in memory.\<close>

definition block_copy :: "memory \<Rightarrow> uint64 \<Rightarrow> uint64 \<Rightarrow> nat \<Rightarrow> memory" where
  "block_copy m dst src n = (\<lambda>a. if unat (a - dst) < n then m (src + (a - dst)) else m a)"

lemma block_copy_0 [simp]: "block_copy m d s 0 = m"
  by (simp add: block_copy_def)

lemma word_offset_cases:
  fixes a d :: uint64
  assumes "Suc n \<le> 2 ^ 64"
  obtains (start) "a = d" | (inside) "a \<noteq> d" "unat (a - d) < Suc n" "unat (a - (d + 1)) < n"
    | (outside) "a \<noteq> d" "\<not> unat (a - d) < Suc n" "\<not> unat (a - (d + 1)) < n"
proof (cases "a = d")
  case False
  then have "unat (a - (d + 1)) = unat (a - d) - 1"
    using unat_minus_1_word [of "a - d"] by (simp add: algebra_simps)
  moreover have "0 < unat (a - d)" using False by (simp add: unat_gt_0)
  ultimately show thesis using False inside outside by fastforce
qed (rule start)

lemma copy_up_correct:
  assumes "n \<le> 2 ^ 64"
    and "\<And>i j. i < j \<Longrightarrow> j < n \<Longrightarrow> s + of_nat j \<noteq> d + of_nat i"
  shows "copy_up m d s n = block_copy m d s n"
  using assms
proof (induction m d s n rule: copy_up.induct)
  case (1 m d s)
  show ?case by simp
next
  case (2 m d s n)
  have "copy_up (m(d := m s)) (d + 1) (s + 1) n = block_copy (m(d := m s)) (d + 1) (s + 1) n"
  proof (rule "2.IH")
    show "s + 1 + of_nat j \<noteq> d + 1 + of_nat i" if "i < j" "j < n" for i j
      using "2.prems"(2) [of "Suc i" "Suc j"] that by (simp add: algebra_simps)
  qed (use "2.prems" in simp)
  moreover have "block_copy (m(d := m s)) (d + 1) (s + 1) n a = block_copy m d s (Suc n) a" for a
    using "2.prems"(1)
  proof (cases rule: word_offset_cases [where a = a and d = d])
    case start
    have "unat (- 1 :: uint64) = 2 ^ 64 - 1"
      by (simp add: unsigned_minus_1_eq_mask mask_eq_exp_minus_1)
    with start "2.prems"(1) show ?thesis by (simp add: block_copy_def)
  next
    case inside
    let ?k = "unat (a - d)"
    have "s + of_nat ?k \<noteq> d + of_nat 0"
      using inside by (intro "2.prems"(2)) (auto simp: unat_gt_0)
    then have "s + (a - d) \<noteq> d" by simp
    with inside show ?thesis by (simp add: block_copy_def algebra_simps)
  next
    case outside
    then show ?thesis by (simp add: block_copy_def)
  qed
  ultimately show ?case by auto
qed

lemma word_eq_offset_iff:
  fixes a d :: uint64
  assumes "n < 2 ^ 64"
  shows "a = d + of_nat n \<longleftrightarrow> unat (a - d) = n"
proof
  assume "a = d + of_nat n"
  then show "unat (a - d) = n" using assms by (simp add: unat_of_nat)
next
  assume "unat (a - d) = n"
  then have "of_nat n = a - d" by auto
  then show "a = d + of_nat n" by simp
qed

lemma copy_down_correct:
  assumes "n \<le> 2 ^ 64"
    and "\<And>i j. i < j \<Longrightarrow> j < n \<Longrightarrow> s + of_nat i \<noteq> d + of_nat j"
  shows "copy_down m (d + of_nat n) (s + of_nat n) n = block_copy m d s n"
  using assms
proof (induction n arbitrary: m)
  case 0
  show ?case by simp
next
  case (Suc n)
  let ?m = "m(d + of_nat n := m (s + of_nat n))"
  have "copy_down ?m (d + of_nat n) (s + of_nat n) n = block_copy ?m d s n"
    using Suc.prems by (intro Suc.IH) auto
  then have "copy_down m (d + of_nat (Suc n)) (s + of_nat (Suc n)) (Suc n) = block_copy ?m d s n"
    by (simp add: add.commute add.left_commute)
  moreover have "block_copy ?m d s n a = block_copy m d s (Suc n) a" for a
  proof -
    have eq: "a = d + of_nat n \<longleftrightarrow> unat (a - d) = n"
      using Suc.prems by (intro word_eq_offset_iff) simp
    have "s + (a - d) \<noteq> d + of_nat n" if "unat (a - d) < n"
      using Suc.prems(2) [of "unat (a - d)" n] that by simp
    with eq show ?thesis
      by (auto simp: block_copy_def less_Suc_eq)
  qed
  ultimately show ?case by auto
qed

lemma add_of_nat_neq_iff:
  fixes a b :: uint64
  assumes "unat a + i < 2 ^ 64" and "unat b + j < 2 ^ 64"
  shows "a + of_nat i = b + of_nat j \<longleftrightarrow> unat a + i = unat b + j"
proof -
  have "unat (a + of_nat i) = unat a + i" and "unat (b + of_nat j) = unat b + j"
    using assms by (simp_all add: unat_word_ariths unat_of_nat)
  then show ?thesis by (metis word_unat_eq_iff)
qed

text \<open>
  \<^verbatim>\<open>memmove\<close> is the simultaneous copy for every pair of regions that lie inside the address
  space, overlapping or not: the direction of the loop is chosen so that no source byte is
  overwritten before it is read.
\<close>

lemma memmove_block_copy:
  assumes "unat src + n < 2 ^ 64" and "unat dst + n < 2 ^ 64"
  shows "memmove m dst src n = block_copy m dst src n"
proof (cases "src < dst \<and> src + of_nat n > dst")
  case True
  then have lt: "unat src < unat dst" by (simp add: word_less_nat_alt)
  have "src + of_nat i \<noteq> dst + of_nat j" if "i < j" "j < n" for i j
    using that assms lt by (subst add_of_nat_neq_iff) auto
  moreover have "n \<le> 2 ^ 64" using assms by simp
  ultimately have "copy_down m (dst + of_nat n) (src + of_nat n) n = block_copy m dst src n"
    by (intro copy_down_correct) auto
  with True show ?thesis by (simp add: memmove_def)
next
  case False
  have "unat (src + of_nat n) = unat src + n"
    using assms by (simp add: unat_word_ariths unat_of_nat)
  with False have "unat dst \<le> unat src \<or> unat src + n \<le> unat dst"
    by (auto simp: word_less_nat_alt not_less)
  then have "src + of_nat j \<noteq> dst + of_nat i" if "i < j" "j < n" for i j
    using that assms by (subst add_of_nat_neq_iff) auto
  moreover have "n \<le> 2 ^ 64" using assms by simp
  ultimately have "copy_up m dst src n = block_copy m dst src n"
    by (intro copy_up_correct) auto
  with False show ?thesis by (auto simp: memmove_def)
qed

section \<open>Strings\<close>

lemma length_zero_fill [simp]: "length (zero_fill s i n) = length s"
  by (induction s i n rule: zero_fill.induct) auto

lemma length_strncpy_at [simp]: "length (strncpy_at s t i n) = length s"
  by (induction s t i n rule: strncpy_at.induct) auto

lemma length_safestrcpy_at [simp]: "length (safestrcpy_at s t i n) = length s"
  by (induction s t i n rule: safestrcpy_at.induct) auto

lemma length_safestrcpy [simp]: "length (safestrcpy s t n) = length s"
  by (simp add: safestrcpy_def)

lemma length_strncpy [simp]: "length (strncpy s t n) = length s"
  by (simp add: strncpy_def)

lemma safestrcpy_at_keeps:
  "j < i \<or> i + n < j \<Longrightarrow> safestrcpy_at s t i n ! j = s ! j"
  by (induction s t i n rule: safestrcpy_at.induct) auto

lemma safestrcpy_at_correct:
  assumes "i + n < length s"
  shows "\<exists>k. i \<le> k \<and> k \<le> i + n \<and> safestrcpy_at s t i n ! k = 0 \<and>
           (\<forall>j. i \<le> j \<and> j < k \<longrightarrow> safestrcpy_at s t i n ! j = t j \<and> t j \<noteq> 0) \<and>
           (k < i + n \<longrightarrow> t k = 0)"
  using assms
proof (induction s t i n rule: safestrcpy_at.induct)
  case (1 s t i)
  then show ?case by (intro exI [of _ i]) auto
next
  case (2 s t i n)
  show ?case
  proof (cases "t i = 0")
    case True
    with 2 show ?thesis by (intro exI [of _ i]) auto
  next
    case False
    let ?r = "safestrcpy_at (s[i := t i]) t (Suc i) n"
    from 2 False obtain k where k: "Suc i \<le> k" "k \<le> Suc i + n" "?r ! k = 0"
      "\<forall>j. Suc i \<le> j \<and> j < k \<longrightarrow> ?r ! j = t j \<and> t j \<noteq> 0" "k < Suc i + n \<longrightarrow> t k = 0"
      by auto
    have "?r ! i = t i"
      using "2.prems" by (subst safestrcpy_at_keeps) auto
    then have "\<forall>j. i \<le> j \<and> j < k \<longrightarrow> ?r ! j = t j \<and> t j \<noteq> 0"
      using k(4) False by (metis le_neq_implies_less Suc_leI)
    with k False show ?thesis by (intro exI [of _ k]) auto
  qed
qed

text \<open>The string an array holds: its bytes up to the first terminator.\<close>

definition cstring :: "uint8 list \<Rightarrow> uint8 list" where
  "cstring s = takeWhile (\<lambda>c. c \<noteq> 0) s"

lemma cstring_eq_take:
  assumes "k < length s" and "s ! k = 0" and "\<forall>j < k. s ! j \<noteq> 0"
  shows "cstring s = take k s"
  unfolding cstring_def using assms
  by (intro takeWhile_eq_take_P_nth) auto

lemma strlen_from_finds:
  assumes "s (n + k) = 0" and "\<And>j. j < k \<Longrightarrow> s (n + j) \<noteq> 0"
  shows "strlen_from s n = Some (n + k)"
  using assms
proof (induction k arbitrary: n)
  case 0
  then show ?case by (simp add: strlen_from.simps)
next
  case (Suc k)
  have "s n \<noteq> 0" using Suc.prems(2) [of 0] by simp
  moreover have "strlen_from s (Suc n) = Some (Suc n + k)"
    using Suc.prems(1) Suc.prems(2) [of "Suc _"] by (intro Suc.IH) auto
  ultimately show ?case by (subst strlen_from.simps) simp
qed

lemma strncmp_at_0_iff:
  "strncmp_at p q i n = 0 \<longleftrightarrow>
     (\<forall>j < n. (\<forall>l < j. p (i + l) \<noteq> 0) \<longrightarrow> p (i + j) = q (i + j))"
proof (induction p q i n rule: strncmp_at.induct)
  case (1 p q i)
  show ?case by simp
next
  case (2 p q i n)
  show ?case
  proof (cases "p i \<noteq> 0 \<and> p i = q i")
    case True
    with 2 show ?thesis
      by (auto simp: All_less_Suc2)
  next
    case False
    have "(\<forall>j < Suc n. (\<forall>l < j. p (i + l) \<noteq> 0) \<longrightarrow> p (i + j) = q (i + j)) \<longleftrightarrow> p i = q i"
      using False by (auto simp: All_less_Suc2)
    with False show ?thesis by (auto simp: word_uint_eq_iff)
  qed
qed

end
