(* ===== verification/Physmem.thy ===== *)
theory Physmem
  imports KString
begin

text \<open>
  64-bit loads and stores on the byte memory, little endian as on RISC-V, and the regions a
  store can touch. Page-table entries, free-list links and trapframe registers are read and
  written through these.
\<close>

definition load64 :: "memory \<Rightarrow> uint64 \<Rightarrow> uint64" where
  "load64 m a = foldr (\<lambda>i acc. push_bit (8 * i) (ucast (m (a + of_nat i))) OR acc) [0..<8] 0"

definition store64 :: "memory \<Rightarrow> uint64 \<Rightarrow> uint64 \<Rightarrow> memory" where
  "store64 m a v =
     (\<lambda>x. if unat (x - a) < 8 then ucast (drop_bit (8 * unat (x - a)) v) else m x)"

text \<open>\<open>apart n a k b\<close>: the \<open>n\<close> bytes at \<open>a\<close> and the \<open>k\<close> bytes at \<open>b\<close> do not meet.\<close>

definition apart :: "nat \<Rightarrow> uint64 \<Rightarrow> nat \<Rightarrow> uint64 \<Rightarrow> bool" where
  "apart n a k b \<longleftrightarrow> n \<le> unat (b - a) \<and> k \<le> unat (a - b)"

lemma apart_sym: "apart n a k b \<Longrightarrow> apart k b n a"
  by (simp add: apart_def)

lemma unat_minus_flip:
  fixes a b :: uint64
  assumes "a \<noteq> b"
  shows "unat (a - b) = 2 ^ 64 - unat (b - a)"
  using assms unsigned_less [of a, where 'a = nat] unsigned_less [of b, where 'a = nat]
  by (auto simp: unat_sub_if_size word_size word_unat_eq_iff)

lemma apart_offset:
  assumes ap: "apart n a k b" and x: "unat (x - b) < k"
  shows "n \<le> unat (x - a)"
proof -
  have "a \<noteq> b" using ap x by (auto simp: apart_def)
  then have flip: "unat (a - b) = 2 ^ 64 - unat (b - a)" by (rule unat_minus_flip)
  have lt: "unat (b - a) < 2 ^ 64" using unsigned_less [of "b - a", where 'a = nat] by simp
  with ap x flip have "unat (b - a) + unat (x - b) < 2 ^ 64"
    by (auto simp: apart_def)
  moreover have "x - a = (b - a) + (x - b)" by simp
  ultimately have "unat (x - a) = unat (b - a) + unat (x - b)"
    using unat_add_lem [of "b - a" "x - b"] by simp
  with ap show ?thesis by (simp add: apart_def)
qed

lemma apart_mono: "apart n a k b \<Longrightarrow> n' \<le> n \<Longrightarrow> k' \<le> k \<Longrightarrow> apart n' a k' b"
  by (simp add: apart_def)

lemma bit_load64:
  "bit (load64 m a) k \<longleftrightarrow> k < 64 \<and> bit (m (a + of_nat (k div 8))) (k mod 8)"
proof -
  have fold: "bit (foldr (\<lambda>i acc. push_bit (8 * i) (ucast (m (a + of_nat i)) :: uint64) OR acc) is 0) k
     \<longleftrightarrow> (\<exists>i \<in> set is. 8 * i \<le> k \<and> k < 64 \<and> bit (m (a + of_nat i)) (k - 8 * i))" for "is"
    by (induction "is") (auto simp: bit_simps)
  have "(\<exists>i \<in> set [0..<8]. 8 * i \<le> k \<and> k < 64 \<and> bit (m (a + of_nat i)) (k - 8 * i)) \<longleftrightarrow>
     k < 64 \<and> bit (m (a + of_nat (k div 8))) (k mod 8)" (is "?L \<longleftrightarrow> ?R")
  proof
    assume ?L
    then obtain i where i: "8 * i \<le> k" "k < 64" "bit (m (a + of_nat i)) (k - 8 * i)" by auto
    then have "k - 8 * i < 8" using bit_imp_le_length by fastforce
    with i(1) have "i = k div 8" by linarith
    with i show ?R by (simp add: minus_mult_div_eq_mod)
  next
    assume ?R
    then show ?L by (intro bexI [of _ "k div 8"]) (auto simp: minus_mult_div_eq_mod)
  qed
  with fold show ?thesis unfolding load64_def by simp
qed

lemma load64_store64 [simp]: "load64 (store64 m a v) a = v"
proof (rule bit_word_eqI)
  fix k assume k: "k < LENGTH(64)"
  then have u: "unat (of_nat (k div 8) :: uint64) = k div 8" by (simp add: unat_of_nat)
  from k have "k div 8 < 8" by simp
  with u k show "bit (load64 (store64 m a v) a) k = bit v k"
    by (simp add: bit_load64 store64_def bit_simps)
qed

lemma load64_cong:
  assumes "\<And>x. unat (x - a) < 8 \<Longrightarrow> m x = m' x"
  shows "load64 m a = load64 m' a"
proof (rule bit_word_eqI)
  fix k assume k: "k < LENGTH(64)"
  then have "unat (a + of_nat (k div 8) - a) < 8" by (simp add: unat_of_nat)
  then have "m (a + of_nat (k div 8)) = m' (a + of_nat (k div 8))" by (rule assms)
  then show "bit (load64 m a) k = bit (load64 m' a) k" by (simp add: bit_load64)
qed

lemma load64_store64_apart:
  assumes "apart 8 a 8 b"
  shows "load64 (store64 m a v) b = load64 m b"
proof (rule load64_cong)
  fix x assume "unat (x - b) < 8"
  with assms have "8 \<le> unat (x - a)" by (rule apart_offset)
  then show "store64 m a v x = m x" by (simp add: store64_def)
qed

lemma store64_outside: "8 \<le> unat (x - a) \<Longrightarrow> store64 m a v x = m x"
  by (simp add: store64_def)

section \<open>Pages\<close>

definition page_aligned :: "uint64 \<Rightarrow> bool" where
  "page_aligned a \<longleftrightarrow> a mod PGSIZE = 0"

lemma page_aligned_unat: "page_aligned a \<longleftrightarrow> unat a mod 4096 = 0"
  by (simp add: page_aligned_def PGSIZE_def word_arith_nat_mod unat_of_nat word_unat_eq_iff
      unat_mod_distrib)

lemma pages_apart:
  assumes "page_aligned a" and "page_aligned b" and "a \<noteq> b"
  shows "apart 4096 a 4096 b"
proof -
  obtain i j where i: "unat a = 4096 * i" and j: "unat b = 4096 * j"
    using assms by (auto simp: page_aligned_unat mod_0_imp_dvd elim!: dvdE)
  have "i \<noteq> j" using assms(3) i j by (auto simp: word_unat_eq_iff)
  moreover have "4096 * i < 2 ^ 64" "4096 * j < 2 ^ 64"
    using unsigned_less [of a, where 'a = nat] unsigned_less [of b, where 'a = nat] i j by auto
  ultimately show ?thesis
    by (auto simp: apart_def unat_sub_if_size word_size i j)
qed

end
