(* ===== verification/Spinlock.thy ===== *)
theory Spinlock
  imports Physmem
begin

text \<open>
  kernel/spinlock.c with the per-hart state of kernel/proc.h (\<^verbatim>\<open>struct cpu\<close>) and the
  interrupt-enable bit of kernel/riscv.h. A machine has one \<^verbatim>\<open>struct cpu\<close> and one
  \<^verbatim>\<open>sstatus\<close> register per hart, a \<^verbatim>\<open>tp\<close> register naming the hart that executes, and the
  store of all spinlocks of the kernel, indexed by the object that contains them (the
  address the code passes as \<^verbatim>\<open>struct spinlock *\<close>).

  \<^verbatim>\<open>acquire\<close> and \<^verbatim>\<open>release\<close> are composed from their atomic pieces. The sequential lemmas
  give the net effect of a critical section and of \<^verbatim>\<open>push_off\<close>/\<^verbatim>\<open>pop_off\<close> nesting; the
  step relation at the end interleaves the pieces of any number of harts and yields mutual
  exclusion and the absence of the two panics.
\<close>

section \<open>State\<close>

record kcontext =
  ctx_ra :: uint64
  ctx_sp :: uint64
  ctx_s0 :: uint64
  ctx_s1 :: uint64
  ctx_s2 :: uint64
  ctx_s3 :: uint64
  ctx_s4 :: uint64
  ctx_s5 :: uint64
  ctx_s6 :: uint64
  ctx_s7 :: uint64
  ctx_s8 :: uint64
  ctx_s9 :: uint64
  ctx_s10 :: uint64
  ctx_s11 :: uint64

text \<open>\<^verbatim>\<open>struct cpu\<close>: \<^verbatim>\<open>cproc\<close> is the index in \<^verbatim>\<open>proc[]\<close> of the running process.\<close>

record cpu =
  cproc :: "nat option"
  ccontext :: kcontext
  noff :: int
  intena :: bool

record spinlock =
  locked :: uint32
  lkname :: string
  lkcpu :: "nat option"

datatype sleepid = BufLock nat | InodeLock nat

datatype lockid =
    PidLock | WaitLock | ProcLock nat | CounterLock nat | KmemLock | TicksLock
  | LogLock | BcacheLock | ItableLock | FtableLock | ConsLock | PrLock | UartTxLock
  | VdiskLock | PipeLock uint64 | SleepLk sleepid

record machine =
  tp :: nat
  cpus :: "nat \<Rightarrow> cpu"
  sstatus :: "nat \<Rightarrow> uint64"
  locks :: "lockid \<Rightarrow> spinlock"

section \<open>Registers and the current hart\<close>

definition r_tp :: "machine \<Rightarrow> nat" where
  "r_tp m = tp m"

definition r_sstatus :: "machine \<Rightarrow> uint64" where
  "r_sstatus m = sstatus m (tp m)"

definition w_sstatus :: "uint64 \<Rightarrow> machine \<Rightarrow> machine" where
  "w_sstatus x m = m\<lparr>sstatus := (sstatus m)(tp m := x)\<rparr>"

definition intr_on :: "machine \<Rightarrow> machine" where
  "intr_on m = w_sstatus (r_sstatus m OR SSTATUS_SIE) m"

definition intr_off :: "machine \<Rightarrow> machine" where
  "intr_off m = w_sstatus (r_sstatus m AND NOT SSTATUS_SIE) m"

definition intr_get :: "machine \<Rightarrow> bool" where
  "intr_get m \<longleftrightarrow> r_sstatus m AND SSTATUS_SIE \<noteq> 0"

definition cpuid :: "machine \<Rightarrow> nat" where
  "cpuid m = r_tp m"

definition mycpu :: "machine \<Rightarrow> cpu" where
  "mycpu m = cpus m (cpuid m)"

definition set_mycpu :: "cpu \<Rightarrow> machine \<Rightarrow> machine" where
  "set_mycpu c m = m\<lparr>cpus := (cpus m)(cpuid m := c)\<rparr>"

section \<open>Interrupt nesting\<close>

definition push_off :: "machine \<Rightarrow> machine" where
  "push_off m =
     (let old = intr_get m;
          m1 = intr_off m;
          m2 = (if noff (mycpu m1) = 0 then set_mycpu ((mycpu m1)\<lparr>intena := old\<rparr>) m1 else m1)
      in set_mycpu ((mycpu m2)\<lparr>noff := noff (mycpu m2) + 1\<rparr>) m2)"

definition pop_off :: "machine \<Rightarrow> machine outcome" where
  "pop_off m =
     (if intr_get m then Panic ''pop_off - interruptible''
      else if noff (mycpu m) < 1 then Panic ''pop_off''
      else let m1 = set_mycpu ((mycpu m)\<lparr>noff := noff (mycpu m) - 1\<rparr>) m
           in Ok (if noff (mycpu m1) = 0 \<and> intena (mycpu m1) then intr_on m1 else m1))"

section \<open>Locks\<close>

definition set_lock :: "lockid \<Rightarrow> spinlock \<Rightarrow> machine \<Rightarrow> machine" where
  "set_lock lk l m = m\<lparr>locks := (locks m)(lk := l)\<rparr>"

definition initlock :: "lockid \<Rightarrow> string \<Rightarrow> machine \<Rightarrow> machine" where
  "initlock lk name m = set_lock lk \<lparr>locked = 0, lkname = name, lkcpu = None\<rparr> m"

definition holding :: "lockid \<Rightarrow> machine \<Rightarrow> bool" where
  "holding lk m \<longleftrightarrow> locked (locks m lk) \<noteq> 0 \<and> lkcpu (locks m lk) = Some (cpuid m)"

text \<open>The pieces of \<^verbatim>\<open>acquire\<close>: disabling interrupts and the self-deadlock check, the
  atomic swap (returning the old value), and recording the owner.\<close>

definition acquire_enter :: "lockid \<Rightarrow> machine \<Rightarrow> machine outcome" where
  "acquire_enter lk m =
     (let m1 = push_off m in if holding lk m1 then Panic ''acquire'' else Ok m1)"

definition sync_lock_test_and_set :: "lockid \<Rightarrow> machine \<Rightarrow> uint32 \<times> machine" where
  "sync_lock_test_and_set lk m =
     (locked (locks m lk), set_lock lk ((locks m lk)\<lparr>locked := 1\<rparr>) m)"

definition acquire_record :: "lockid \<Rightarrow> machine \<Rightarrow> machine" where
  "acquire_record lk m = set_lock lk ((locks m lk)\<lparr>lkcpu := Some (cpuid m)\<rparr>) m"

definition acquire :: "lockid \<Rightarrow> machine \<Rightarrow> machine outcome" where
  "acquire lk m =
     andThen (acquire_enter lk m) (\<lambda>m1.
     (let (old, m2) = sync_lock_test_and_set lk m1
      in if old \<noteq> 0 then Spin else Ok (acquire_record lk m2)))"

text \<open>The pieces of \<^verbatim>\<open>release\<close>: the ownership check and clearing the owner, the atomic
  store of 0, and \<^const>\<open>pop_off\<close>.\<close>

definition release_enter :: "lockid \<Rightarrow> machine \<Rightarrow> machine outcome" where
  "release_enter lk m =
     (if \<not> holding lk m then Panic ''release''
      else Ok (set_lock lk ((locks m lk)\<lparr>lkcpu := None\<rparr>) m))"

definition sync_lock_release :: "lockid \<Rightarrow> machine \<Rightarrow> machine" where
  "sync_lock_release lk m = set_lock lk ((locks m lk)\<lparr>locked := 0\<rparr>) m"

definition release :: "lockid \<Rightarrow> machine \<Rightarrow> machine outcome" where
  "release lk m = andThen (release_enter lk m) (\<lambda>m1. pop_off (sync_lock_release lk m1))"

lemmas machine_defs =
  r_tp_def r_sstatus_def w_sstatus_def cpuid_def mycpu_def set_mycpu_def set_lock_def

section \<open>Interrupts\<close>

lemma SIE_bit: "x AND SSTATUS_SIE \<noteq> 0 \<longleftrightarrow> bit x 1"
proof -
  have "SSTATUS_SIE = 2 ^ 1" by (simp add: SSTATUS_SIE_def push_bit_eq_mult)
  then show ?thesis using and_exp_eq_0_iff_not_bit [of x 1] by metis
qed

lemma intr_get_iff: "intr_get m \<longleftrightarrow> bit (sstatus m (tp m)) 1"
  by (simp add: intr_get_def machine_defs SIE_bit)

lemma intr_get_on [simp]: "intr_get (intr_on m)"
  by (simp add: intr_get_iff intr_on_def machine_defs SSTATUS_SIE_def bit_simps)

lemma intr_get_off [simp]: "\<not> intr_get (intr_off m)"
  by (simp add: intr_get_iff intr_off_def machine_defs SSTATUS_SIE_def bit_simps)

lemma SIE_restore: "bit x 1 \<Longrightarrow> (x AND NOT SSTATUS_SIE) OR SSTATUS_SIE = x"
  by (rule bit_word_eqI) (auto simp: SSTATUS_SIE_def bit_simps)

lemma SIE_clear: "\<not> bit x 1 \<Longrightarrow> x AND NOT SSTATUS_SIE = x"
  by (rule bit_word_eqI) (auto simp: SSTATUS_SIE_def bit_simps)

lemma intr_get_set_mycpu [simp]: "intr_get (set_mycpu c m) = intr_get m"
  and intr_get_set_lock [simp]: "intr_get (set_lock lk l m) = intr_get m"
  and mycpu_set_mycpu [simp]: "mycpu (set_mycpu c m) = c"
  and mycpu_intr_on [simp]: "mycpu (intr_on m) = mycpu m"
  and mycpu_intr_off [simp]: "mycpu (intr_off m) = mycpu m"
  and mycpu_set_lock [simp]: "mycpu (set_lock lk l m) = mycpu m"
  and cpuid_set_mycpu [simp]: "cpuid (set_mycpu c m) = cpuid m"
  and cpuid_intr_on [simp]: "cpuid (intr_on m) = cpuid m"
  and cpuid_intr_off [simp]: "cpuid (intr_off m) = cpuid m"
  and cpuid_set_lock [simp]: "cpuid (set_lock lk l m) = cpuid m"
  and locks_set_mycpu [simp]: "locks (set_mycpu c m) = locks m"
  and locks_intr_on [simp]: "locks (intr_on m) = locks m"
  and locks_intr_off [simp]: "locks (intr_off m) = locks m"
  and locks_set_lock [simp]: "locks (set_lock lk l m) = (locks m)(lk := l)"
  by (simp_all add: intr_get_def intr_on_def intr_off_def machine_defs)

lemma set_mycpu_set_mycpu [simp]: "set_mycpu c (set_mycpu d m) = set_mycpu c m"
  and set_mycpu_id [simp]: "set_mycpu (mycpu m) m = m"
  and set_lock_set_lock [simp]: "set_lock lk l (set_lock lk l' m) = set_lock lk l m"
  and set_lock_id [simp]: "set_lock lk (locks m lk) m = m"
  and set_mycpu_set_lock: "set_mycpu c (set_lock lk l m) = set_lock lk l (set_mycpu c m)"
  and intr_on_set_mycpu: "intr_on (set_mycpu c m) = set_mycpu c (intr_on m)"
  and intr_on_set_lock: "intr_on (set_lock lk l m) = set_lock lk l (intr_on m)"
  and intr_off_set_lock: "intr_off (set_lock lk l m) = set_lock lk l (intr_off m)"
  by (simp_all add: intr_on_def intr_off_def machine_defs)

lemma set_lock_commute:
  "lk \<noteq> lk' \<Longrightarrow> set_lock lk l (set_lock lk' l' m) = set_lock lk' l' (set_lock lk l m)"
  by (simp add: set_lock_def fun_upd_twist)

lemma intr_on_off [simp]: "intr_get m \<Longrightarrow> intr_on (intr_off m) = m"
  by (simp add: intr_get_iff intr_on_def intr_off_def machine_defs SIE_restore)

lemma intr_off_noop [simp]: "\<not> intr_get m \<Longrightarrow> intr_off m = m"
  by (simp add: intr_get_iff intr_off_def machine_defs SIE_clear)

section \<open>Net effect of nesting and of critical sections\<close>

text \<open>
  The discipline every kernel path keeps: nesting depth is not negative, and interrupts are
  off while it is positive.
\<close>

definition irq_ok :: "machine \<Rightarrow> bool" where
  "irq_ok m \<longleftrightarrow> 0 \<le> noff (mycpu m) \<and> (0 < noff (mycpu m) \<longrightarrow> \<not> intr_get m)"

text \<open>
  A balanced \<^const>\<open>push_off\<close>/\<^const>\<open>pop_off\<close> pair leaves one trace: at depth 0 the saved
  enable flag \<^verbatim>\<open>intena\<close> now equals the interrupt state.
\<close>

definition touch :: "machine \<Rightarrow> machine" where
  "touch m =
     (if noff (mycpu m) = 0 then set_mycpu ((mycpu m)\<lparr>intena := intr_get m\<rparr>) m else m)"

lemma cpu_noff_same: "noff c = n \<Longrightarrow> c\<lparr>intena := b, noff := n\<rparr> = c\<lparr>intena := b\<rparr>"
  by (cases c) simp

lemma push_off_eq:
  "push_off m = set_mycpu ((mycpu m)\<lparr>
     intena := (if noff (mycpu m) = 0 then intr_get m else intena (mycpu m)),
     noff := noff (mycpu m) + 1\<rparr>) (intr_off m)"
  by (simp add: push_off_def Let_def)

lemma intr_get_push_off [simp]: "\<not> intr_get (push_off m)"
  and mycpu_push_off: "mycpu (push_off m) = (mycpu m)\<lparr>
     intena := (if noff (mycpu m) = 0 then intr_get m else intena (mycpu m)),
     noff := noff (mycpu m) + 1\<rparr>"
  and locks_push_off [simp]: "locks (push_off m) = locks m"
  and cpuid_push_off [simp]: "cpuid (push_off m) = cpuid m"
  by (simp_all add: push_off_eq)

lemma touch_eq:
  "touch m = set_mycpu ((mycpu m)\<lparr>intena :=
     (if noff (mycpu m) = 0 then intr_get m else intena (mycpu m))\<rparr>) m"
  by (simp add: touch_def)

lemma push_pop_touch [lock_simps]:
  assumes "irq_ok m"
  shows "pop_off (push_off m) = Ok (touch m)"
proof (cases "intr_get m")
  case True
  with assms have "noff (mycpu m) = 0" by (auto simp: irq_ok_def)
  with True show ?thesis
    by (simp add: pop_off_def push_off_eq touch_eq intr_on_set_mycpu cpu_noff_same)
next
  case False
  with assms show ?thesis
    by (simp add: pop_off_def push_off_eq touch_eq irq_ok_def cpu_noff_same)
qed

lemma intr_get_touch [simp]: "intr_get (touch m) = intr_get m"
  and noff_touch [simp]: "noff (mycpu (touch m)) = noff (mycpu m)"
  and cproc_touch [simp]: "cproc (mycpu (touch m)) = cproc (mycpu m)"
  and locks_touch [simp]: "locks (touch m) = locks m"
  and cpuid_touch [simp]: "cpuid (touch m) = cpuid m"
  and touch_touch [simp]: "touch (touch m) = touch m"
  by (simp_all add: touch_def)

lemma irq_ok_touch [simp]: "irq_ok (touch m) = irq_ok m"
  by (simp add: irq_ok_def)

lemma touch_nested: "noff (mycpu m) \<noteq> 0 \<Longrightarrow> touch m = m"
  by (simp add: touch_def)

definition lock_free :: "lockid \<Rightarrow> machine \<Rightarrow> bool" where
  "lock_free lk m \<longleftrightarrow> locked (locks m lk) = 0 \<and> lkcpu (locks m lk) = None"

text \<open>The machine once the current hart has taken \<open>lk\<close>.\<close>

definition taken :: "lockid \<Rightarrow> machine \<Rightarrow> machine" where
  "taken lk m = set_lock lk ((locks m lk)\<lparr>locked := 1, lkcpu := Some (cpuid m)\<rparr>) (push_off m)"

lemma lock_free_touch [simp]: "lock_free lk (touch m) = lock_free lk m"
  by (simp add: lock_free_def)

lemma lock_free_taken: "lk \<noteq> lk' \<Longrightarrow> lock_free lk (taken lk' m) = lock_free lk m"
  by (simp add: lock_free_def taken_def)

lemma holding_taken [simp]: "holding lk (taken lk m)"
  by (simp add: holding_def taken_def)

lemma acquire_free [lock_simps]:
  assumes "lock_free lk m"
  shows "acquire lk m = Ok (taken lk m)"
  using assms
  by (simp add: acquire_def acquire_enter_def holding_def sync_lock_test_and_set_def
      acquire_record_def taken_def lock_free_def Let_def)

lemma release_holding:
  assumes "holding lk m" and "\<not> intr_get m" and "1 \<le> noff (mycpu m)"
  shows "release lk m =
    Ok (let m1 = set_mycpu ((mycpu m)\<lparr>noff := noff (mycpu m) - 1\<rparr>)
                  (set_lock lk ((locks m lk)\<lparr>lkcpu := None, locked := 0\<rparr>) m)
        in if noff (mycpu m) = 1 \<and> intena (mycpu m) then intr_on m1 else m1)"
  using assms
  by (simp add: release_def release_enter_def sync_lock_release_def pop_off_def Let_def)

lemma release_taken [lock_simps]:
  assumes "lock_free lk m" and "irq_ok m"
  shows "release lk (taken lk m) = Ok (touch m)"
proof -
  have l: "(locks m lk)\<lparr>lkcpu := None, locked := 0\<rparr> = locks m lk"
    using assms(1) by (simp add: lock_free_def)
  have "set_lock lk (locks m lk) (push_off m) = push_off m"
    using set_lock_id [of lk "push_off m"] by simp
  then have "release lk (taken lk m) = pop_off (push_off m)"
    by (simp add: release_def release_enter_def sync_lock_release_def taken_def holding_def l)
  then show ?thesis
    using assms(2) by (simp add: push_pop_touch)
qed

section \<open>Interleavings of many harts\<close>

text \<open>
  Where a hart is with respect to one lock: \<^verbatim>\<open>Trying\<close> spins on the atomic swap,
  \<^verbatim>\<open>Swapped\<close> has won it but not yet recorded itself, \<^verbatim>\<open>Inside\<close> is the critical section,
  \<^verbatim>\<open>Clearing\<close> and \<^verbatim>\<open>Cleared\<close> are the two halves of \<^verbatim>\<open>release\<close>.
\<close>

datatype lock_pc = Outside | Trying | Swapped | Inside | Clearing | Cleared

text \<open>
  One step of one hart \<open>h\<close>. \<^verbatim>\<open>other\<close> stands for anything else the hart does, nested locks
  included: it leaves this lock and the other harts alone and keeps the interrupt discipline.
\<close>

inductive spin_step :: "lockid \<Rightarrow> machine \<times> (nat \<Rightarrow> lock_pc) \<Rightarrow> machine \<times> (nat \<Rightarrow> lock_pc) \<Rightarrow> bool"
  for lk where
  enter: "pc h = Outside \<Longrightarrow> acquire_enter lk (m\<lparr>tp := h\<rparr>) = Ok m' \<Longrightarrow>
     spin_step lk (m, pc) (m', pc(h := Trying))"
| swap_busy: "pc h = Trying \<Longrightarrow> sync_lock_test_and_set lk (m\<lparr>tp := h\<rparr>) = (old, m') \<Longrightarrow> old \<noteq> 0 \<Longrightarrow>
     spin_step lk (m, pc) (m', pc)"
| swap_won: "pc h = Trying \<Longrightarrow> sync_lock_test_and_set lk (m\<lparr>tp := h\<rparr>) = (0, m') \<Longrightarrow>
     spin_step lk (m, pc) (m', pc(h := Swapped))"
| record_owner: "pc h = Swapped \<Longrightarrow>
     spin_step lk (m, pc) (acquire_record lk (m\<lparr>tp := h\<rparr>), pc(h := Inside))"
| leave: "pc h = Inside \<Longrightarrow> release_enter lk (m\<lparr>tp := h\<rparr>) = Ok m' \<Longrightarrow>
     spin_step lk (m, pc) (m', pc(h := Clearing))"
| clear: "pc h = Clearing \<Longrightarrow>
     spin_step lk (m, pc) (sync_lock_release lk (m\<lparr>tp := h\<rparr>), pc(h := Cleared))"
| leave_off: "pc h = Cleared \<Longrightarrow> pop_off (m\<lparr>tp := h\<rparr>) = Ok m' \<Longrightarrow>
     spin_step lk (m, pc) (m', pc(h := Outside))"
| other: "locks m' lk = locks m lk \<Longrightarrow>
     (\<And>h'. h' \<noteq> h \<Longrightarrow> cpus m' h' = cpus m h' \<and> sstatus m' h' = sstatus m h') \<Longrightarrow>
     irq_ok (m'\<lparr>tp := h\<rparr>) \<Longrightarrow> (pc h \<noteq> Outside \<Longrightarrow> 1 \<le> noff (cpus m' h)) \<Longrightarrow>
     spin_step lk (m, pc) (m', pc)"

inductive spin_reachable :: "lockid \<Rightarrow> machine \<times> (nat \<Rightarrow> lock_pc) \<Rightarrow> bool" for lk where
  start: "lock_free lk m \<Longrightarrow> (\<And>h. irq_ok (m\<lparr>tp := h\<rparr>)) \<Longrightarrow> spin_reachable lk (m, \<lambda>_. Outside)"
| step: "spin_reachable lk s \<Longrightarrow> spin_step lk s s' \<Longrightarrow> spin_reachable lk s'"

fun owns :: "lock_pc \<Rightarrow> bool" where
  "owns Swapped = True"
| "owns Inside = True"
| "owns Clearing = True"
| "owns _ = False"

definition owners :: "(nat \<Rightarrow> lock_pc) \<Rightarrow> nat set" where
  "owners pc = {h. owns (pc h)}"

lemma owners_upd [simp]:
  "owners (pc(h := p)) = (if owns p then insert h (owners pc) else owners pc - {h})"
  by (auto simp: owners_def)

lemma owners_iff: "h \<in> owners pc \<longleftrightarrow> owns (pc h)"
  by (simp add: owners_def)

definition spin_inv :: "lockid \<Rightarrow> machine \<times> (nat \<Rightarrow> lock_pc) \<Rightarrow> bool" where
  "spin_inv lk s = (case s of (m, pc) \<Rightarrow>
     (\<forall>h. irq_ok (m\<lparr>tp := h\<rparr>)) \<and>
     (\<forall>h. pc h \<noteq> Outside \<longrightarrow> 1 \<le> noff (cpus m h)) \<and>
     (locked (locks m lk) \<noteq> 0 \<longleftrightarrow> owners pc \<noteq> {}) \<and>
     (\<forall>h h'. h \<in> owners pc \<and> h' \<in> owners pc \<longrightarrow> h = h') \<and>
     (\<forall>h. lkcpu (locks m lk) = Some h \<longleftrightarrow> pc h = Inside))"

lemma irq_ok_tp: "irq_ok (m\<lparr>tp := h\<rparr>) \<longleftrightarrow>
  0 \<le> noff (cpus m h) \<and> (0 < noff (cpus m h) \<longrightarrow> \<not> bit (sstatus m h) (Suc 0))"
  by (simp add: irq_ok_def intr_get_iff machine_defs)

lemma set_lock_tp: "set_lock lk l (m\<lparr>tp := h\<rparr>) = (set_lock lk l m)\<lparr>tp := h\<rparr>"
  by (simp add: set_lock_def)

lemma push_off_tp:
  "push_off (m\<lparr>tp := h\<rparr>) = m\<lparr>tp := h,
     cpus := (cpus m)(h := (cpus m h)\<lparr>
        intena := (if noff (cpus m h) = 0 then bit (sstatus m h) 1 else intena (cpus m h)),
        noff := noff (cpus m h) + 1\<rparr>),
     sstatus := (sstatus m)(h := sstatus m h AND NOT SSTATUS_SIE)\<rparr>"
  by (simp add: push_off_eq intr_get_iff intr_off_def machine_defs)

lemma SIE_cleared: "\<not> bit (x AND NOT SSTATUS_SIE) (Suc 0)"
  by (simp add: SSTATUS_SIE_def bit_simps)

lemma pop_off_tp:
  assumes "pop_off (m\<lparr>tp := h\<rparr>) = Ok m'"
  shows "locks m' = locks m" and "h' \<noteq> h \<Longrightarrow> cpus m' h' = cpus m h' \<and> sstatus m' h' = sstatus m h'"
    and "irq_ok (m\<lparr>tp := h\<rparr>) \<Longrightarrow> irq_ok (m'\<lparr>tp := h\<rparr>)"
  using assms
  by (auto simp: pop_off_def intr_get_iff machine_defs Let_def irq_ok_tp intr_on_def
      split: if_splits)

lemma spin_inv_step:
  assumes "spin_step lk s s'" and "spin_inv lk s"
  shows "spin_inv lk s'"
  using assms
proof (cases rule: spin_step.cases)
  case (enter pc h m m')
  then have "m' = push_off (m\<lparr>tp := h\<rparr>)"
    by (auto simp: acquire_enter_def Let_def split: if_splits)
  moreover have "h \<notin> owners pc" using enter by (simp add: owners_iff)
  ultimately show ?thesis using enter assms(2)
    by (auto simp: spin_inv_def push_off_tp irq_ok_tp SIE_cleared)
next
  case (swap_busy pc h m old m')
  with assms(2) show ?thesis
    by (auto simp: spin_inv_def sync_lock_test_and_set_def set_lock_def irq_ok_tp)
next
  case (swap_won pc h m m')
  with assms(2) show ?thesis
    by (auto simp: spin_inv_def sync_lock_test_and_set_def set_lock_def irq_ok_tp)
next
  case (record_owner pc h m)
  then have "h \<in> owners pc" by (simp add: owners_iff)
  moreover have "pc h' = Inside \<Longrightarrow> h' \<in> owners pc" for h' by (simp add: owners_iff)
  ultimately show ?thesis using record_owner assms(2)
    by (auto simp: spin_inv_def acquire_record_def set_lock_def irq_ok_tp machine_defs)
next
  case (leave pc h m m')
  then have "h \<in> owners pc" by (simp add: owners_iff)
  moreover have "pc h' = Inside \<Longrightarrow> h' \<in> owners pc" for h' by (simp add: owners_iff)
  ultimately show ?thesis using leave assms(2)
    by (auto simp: spin_inv_def release_enter_def set_lock_def irq_ok_tp split: if_splits)
next
  case (clear pc h m)
  then have "h \<in> owners pc" by (simp add: owners_iff)
  with clear assms(2) show ?thesis
    by (auto simp: spin_inv_def sync_lock_release_def set_lock_def irq_ok_tp)
next
  case (leave_off pc h m m')
  note pop = pop_off_tp [OF leave_off(4)]
  have "irq_ok (m'\<lparr>tp := h'\<rparr>)" for h'
    using pop(2) [of h'] pop(3) assms(2) leave_off by (cases "h' = h") (auto simp: spin_inv_def irq_ok_tp)
  moreover have "h \<notin> owners pc" using leave_off by (simp add: owners_iff)
  ultimately show ?thesis using leave_off assms(2) pop(1,2)
    by (auto simp: spin_inv_def)
next
  case (other m' m h pc)
  have "irq_ok (m'\<lparr>tp := h'\<rparr>)" for h'
    using other assms(2) by (cases "h' = h") (auto simp: spin_inv_def irq_ok_tp)
  moreover have "pc h' \<noteq> Outside \<Longrightarrow> 1 \<le> noff (cpus m' h')" for h'
    using other assms(2) by (cases "h' = h") (auto simp: spin_inv_def)
  ultimately show ?thesis
    using other assms(2) by (auto simp: spin_inv_def)
qed

lemma spin_reachable_inv: "spin_reachable lk s \<Longrightarrow> spin_inv lk s"
proof (induction rule: spin_reachable.induct)
  case (start m)
  then show ?case by (auto simp: spin_inv_def lock_free_def owners_def)
next
  case (step s s')
  then show ?case by (blast intro: spin_inv_step)
qed

text \<open>The machine as the zeroed data segment leaves it, hart 0 executing.\<close>

definition zero_context :: kcontext where
  "zero_context = \<lparr>ctx_ra = 0, ctx_sp = 0, ctx_s0 = 0, ctx_s1 = 0, ctx_s2 = 0, ctx_s3 = 0,
     ctx_s4 = 0, ctx_s5 = 0, ctx_s6 = 0, ctx_s7 = 0, ctx_s8 = 0, ctx_s9 = 0, ctx_s10 = 0,
     ctx_s11 = 0\<rparr>"

definition boot_machine :: machine where
  "boot_machine = \<lparr>tp = 0,
     cpus = (\<lambda>_. \<lparr>cproc = None, ccontext = zero_context, noff = 0, intena = False\<rparr>),
     sstatus = (\<lambda>_. 0),
     locks = (\<lambda>_. \<lparr>locked = 0, lkname = '''', lkcpu = None\<rparr>)\<rparr>"

lemma lock_free_boot [simp]: "lock_free lk boot_machine"
  and irq_ok_boot [simp]: "irq_ok (boot_machine\<lparr>tp := h\<rparr>)"
  and irq_ok_boot0 [simp]: "irq_ok boot_machine"
  by (simp_all add: lock_free_def boot_machine_def irq_ok_def machine_defs)

section \<open>Properties\<close>

text \<open>C3. Mutual exclusion: in every interleaving of \<^verbatim>\<open>acquire\<close> and \<^verbatim>\<open>release\<close> by any number of
  harts, at most one hart is inside the critical section of a lock, and it runs with
  interrupts off and a positive nesting depth.\<close>

theorem spin_mutual_exclusion:
  assumes "spin_reachable lk (m, pc)" and "pc h = Inside"
  shows "(\<forall>h'. pc h' = Inside \<longrightarrow> h' = h) \<and> \<not> intr_get (m\<lparr>tp := h\<rparr>) \<and> 1 \<le> noff (cpus m h)"
proof -
  from assms(1) have inv: "spin_inv lk (m, pc)" by (rule spin_reachable_inv)
  have "pc h' = Inside \<Longrightarrow> h' = h" for h'
    using inv assms(2) by (simp add: spin_inv_def owners_iff)
  moreover have "1 \<le> noff (cpus m h)"
    using inv assms(2) by (auto simp: spin_inv_def)
  moreover from this have "\<not> intr_get (m\<lparr>tp := h\<rparr>)"
    using inv by (auto simp: spin_inv_def irq_ok_tp intr_get_iff)
  ultimately show ?thesis by blast
qed

lemma spin_reachable_Inside_boot:
  "\<exists>m. spin_reachable KmemLock (m, (\<lambda>_. Outside)(0 := Inside))"
proof -
  let ?m1 = "push_off (boot_machine\<lparr>tp := 0\<rparr>)"
  have r0: "spin_reachable KmemLock (boot_machine, \<lambda>_. Outside)"
    by (rule spin_reachable.start) simp_all
  have "acquire_enter KmemLock (boot_machine\<lparr>tp := 0\<rparr>) = Ok ?m1"
    by (simp add: acquire_enter_def holding_def boot_machine_def)
  then have r1: "spin_reachable KmemLock (?m1, (\<lambda>_. Outside)(0 := Trying))"
    by (intro spin_reachable.step [OF r0] spin_step.enter) auto
  have "\<exists>m2. sync_lock_test_and_set KmemLock (?m1\<lparr>tp := 0\<rparr>) = (0, m2)"
    by (simp add: sync_lock_test_and_set_def boot_machine_def push_off_tp)
  then obtain m2 where "sync_lock_test_and_set KmemLock (?m1\<lparr>tp := 0\<rparr>) = (0, m2)" ..
  then have "spin_reachable KmemLock (m2, ((\<lambda>_. Outside)(0 := Trying))(0 := Swapped))"
    by (intro spin_reachable.step [OF r1] spin_step.swap_won) auto
  then have "spin_reachable KmemLock (acquire_record KmemLock (m2\<lparr>tp := 0\<rparr>),
      (((\<lambda>_. Outside)(0 := Trying))(0 := Swapped))(0 := Inside))"
    by (rule spin_reachable.step) (intro spin_step.record_owner, simp)
  then show ?thesis by auto
qed

theorem spin_mutual_exclusion_witness:
  "\<exists>m pc. spin_reachable KmemLock (m, pc) \<and> pc 0 = Inside \<and> \<not> intr_get (m\<lparr>tp := 0\<rparr>) \<and> pc 1 \<noteq> Inside"
proof -
  obtain m where r: "spin_reachable KmemLock (m, (\<lambda>_. Outside)(0 := Inside))"
    using spin_reachable_Inside_boot by blast
  from spin_mutual_exclusion [OF r, of 0] r show ?thesis by fastforce
qed

text \<open>C27. No panic in the lock protocol: in every reachable state an outside hart can start
  \<^verbatim>\<open>acquire\<close> without the self-deadlock panic, the hart inside can start \<^verbatim>\<open>release\<close>, and the
  final \<^verbatim>\<open>pop_off\<close> finds interrupts off and a positive depth; a waiting hart wins the swap as
  soon as nobody owns the lock.\<close>

theorem spin_no_panic:
  assumes "spin_reachable lk (m, pc)"
  shows "(pc h = Outside \<longrightarrow> returns (acquire_enter lk (m\<lparr>tp := h\<rparr>))) \<and>
    (pc h = Inside \<longrightarrow> returns (release_enter lk (m\<lparr>tp := h\<rparr>))) \<and>
    (pc h = Cleared \<longrightarrow> returns (pop_off (m\<lparr>tp := h\<rparr>))) \<and>
    ((\<forall>h'. \<not> owns (pc h')) \<longrightarrow> fst (sync_lock_test_and_set lk (m\<lparr>tp := h\<rparr>)) = 0)"
proof -
  from assms have inv: "spin_inv lk (m, pc)" by (rule spin_reachable_inv)
  have "pc h = Outside \<longrightarrow> returns (acquire_enter lk (m\<lparr>tp := h\<rparr>))"
    using inv
    by (auto simp: acquire_enter_def spin_inv_def holding_def Let_def machine_defs push_off_tp)
  moreover have "pc h = Inside \<longrightarrow> returns (release_enter lk (m\<lparr>tp := h\<rparr>))"
    using inv owners_iff [of h pc]
    by (auto simp: release_enter_def spin_inv_def holding_def machine_defs)
  moreover have "returns (pop_off (m\<lparr>tp := h\<rparr>))" if "pc h = Cleared"
  proof -
    from that inv have "1 \<le> noff (cpus m h)" by (auto simp: spin_inv_def)
    with inv show ?thesis
      by (auto simp: pop_off_def spin_inv_def intr_get_iff irq_ok_tp machine_defs Let_def)
  qed
  moreover have "(\<forall>h'. \<not> owns (pc h')) \<longrightarrow> fst (sync_lock_test_and_set lk (m\<lparr>tp := h\<rparr>)) = 0"
    using inv by (auto simp: sync_lock_test_and_set_def spin_inv_def owners_def)
  ultimately show ?thesis by blast
qed

theorem spin_no_panic_witness:
  "\<exists>m pc. spin_reachable KmemLock (m, pc) \<and> returns (release_enter KmemLock (m\<lparr>tp := 0\<rparr>)) \<and>
     returns (acquire_enter KmemLock (m\<lparr>tp := 1\<rparr>))"
proof -
  obtain m where r: "spin_reachable KmemLock (m, (\<lambda>_. Outside)(0 := Inside))"
    using spin_reachable_Inside_boot by blast
  from spin_no_panic [OF r, of 0] spin_no_panic [OF r, of 1] r show ?thesis by fastforce
qed

text \<open>A critical section is transparent: taking a free lock and releasing it succeeds from
  any state that keeps the interrupt discipline, and restores every lock, the interrupt
  enable bit and the nesting depth; only the saved flag \<^verbatim>\<open>intena\<close> can differ.\<close>

theorem critical_section_transparent:
  assumes "lock_free lk m" and "irq_ok m"
  shows "\<exists>m'. andThen (acquire lk m) (release lk) = Ok m' \<and> locks m' = locks m \<and>
     sstatus m' = sstatus m \<and> tp m' = tp m \<and>
     (\<forall>h. noff (cpus m' h) = noff (cpus m h) \<and> cproc (cpus m' h) = cproc (cpus m h))"
proof (intro exI conjI)
  show "andThen (acquire lk m) (release lk) = Ok (touch m)"
    using assms by (simp add: lock_simps)
qed (simp_all add: touch_def machine_defs)

theorem critical_section_transparent_witness:
  "\<exists>m'. andThen (acquire KmemLock boot_machine) (release KmemLock) = Ok m' \<and>
     locks m' = locks boot_machine"
  using critical_section_transparent [of KmemLock boot_machine] by auto

end
