(* ===== verification/Kalloc.thy ===== *)
theory Kalloc
  imports Spinlock
begin

text \<open>
  kernel/kalloc.c, the physical page allocator. Free pages form a list threaded through the
  pages themselves: the first eight bytes of a free page hold the address of the next. The
  state adds to the machine the physical memory, the list head, and the linker symbol
  \<^verbatim>\<open>end\<close>, the first address after the kernel.

  \<open>free_chain\<close> relates the threaded list to a HOL list of pages; \<open>kmem_inv\<close> is the
  allocator's invariant. The locale \<open>page_allocator\<close> is the contract its clients use.
\<close>

record pmem =
  mach :: machine
  mem :: memory
  freelist :: uint64
  kend :: uint64

definition on_mach :: "(machine \<Rightarrow> machine outcome) \<Rightarrow> pmem \<Rightarrow> pmem outcome" where
  "on_mach f s = andThen (f (mach s)) (\<lambda>m. Ok (s\<lparr>mach := m\<rparr>))"

definition kfree :: "uint64 \<Rightarrow> pmem \<Rightarrow> pmem outcome" where
  "kfree pa s =
     (if pa mod PGSIZE \<noteq> 0 \<or> pa < kend s \<or> pa \<ge> PHYSTOP then Panic ''kfree''
      else let s1 = s\<lparr>mem := memset (mem s) pa 1 4096\<rparr> in
        andThen (on_mach (acquire KmemLock) s1) (\<lambda>s2.
        let s3 = s2\<lparr>mem := store64 (mem s2) pa (freelist s2), freelist := pa\<rparr> in
        on_mach (release KmemLock) s3))"

definition kalloc :: "pmem \<Rightarrow> (uint64 \<times> pmem) outcome" where
  "kalloc s =
     andThen (on_mach (acquire KmemLock) s) (\<lambda>s1.
     let r = freelist s1;
         s2 = (if r \<noteq> 0 then s1\<lparr>freelist := load64 (mem s1) r\<rparr> else s1)
     in andThen (on_mach (release KmemLock) s2) (\<lambda>s3.
        Ok (r, if r \<noteq> 0 then s3\<lparr>mem := memset (mem s3) r 5 4096\<rparr> else s3)))"

text \<open>
  The loop of \<^verbatim>\<open>freerange\<close>. It stops whenever \<^verbatim>\<open>pa_end\<close> is at least a page below the top of
  the address space; the fuel bounds the number of pages, and running out of it is the loop
  that never ends.
\<close>

fun freerange_loop :: "nat \<Rightarrow> uint64 \<Rightarrow> uint64 \<Rightarrow> pmem \<Rightarrow> pmem outcome" where
  "freerange_loop 0 p pa_end s = Spin"
| "freerange_loop (Suc fuel) p pa_end s =
     (if p + PGSIZE \<le> pa_end
      then andThen (kfree p s) (freerange_loop fuel (p + PGSIZE) pa_end)
      else Ok s)"

definition freerange :: "uint64 \<Rightarrow> uint64 \<Rightarrow> pmem \<Rightarrow> pmem outcome" where
  "freerange pa_start pa_end s =
     freerange_loop (Suc (unat pa_end div 4096)) (PGROUNDUP pa_start) pa_end s"

definition kinit :: "pmem \<Rightarrow> pmem outcome" where
  "kinit s = freerange (kend s) PHYSTOP (s\<lparr>mach := initlock KmemLock ''kmem'' (mach s)\<rparr>)"

section \<open>The free list\<close>

fun free_chain :: "memory \<Rightarrow> uint64 \<Rightarrow> uint64 list \<Rightarrow> bool" where
  "free_chain m r [] \<longleftrightarrow> r = 0"
| "free_chain m r (p # ps) \<longleftrightarrow> r = p \<and> p \<noteq> 0 \<and> free_chain m (load64 m p) ps"

definition page_ok :: "pmem \<Rightarrow> uint64 \<Rightarrow> bool" where
  "page_ok s p \<longleftrightarrow> page_aligned p \<and> kend s \<le> p \<and> p < PHYSTOP"

definition kmem_inv :: "pmem \<Rightarrow> uint64 list \<Rightarrow> bool" where
  "kmem_inv s ps \<longleftrightarrow> 0 < kend s \<and> free_chain (mem s) (freelist s) ps \<and> distinct ps \<and>
     (\<forall>p \<in> set ps. page_ok s p)"

definition kmem_ready :: "pmem \<Rightarrow> bool" where
  "kmem_ready s \<longleftrightarrow> lock_free KmemLock (mach s) \<and> irq_ok (mach s)"

text \<open>\<open>same_outside p m m'\<close>: the two memories agree outside the page at \<open>p\<close>.\<close>

definition same_outside :: "uint64 \<Rightarrow> memory \<Rightarrow> memory \<Rightarrow> bool" where
  "same_outside p m m' \<longleftrightarrow> (\<forall>a. 4096 \<le> unat (a - p) \<longrightarrow> m' a = m a)"

lemma same_outside_memset: "same_outside p m (memset m p c 4096)"
  by (auto simp: same_outside_def memset_apply)

lemma same_outside_store64: "same_outside p m (store64 m p v)"
  by (auto simp: same_outside_def store64_def)

lemma same_outside_trans: "same_outside p m m' \<Longrightarrow> same_outside p m' m'' \<Longrightarrow> same_outside p m m''"
  by (simp add: same_outside_def)

lemma load64_same_outside:
  assumes "same_outside p m m'" and "page_aligned p" "page_aligned q" and "p \<noteq> q"
  shows "load64 m' q = load64 m q"
proof (rule load64_cong)
  fix x assume "unat (x - q) < 8"
  moreover have "apart 4096 p 8 q"
    using pages_apart [OF assms(2-4)] by (rule apart_mono) simp_all
  ultimately have "4096 \<le> unat (x - p)" by (metis apart_offset)
  with assms(1) show "m' x = m x" by (simp add: same_outside_def)
qed

lemma free_chain_same_outside:
  assumes "same_outside p m m'" and "page_aligned p" and "\<forall>q \<in> set ps. page_aligned q"
    and "p \<notin> set ps"
  shows "free_chain m' r ps = free_chain m r ps"
  using assms(3,4)
proof (induction ps arbitrary: r)
  case Nil
  show ?case by simp
next
  case (Cons q ps)
  then have "load64 m' q = load64 m q"
    using load64_same_outside [OF assms(1,2)] by auto
  with Cons show ?case by simp
qed

lemma page_ok_nonzero: "0 < kend s \<Longrightarrow> page_ok s p \<Longrightarrow> p \<noteq> 0"
  by (auto simp: page_ok_def)

lemma page_ok_cong: "kend s' = kend s \<Longrightarrow> page_ok s' p = page_ok s p"
  by (simp add: page_ok_def)

section \<open>What the operations do\<close>

lemma kalloc_Nil:
  assumes "kmem_ready s" and "kmem_inv s []"
  shows "kalloc s = Ok (0, s\<lparr>mach := touch (mach s)\<rparr>)"
  using assms
  by (simp add: kalloc_def on_mach_def kmem_ready_def kmem_inv_def lock_simps)

lemma kalloc_Cons:
  assumes "kmem_ready s" and "kmem_inv s (p # ps)"
  shows "kalloc s = Ok (p, s\<lparr>mach := touch (mach s), freelist := load64 (mem s) p,
     mem := memset (mem s) p 5 4096\<rparr>)"
  using assms
  by (simp add: kalloc_def on_mach_def kmem_ready_def kmem_inv_def lock_simps)

lemma kmem_inv_tail:
  assumes "kmem_inv s (p # ps)"
  shows "kmem_inv (s\<lparr>mach := m, freelist := load64 (mem s) p, mem := memset (mem s) p 5 4096\<rparr>) ps"
proof -
  have al: "page_aligned p" "\<forall>q \<in> set ps. page_aligned q"
    using assms by (auto simp: kmem_inv_def page_ok_def)
  have "free_chain (memset (mem s) p 5 4096) (load64 (mem s) p) ps"
    using assms al free_chain_same_outside [OF same_outside_memset]
    by (auto simp: kmem_inv_def)
  with assms show ?thesis by (auto simp: kmem_inv_def page_ok_def)
qed

lemma kfree_Ok:
  assumes "kmem_ready s" and "page_ok s p"
  shows "kfree p s = Ok (s\<lparr>mach := touch (mach s), freelist := p,
     mem := store64 (memset (mem s) p 1 4096) p (freelist s)\<rparr>)"
  using assms
  by (simp add: kfree_def on_mach_def kmem_ready_def page_ok_def page_aligned_def lock_simps
      not_le not_less)

lemma kmem_inv_cons:
  assumes "kmem_inv s ps" and "page_ok s p" and "p \<notin> set ps"
  shows "kmem_inv (s\<lparr>mach := m, freelist := p,
     mem := store64 (memset (mem s) p 1 4096) p (freelist s)\<rparr>) (p # ps)"
proof -
  let ?m = "store64 (memset (mem s) p 1 4096) p (freelist s)"
  have so: "same_outside p (mem s) ?m"
    by (rule same_outside_trans [OF same_outside_memset same_outside_store64])
  have "free_chain ?m (freelist s) ps"
    using assms free_chain_same_outside [OF so]
    by (auto simp: kmem_inv_def page_ok_def)
  then have "free_chain ?m p (p # ps)"
    using assms page_ok_nonzero by (auto simp: kmem_inv_def)
  with assms show ?thesis by (auto simp: kmem_inv_def page_ok_def)
qed

lemma kmem_ready_touch [simp]: "kmem_ready s \<Longrightarrow> mach s' = touch (mach s) \<Longrightarrow> kmem_ready s'"
  by (simp add: kmem_ready_def)

section \<open>The contract of the allocator\<close>

locale page_allocator =
  fixes alloc :: "'s \<Rightarrow> ('p \<times> 's) outcome"
    and dealloc :: "'p \<Rightarrow> 's \<Rightarrow> 's outcome"
    and pool :: "'s \<Rightarrow> 'p list \<Rightarrow> bool"
    and ready :: "'s \<Rightarrow> bool"
    and null :: 'p
    and usable :: "'s \<Rightarrow> 'p \<Rightarrow> bool"
  assumes alloc_empty: "ready s \<Longrightarrow> pool s [] \<Longrightarrow>
      \<exists>s'. alloc s = Ok (null, s') \<and> pool s' [] \<and> ready s' \<and> usable s' = usable s"
    and alloc_head: "ready s \<Longrightarrow> pool s (p # ps) \<Longrightarrow>
      \<exists>s'. alloc s = Ok (p, s') \<and> pool s' ps \<and> ready s' \<and> usable s' = usable s"
    and dealloc_push: "ready s \<Longrightarrow> pool s ps \<Longrightarrow> usable s p \<Longrightarrow> p \<notin> set ps \<Longrightarrow>
      \<exists>s'. dealloc p s = Ok s' \<and> pool s' (p # ps) \<and> ready s' \<and> usable s' = usable s"
    and pool_distinct: "pool s ps \<Longrightarrow> distinct ps"
    and pool_usable: "pool s ps \<Longrightarrow> p \<in> set ps \<Longrightarrow> usable s p"
    and usable_not_null: "pool s ps \<Longrightarrow> usable s p \<Longrightarrow> p \<noteq> null"
begin

lemma alloc_cases:
  assumes "ready s" and "pool s ps"
  obtains (exhausted) s' where "alloc s = Ok (null, s')" "ps = []" "pool s' []" "ready s'"
  | (page) p ps' s' where "alloc s = Ok (p, s')" "ps = p # ps'" "pool s' ps'" "ready s'"
      "p \<noteq> null" "p \<notin> set ps'" "usable s' p"
proof (cases ps)
  case Nil
  with assms alloc_empty exhausted show thesis by blast
next
  case (Cons p ps')
  with assms obtain s' where s': "alloc s = Ok (p, s')" "pool s' ps'" "ready s'" "usable s' = usable s"
    using alloc_head by blast
  moreover from Cons assms have "usable s p" by (auto intro: pool_usable)
  moreover from this assms have "p \<noteq> null" by (auto dest: usable_not_null)
  moreover from Cons assms pool_distinct have "p \<notin> set ps'" by fastforce
  ultimately show thesis using Cons page by metis
qed

lemma alloc_dealloc_roundtrip:
  assumes "ready s" and "pool s (p # ps)"
  shows "\<exists>s' s''. alloc s = Ok (p, s') \<and> dealloc p s' = Ok s'' \<and> pool s'' (p # ps) \<and> ready s''"
proof -
  obtain s' where s': "alloc s = Ok (p, s')" "pool s' ps" "ready s'" "usable s' = usable s"
    using assms alloc_head by blast
  moreover have "usable s' p" and "p \<notin> set ps"
    using s' assms pool_usable pool_distinct by fastforce+
  ultimately show ?thesis using dealloc_push by blast
qed

end

interpretation ka: page_allocator kalloc kfree kmem_inv kmem_ready "0 :: uint64" page_ok
proof
  fix s :: pmem and p :: uint64 and ps :: "uint64 list"
  show "\<exists>s'. kalloc s = Ok (0, s') \<and> kmem_inv s' [] \<and> kmem_ready s' \<and> page_ok s' = page_ok s"
    if "kmem_ready s" "kmem_inv s []"
    using that kalloc_Nil by (auto simp: kmem_inv_def page_ok_def kmem_ready_def)
  show "\<exists>s'. kalloc s = Ok (p, s') \<and> kmem_inv s' ps \<and> kmem_ready s' \<and> page_ok s' = page_ok s"
    if "kmem_ready s" "kmem_inv s (p # ps)"
    using that kalloc_Cons kmem_inv_tail by (auto simp: page_ok_def)
  show "\<exists>s'. kfree p s = Ok s' \<and> kmem_inv s' (p # ps) \<and> kmem_ready s' \<and> page_ok s' = page_ok s"
    if "kmem_ready s" "kmem_inv s ps" "page_ok s p" "p \<notin> set ps"
    using that kfree_Ok kmem_inv_cons by (auto simp: page_ok_def)
  show "distinct ps" if "kmem_inv s ps" using that by (simp add: kmem_inv_def)
  show "page_ok s p" if "kmem_inv s ps" "p \<in> set ps" using that by (simp add: kmem_inv_def)
  show "p \<noteq> 0" if "kmem_inv s ps" "page_ok s p"
    using that page_ok_nonzero [of s p] by (simp add: kmem_inv_def)
qed

section \<open>Filling the free list at boot\<close>

definition page_range :: "uint64 \<Rightarrow> uint64 \<Rightarrow> uint64 list" where
  "page_range p e = map (\<lambda>i. p + of_nat i * PGSIZE) [0..<(unat e - unat p) div 4096]"

lemma unat_PGSIZE [simp]: "unat PGSIZE = 4096"
  by (simp add: PGSIZE_def)

lemma unat_PHYSTOP: "unat PHYSTOP = 0x88000000"
  by (simp add: PHYSTOP_def KERNBASE_def)

lemma unat_next_page:
  assumes "p \<le> PHYSTOP"
  shows "unat (p + PGSIZE) = unat p + 4096"
proof -
  have "unat p \<le> 0x88000000" using assms by (simp add: word_le_nat_alt unat_PHYSTOP)
  then show ?thesis using unat_add_lem [of p PGSIZE] by simp
qed

lemma next_page_le_iff:
  "p \<le> PHYSTOP \<Longrightarrow> p + PGSIZE \<le> e \<longleftrightarrow> unat p + 4096 \<le> unat e"
  by (simp add: word_le_nat_alt unat_next_page)

lemma page_aligned_next: "p \<le> PHYSTOP \<Longrightarrow> page_aligned p \<Longrightarrow> page_aligned (p + PGSIZE)"
  by (simp add: page_aligned_unat unat_next_page)

lemma page_range_step:
  assumes "p \<le> PHYSTOP" and "p + PGSIZE \<le> e"
  shows "page_range p e = p # page_range (p + PGSIZE) e"
proof -
  have le: "unat p + 4096 \<le> unat e" using assms next_page_le_iff by simp
  have "(unat e - unat p) div 4096 = Suc ((unat e - (unat p + 4096)) div 4096)"
  proof -
    obtain d where d: "unat e = unat p + 4096 + d" using le nat_le_iff_add by blast
    then have "unat e - unat p = 4096 + d" and "unat e - (unat p + 4096) = d" by simp_all
    then show ?thesis by simp
  qed
  then have "page_range p e =
      map (\<lambda>i. p + of_nat i * PGSIZE) (0 # map Suc [0..<(unat e - (unat p + 4096)) div 4096])"
    by (simp add: page_range_def map_Suc_upt upt_conv_Cons)
  then show ?thesis
    using unat_next_page [OF assms(1)]
    by (simp add: page_range_def o_def algebra_simps)
qed

lemma page_range_empty:
  assumes "p \<le> PHYSTOP" and "\<not> p + PGSIZE \<le> e"
  shows "page_range p e = []"
  using assms by (simp add: page_range_def next_page_le_iff)

lemma freerange_loop_fills:
  assumes "kmem_ready s" and "kmem_inv s ps" and "page_aligned p" and "kend s \<le> p"
    and "p \<le> PHYSTOP" and "e \<le> PHYSTOP" and "\<forall>q \<in> set ps. q < p"
    and "(unat e - unat p) div 4096 < fuel"
  shows "\<exists>s'. freerange_loop fuel p e s = Ok s' \<and> kmem_ready s' \<and>
     kmem_inv s' (rev (page_range p e) @ ps) \<and> kend s' = kend s"
  using assms
proof (induction fuel arbitrary: p s ps)
  case 0
  then show ?case by simp
next
  case (Suc fuel)
  show ?case
  proof (cases "p + PGSIZE \<le> e")
    case False
    with Suc.prems show ?thesis by (auto simp: page_range_empty)
  next
    case True
    let ?s = "s\<lparr>mach := touch (mach s), freelist := p,
      mem := store64 (memset (mem s) p 1 4096) p (freelist s)\<rparr>"
    have le: "unat p + 4096 \<le> unat e" using True Suc.prems(5) next_page_le_iff by simp
    have next_le: "p + PGSIZE \<le> PHYSTOP" using True Suc.prems(6) by simp
    have p_lt: "p < p + PGSIZE" using Suc.prems(5) by (simp add: word_less_nat_alt unat_next_page)
    have ok: "page_ok s p" using Suc.prems(3,4) next_le p_lt by (simp add: page_ok_def)
    have "(unat e - unat (p + PGSIZE)) div 4096 < fuel"
      using Suc.prems(5,8) page_range_step [OF Suc.prems(5) True]
      by (metis Suc_less_eq length_Cons length_map length_upt minus_nat.diff_0 page_range_def)
    moreover have "kmem_inv ?s (p # ps)"
      using Suc.prems ok by (intro kmem_inv_cons) auto
    moreover have "kmem_ready ?s" using Suc.prems(1) by simp
    moreover have "\<forall>q \<in> set (p # ps). q < p + PGSIZE"
      using Suc.prems(7) p_lt by auto
    moreover have "kend ?s \<le> p + PGSIZE" using Suc.prems(4) p_lt by simp
    ultimately have "\<exists>s'. freerange_loop fuel (p + PGSIZE) e ?s = Ok s' \<and> kmem_ready s' \<and>
        kmem_inv s' (rev (page_range (p + PGSIZE) e) @ p # ps) \<and> kend s' = kend ?s"
      using Suc.prems(3,5,6) next_le by (intro Suc.IH) (simp_all add: page_aligned_next)
    then show ?thesis
      using True Suc.prems(1,5) ok by (simp add: kfree_Ok page_range_step)
  qed
qed

lemma round_up_page:
  fixes n :: nat
  shows "n \<le> (n + 4095) div 4096 * 4096" and "n \<le> k * 4096 \<Longrightarrow> (n + 4095) div 4096 * 4096 \<le> k * 4096"
proof -
  show "n \<le> (n + 4095) div 4096 * 4096"
    using div_mult_mod_eq [of "n + 4095" 4096] mod_less_divisor [of 4096 "n + 4095"] by linarith
  show "(n + 4095) div 4096 * 4096 \<le> k * 4096" if "n \<le> k * 4096"
    using that div_le_mono [of "n + 4095" "k * 4096 + 4095" 4096] by simp
qed

lemma PGROUNDUP_below_PHYSTOP:
  assumes "a \<le> PHYSTOP"
  shows "page_aligned (PGROUNDUP a)" "a \<le> PGROUNDUP a" "PGROUNDUP a \<le> PHYSTOP"
proof -
  have k: "unat a \<le> 557056 * 4096" using assms by (simp add: word_le_nat_alt unat_PHYSTOP)
  then have up: "unat (PGROUNDUP a) = (unat a + 4095) div 4096 * 4096"
    by (subst unat_PGROUNDUP) auto
  show "page_aligned (PGROUNDUP a)" by (simp add: page_aligned_unat up)
  show "a \<le> PGROUNDUP a" unfolding word_le_nat_alt up by (rule round_up_page)
  show "PGROUNDUP a \<le> PHYSTOP"
    using round_up_page(2) [OF k] unfolding word_le_nat_alt up unat_PHYSTOP by simp
qed

lemma kmem_ready_initlock:
  "irq_ok (mach s) \<Longrightarrow> kmem_ready (s\<lparr>mach := initlock KmemLock nm (mach s)\<rparr>)"
  by (simp add: kmem_ready_def lock_free_def irq_ok_def initlock_def set_lock_def intr_get_def
      machine_defs)

section \<open>Properties\<close>

definition boot_pmem :: "uint64 \<Rightarrow> pmem" where
  "boot_pmem e = \<lparr>mach = boot_machine, mem = (\<lambda>_. 0), freelist = 0, kend = e\<rparr>"

text \<open>
  C21. Boot. \<^verbatim>\<open>kinit\<close> returns (no \<^verbatim>\<open>kfree\<close> panic, the loop ends), and afterwards the free list
  holds exactly the whole pages between the end of the kernel and PHYSTOP, each once, the
  highest first.
\<close>

theorem kinit_fills_pool:
  assumes "irq_ok (mach s)" and "freelist s = 0" and "0 < kend s" and "kend s \<le> PHYSTOP"
  shows "\<exists>s'. kinit s = Ok s' \<and> kmem_ready s' \<and>
     kmem_inv s' (rev (page_range (PGROUNDUP (kend s)) PHYSTOP))"
proof -
  let ?s = "s\<lparr>mach := initlock KmemLock ''kmem'' (mach s)\<rparr>"
  have "kmem_inv ?s []" using assms by (simp add: kmem_inv_def)
  then have "\<exists>s'. freerange_loop (Suc (unat PHYSTOP div 4096)) (PGROUNDUP (kend s)) PHYSTOP ?s = Ok s' \<and>
      kmem_ready s' \<and> kmem_inv s' (rev (page_range (PGROUNDUP (kend s)) PHYSTOP) @ []) \<and>
      kend s' = kend ?s"
    using kmem_ready_initlock [OF assms(1)] PGROUNDUP_below_PHYSTOP [OF assms(4)]
    by (intro freerange_loop_fills) (simp_all add: less_Suc_eq_le div_le_mono)
  then show ?thesis unfolding kinit_def freerange_def by fastforce
qed

theorem kinit_fills_pool_witness:
  "\<exists>s'. kinit (boot_pmem 0x80022000) = Ok s' \<and> kmem_ready s' \<and>
     kmem_inv s' (rev (page_range (PGROUNDUP 0x80022000) PHYSTOP))"
  using kinit_fills_pool [of "boot_pmem 0x80022000"]
  by (simp add: boot_pmem_def PHYSTOP_def KERNBASE_def)

text \<open>
  C20. Allocation. With the free pages \<open>p # ps\<close>, \<^verbatim>\<open>kalloc\<close> returns \<open>p\<close>, which is a page of the
  allocator's range and no longer free, leaves \<open>ps\<close> free, fills the page with 5 and changes no
  byte outside it; freeing the page again returns to the same pool.
\<close>

theorem kalloc_takes_page:
  assumes "kmem_ready s" and "kmem_inv s (p # ps)"
  shows "\<exists>s'. kalloc s = Ok (p, s') \<and> kmem_inv s' ps \<and> page_ok s' p \<and> p \<notin> set ps \<and>
     (\<forall>a. mem s' a = (if unat (a - p) < 4096 then 5 else mem s a)) \<and>
     (\<exists>s''. kfree p s' = Ok s'' \<and> kmem_inv s'' (p # ps))"
proof -
  let ?s = "s\<lparr>mach := touch (mach s), freelist := load64 (mem s) p, mem := memset (mem s) p 5 4096\<rparr>"
  have "page_ok ?s p" and "p \<notin> set ps"
    using assms(2) by (auto simp: kmem_inv_def page_ok_def)
  moreover have "\<exists>s''. kfree p ?s = Ok s'' \<and> kmem_inv s'' (p # ps)"
    using ka.alloc_dealloc_roundtrip [OF assms] kalloc_Cons [OF assms] by auto
  ultimately show ?thesis
    using kalloc_Cons [OF assms] kmem_inv_tail [OF assms(2)] by (simp add: memset_apply)
qed

definition one_page :: pmem where
  "one_page = (boot_pmem 0x80022000)\<lparr>freelist := 0x80023000\<rparr>"

lemma load64_zero: "load64 (\<lambda>_. 0) a = 0"
  by (simp add: load64_def upt_conv_Cons)

lemma one_page_inv: "kmem_ready one_page" "kmem_inv one_page [0x80023000]"
  by (simp_all add: one_page_def boot_pmem_def kmem_ready_def kmem_inv_def load64_zero
      page_ok_def page_aligned_def PGSIZE_def PHYSTOP_def KERNBASE_def)

theorem kalloc_takes_page_witness:
  "\<exists>s'. kalloc one_page = Ok (0x80023000, s') \<and> kmem_inv s' []"
  using kalloc_takes_page [OF one_page_inv] by blast

text \<open>
  Release. \<^verbatim>\<open>kfree\<close> panics exactly on the addresses that are not aligned pages between the
  end of the kernel and PHYSTOP; on the others it puts the page in front of the free pages and
  changes no byte outside it.
\<close>

theorem kfree_returns_page:
  assumes "kmem_ready s" and "kmem_inv s ps" and "p \<notin> set ps"
  shows "if page_ok s p
    then \<exists>s'. kfree p s = Ok s' \<and> kmem_ready s' \<and> kmem_inv s' (p # ps) \<and> same_outside p (mem s) (mem s')
    else kfree p s = Panic ''kfree''"
proof (cases "page_ok s p")
  case True
  then show ?thesis
    using kfree_Ok [OF assms(1) True] kmem_inv_cons [OF assms(2) True assms(3)] assms(1)
      same_outside_trans [OF same_outside_memset same_outside_store64]
    by simp
next
  case False
  then show ?thesis by (auto simp: kfree_def page_ok_def page_aligned_def not_le not_less)
qed

theorem kfree_returns_page_witness:
  "\<exists>s'. kfree 0x80024000 one_page = Ok s' \<and> kmem_inv s' [0x80024000, 0x80023000]"
  using kfree_returns_page [where p = "0x80024000", OF one_page_inv]
  by (auto simp: one_page_def boot_pmem_def page_ok_def page_aligned_def PGSIZE_def PHYSTOP_def
      KERNBASE_def)

end
