(* ===== verification/Vm.thy ===== *)
theory Vm
  imports Kalloc
begin

text \<open>
  kernel/vm.c, the Sv39 page tables, and \<^verbatim>\<open>proc_mapstacks\<close> of kernel/proc.c. A page table is
  the physical address of its root page; its entries are read from and written to the byte
  memory. Addresses of kernel data are physical (the kernel is direct-mapped). A kernel
  buffer that \<^verbatim>\<open>copyout\<close> reads or \<^verbatim>\<open>copyin\<close> fills is the list of its bytes.

  \<open>pt_wf\<close> says that the pages of a table form a tree, \<open>pt_pages\<close> are those pages, and \<open>pt_leaf\<close>
  is the level-0 entry of an address: the map from virtual pages to entries that the
  operations are specified against.
\<close>

section \<open>Walking a page table\<close>

definition pte_addr :: "nat \<Rightarrow> uint64 \<Rightarrow> uint64 \<Rightarrow> uint64" where
  "pte_addr level pagetable va = pagetable + 8 * PX level va"

fun walk_level :: "nat \<Rightarrow> uint64 \<Rightarrow> uint64 \<Rightarrow> bool \<Rightarrow> pmem \<Rightarrow> (uint64 \<times> pmem) outcome" where
  "walk_level 0 pagetable va alloc s = Ok (pte_addr 0 pagetable va, s)"
| "walk_level (Suc level) pagetable va alloc s =
     (let pte = pte_addr (Suc level) pagetable va; v = load64 (mem s) pte in
      if v AND PTE_V \<noteq> 0 then walk_level level (PTE2PA v) va alloc s
      else if \<not> alloc then Ok (0, s)
      else andThen (kalloc s) (\<lambda>(pg, s1).
        if pg = 0 then Ok (0, s1)
        else let m1 = memset (mem s1) pg 0 4096;
                 m2 = store64 m1 pte (PA2PTE pg OR PTE_V)
             in walk_level level pg va alloc (s1\<lparr>mem := m2\<rparr>)))"

definition walk :: "uint64 \<Rightarrow> uint64 \<Rightarrow> bool \<Rightarrow> pmem \<Rightarrow> (uint64 \<times> pmem) outcome" where
  "walk pagetable va alloc s =
     (if va \<ge> MAXVA then Panic ''walk'' else walk_level 2 pagetable va alloc s)"

definition walkaddr :: "uint64 \<Rightarrow> uint64 \<Rightarrow> pmem \<Rightarrow> (uint64 \<times> pmem) outcome" where
  "walkaddr pagetable va s =
     (if va \<ge> MAXVA then Ok (0, s)
      else andThen (walk pagetable va False s) (\<lambda>(pte, s1).
        if pte = 0 then Ok (0, s1)
        else let v = load64 (mem s1) pte in
          if v AND PTE_V = 0 then Ok (0, s1)
          else if v AND PTE_U = 0 then Ok (0, s1)
          else Ok (PTE2PA v, s1)))"

lemma walk_Ok_below: "walk pagetable va alloc s = Ok r \<Longrightarrow> va < MAXVA"
  by (auto simp: walk_def split: if_splits)

lemma unat_MAXVA: "unat MAXVA = 2 ^ 38"
  by (simp add: MAXVA_def push_bit_of_1)

lemma unat_next_va: "a < MAXVA \<Longrightarrow> unat (a + PGSIZE) = unat a + 4096"
  using unat_add_lem [of a PGSIZE] by (simp add: word_less_nat_alt unat_MAXVA)

section \<open>Adding and removing mappings\<close>

text \<open>
  The loops step \<open>a\<close> by a page after a successful \<^verbatim>\<open>walk\<close> at \<open>a\<close>, which panics at MAXVA: each
  of them ends.
\<close>

function mappages_loop ::
    "uint64 \<Rightarrow> uint64 \<Rightarrow> uint64 \<Rightarrow> uint64 \<Rightarrow> uint64 \<Rightarrow> pmem \<Rightarrow> (int32 \<times> pmem) outcome" where
  "mappages_loop pagetable a last_va pa perm s =
     andThen (walk pagetable a True s) (\<lambda>(pte, s1).
       if pte = 0 then Ok (-1, s1)
       else if load64 (mem s1) pte AND PTE_V \<noteq> 0 then Panic ''mappages: remap''
       else let s2 = s1\<lparr>mem := store64 (mem s1) pte (PA2PTE pa OR perm OR PTE_V)\<rparr> in
         if a = last_va then Ok (0, s2)
         else mappages_loop pagetable (a + PGSIZE) last_va (pa + PGSIZE) perm s2)"
  by pat_completeness auto
termination
  by (relation "measure (\<lambda>(pt, a, last_va, pa, perm, s). 2 ^ 64 - unat a)")
     (auto dest!: walk_Ok_below simp: unat_next_va word_less_nat_alt unat_MAXVA)

declare mappages_loop.simps [simp del]

definition mappages :: "uint64 \<Rightarrow> uint64 \<Rightarrow> uint64 \<Rightarrow> uint64 \<Rightarrow> uint64 \<Rightarrow> pmem \<Rightarrow> (int32 \<times> pmem) outcome"
  where
  "mappages pagetable va sz pa perm s =
     (if sz = 0 then Panic ''mappages: size''
      else mappages_loop pagetable (PGROUNDDOWN va) (PGROUNDDOWN (va + sz - 1)) pa perm s)"

definition kvmmap :: "uint64 \<Rightarrow> uint64 \<Rightarrow> uint64 \<Rightarrow> uint64 \<Rightarrow> uint64 \<Rightarrow> pmem \<Rightarrow> pmem outcome" where
  "kvmmap kpgtbl va pa sz perm s =
     andThen (mappages kpgtbl va sz pa perm s) (\<lambda>(r, s1).
       if r \<noteq> 0 then Panic ''kvmmap'' else Ok s1)"

fun mapstacks_loop :: "uint64 \<Rightarrow> nat list \<Rightarrow> pmem \<Rightarrow> pmem outcome" where
  "mapstacks_loop kpgtbl [] s = Ok s"
| "mapstacks_loop kpgtbl (p # ps) s =
     andThen (kalloc s) (\<lambda>(pa, s1).
       if pa = 0 then Panic ''kalloc''
       else andThen (kvmmap kpgtbl (KSTACK p) pa PGSIZE (PTE_R OR PTE_W) s1) (mapstacks_loop kpgtbl ps))"

definition proc_mapstacks :: "uint64 \<Rightarrow> pmem \<Rightarrow> pmem outcome" where
  "proc_mapstacks kpgtbl s = mapstacks_loop kpgtbl [0..<NPROC] s"

text \<open>\<^verbatim>\<open>etext\<close> and \<^verbatim>\<open>trampoline\<close> are symbols the linker places, here arguments.\<close>

definition kvmmake :: "uint64 \<Rightarrow> uint64 \<Rightarrow> pmem \<Rightarrow> (uint64 \<times> pmem) outcome" where
  "kvmmake etext trampoline s =
     andThen (kalloc s) (\<lambda>(kpgtbl, s1).
     andThen (kvmmap kpgtbl UART0 UART0 PGSIZE (PTE_R OR PTE_W)
       (s1\<lparr>mem := memset (mem s1) kpgtbl 0 4096\<rparr>)) (\<lambda>s2.
     andThen (kvmmap kpgtbl VIRTIO0 VIRTIO0 PGSIZE (PTE_R OR PTE_W) s2) (\<lambda>s3.
     andThen (kvmmap kpgtbl PLIC PLIC 0x400000 (PTE_R OR PTE_W) s3) (\<lambda>s4.
     andThen (kvmmap kpgtbl KERNBASE KERNBASE (etext - KERNBASE) (PTE_R OR PTE_X) s4) (\<lambda>s5.
     andThen (kvmmap kpgtbl etext etext (PHYSTOP - etext) (PTE_R OR PTE_W) s5) (\<lambda>s6.
     andThen (kvmmap kpgtbl TRAMPOLINE trampoline PGSIZE (PTE_R OR PTE_X) s6) (\<lambda>s7.
     andThen (proc_mapstacks kpgtbl s7) (\<lambda>s8. Ok (kpgtbl, s8)))))))))"

function uvmunmap_loop :: "uint64 \<Rightarrow> uint64 \<Rightarrow> uint64 \<Rightarrow> bool \<Rightarrow> pmem \<Rightarrow> pmem outcome" where
  "uvmunmap_loop pagetable a end_va do_free s =
     (if a < end_va then
        andThen (walk pagetable a False s) (\<lambda>(pte, s1).
          if pte = 0 then Panic ''uvmunmap: walk''
          else let v = load64 (mem s1) pte in
            if v AND PTE_V = 0 then Panic ''uvmunmap: not mapped''
            else if PTE_FLAGS v = PTE_V then Panic ''uvmunmap: not a leaf''
            else andThen (if do_free then kfree (PTE2PA v) s1 else Ok s1) (\<lambda>s2.
              uvmunmap_loop pagetable (a + PGSIZE) end_va do_free
                (s2\<lparr>mem := store64 (mem s2) pte 0\<rparr>)))
      else Ok s)"
  by pat_completeness auto
termination
  by (relation "measure (\<lambda>(pt, a, e, f, s). 2 ^ 64 - unat a)")
     (auto dest!: walk_Ok_below simp: unat_next_va word_less_nat_alt unat_MAXVA)

declare uvmunmap_loop.simps [simp del]

definition uvmunmap :: "uint64 \<Rightarrow> uint64 \<Rightarrow> uint64 \<Rightarrow> bool \<Rightarrow> pmem \<Rightarrow> pmem outcome" where
  "uvmunmap pagetable va npages do_free s =
     (if va mod PGSIZE \<noteq> 0 then Panic ''uvmunmap: not aligned''
      else uvmunmap_loop pagetable va (va + npages * PGSIZE) do_free s)"

section \<open>User address spaces\<close>

definition uvmcreate :: "pmem \<Rightarrow> (uint64 \<times> pmem) outcome" where
  "uvmcreate s =
     andThen (kalloc s) (\<lambda>(pagetable, s1).
       if pagetable = 0 then Ok (0, s1)
       else Ok (pagetable, s1\<lparr>mem := memset (mem s1) pagetable 0 4096\<rparr>))"

text \<open>
  \<open>write_bytes\<close> is \<^verbatim>\<open>memmove\<close> from a kernel buffer, whose bytes are given, to memory;
  \<open>read_bytes\<close> is the copy the other way.
\<close>

fun write_bytes :: "memory \<Rightarrow> uint64 \<Rightarrow> uint8 list \<Rightarrow> memory" where
  "write_bytes m a [] = m"
| "write_bytes m a (b # bs) = write_bytes (m(a := b)) (a + 1) bs"

definition read_bytes :: "memory \<Rightarrow> uint64 \<Rightarrow> nat \<Rightarrow> uint8 list" where
  "read_bytes m a n = map (\<lambda>i. m (a + of_nat i)) [0..<n]"

definition uvmfirst :: "uint64 \<Rightarrow> uint8 list \<Rightarrow> pmem \<Rightarrow> pmem outcome" where
  "uvmfirst pagetable src s =
     (if 4096 \<le> length src then Panic ''uvmfirst: more than a page''
      else andThen (kalloc s) (\<lambda>(pg, s1).
        andThen (mappages pagetable 0 PGSIZE pg (PTE_W OR PTE_R OR PTE_X OR PTE_U)
            (s1\<lparr>mem := memset (mem s1) pg 0 4096\<rparr>)) (\<lambda>(r, s2).
          Ok (s2\<lparr>mem := write_bytes (mem s2) pg src\<rparr>))))"

text \<open>The page count is an \<^verbatim>\<open>int\<close>: truncated to 32 bits and sign-extended when passed on.\<close>

definition uvmdealloc :: "uint64 \<Rightarrow> uint64 \<Rightarrow> uint64 \<Rightarrow> pmem \<Rightarrow> (uint64 \<times> pmem) outcome" where
  "uvmdealloc pagetable oldsz newsz s =
     (if newsz \<ge> oldsz then Ok (oldsz, s)
      else if PGROUNDUP newsz < PGROUNDUP oldsz
      then let npages = ucast ((PGROUNDUP oldsz - PGROUNDUP newsz) div PGSIZE) :: int32 in
        andThen (uvmunmap pagetable (PGROUNDUP newsz) (scast npages) True s) (\<lambda>s1. Ok (newsz, s1))
      else Ok (newsz, s))"

lemma mappages_loop_Ok_below: "mappages_loop pagetable a last_va pa perm s = Ok r \<Longrightarrow> a < MAXVA"
  by (subst (asm) mappages_loop.simps) (auto simp: outcome_simps dest: walk_Ok_below)

lemma mappages_page_below:
  "mappages pagetable a PGSIZE pa perm s = Ok r \<Longrightarrow> PGROUNDDOWN a < MAXVA"
  by (auto simp: mappages_def split: if_splits dest: mappages_loop_Ok_below)

lemma mappages_next_below:
  assumes "mappages pagetable a PGSIZE pa perm s = Ok r"
  shows "unat (a + PGSIZE) = unat a + 4096 \<and> unat a < 2 ^ 39"
proof -
  have "unat a div 4096 * 4096 < 2 ^ 38"
    using mappages_page_below [OF assms] by (simp add: word_less_nat_alt unat_PGROUNDDOWN unat_MAXVA)
  then have *: "unat a < 2 ^ 38 + 4096"
    using div_mult_mod_eq [of "unat a" 4096] mod_less_divisor [of 4096 "unat a"] by linarith
  then show ?thesis using unat_add_lem [of a PGSIZE] by simp
qed

function uvmalloc_loop :: "uint64 \<Rightarrow> uint64 \<Rightarrow> uint64 \<Rightarrow> uint64 \<Rightarrow> uint64 \<Rightarrow> pmem \<Rightarrow> (uint64 \<times> pmem) outcome"
  where
  "uvmalloc_loop pagetable a oldsz newsz xperm s =
     (if a < newsz then
        andThen (kalloc s) (\<lambda>(pg, s1).
          if pg = 0 then andThen (uvmdealloc pagetable a oldsz s1) (\<lambda>(r, s2). Ok (0, s2))
          else andThen (mappages pagetable a PGSIZE pg (PTE_R OR PTE_U OR xperm)
              (s1\<lparr>mem := memset (mem s1) pg 0 4096\<rparr>)) (\<lambda>(r, s2).
            if r \<noteq> 0 then
              andThen (kfree pg s2) (\<lambda>s3.
              andThen (uvmdealloc pagetable a oldsz s3) (\<lambda>(r', s4). Ok (0, s4)))
            else uvmalloc_loop pagetable (a + PGSIZE) oldsz newsz xperm s2))
      else Ok (newsz, s))"
  by pat_completeness auto
termination
  by (relation "measure (\<lambda>(pt, a, old, new, xp, s). 2 ^ 64 - unat a)")
     (auto dest!: mappages_next_below)

declare uvmalloc_loop.simps [simp del]

definition uvmalloc :: "uint64 \<Rightarrow> uint64 \<Rightarrow> uint64 \<Rightarrow> uint64 \<Rightarrow> pmem \<Rightarrow> (uint64 \<times> pmem) outcome" where
  "uvmalloc pagetable oldsz newsz xperm s =
     (if newsz < oldsz then Ok (oldsz, s)
      else uvmalloc_loop pagetable (PGROUNDUP oldsz) (PGROUNDUP oldsz) newsz xperm s)"

text \<open>
  \<^verbatim>\<open>freewalk\<close> recurses into every valid non-leaf entry. A page that repeats on a path of the
  recursion makes it endless, and there are \<open>2 ^ 44\<close> page addresses an entry can hold, so the
  depth \<open>2 ^ 44 + 1\<close> is reached only by the recursion that never ends.
\<close>

fun freewalk_loop ::
    "(uint64 \<Rightarrow> pmem \<Rightarrow> pmem outcome) \<Rightarrow> uint64 \<Rightarrow> nat list \<Rightarrow> pmem \<Rightarrow> pmem outcome" where
  "freewalk_loop walk_child pagetable [] s = Ok s"
| "freewalk_loop walk_child pagetable (i # is) s =
     (let pte = load64 (mem s) (pagetable + 8 * of_nat i) in
      if pte AND PTE_V \<noteq> 0 \<and> pte AND (PTE_R OR PTE_W OR PTE_X) = 0
      then andThen (walk_child (PTE2PA pte) s) (\<lambda>s1.
        freewalk_loop walk_child pagetable is
          (s1\<lparr>mem := store64 (mem s1) (pagetable + 8 * of_nat i) 0\<rparr>))
      else if pte AND PTE_V \<noteq> 0 then Panic ''freewalk: leaf''
      else freewalk_loop walk_child pagetable is s)"

primrec freewalk_depth :: "nat \<Rightarrow> uint64 \<Rightarrow> pmem \<Rightarrow> pmem outcome" where
  "freewalk_depth 0 = (\<lambda>pagetable s. Spin)"
| "freewalk_depth (Suc d) = (\<lambda>pagetable s.
     andThen (freewalk_loop (freewalk_depth d) pagetable [0..<512] s) (kfree pagetable))"

definition freewalk :: "uint64 \<Rightarrow> pmem \<Rightarrow> pmem outcome" where
  "freewalk = freewalk_depth (2 ^ 44 + 1)"

definition uvmfree :: "uint64 \<Rightarrow> uint64 \<Rightarrow> pmem \<Rightarrow> pmem outcome" where
  "uvmfree pagetable sz s =
     andThen (if sz > 0 then uvmunmap pagetable 0 (PGROUNDUP sz div PGSIZE) True s else Ok s)
       (freewalk pagetable)"

function uvmcopy_loop :: "uint64 \<Rightarrow> uint64 \<Rightarrow> uint64 \<Rightarrow> uint64 \<Rightarrow> pmem \<Rightarrow> (int32 \<times> pmem) outcome" where
  "uvmcopy_loop old new i sz s =
     (if i < sz then
        andThen (walk old i False s) (\<lambda>(pte, s1).
          if pte = 0 then Panic ''uvmcopy: pte should exist''
          else let v = load64 (mem s1) pte in
            if v AND PTE_V = 0 then Panic ''uvmcopy: page not present''
            else andThen (kalloc s1) (\<lambda>(pg, s2).
              if pg = 0 then
                andThen (uvmunmap new 0 (i div PGSIZE) True s2) (\<lambda>s3. Ok (-1, s3))
              else andThen (mappages new i PGSIZE pg (PTE_FLAGS v)
                  (s2\<lparr>mem := memmove (mem s2) pg (PTE2PA v) 4096\<rparr>)) (\<lambda>(r, s3).
                if r \<noteq> 0 then
                  andThen (kfree pg s3) (\<lambda>s4.
                  andThen (uvmunmap new 0 (i div PGSIZE) True s4) (\<lambda>s5. Ok (-1, s5)))
                else uvmcopy_loop old new (i + PGSIZE) sz s3)))
      else Ok (0, s))"
  by pat_completeness auto
termination
  by (relation "measure (\<lambda>(old, new, i, sz, s). 2 ^ 64 - unat i)")
     (auto dest!: walk_Ok_below simp: unat_next_va word_less_nat_alt unat_MAXVA)

declare uvmcopy_loop.simps [simp del]

definition uvmcopy :: "uint64 \<Rightarrow> uint64 \<Rightarrow> uint64 \<Rightarrow> pmem \<Rightarrow> (int32 \<times> pmem) outcome" where
  "uvmcopy old new sz s = uvmcopy_loop old new 0 sz s"

definition uvmclear :: "uint64 \<Rightarrow> uint64 \<Rightarrow> pmem \<Rightarrow> pmem outcome" where
  "uvmclear pagetable va s =
     andThen (walk pagetable va False s) (\<lambda>(pte, s1).
       if pte = 0 then Panic ''uvmclear''
       else Ok (s1\<lparr>mem := store64 (mem s1) pte (load64 (mem s1) pte AND NOT PTE_U)\<rparr>))"

section \<open>Copying between kernel and user memory\<close>

definition chunk :: "uint64 \<Rightarrow> nat \<Rightarrow> nat" where
  "chunk va len = (let n = unat (PGSIZE - (va - PGROUNDDOWN va)) in if n > len then len else n)"

lemma offset_in_page: "unat (va - PGROUNDDOWN va) = unat va mod 4096"
proof -
  have "unat (PGROUNDDOWN va) \<le> unat va" by (simp add: unat_PGROUNDDOWN)
  then have "unat (va - PGROUNDDOWN va) = unat va - unat (PGROUNDDOWN va)"
    by (simp add: unat_sub word_le_nat_alt)
  then show ?thesis by (simp add: unat_PGROUNDDOWN minus_div_mult_eq_mod)
qed

lemma rest_of_page: "unat (PGSIZE - (va - PGROUNDDOWN va)) = 4096 - unat va mod 4096"
proof -
  have "va - PGROUNDDOWN va \<le> PGSIZE"
    using mod_less_divisor [of 4096 "unat va"] by (simp add: word_le_nat_alt offset_in_page)
  then show ?thesis by (simp add: unat_sub offset_in_page)
qed

lemma chunk_eq: "chunk va len = min len (4096 - unat va mod 4096)"
  by (simp add: chunk_def rest_of_page Let_def min_def)

lemma chunk_pos: "0 < len \<Longrightarrow> 0 < chunk va len"
  by (simp add: chunk_eq)

function copyout :: "uint64 \<Rightarrow> uint64 \<Rightarrow> uint8 list \<Rightarrow> pmem \<Rightarrow> (int32 \<times> pmem) outcome" where
  "copyout pagetable dstva src s =
     (if length src > 0 then
        andThen (walkaddr pagetable (PGROUNDDOWN dstva) s) (\<lambda>(pa0, s1).
          if pa0 = 0 then Ok (-1, s1)
          else let n = chunk dstva (length src) in
            copyout pagetable (PGROUNDDOWN dstva + PGSIZE) (drop n src)
              (s1\<lparr>mem := write_bytes (mem s1) (pa0 + (dstva - PGROUNDDOWN dstva)) (take n src)\<rparr>))
      else Ok (0, s))"
  by pat_completeness auto
termination
  by (relation "measure (\<lambda>(pt, va, src, s). length src)") (auto simp: chunk_pos)

declare copyout.simps [simp del]

text \<open>\<open>copyin\<close> returns with the status the bytes it stored at \<^verbatim>\<open>dst\<close>, also when it fails midway.\<close>

function copyin :: "uint64 \<Rightarrow> uint64 \<Rightarrow> nat \<Rightarrow> pmem \<Rightarrow> (int32 \<times> uint8 list \<times> pmem) outcome" where
  "copyin pagetable srcva len s =
     (if len > 0 then
        andThen (walkaddr pagetable (PGROUNDDOWN srcva) s) (\<lambda>(pa0, s1).
          if pa0 = 0 then Ok (-1, [], s1)
          else let n = chunk srcva len in
            andThen (copyin pagetable (PGROUNDDOWN srcva + PGSIZE) (len - n) s1) (\<lambda>(r, bs, s2).
              Ok (r, read_bytes (mem s1) (pa0 + (srcva - PGROUNDDOWN srcva)) n @ bs, s2)))
      else Ok (0, [], s))"
  by pat_completeness auto
termination
  by (relation "measure (\<lambda>(pt, va, len, s). len)") (auto simp: chunk_pos)

declare copyin.simps [simp del]

text \<open>The inner loop of \<^verbatim>\<open>copyinstr\<close>: up to \<open>n\<close> bytes from \<open>p\<close>, and whether a NUL was among them.\<close>

fun copyinstr_page :: "memory \<Rightarrow> uint64 \<Rightarrow> nat \<Rightarrow> uint8 list \<times> bool" where
  "copyinstr_page m p 0 = ([], False)"
| "copyinstr_page m p (Suc n) =
     (if m p = 0 then ([0], True)
      else let (bs, got_null) = copyinstr_page m (p + 1) n in (m p # bs, got_null))"

function copyinstr :: "uint64 \<Rightarrow> uint64 \<Rightarrow> nat \<Rightarrow> pmem \<Rightarrow> (int32 \<times> uint8 list \<times> pmem) outcome" where
  "copyinstr pagetable srcva maxlen s =
     (if maxlen > 0 then
        andThen (walkaddr pagetable (PGROUNDDOWN srcva) s) (\<lambda>(pa0, s1).
          if pa0 = 0 then Ok (-1, [], s1)
          else let n = chunk srcva maxlen;
                   (bs, got_null) = copyinstr_page (mem s1) (pa0 + (srcva - PGROUNDDOWN srcva)) n
            in if got_null then Ok (0, bs, s1)
               else andThen (copyinstr pagetable (PGROUNDDOWN srcva + PGSIZE) (maxlen - n) s1)
                 (\<lambda>(r, bs', s2). Ok (r, bs @ bs', s2)))
      else Ok (-1, [], s))"
  by pat_completeness auto
termination
  by (relation "measure (\<lambda>(pt, va, n, s). n)") (auto simp: chunk_pos)

declare copyinstr.simps [simp del]

end
