(* ===== verification/Pagetable.thy ===== *)
theory Pagetable
  imports Vm
begin

text \<open>
  The page tables of kernel/vm.c as trees. \<open>pt_wf m l pt\<close>: the table pages below \<open>pt\<close> at level
  \<open>l\<close> are aligned and no page occurs twice; \<open>pt_pages\<close> is their set; \<open>pt_val m l pt va\<close> is the
  level-0 entry of \<open>va\<close>, 0 where the table has no page for it. The lemmas show what \<^verbatim>\<open>walk\<close>
  does to them: it only adds pages taken from the allocator, and changes no entry.
\<close>

section \<open>The tree of table pages\<close>

definition child :: "memory \<Rightarrow> uint64 \<Rightarrow> uint64 \<Rightarrow> uint64 option" where
  "child m pt i =
     (let v = load64 m (pt + 8 * i) in
      if unat i < 512 \<and> v AND PTE_V \<noteq> 0 then Some (PTE2PA v) else None)"

definition table_page :: "uint64 \<Rightarrow> bool" where
  "table_page p \<longleftrightarrow> page_aligned p \<and> p \<noteq> 0"

fun pt_pages :: "memory \<Rightarrow> nat \<Rightarrow> uint64 \<Rightarrow> uint64 set" where
  "pt_pages m 0 pt = {pt}"
| "pt_pages m (Suc l) pt =
     insert pt (\<Union>i. case child m pt i of None \<Rightarrow> {} | Some c \<Rightarrow> pt_pages m l c)"

definition sub :: "memory \<Rightarrow> nat \<Rightarrow> uint64 \<Rightarrow> uint64 \<Rightarrow> uint64 set" where
  "sub m l pt i = (case child m pt i of None \<Rightarrow> {} | Some c \<Rightarrow> pt_pages m l c)"

text \<open>Entries that point to a lower table carry no permission bits.\<close>

definition interior_ok :: "memory \<Rightarrow> uint64 \<Rightarrow> bool" where
  "interior_ok m pt \<longleftrightarrow> (\<forall>i. unat i < 512 \<longrightarrow> load64 m (pt + 8 * i) AND PTE_V \<noteq> 0 \<longrightarrow>
     load64 m (pt + 8 * i) AND (PTE_R OR PTE_W OR PTE_X) = 0)"

fun pt_wf :: "memory \<Rightarrow> nat \<Rightarrow> uint64 \<Rightarrow> bool" where
  "pt_wf m 0 pt \<longleftrightarrow> table_page pt"
| "pt_wf m (Suc l) pt \<longleftrightarrow> table_page pt \<and> interior_ok m pt \<and>
     (\<forall>i c. child m pt i = Some c \<longrightarrow> pt_wf m l c) \<and>
     (\<forall>i. pt \<notin> sub m l pt i) \<and>
     (\<forall>i j. i \<noteq> j \<longrightarrow> sub m l pt i \<inter> sub m l pt j = {})"

fun pt_leaf :: "memory \<Rightarrow> nat \<Rightarrow> uint64 \<Rightarrow> uint64 \<Rightarrow> uint64 option" where
  "pt_leaf m 0 pt va = Some (pte_addr 0 pt va)"
| "pt_leaf m (Suc l) pt va =
     (case child m pt (PX (Suc l) va) of None \<Rightarrow> None | Some c \<Rightarrow> pt_leaf m l c va)"

definition pt_val :: "memory \<Rightarrow> nat \<Rightarrow> uint64 \<Rightarrow> uint64 \<Rightarrow> uint64" where
  "pt_val m l pt va = (case pt_leaf m l pt va of None \<Rightarrow> 0 | Some e \<Rightarrow> load64 m e)"

lemma pt_pages_Suc: "pt_pages m (Suc l) pt = insert pt (\<Union>i. sub m l pt i)"
  by (simp add: sub_def)

lemma pt_val_simps:
  "pt_val m 0 pt va = load64 m (pte_addr 0 pt va)"
  "pt_val m (Suc l) pt va =
     (case child m pt (PX (Suc l) va) of None \<Rightarrow> 0 | Some c \<Rightarrow> pt_val m l c va)"
  by (simp_all add: pt_val_def split: option.splits)

declare pt_pages.simps(2) [simp del]

lemma root_in_pages: "pt \<in> pt_pages m l pt"
  by (cases l) (simp_all add: pt_pages_Suc)

lemma in_sub_iff: "p \<in> sub m l pt i \<longleftrightarrow> (\<exists>c. child m pt i = Some c \<and> p \<in> pt_pages m l c)"
  by (simp add: sub_def split: option.split)

lemma in_pages_Suc:
  "p \<in> pt_pages m (Suc l) pt \<longleftrightarrow> p = pt \<or> (\<exists>i c. child m pt i = Some c \<and> p \<in> pt_pages m l c)"
  by (auto simp: pt_pages_Suc in_sub_iff)

lemma wf_pages_aligned: "pt_wf m l pt \<Longrightarrow> p \<in> pt_pages m l pt \<Longrightarrow> table_page p"
proof (induction l arbitrary: pt)
  case 0
  then show ?case by simp
next
  case (Suc l)
  then show ?case unfolding in_pages_Suc pt_wf.simps by blast
qed

section \<open>Framing\<close>

text \<open>\<open>agree_on P m m'\<close>: the memories agree on every page of \<open>P\<close>.\<close>

definition agree_on :: "uint64 set \<Rightarrow> memory \<Rightarrow> memory \<Rightarrow> bool" where
  "agree_on P m m' \<longleftrightarrow> (\<forall>p \<in> P. \<forall>a. unat (a - p) < 4096 \<longrightarrow> m' a = m a)"

lemma agree_on_mono: "agree_on P m m' \<Longrightarrow> Q \<subseteq> P \<Longrightarrow> agree_on Q m m'"
  by (auto simp: agree_on_def)

lemma agree_on_trans: "agree_on P m m' \<Longrightarrow> agree_on P m' m'' \<Longrightarrow> agree_on P m m''"
  by (simp add: agree_on_def)

lemma agree_on_Un: "agree_on (P \<union> Q) m m' \<longleftrightarrow> agree_on P m m' \<and> agree_on Q m m'"
  by (auto simp: agree_on_def)

lemma entry_offset:
  fixes i x pt :: uint64
  assumes "unat i < 512" and "unat (x - (pt + 8 * i)) < 8"
  shows "unat (x - pt) < 4096"
proof -
  have i8: "unat (8 * i) = 8 * unat i" using assms(1) by (simp add: unat_word_ariths)
  have "x - pt = 8 * i + (x - (pt + 8 * i))" by simp
  moreover have "unat (a + b) \<le> unat a + unat b" for a b :: uint64
    by (simp add: unat_word_ariths)
  ultimately have "unat (x - pt) \<le> unat (8 * i) + unat (x - (pt + 8 * i))" by metis
  with assms i8 show ?thesis by linarith
qed

lemma load64_agree_on:
  assumes "agree_on P m m'" and "pt \<in> P" and "unat i < 512"
  shows "load64 m' (pt + 8 * i) = load64 m (pt + 8 * i)"
  using assms by (intro load64_cong) (auto simp: agree_on_def dest: entry_offset)

lemma child_agree_on: "agree_on P m m' \<Longrightarrow> pt \<in> P \<Longrightarrow> child m' pt i = child m pt i"
  by (auto simp: child_def Let_def load64_agree_on)

lemma interior_agree_on: "agree_on P m m' \<Longrightarrow> pt \<in> P \<Longrightarrow> interior_ok m' pt = interior_ok m pt"
  by (auto simp: interior_ok_def load64_agree_on)

lemma pt_pages_agree: "agree_on (pt_pages m l pt) m m' \<Longrightarrow> pt_pages m' l pt = pt_pages m l pt"
proof (induction l arbitrary: pt)
  case 0
  then show ?case by simp
next
  case (Suc l)
  have "child m' pt i = child m pt i" for i
    using Suc.prems by (rule child_agree_on) (simp add: root_in_pages)
  moreover have "pt_pages m' l c = pt_pages m l c" if "child m pt i = Some c" for i c
    using Suc.prems that by (intro Suc.IH) (auto simp: in_pages_Suc elim!: agree_on_mono)
  ultimately show ?case by (auto simp: in_pages_Suc)
qed

lemma pages_of_child: "child m pt i = Some c \<Longrightarrow> pt_pages m l c \<subseteq> pt_pages m (Suc l) pt"
  by (auto simp: in_pages_Suc)

lemma agree_on_child:
  "agree_on (pt_pages m (Suc l) pt) m m' \<Longrightarrow> child m pt i = Some c \<Longrightarrow> agree_on (pt_pages m l c) m m'"
  by (rule agree_on_mono [OF _ pages_of_child])

lemma sub_agree:
  assumes "agree_on (pt_pages m (Suc l) pt) m m'"
  shows "sub m' l pt i = sub m l pt i"
proof -
  have "child m' pt i = child m pt i"
    using assms by (rule child_agree_on) (simp add: root_in_pages)
  with assms show ?thesis
    by (auto simp: sub_def split: option.splits
        dest: pt_pages_agree [OF agree_on_mono [OF _ pages_of_child]])
qed

lemma pt_wf_agree: "agree_on (pt_pages m l pt) m m' \<Longrightarrow> pt_wf m' l pt = pt_wf m l pt"
proof (induction l arbitrary: pt)
  case 0
  then show ?case by simp
next
  case (Suc l)
  have ch: "child m' pt i = child m pt i" for i
    using Suc.prems by (rule child_agree_on) (simp add: root_in_pages)
  have "pt_wf m' l c = pt_wf m l c" if "child m pt i = Some c" for i c
    using that by (intro Suc.IH agree_on_child [OF Suc.prems])
  moreover have "interior_ok m' pt = interior_ok m pt"
    using Suc.prems by (rule interior_agree_on) (simp add: root_in_pages)
  ultimately show ?case using sub_agree [OF Suc.prems] by (auto simp: ch)
qed

lemma pt_leaf_agree: "agree_on (pt_pages m l pt) m m' \<Longrightarrow> pt_leaf m' l pt va = pt_leaf m l pt va"
proof (induction l arbitrary: pt)
  case 0
  then show ?case by simp
next
  case (Suc l)
  have ch: "child m' pt i = child m pt i" for i
    using Suc.prems by (rule child_agree_on) (simp add: root_in_pages)
  have "pt_leaf m' l c va = pt_leaf m l c va" if "child m pt i = Some c" for i c
    using that by (intro Suc.IH agree_on_child [OF Suc.prems])
  then show ?case by (auto simp: ch split: option.splits)
qed

lemma pt_leaf_page:
  "pt_leaf m l pt va = Some e \<Longrightarrow> \<exists>q \<in> pt_pages m l pt. e = pte_addr 0 q va"
proof (induction l arbitrary: pt)
  case 0
  then show ?case by simp
next
  case (Suc l)
  then show ?case by (fastforce dest: pages_of_child [where l = l] split: option.splits)
qed

lemma pt_val_agree:
  assumes "agree_on (pt_pages m l pt) m m'"
  shows "pt_val m' l pt va = pt_val m l pt va"
proof (cases "pt_leaf m l pt va")
  case None
  then show ?thesis using assms by (simp add: pt_val_def pt_leaf_agree)
next
  case (Some e)
  then obtain q where "q \<in> pt_pages m l pt" and e: "e = q + 8 * PX 0 va"
    using pt_leaf_page by (fastforce simp: pte_addr_def)
  then have "load64 m' e = load64 m e"
    using assms PX_lt_512 by (auto intro: load64_agree_on)
  with Some show ?thesis using assms by (simp add: pt_val_def pt_leaf_agree)
qed

text \<open>A write inside an aligned page is invisible to every other page.\<close>

lemma agree_on_same_outside:
  assumes "same_outside q m m'" and "page_aligned q" and "q \<notin> P" and "\<forall>p \<in> P. page_aligned p"
  shows "agree_on P m m'"
  unfolding agree_on_def
proof (intro ballI allI impI)
  fix p a assume p: "p \<in> P" and a: "unat (a - p) < 4096"
  with assms have "apart 4096 q 4096 p" by (metis pages_apart)
  then have "4096 \<le> unat (a - q)" using a by (rule apart_offset)
  with assms(1) show "m' a = m a" by (simp add: same_outside_def)
qed

lemma same_outside_entry:
  assumes "unat i < 512"
  shows "same_outside q m (store64 m (q + 8 * i) v)"
  using entry_offset [OF assms] by (fastforce simp: same_outside_def store64_def)

section \<open>Changing one subtree\<close>

lemma pt_wf_SucD:
  assumes "pt_wf m (Suc l) pt"
  shows "table_page pt" and "j \<noteq> k \<Longrightarrow> sub m l pt j \<inter> sub m l pt k = {}"
    and "pt \<notin> sub m l pt j" and "child m pt j = Some d \<Longrightarrow> pt_wf m l d" and "interior_ok m pt"
  using assms by auto

lemma subtree_change:
  assumes wf: "pt_wf m (Suc l) pt" and int: "interior_ok m' pt"
    and others_all: "\<forall>j. j \<noteq> i \<longrightarrow> child m' pt j = child m pt j"
    and agree_all: "\<forall>j. j \<noteq> i \<longrightarrow> agree_on (sub m l pt j) m m'"
    and new: "child m' pt i = Some c" and wf_c: "pt_wf m' l c"
    and pt: "pt \<notin> pt_pages m' l c"
    and disj_all: "\<forall>j. j \<noteq> i \<longrightarrow> sub m l pt j \<inter> pt_pages m' l c = {}"
  shows "pt_wf m' (Suc l) pt"
    and "pt_pages m' (Suc l) pt = insert pt (pt_pages m' l c \<union> (\<Union>j \<in> - {i}. sub m l pt j))"
    and "pt_val m' (Suc l) pt va =
      (if PX (Suc l) va = i then pt_val m' l c va else pt_val m (Suc l) pt va)"
proof -
  note old = pt_wf_SucD [OF wf]
  note others = others_all [rule_format] and agree = agree_all [rule_format] and disj = disj_all [rule_format]
  have sub_j: "sub m' l pt j = (if j = i then pt_pages m' l c else sub m l pt j)" for j
  proof (cases "j = i")
    case True
    with new show ?thesis by (simp add: sub_def)
  next
    case False
    from others [OF False] agree [OF False] False show ?thesis
      by (auto simp: sub_def pt_pages_agree split: option.split)
  qed
  have wf_j: "pt_wf m' l d" if "child m' pt j = Some d" for j d
  proof (cases "j = i")
    case True
    with that new wf_c show ?thesis by simp
  next
    case False
    then have d: "child m pt j = Some d" using that others by simp
    then have "agree_on (pt_pages m l d) m m'" using agree [OF False] by (simp add: sub_def)
    then show ?thesis using old(4) [OF d] by (simp add: pt_wf_agree)
  qed
  have apart: "sub m' l pt j \<inter> sub m' l pt k = {}" if "j \<noteq> k" for j k
    using disj [of j] disj [of k] old(2) [OF that] that by (auto simp: sub_j)
  have root: "pt \<notin> sub m' l pt j" for j
    using old(3) pt by (simp add: sub_j)
  from old(1) int wf_j apart root show "pt_wf m' (Suc l) pt" by simp
  show "pt_pages m' (Suc l) pt = insert pt (pt_pages m' l c \<union> (\<Union>j \<in> - {i}. sub m l pt j))"
    unfolding pt_pages_Suc by (auto simp: sub_j split: if_splits)
  show "pt_val m' (Suc l) pt va =
      (if PX (Suc l) va = i then pt_val m' l c va else pt_val m (Suc l) pt va)"
    using new others [of "PX (Suc l) va"] agree [of "PX (Suc l) va"]
    by (auto simp: pt_val_simps sub_def pt_val_agree split: option.split)
qed

section \<open>Storing a level-0 entry\<close>

lemma pt_leaf_store:
  assumes "pt_wf m l pt" and "pt_leaf m l pt va = Some e"
  shows "pt_wf (store64 m e v) l pt \<and> pt_pages (store64 m e v) l pt = pt_pages m l pt \<and>
     (\<forall>va'. pt_leaf (store64 m e v) l pt va' = pt_leaf m l pt va')"
  using assms
proof (induction l arbitrary: pt)
  case 0
  then show ?case by simp
next
  case (Suc l)
  let ?m = "store64 m e v"
  obtain c where c: "child m pt (PX (Suc l) va) = Some c" and e: "pt_leaf m l c va = Some e"
    using Suc.prems(2) by (auto split: option.splits)
  have wf_c: "pt_wf m l c" using Suc.prems(1) c by auto
  have IH: "pt_wf ?m l c" "pt_pages ?m l c = pt_pages m l c" "\<And>va'. pt_leaf ?m l c va' = pt_leaf m l c va'"
    using Suc.IH [OF wf_c e] by auto
  obtain q where q: "q \<in> pt_pages m l c" and eq: "e = q + 8 * PX 0 va"
    using pt_leaf_page [OF e] by (auto simp: pte_addr_def)
  have al: "page_aligned q" using wf_pages_aligned [OF wf_c q] by (simp add: table_page_def)
  have so: "same_outside q m ?m" unfolding eq by (rule same_outside_entry [OF PX_lt_512])
  have outside: "agree_on P m ?m" if "q \<notin> P" "P \<subseteq> pt_pages m (Suc l) pt" for P
    using that wf_pages_aligned [OF Suc.prems(1)]
    by (intro agree_on_same_outside [OF so al]) (auto simp: table_page_def)
  have q_sub: "q \<in> sub m l pt (PX (Suc l) va)" using q c by (simp add: in_sub_iff)
  have "pt \<noteq> q" using Suc.prems(1) q_sub by auto
  then have ch: "child ?m pt j = child m pt j" for j
    using outside [of "{pt}"] by (intro child_agree_on) (auto simp: root_in_pages)
  have "agree_on {pt} m ?m" using \<open>pt \<noteq> q\<close> by (intro outside) (auto simp: root_in_pages)
  then have int: "interior_ok ?m pt"
    using interior_agree_on pt_wf_SucD(5) [OF Suc.prems(1)] by blast
  have ag: "agree_on (sub m l pt j) m ?m" if "j \<noteq> PX (Suc l) va" for j
    using pt_wf_SucD(2) [OF Suc.prems(1) that] q_sub by (intro outside) (auto simp: in_sub_iff in_pages_Suc)
  have leaf: "pt_leaf ?m l d va' = pt_leaf m l d va'" if "child m pt j = Some d" for j d va'
    using that c IH(3) ag [of j] by (cases "j = PX (Suc l) va") (auto simp: sub_def pt_leaf_agree)
  have sub: "sub ?m l pt j = sub m l pt j" for j
    using c IH(2) ag [of j]
    by (cases "j = PX (Suc l) va") (auto simp: sub_def ch pt_pages_agree split: option.splits)
  have wf: "pt_wf ?m l d" if "child m pt j = Some d" for j d
    using that c IH(1) ag [of j] Suc.prems(1)
    by (cases "j = PX (Suc l) va") (auto simp: sub_def pt_wf_agree)
  show ?case
    using Suc.prems(1) wf leaf int by (auto simp: ch sub pt_pages_Suc split: option.splits)
qed

lemma pte_addr_apart:
  assumes "PX 0 va \<noteq> PX 0 va'"
  shows "apart 8 (pte_addr 0 q va) 8 (pte_addr 0 q va')"
proof -
  have px: "unat (8 * PX 0 v) = 8 * unat (PX 0 v)" for v
    using PX_lt_512 [of 0 v] by (simp add: unat_word_ariths)
  have "unat (PX 0 va) \<noteq> unat (PX 0 va')" using assms by (simp add: word_unat_eq_iff)
  moreover have "pte_addr 0 q va' - pte_addr 0 q va = 8 * PX 0 va' - 8 * PX 0 va"
    "pte_addr 0 q va - pte_addr 0 q va' = 8 * PX 0 va - 8 * PX 0 va'"
    by (simp_all add: pte_addr_def)
  ultimately show ?thesis
    using PX_lt_512 [of 0 va] PX_lt_512 [of 0 va']
    by (auto simp: apart_def unat_sub_if_size word_size px)
qed

lemma entries_apart:
  fixes q r i j :: uint64
  assumes ap: "apart 4096 q 4096 r" and i: "unat i < 512" and j: "unat j < 512"
  shows "apart 8 (q + 8 * i) 8 (r + 8 * j)"
proof (rule ccontr)
  let ?a = "q + 8 * i" and ?b = "r + 8 * j"
  assume "\<not> ?thesis"
  then consider "unat (?b - ?a) < 8" | "unat (?a - ?b) < 8" by (auto simp: apart_def)
  then obtain x where "unat (x - ?a) < 8" and "unat (x - ?b) < 8"
    by cases (auto intro: that [of ?b] that [of ?a])
  then have "unat (x - q) < 4096" and "unat (x - r) < 4096"
    using entry_offset i j by blast+
  with apart_offset [OF ap, of x] show False by simp
qed

text \<open>Addresses whose table indices differ at some level up to \<open>l\<close> have disjoint entries.\<close>

lemma pt_leaf_apart:
  assumes "pt_wf m l pt" and "pt_leaf m l pt va = Some e" and "pt_leaf m l pt va' = Some e'"
    and "\<exists>k \<le> l. PX k va \<noteq> PX k va'"
  shows "apart 8 e 8 e'"
  using assms
proof (induction l arbitrary: pt)
  case 0
  then show ?case by (auto simp: pte_addr_apart)
next
  case (Suc l)
  obtain c d where c: "child m pt (PX (Suc l) va) = Some c" "pt_leaf m l c va = Some e"
    and d: "child m pt (PX (Suc l) va') = Some d" "pt_leaf m l d va' = Some e'"
    using Suc.prems(2,3) by (auto split: option.splits)
  have wf: "pt_wf m l c" "pt_wf m l d" using Suc.prems(1) c(1) d(1) by auto
  show ?case
  proof (cases "PX (Suc l) va = PX (Suc l) va'")
    case True
    then have "\<exists>k \<le> l. PX k va \<noteq> PX k va'" using Suc.prems(4) by (auto simp: le_Suc_eq)
    with Suc.IH wf c d True show ?thesis by simp
  next
    case False
    obtain q r where q: "q \<in> pt_pages m l c" "e = q + 8 * PX 0 va"
      and r: "r \<in> pt_pages m l d" "e' = r + 8 * PX 0 va'"
      using pt_leaf_page [OF c(2)] pt_leaf_page [OF d(2)] by (auto simp: pte_addr_def)
    have "q \<in> sub m l pt (PX (Suc l) va)" "r \<in> sub m l pt (PX (Suc l) va')"
      using q r c d by (auto simp: in_sub_iff)
    then have "q \<noteq> r" using pt_wf_SucD(2) [OF Suc.prems(1) False] by auto
    then have ap: "apart 4096 q 4096 r"
      using wf_pages_aligned [OF wf(1) q(1)] wf_pages_aligned [OF wf(2) r(1)]
      by (intro pages_apart) (auto simp: table_page_def)
    show ?thesis unfolding q(2) r(2) using ap PX_lt_512 PX_lt_512 by (rule entries_apart)
  qed
qed

section \<open>What walk does\<close>

lemma PTE_V_bit: "v AND PTE_V \<noteq> 0 \<longleftrightarrow> bit v 0"
  by (simp add: PTE_V_def and_one_eq odd_iff_mod_2_eq_one bit_0)

lemma take_bit_PTE_V: "take_bit 10 PTE_V = PTE_V"
  by (simp add: PTE_V_def)

lemma child_fresh:
  assumes z: "\<And>a. unat (a - pg) < 4096 \<Longrightarrow> m a = 0"
  shows "child m pg i = None"
proof -
  have "load64 m (pg + 8 * i) = load64 (\<lambda>_. 0) (pg + 8 * i)" if "unat i < 512"
    using z entry_offset [OF that] by (intro load64_cong) auto
  then show ?thesis by (simp add: child_def Let_def load64_zero)
qed

text \<open>A zeroed page is an empty table of any level.\<close>

lemma zero_page_table:
  assumes "table_page pg" and zero: "\<forall>a. unat (a - pg) < 4096 \<longrightarrow> m a = 0"
  shows "pt_wf m l pg" and "pt_pages m l pg = {pg}" and "pt_val m l pg va = 0"
proof -
  note z = zero [rule_format]
  have ch: "child m pg i = None" for i using z by (rule child_fresh)
  have "load64 m (pg + 8 * i) = load64 (\<lambda>_. 0) (pg + 8 * i)" if "unat i < 512" for i
    using z entry_offset [OF that] by (intro load64_cong) auto
  then have "interior_ok m pg" by (simp add: interior_ok_def load64_zero)
  then show "pt_wf m l pg" using assms(1) by (cases l) (simp_all add: ch sub_def)
  show "pt_pages m l pg = {pg}" by (cases l) (simp_all add: ch pt_pages_Suc sub_def)
  have "load64 m (pg + 8 * PX 0 va) = load64 (\<lambda>_. 0) (pg + 8 * PX 0 va)"
    using z entry_offset [OF PX_lt_512] by (intro load64_cong) auto
  then show "pt_val m l pg va = 0"
    by (cases l) (simp_all add: pt_val_simps ch pte_addr_def load64_zero)
qed

lemma page_ok_table: "0 < kend s \<Longrightarrow> page_ok s p \<Longrightarrow> table_page p"
  using page_ok_nonzero by (auto simp: page_ok_def table_page_def)

lemma PTE2PA_new_entry:
  assumes "page_aligned pg" and "pg < PHYSTOP" and "take_bit 10 f = f"
  shows "PTE2PA (PA2PTE pg OR f) = pg"
proof (rule PTE2PA_PA2PTE [OF _ _ assms(3)])
  show "take_bit 12 pg = 0"
    using assms(1) by (simp add: page_aligned_def take_bit_eq_mod PGSIZE_def)
  have "unat pg < 2 ^ 56" using assms(2) by (simp add: word_less_nat_alt unat_PHYSTOP)
  then show "take_bit 56 pg = pg"
    by (simp add: word_unat_eq_iff unsigned_take_bit_eq take_bit_nat_eq_self)
qed

text \<open>\<open>changes_in P m m'\<close>: the memories differ only inside the pages of \<open>P\<close>.\<close>

definition changes_in :: "uint64 set \<Rightarrow> memory \<Rightarrow> memory \<Rightarrow> bool" where
  "changes_in P m m' \<longleftrightarrow> (\<forall>a. (\<forall>p \<in> P. 4096 \<le> unat (a - p)) \<longrightarrow> m' a = m a)"

lemma changes_in_refl [simp]: "changes_in P m m"
  by (simp add: changes_in_def)

lemma changes_in_mono: "changes_in P m m' \<Longrightarrow> P \<subseteq> Q \<Longrightarrow> changes_in Q m m'"
  by (auto simp: changes_in_def)

lemma changes_in_trans:
  "changes_in P m m' \<Longrightarrow> changes_in Q m' m'' \<Longrightarrow> changes_in (P \<union> Q) m m''"
  by (simp add: changes_in_def)

lemma changes_in_single: "changes_in {p} m m' \<longleftrightarrow> same_outside p m m'"
  by (simp add: changes_in_def same_outside_def)

lemma changes_in_agree:
  assumes "changes_in P m m'" and "P \<inter> Q = {}" and "\<forall>p \<in> P \<union> Q. page_aligned p"
  shows "agree_on Q m m'"
  unfolding agree_on_def
proof (intro ballI allI impI)
  fix q a assume q: "q \<in> Q" and a: "unat (a - q) < 4096"
  have "4096 \<le> unat (a - p)" if "p \<in> P" for p
  proof -
    have "apart 4096 p 4096 q" using assms that q by (intro pages_apart) auto
    then show ?thesis using a by (rule apart_offset)
  qed
  with assms(1) show "m' a = m a" by (simp add: changes_in_def)
qed

lemma free_chain_agree: "agree_on (set ps) m m' \<Longrightarrow> free_chain m' r ps = free_chain m r ps"
proof (induction ps arbitrary: r)
  case Nil
  show ?case by simp
next
  case (Cons p ps)
  then have "load64 m' p = load64 m p"
    using load64_agree_on [of _ m m' p 0] by simp
  moreover have "agree_on (set ps) m m'" using Cons.prems by (simp add: agree_on_def)
  ultimately show ?case using Cons.IH by simp
qed

lemma kmem_inv_agree:
  assumes "kmem_inv s ps" and "agree_on (set ps) (mem s) m'"
  shows "kmem_inv (s\<lparr>mem := m'\<rparr>) ps"
  using assms by (auto simp: kmem_inv_def page_ok_def free_chain_agree)

text \<open>
  \<open>pt_own s ps l pt\<close>: the allocator is usable with the free pages \<open>ps\<close>, and the table at \<open>pt\<close> is
  a tree of pages that are not free. \<open>pt_grown\<close>: the step from \<open>s\<close> to \<open>s'\<close> linked the pages \<open>us\<close>
  into the table and changed no level-0 entry.
\<close>

definition pt_own :: "pmem \<Rightarrow> uint64 list \<Rightarrow> nat \<Rightarrow> uint64 \<Rightarrow> bool" where
  "pt_own s ps l pt \<longleftrightarrow> kmem_ready s \<and> kmem_inv s ps \<and> pt_wf (mem s) l pt \<and>
     pt_pages (mem s) l pt \<inter> set ps = {}"

definition pt_grown :: "pmem \<Rightarrow> pmem \<Rightarrow> nat \<Rightarrow> uint64 \<Rightarrow> uint64 list \<Rightarrow> bool" where
  "pt_grown s s' l pt us \<longleftrightarrow> kend s' = kend s \<and>
     pt_pages (mem s') l pt = pt_pages (mem s) l pt \<union> set us \<and>
     (\<forall>va. pt_val (mem s') l pt va = pt_val (mem s) l pt va) \<and>
     changes_in (pt_pages (mem s) l pt \<union> set us) (mem s) (mem s')"

lemma pt_own_aligned:
  "pt_own s ps l pt \<Longrightarrow> p \<in> pt_pages (mem s) l pt \<union> set ps \<Longrightarrow> page_aligned p"
  by (auto simp: pt_own_def kmem_inv_def page_ok_def table_page_def dest: wf_pages_aligned)

lemma pt_own_child:
  "pt_own s ps (Suc l) pt \<Longrightarrow> child (mem s) pt i = Some c \<Longrightarrow> pt_own s ps l c"
  using pages_of_child [of "mem s" pt i c l] by (auto simp: pt_own_def dest: pt_wf_SucD(4))

lemma pt_grown_child:
  assumes own: "pt_own s ps (Suc l) pt" and c: "child (mem s) pt i = Some c"
    and ps: "ps = us @ ps'" and own': "pt_own s' ps' l c" and grown: "pt_grown s s' l c us"
  shows "pt_own s' ps' (Suc l) pt" and "pt_grown s s' (Suc l) pt us"
    and "child (mem s') pt i = Some c"
proof -
  let ?m = "mem s" and ?m' = "mem s'"
  have wf: "pt_wf ?m (Suc l) pt" and disj: "pt_pages ?m (Suc l) pt \<inter> set ps = {}"
    using own by (auto simp: pt_own_def)
  have g: "pt_pages ?m' l c = pt_pages ?m l c \<union> set us" "changes_in (pt_pages ?m l c \<union> set us) ?m ?m'"
    using grown by (auto simp: pt_grown_def)
  have sub_i: "sub ?m l pt i = pt_pages ?m l c" using c by (simp add: sub_def)
  have agree: "agree_on P ?m ?m'"
    if "P \<subseteq> pt_pages ?m (Suc l) pt" "P \<inter> pt_pages ?m l c = {}" for P
    using that disj ps pages_of_child [OF c, of l] pt_own_aligned [OF own]
    by (intro changes_in_agree [OF g(2)]) auto
  have ch: "child ?m' pt j = child ?m pt j" for j
    using pt_wf_SucD(3) [OF wf, of i] sub_i
    by (intro child_agree_on [OF agree [of "{pt}"]]) (auto simp: root_in_pages)
  then show ch_i: "child ?m' pt i = Some c" using c by simp
  have sub_pages: "sub ?m l pt j \<subseteq> pt_pages ?m (Suc l) pt" for j by (auto simp: pt_pages_Suc)
  have sib: "sub ?m l pt j \<inter> pt_pages ?m l c = {}" if "j \<noteq> i" for j
    using pt_wf_SucD(2) [OF wf that] sub_i by simp
  have new: "pt_wf ?m' l c" using own' by (simp add: pt_own_def)
  have root: "pt \<notin> pt_pages ?m' l c"
    using pt_wf_SucD(3) [OF wf, of i] sub_i g(1) disj ps root_in_pages [of pt ?m "Suc l"] by auto
  have apart: "sub ?m l pt j \<inter> pt_pages ?m' l c = {}" if "j \<noteq> i" for j
    using sib [OF that] sub_pages [of j] disj ps g(1) by auto
  have "\<forall>j. j \<noteq> i \<longrightarrow> child ?m' pt j = child ?m pt j"
    "\<forall>j. j \<noteq> i \<longrightarrow> agree_on (sub ?m l pt j) ?m ?m'"
    "\<forall>j. j \<noteq> i \<longrightarrow> sub ?m l pt j \<inter> pt_pages ?m' l c = {}"
    using ch agree [OF sub_pages sib] apart by blast+
  moreover have "interior_ok ?m' pt"
    using pt_wf_SucD(3,5) [OF wf] sub_i agree [of "{pt}"] interior_agree_on [of "{pt}" ?m ?m' pt]
    by (auto simp: root_in_pages)
  ultimately have facts: "interior_ok ?m' pt"
    "\<forall>j. j \<noteq> i \<longrightarrow> child ?m' pt j = child ?m pt j"
    "\<forall>j. j \<noteq> i \<longrightarrow> agree_on (sub ?m l pt j) ?m ?m'"
    "\<forall>j. j \<noteq> i \<longrightarrow> sub ?m l pt j \<inter> pt_pages ?m' l c = {}" by blast+
  note change = subtree_change [OF wf facts(1-3) ch_i new root facts(4)]
  have split: "pt_pages ?m (Suc l) pt = insert pt (pt_pages ?m l c \<union> (\<Union>j \<in> - {i}. sub ?m l pt j))"
    unfolding pt_pages_Suc using sub_i by auto
  have pages: "pt_pages ?m' (Suc l) pt = pt_pages ?m (Suc l) pt \<union> set us"
    unfolding change(2) split g(1) by auto
  show "pt_own s' ps' (Suc l) pt"
    using own' change(1) pages disj ps own by (auto simp: pt_own_def kmem_inv_def)
  have "pt_val ?m' (Suc l) pt va = pt_val ?m (Suc l) pt va" for va
    unfolding change(3) using grown c by (simp add: pt_grown_def pt_val_simps(2))
  moreover have "changes_in (pt_pages ?m (Suc l) pt \<union> set us) ?m ?m'"
    using g(2) by (rule changes_in_mono) (use pages_of_child [OF c] in auto)
  ultimately show "pt_grown s s' (Suc l) pt us"
    using grown pages by (simp add: pt_grown_def)
qed

lemma pt_grown_trans:
  assumes "pt_grown s s' l pt us" and "pt_grown s' s'' l pt vs"
  shows "pt_grown s s'' l pt (us @ vs)"
proof -
  have "changes_in (pt_pages (mem s) l pt \<union> set us) (mem s) (mem s')"
    "changes_in (pt_pages (mem s') l pt \<union> set vs) (mem s') (mem s'')"
    using assms by (auto simp: pt_grown_def)
  note changes_in_trans [OF this]
  then have "changes_in (pt_pages (mem s) l pt \<union> set (us @ vs)) (mem s) (mem s'')"
    by (rule changes_in_mono) (use assms in \<open>auto simp: pt_grown_def\<close>)
  then show ?thesis using assms by (auto simp: pt_grown_def)
qed

lemma entries_of_page_apart:
  assumes "i \<noteq> j" and "unat i < 512" and "unat j < 512"
  shows "apart 8 (pt + 8 * i) 8 (pt + 8 * j)"
proof -
  have mul: "unat (8 * k) = 8 * unat k" if "unat k < 512" for k :: uint64
    using that by (simp add: unat_word_ariths)
  have "unat i \<noteq> unat j" using assms(1) by (simp add: word_unat_eq_iff)
  then show ?thesis
    using assms(2,3) by (auto simp: apart_def unat_sub_if_size word_size mul)
qed

lemma new_entry_interior: "(PA2PTE p OR PTE_V) AND (PTE_R OR PTE_W OR PTE_X) = 0"
proof -
  have "PA2PTE p OR PTE_V = push_bit 10 (drop_bit 12 p) OR push_bit 0 1"
    and "PTE_R OR PTE_W OR PTE_X = push_bit 1 1 OR push_bit 2 1 OR push_bit 3 1"
    unfolding PA2PTE_def PTE_V_def PTE_R_def PTE_W_def PTE_X_def by (rule refl)+
  then show ?thesis
    by (simp only:) (rule bit_eqI, simp only: bit_and_iff bit_or_iff bit_push_bit_iff bit_1_iff bit_0_eq, auto)
qed

lemma child_store_other:
  assumes "i \<noteq> j" and "unat i < 512"
  shows "child (store64 m (pt + 8 * i) v) pt j = child m pt j"
proof (cases "unat j < 512")
  case True
  then show ?thesis using entries_of_page_apart [OF assms] by (simp add: child_def load64_store64_apart)
next
  case False
  then show ?thesis by (simp add: child_def Let_def)
qed

text \<open>The step of \<^verbatim>\<open>walk\<close> that links a new table page \<open>p\<close> at index \<open>i\<close>.\<close>

definition link_page :: "uint64 \<Rightarrow> uint64 \<Rightarrow> uint64 \<Rightarrow> memory \<Rightarrow> memory" where
  "link_page pt i p m =
     store64 (memset (memset m p 5 4096) p 0 4096) (pt + 8 * i) (PA2PTE p OR PTE_V)"

lemma link_page_facts:
  assumes "page_aligned p" "page_aligned pt" "p \<noteq> pt" "unat i < 512" "p < PHYSTOP"
  shows "changes_in {p, pt} m (link_page pt i p m)"
    and "unat (a - p) < 4096 \<Longrightarrow> link_page pt i p m a = 0"
    and "child (link_page pt i p m) pt i = Some p"
    and "j \<noteq> i \<Longrightarrow> child (link_page pt i p m) pt j = child m pt j"
    and "interior_ok m pt \<Longrightarrow> interior_ok (link_page pt i p m) pt"
proof -
  let ?m1 = "memset (memset m p 5 4096) p 0 4096"
  have so1: "same_outside p m ?m1"
    by (rule same_outside_trans [OF same_outside_memset same_outside_memset])
  have so2: "same_outside pt ?m1 (link_page pt i p m)"
    unfolding link_page_def by (rule same_outside_entry [OF assms(4)])
  show "changes_in {p, pt} m (link_page pt i p m)"
    using so1 so2 by (simp add: changes_in_def same_outside_def)
  have "agree_on {p} ?m1 (link_page pt i p m)"
    using assms by (intro agree_on_same_outside [OF so2]) auto
  then show "link_page pt i p m a = 0" if "unat (a - p) < 4096"
    using that by (simp add: agree_on_def memset_apply)
  have "PTE2PA (PA2PTE p OR PTE_V) = p"
    using assms by (intro PTE2PA_new_entry) (auto simp: take_bit_PTE_V)
  moreover have "(PA2PTE p OR PTE_V) AND PTE_V \<noteq> 0"
    unfolding PTE_V_bit by (simp add: bit_or_iff PTE_V_def)
  ultimately show "child (link_page pt i p m) pt i = Some p"
    using assms(4) by (simp add: child_def link_page_def)
  have "agree_on {pt} m ?m1"
    using assms by (intro agree_on_same_outside [OF so1]) auto
  then have kept: "child ?m1 pt j = child m pt j" "interior_ok ?m1 pt = interior_ok m pt"
    using child_agree_on interior_agree_on by blast+
  have entry: "(PA2PTE p OR PTE_V) AND (PTE_R OR PTE_W OR PTE_X) = 0"
    by (rule new_entry_interior)
  have "load64 (link_page pt i p m) (pt + 8 * k) = load64 ?m1 (pt + 8 * k)"
    if "k \<noteq> i" "unat k < 512" for k
    using that assms(4) unfolding link_page_def by (intro load64_store64_apart entries_of_page_apart) auto
  then show "interior_ok (link_page pt i p m) pt" if "interior_ok m pt"
    using that entry kept(2) unfolding interior_ok_def by (metis link_page_def load64_store64)
  from kept(1) show "child (link_page pt i p m) pt j = child m pt j" if "j \<noteq> i"
    using that assms(4) by (simp add: link_page_def child_store_other)
qed

lemma pt_link:
  assumes own: "pt_own s (p # ps) (Suc l) pt" and none: "child (mem s) pt i = None"
    and i: "unat i < 512"
    and s': "s' = s\<lparr>mach := touch (mach s), freelist := load64 (mem s) p, mem := link_page pt i p (mem s)\<rparr>"
  shows "pt_own s' ps (Suc l) pt" and "pt_grown s s' (Suc l) pt [p]" and "child (mem s') pt i = Some p"
proof -
  let ?m = "mem s" and ?m' = "link_page pt i p (mem s)"
  have wf: "pt_wf ?m (Suc l) pt" and disj: "pt_pages ?m (Suc l) pt \<inter> set (p # ps) = {}"
    and inv: "kmem_inv s (p # ps)"
    using own by (auto simp: pt_own_def)
  have al: "page_aligned p" "page_aligned pt" "p < PHYSTOP" "table_page p"
    using pt_own_aligned [OF own] inv page_ok_table
    by (auto simp: root_in_pages kmem_inv_def page_ok_def)
  have ne: "p \<noteq> pt" using disj root_in_pages [of pt ?m "Suc l"] by auto
  note link = link_page_facts [OF al(1,2) ne i al(3), where m = ?m]
  have agree: "agree_on P ?m ?m'" if "P \<subseteq> pt_pages ?m (Suc l) pt \<union> set ps" "pt \<notin> P" "p \<notin> P" for P
    using that pt_own_aligned [OF own] al by (intro changes_in_agree [OF link(1)]) auto
  have empty_i: "sub ?m l pt i = {}" using none by (simp add: sub_def)
  have sub_pages: "sub ?m l pt j \<subseteq> pt_pages ?m (Suc l) pt" for j by (auto simp: pt_pages_Suc)
  have p_out: "p \<notin> sub ?m l pt j" for j using disj sub_pages [of j] by auto
  have "\<forall>a. unat (a - p) < 4096 \<longrightarrow> ?m' a = 0" using link(2) by blast
  note fresh = zero_page_table [OF al(4) this, where l = l]
  have ag_sub: "agree_on (sub ?m l pt j) ?m ?m'" for j
    using sub_pages [of j] pt_wf_SucD(3) [OF wf] p_out by (intro agree) auto
  have root: "pt \<notin> pt_pages ?m' l p" using ne by (simp add: fresh(2))
  have apart: "sub ?m l pt j \<inter> pt_pages ?m' l p = {}" for j using p_out by (simp add: fresh(2))
  have "\<forall>j. j \<noteq> i \<longrightarrow> child ?m' pt j = child ?m pt j"
    "\<forall>j. j \<noteq> i \<longrightarrow> agree_on (sub ?m l pt j) ?m ?m'"
    "\<forall>j. j \<noteq> i \<longrightarrow> sub ?m l pt j \<inter> pt_pages ?m' l p = {}"
    using link(4) ag_sub apart by blast+
  note facts = this
  note change = subtree_change [OF wf link(5) [OF pt_wf_SucD(5) [OF wf]] facts(1,2) link(3) fresh(1) root facts(3)]
  have pages: "pt_pages ?m' (Suc l) pt = pt_pages ?m (Suc l) pt \<union> set [p]"
    unfolding change(2) fresh(2) using empty_i by (auto simp: pt_pages_Suc)
  show "child (mem s') pt i = Some p" using link(3) by (simp add: s')
  have "pt \<notin> set ps" "p \<notin> set ps"
    using disj root_in_pages [of pt ?m "Suc l"] inv by (auto simp: kmem_inv_def)
  then have "agree_on (set ps) (memset ?m p 5 4096) ?m'"
    using agree_on_trans [of "set ps"] agree [of "set ps"]
      agree_on_same_outside [OF same_outside_memset al(1), of "set ps"] pt_own_aligned [OF own]
    by (auto simp: agree_on_def)
  then have "kmem_inv s' ps"
    using kmem_inv_agree [OF kmem_inv_tail [OF inv, of "touch (mach s)"], of ?m'] by (simp add: s')
  moreover have "pt_pages ?m' (Suc l) pt \<inter> set ps = {}"
    using pages disj inv by (auto simp: kmem_inv_def)
  ultimately show "pt_own s' ps (Suc l) pt"
    using own change(1) by (simp add: pt_own_def s' kmem_ready_def)
  have "pt_val ?m' (Suc l) pt va = pt_val ?m (Suc l) pt va" for va
    unfolding change(3) using none fresh(3) by (simp add: pt_val_simps(2))
  moreover have "changes_in (pt_pages ?m (Suc l) pt \<union> set [p]) ?m ?m'"
    using link(1) by (rule changes_in_mono) (auto simp: root_in_pages)
  ultimately show "pt_grown s s' (Suc l) pt [p]"
    using pages by (simp add: pt_grown_def s')
qed

text \<open>
  \<^verbatim>\<open>walk\<close> with \<^verbatim>\<open>alloc\<close> set: it returns the address of the level-0 entry of \<open>va\<close>, after linking
  the table pages that were missing, or 0 when the allocator ran out of pages.
\<close>

lemma pt_leaf_nonzero:
  assumes "pt_wf m l pt" and "pt_leaf m l pt va = Some e"
  shows "e \<noteq> 0"
proof
  assume "e = 0"
  obtain q where q: "q \<in> pt_pages m l pt" and e: "e = q + 8 * PX 0 va"
    using pt_leaf_page [OF assms(2)] by (auto simp: pte_addr_def)
  have al: "page_aligned q" "q \<noteq> 0" using wf_pages_aligned [OF assms(1) q] by (auto simp: table_page_def)
  have "page_aligned 0" by (simp add: page_aligned_def)
  then have "apart 4096 q 4096 0" using al by (intro pages_apart) auto
  moreover have "unat (e - q) < 4096"
    by (rule entry_offset [OF PX_lt_512 [of 0 va]]) (simp add: e)
  ultimately show False using \<open>e = 0\<close> by (simp add: apart_def)
qed

lemma walk_level_below:
  assumes c: "child (mem s1) pt (PX (Suc l) va) = Some c" and own: "pt_own s1 (vs @ ws) (Suc l) pt"
    and ps: "ps = us @ vs @ ws" and grown: "pt_grown s s1 (Suc l) pt us"
    and run: "walk_level l c va True s1 = Ok (pte, s')" and own': "pt_own s' ws l c"
    and grown': "pt_grown s1 s' l c vs" and len: "length us \<le> 1" "length vs \<le> l"
    and pte: "if pte = 0 then ws = [] \<and> length vs < l else pt_leaf (mem s') l c va = Some pte"
    and eq: "walk_level (Suc l) pt va True s = walk_level l c va True s1"
  shows "\<exists>pte s' us ps'. walk_level (Suc l) pt va True s = Ok (pte, s') \<and> ps = us @ ps' \<and>
     pt_own s' ps' (Suc l) pt \<and> pt_grown s s' (Suc l) pt us \<and> length us \<le> Suc l \<and>
     (if pte = 0 then ps' = [] \<and> length us < Suc l else pt_leaf (mem s') (Suc l) pt va = Some pte)"
proof -
  note up = pt_grown_child [OF own c refl own' grown']
  have "pt_grown s s' (Suc l) pt (us @ vs)" using grown up(2) by (rule pt_grown_trans)
  moreover have "if pte = 0 then ws = [] \<and> length (us @ vs) < Suc l
      else pt_leaf (mem s') (Suc l) pt va = Some pte"
    using pte up(3) len by (auto split: if_splits)
  ultimately show ?thesis
    using ps up(1) run eq len
    by (intro exI [of _ pte] exI [of _ s'] exI [of _ "us @ vs"] exI [of _ ws]) simp
qed

lemma walk_level_alloc:
  assumes "pt_own s ps l pt"
  shows "\<exists>pte s' us ps'. walk_level l pt va True s = Ok (pte, s') \<and> ps = us @ ps' \<and>
     pt_own s' ps' l pt \<and> pt_grown s s' l pt us \<and> length us \<le> l \<and>
     (if pte = 0 then ps' = [] \<and> length us < l else pt_leaf (mem s') l pt va = Some pte)"
  using assms
proof (induction l arbitrary: pt s ps)
  case 0
  then have "pt_leaf (mem s) 0 pt va = Some (pte_addr 0 pt va)" "pte_addr 0 pt va \<noteq> 0"
    using pt_leaf_nonzero [of "mem s" 0 pt va] by (auto simp: pt_own_def)
  with 0 show ?case
    by (intro exI [of _ "pte_addr 0 pt va"] exI [of _ s] exI [of _ "[]"] exI [of _ ps])
       (simp add: pt_grown_def)
next
  case (Suc l)
  let ?i = "PX (Suc l) va"
  have ch: "child (mem s) pt ?i = (let v = load64 (mem s) (pte_addr (Suc l) pt va) in
      if v AND PTE_V \<noteq> 0 then Some (PTE2PA v) else None)"
    using PX_lt_512 by (simp add: child_def pte_addr_def)
  show ?case
  proof (cases "child (mem s) pt ?i")
    case (Some c)
    obtain pte s' us ws where IH: "walk_level l c va True s = Ok (pte, s')" "ps = us @ ws"
      "pt_own s' ws l c" "pt_grown s s' l c us" "length us \<le> l"
      "if pte = 0 then ws = [] \<and> length us < l else pt_leaf (mem s') l c va = Some pte"
      using Suc.IH [OF pt_own_child [OF Suc.prems Some]] by blast
    have "walk_level (Suc l) pt va True s = walk_level l c va True s"
      using Some ch by (auto simp: Let_def split: if_splits)
    moreover have "pt_grown s s (Suc l) pt []" by (simp add: pt_grown_def)
    ultimately show ?thesis
      using walk_level_below [OF Some, of us ws _ "[]" s pte s'] Suc.prems IH by simp
  next
    case None
    then have inv: "load64 (mem s) (pte_addr (Suc l) pt va) AND PTE_V = 0"
      using ch by (auto simp: Let_def split: if_splits)
    have ready: "kmem_ready s" "kmem_inv s ps" using Suc.prems by (auto simp: pt_own_def)
    show ?thesis
    proof (cases ps)
      case Nil
      then have "walk_level (Suc l) pt va True s = Ok (0, s\<lparr>mach := touch (mach s)\<rparr>)"
        using inv ready by (simp add: kalloc_Nil)
      moreover have "pt_own (s\<lparr>mach := touch (mach s)\<rparr>) [] (Suc l) pt"
        using Suc.prems Nil by (simp add: pt_own_def kmem_ready_def kmem_inv_def)
      ultimately show ?thesis using Nil by (auto simp: pt_grown_def)
    next
      case (Cons p qs)
      define s1 where "s1 = s\<lparr>mach := touch (mach s), freelist := load64 (mem s) p,
        mem := link_page pt ?i p (mem s)\<rparr>"
      note link = pt_link [OF Suc.prems [unfolded Cons] None PX_lt_512 s1_def]
      have "p \<noteq> 0" using ready Cons page_ok_nonzero by (auto simp: kmem_inv_def)
      then have eq: "walk_level (Suc l) pt va True s = walk_level l p va True s1"
        using inv ready Cons
        by (simp add: kalloc_Cons s1_def link_page_def pte_addr_def Let_def)
      obtain pte s' us ws where IH: "walk_level l p va True s1 = Ok (pte, s')" "qs = us @ ws"
        "pt_own s' ws l p" "pt_grown s1 s' l p us" "length us \<le> l"
        "if pte = 0 then ws = [] \<and> length us < l else pt_leaf (mem s') l p va = Some pte"
        using Suc.IH [OF pt_own_child [OF link(1,3)]] by blast
      show ?thesis
        using walk_level_below [OF link(3), of us ws _ "[p]" s pte s'] link(1,2) IH Cons eq by simp
    qed
  qed
qed

text \<open>\<^verbatim>\<open>walk\<close> without \<^verbatim>\<open>alloc\<close> only reads.\<close>

lemma walk_level_lookup:
  "walk_level l pt va False s = Ok (case pt_leaf (mem s) l pt va of None \<Rightarrow> 0 | Some e \<Rightarrow> e, s)"
proof (induction l arbitrary: pt)
  case 0
  show ?case by simp
next
  case (Suc l)
  have "child (mem s) pt (PX (Suc l) va) = (let v = load64 (mem s) (pte_addr (Suc l) pt va) in
      if v AND PTE_V \<noteq> 0 then Some (PTE2PA v) else None)"
    using PX_lt_512 by (simp add: child_def pte_addr_def)
  then show ?case using Suc.IH by (simp add: Let_def)
qed

lemma walk_lookup:
  "va < MAXVA \<Longrightarrow>
     walk pt va False s = Ok (case pt_leaf (mem s) 2 pt va of None \<Rightarrow> 0 | Some e \<Rightarrow> e, s)"
  by (simp add: walk_def walk_level_lookup not_le)

definition translate :: "memory \<Rightarrow> uint64 \<Rightarrow> uint64 \<Rightarrow> uint64" where
  "translate m pt va =
     (let v = pt_val m 2 pt va in
      if va < MAXVA \<and> v AND PTE_V \<noteq> 0 \<and> v AND PTE_U \<noteq> 0 then PTE2PA v else 0)"

lemma walkaddr_translate:
  assumes "pt_wf (mem s) 2 pt"
  shows "walkaddr pt va s = Ok (translate (mem s) pt va, s)"
proof (cases "va < MAXVA")
  case True
  then show ?thesis
    using assms pt_leaf_nonzero [of "mem s" 2 pt va]
    by (auto simp: walkaddr_def walk_lookup translate_def pt_val_def not_le Let_def split: option.split)
next
  case False
  then have "MAXVA \<le> va" by simp
  with False show ?thesis by (simp add: walkaddr_def translate_def Let_def)
qed

section \<open>Level-0 entries as a map on virtual pages\<close>

text \<open>The addresses that the three levels of a table can index, twice as many as MAXVA allows.\<close>

definition VATOP :: uint64 where "VATOP = push_bit (9 + 9 + 9 + 12) 1"

lemma unat_VATOP: "unat VATOP = 2 ^ 39"
  by (simp add: VATOP_def)

lemma below_VATOP [simp]: "va < MAXVA \<Longrightarrow> va < VATOP"
  by (simp add: word_less_nat_alt unat_MAXVA unat_VATOP)

lemma same_page_iff:
  assumes "va < VATOP" and "va' < VATOP"
  shows "(\<forall>k \<le> 2. PX k va = PX k va') \<longleftrightarrow> PGROUNDDOWN va = PGROUNDDOWN va'"
proof
  have lt: "unat va < 2 ^ 39" "unat va' < 2 ^ 39"
    using assms by (simp_all add: word_less_nat_alt unat_VATOP)
  assume "\<forall>k \<le> 2. PX k va = PX k va'"
  then have "unat va div 4096 = unat va' div 4096"
    unfolding page_number_digits [OF lt(1)] page_number_digits [OF lt(2)] by simp
  then show "PGROUNDDOWN va = PGROUNDDOWN va'" by (simp add: word_unat_eq_iff unat_PGROUNDDOWN)
next
  assume "PGROUNDDOWN va = PGROUNDDOWN va'"
  then have eq: "unat va div 4096 = unat va' div 4096"
    by (metis nonzero_mult_div_cancel_right unat_PGROUNDDOWN zero_neq_numeral)
  have "unat v div 2 ^ (12 + 9 * k) = unat v div 4096 div 2 ^ (9 * k)" for v :: uint64 and k
    by (simp add: power_add div_mult2_eq)
  then show "\<forall>k \<le> 2. PX k va = PX k va'" by (simp add: word_unat_eq_iff unat_PX eq)
qed

lemma pt_val_store:
  assumes wf: "pt_wf m 2 pt" and e: "pt_leaf m 2 pt va = Some e" and "va < VATOP" "va' < VATOP"
  shows "pt_val (store64 m e v) 2 pt va' =
     (if PGROUNDDOWN va' = PGROUNDDOWN va then v else pt_val m 2 pt va')"
proof -
  have leaf: "pt_leaf (store64 m e v) 2 pt w = pt_leaf m 2 pt w" for w
    using pt_leaf_store [OF wf e] by simp
  show ?thesis
  proof (cases "PGROUNDDOWN va' = PGROUNDDOWN va")
    case True
    then have "PX k va' = PX k va" if "k \<le> 2" for k
      using same_page_iff [OF assms(4,3)] that by simp
    then have "pt_leaf m 2 pt va' = pt_leaf m 2 pt va"
      by (simp add: numeral_2_eq_2 pte_addr_def split: option.split)
    with e True show ?thesis by (simp add: pt_val_def leaf)
  next
    case False
    then have "\<exists>k \<le> 2. PX k va \<noteq> PX k va'" using same_page_iff [OF assms(3,4)] by auto
    then have "apart 8 e 8 e'" if "pt_leaf m 2 pt va' = Some e'" for e'
      using pt_leaf_apart [OF wf e that] by simp
    with False show ?thesis
      by (auto simp: pt_val_def leaf load64_store64_apart split: option.split)
  qed
qed

lemma pt_own_store:
  assumes own: "pt_own s ps 2 pt" and e: "pt_leaf (mem s) 2 pt va = Some e"
    and s'_def: "s' = s\<lparr>mem := store64 (mem s) e v\<rparr>"
  shows "pt_own s' ps 2 pt" and "pt_pages (mem s') 2 pt = pt_pages (mem s) 2 pt"
    and "changes_in (pt_pages (mem s) 2 pt) (mem s) (mem s')"
proof -
  have wf: "pt_wf (mem s) 2 pt" using own by (simp add: pt_own_def)
  obtain q where q: "q \<in> pt_pages (mem s) 2 pt" and eq: "e = q + 8 * PX 0 va"
    using pt_leaf_page [OF e] by (auto simp: pte_addr_def)
  have so: "same_outside q (mem s) (mem s')"
    unfolding s'_def eq by (simp add: same_outside_entry PX_lt_512)
  have "agree_on (set ps) (mem s) (mem s')"
    using own q pt_own_aligned [OF own] by (intro agree_on_same_outside [OF so]) (auto simp: pt_own_def)
  then have "kmem_inv s' ps" using own kmem_inv_agree by (auto simp: pt_own_def s'_def)
  then show "pt_own s' ps 2 pt"
    using own pt_leaf_store [OF wf e] by (simp add: pt_own_def s'_def kmem_ready_def)
  show "pt_pages (mem s') 2 pt = pt_pages (mem s) 2 pt"
    using pt_leaf_store [OF wf e] by (simp add: s'_def)
  show "changes_in (pt_pages (mem s) 2 pt) (mem s) (mem s')"
    using so q by (auto simp: changes_in_single [symmetric] elim: changes_in_mono)
qed

end
