(* ===== verification/Addrspace.thy ===== *)
theory Addrspace
  imports Pagetable
begin

text \<open>
  What the operations of kernel/vm.c do to an address space, the map from virtual pages to
  level-0 entries: \<^verbatim>\<open>mappages\<close> adds a range or reports that the allocator is exhausted,
  \<^verbatim>\<open>uvmunmap\<close> removes one, \<^verbatim>\<open>copyout\<close> and \<^verbatim>\<open>copyin\<close> move bytes through the map.
\<close>

section \<open>mappages\<close>

definition in_range :: "uint64 \<Rightarrow> nat \<Rightarrow> uint64 \<Rightarrow> bool" where
  "in_range a n va \<longleftrightarrow> unat a \<le> unat va \<and> unat va < unat a + n * 4096"

definition entry_for :: "uint64 \<Rightarrow> uint64 \<Rightarrow> uint64 \<Rightarrow> uint64 \<Rightarrow> uint64" where
  "entry_for a pa perm va = PA2PTE (pa + (PGROUNDDOWN va - a)) OR perm OR PTE_V"

text \<open>\<open>pt_mapped s s' pt us a n pa perm\<close>: \<open>n\<close> pages from \<open>a\<close> were mapped to the frames from \<open>pa\<close>.\<close>

definition pt_mapped :: "pmem \<Rightarrow> pmem \<Rightarrow> uint64 \<Rightarrow> uint64 list \<Rightarrow> uint64 \<Rightarrow> nat \<Rightarrow> uint64 \<Rightarrow> uint64 \<Rightarrow> bool"
  where
  "pt_mapped s s' pt us a n pa perm \<longleftrightarrow> kend s' = kend s \<and>
     pt_pages (mem s') 2 pt = pt_pages (mem s) 2 pt \<union> set us \<and>
     changes_in (pt_pages (mem s) 2 pt \<union> set us) (mem s) (mem s') \<and>
     (\<forall>va < VATOP. pt_val (mem s') 2 pt va =
        (if in_range a n va then entry_for a pa perm va else pt_val (mem s) 2 pt va))"

lemma pt_grown_mapped: "pt_grown s s' 2 pt us \<Longrightarrow> pt_mapped s s' pt us a 0 pa perm"
  by (auto simp: pt_grown_def pt_mapped_def in_range_def)

lemma walk_alloc:
  assumes "pt_own s ps 2 pt" and "va < MAXVA"
  obtains (full) s' us where "walk pt va True s = Ok (0, s')" "ps = us" "pt_own s' [] 2 pt"
      "pt_grown s s' 2 pt us" "length us < 2"
  | (entry) pte s' us ps' where "walk pt va True s = Ok (pte, s')" "ps = us @ ps'" "pte \<noteq> 0"
      "pt_own s' ps' 2 pt" "pt_grown s s' 2 pt us" "pt_leaf (mem s') 2 pt va = Some pte"
      "load64 (mem s') pte = pt_val (mem s) 2 pt va" "length us \<le> 2"
proof -
  obtain pte s' us ps' where w: "walk_level 2 pt va True s = Ok (pte, s')" "ps = us @ ps'"
    "pt_own s' ps' 2 pt" "pt_grown s s' 2 pt us" "length us \<le> 2"
    "if pte = 0 then ps' = [] \<and> length us < 2 else pt_leaf (mem s') 2 pt va = Some pte"
    using walk_level_alloc [OF assms(1)] by blast
  have walk: "walk pt va True s = Ok (pte, s')" using w(1) assms(2) by (simp add: walk_def not_le)
  show thesis
  proof (cases "pte = 0")
    case True
    with w walk show thesis by (intro full) auto
  next
    case False
    with w have leaf: "pt_leaf (mem s') 2 pt va = Some pte" by simp
    then have "load64 (mem s') pte = pt_val (mem s') 2 pt va" by (simp add: pt_val_def)
    also have "\<dots> = pt_val (mem s) 2 pt va" using w(4) by (simp add: pt_grown_def)
    finally show thesis using w walk False leaf by (intro entry) auto
  qed
qed

lemma page_of_next:
  assumes "page_aligned a" and "unat a + 4096 < 2 ^ 64"
  shows "page_aligned (a + PGSIZE)" and "unat (a + PGSIZE) = unat a + 4096"
proof -
  show u: "unat (a + PGSIZE) = unat a + 4096" using assms(2) unat_add_lem [of a PGSIZE] by simp
  show "page_aligned (a + PGSIZE)" using assms(1) by (simp add: page_aligned_unat u)
qed

lemma in_page_iff:
  assumes "page_aligned a"
  shows "PGROUNDDOWN va = PGROUNDDOWN a \<longleftrightarrow> in_range a 1 va"
proof -
  obtain k where k: "unat a = 4096 * k" using assms by (auto simp: page_aligned_unat elim!: dvdE)
  have "PGROUNDDOWN va = PGROUNDDOWN a \<longleftrightarrow> unat va div 4096 = k"
    by (simp add: word_unat_eq_iff unat_PGROUNDDOWN k)
  also have "\<dots> \<longleftrightarrow> in_range a 1 va"
    using div_mult_mod_eq [of "unat va" 4096] mod_less_divisor [of 4096 "unat va"]
    by (auto simp: in_range_def k div_nat_eqI)
  finally show ?thesis .
qed

lemma PGROUNDDOWN_aligned: "page_aligned a \<Longrightarrow> PGROUNDDOWN a = a"
  by (simp add: word_unat_eq_iff unat_PGROUNDDOWN page_aligned_unat mod_0_imp_dvd)

lemma pt_mapped_step:
  assumes own: "pt_own s1 ps' 2 pt" and grown: "pt_grown s s1 2 pt us"
    and leaf: "pt_leaf (mem s1) 2 pt a = Some pte" and a: "a < MAXVA" "page_aligned a"
    and s2: "s2 = s1\<lparr>mem := store64 (mem s1) pte (PA2PTE pa OR perm OR PTE_V)\<rparr>"
  shows "pt_own s2 ps' 2 pt" and "pt_mapped s s2 pt us a 1 pa perm"
proof -
  note st = pt_own_store [OF own leaf s2]
  show "pt_own s2 ps' 2 pt" by (rule st(1))
  have wf: "pt_wf (mem s1) 2 pt" using own by (simp add: pt_own_def)
  have g: "pt_pages (mem s1) 2 pt = pt_pages (mem s) 2 pt \<union> set us"
    "changes_in (pt_pages (mem s) 2 pt \<union> set us) (mem s) (mem s1)"
    "\<And>va. pt_val (mem s1) 2 pt va = pt_val (mem s) 2 pt va" "kend s1 = kend s"
    using grown by (auto simp: pt_grown_def)
  have "changes_in (pt_pages (mem s) 2 pt \<union> set us) (mem s) (mem s2)"
    using changes_in_trans [OF g(2) st(3)] by (simp add: g(1))
  moreover have "pt_val (mem s2) 2 pt va =
      (if in_range a 1 va then entry_for a pa perm va else pt_val (mem s) 2 pt va)"
    if "va < VATOP" for va
    using pt_val_store [OF wf leaf below_VATOP [OF a(1)] that] in_page_iff [OF a(2), of va] a(2)
    by (auto simp: s2 g(3) entry_for_def PGROUNDDOWN_aligned)
  ultimately show "pt_mapped s s2 pt us a 1 pa perm"
    using st(2) g by (simp add: pt_mapped_def s2)
qed

lemma pt_mapped_trans:
  assumes "pt_mapped s s1 pt us a 1 pa perm" and "pt_mapped s1 s2 pt vs (a + PGSIZE) n (pa + PGSIZE) perm"
    and "unat (a + PGSIZE) = unat a + 4096"
  shows "pt_mapped s s2 pt (us @ vs) a (Suc n) pa perm"
proof -
  have ch: "changes_in (pt_pages (mem s) 2 pt \<union> set us) (mem s) (mem s1)"
    "changes_in (pt_pages (mem s1) 2 pt \<union> set vs) (mem s1) (mem s2)"
    and pg: "pt_pages (mem s1) 2 pt = pt_pages (mem s) 2 pt \<union> set us"
    using assms by (auto simp: pt_mapped_def)
  have "changes_in (pt_pages (mem s) 2 pt \<union> set (us @ vs)) (mem s) (mem s2)"
    using changes_in_trans [OF ch] by (rule changes_in_mono) (auto simp: pg)
  moreover have "in_range a (Suc n) va \<longleftrightarrow> in_range a 1 va \<or> in_range (a + PGSIZE) n va" for va
    using assms(3) by (auto simp: in_range_def)
  moreover have "entry_for (a + PGSIZE) (pa + PGSIZE) perm va = entry_for a pa perm va" for va
    by (simp add: entry_for_def)
  moreover have "\<not> (in_range a 1 va \<and> in_range (a + PGSIZE) n va)" for va
    using assms(3) by (auto simp: in_range_def)
  ultimately show ?thesis using assms(1,2) by (auto simp: pt_mapped_def)
qed

lemma mappages_loop_maps:
  assumes "pt_own s ps 2 pt" and "page_aligned a" and "unat a + Suc n * 4096 \<le> 2 ^ 38"
    and "last_va = a + of_nat n * PGSIZE"
    and "\<forall>va. in_range a (Suc n) va \<longrightarrow> pt_val (mem s) 2 pt va AND PTE_V = 0"
  shows "\<exists>r s' us ps' j. mappages_loop pt a last_va pa perm s = Ok (r, s') \<and> ps = us @ ps' \<and>
     pt_own s' ps' 2 pt \<and> pt_mapped s s' pt us a j pa perm \<and>
     (r = 0 \<and> j = Suc n \<and> length us \<le> 2 * Suc n \<or>
      r = -1 \<and> ps' = [] \<and> j \<le> n \<and> length us < 2 * Suc n)"
  using assms
proof (induction n arbitrary: a pa s ps)
  case 0
  then have a: "a < MAXVA" by (simp add: word_less_nat_alt unat_MAXVA)
  show ?case
  proof (rule walk_alloc [OF "0.prems"(1) a])
    fix s' us assume "walk pt a True s = Ok (0, s')" "ps = us" "pt_own s' [] 2 pt" "pt_grown s s' 2 pt us"
      "length us < 2"
    then show ?case by (force simp: mappages_loop.simps intro: pt_grown_mapped)
  next
    fix pte s' us ps' assume w: "walk pt a True s = Ok (pte, s')" "ps = us @ ps'" "pte \<noteq> 0"
      "pt_own s' ps' 2 pt" "pt_grown s s' 2 pt us" "pt_leaf (mem s') 2 pt a = Some pte"
      "load64 (mem s') pte = pt_val (mem s) 2 pt a" "length us \<le> 2"
    have "load64 (mem s') pte AND PTE_V = 0" using w(7) "0.prems"(5) by (simp add: in_range_def)
    then show ?case
      using w "0.prems"(4) pt_mapped_step [OF w(4-6) a "0.prems"(2) refl]
      by (fastforce simp: mappages_loop.simps Let_def)
  qed
next
  case (Suc n)
  then have a: "a < MAXVA" by (simp add: word_less_nat_alt unat_MAXVA)
  show ?case
  proof (rule walk_alloc [OF Suc.prems(1) a])
    fix s' us assume "walk pt a True s = Ok (0, s')" "ps = us" "pt_own s' [] 2 pt" "pt_grown s s' 2 pt us"
      "length us < 2"
    then show ?case by (force simp: mappages_loop.simps intro: pt_grown_mapped)
  next
    fix pte s1 us ps1 assume w: "walk pt a True s = Ok (pte, s1)" "ps = us @ ps1" "pte \<noteq> 0"
      "pt_own s1 ps1 2 pt" "pt_grown s s1 2 pt us" "pt_leaf (mem s1) 2 pt a = Some pte"
      "load64 (mem s1) pte = pt_val (mem s) 2 pt a" "length us \<le> 2"
    define s2 where "s2 = s1\<lparr>mem := store64 (mem s1) pte (PA2PTE pa OR perm OR PTE_V)\<rparr>"
    note st = pt_mapped_step [OF w(4-6) a Suc.prems(2) s2_def]
    note nx = page_of_next [OF Suc.prems(2)]
    have u: "unat (a + PGSIZE) = unat a + 4096" "page_aligned (a + PGSIZE)"
      using nx Suc.prems(3) by auto
    have last: "last_va = (a + PGSIZE) + of_nat n * PGSIZE"
      using Suc.prems(4) by (simp add: algebra_simps)
    have un: "unat (of_nat n * PGSIZE :: uint64) = n * 4096"
      using Suc.prems(3) by (simp add: unat_word_ariths unat_of_nat take_bit_nat_eq_self)
    have "unat ((a + PGSIZE) + of_nat n * PGSIZE) = unat (a + PGSIZE) + n * 4096"
      using Suc.prems(3) u un unat_add_lem [of "a + PGSIZE" "of_nat n * PGSIZE"] by simp
    then have "unat last_va = unat a + 4096 + n * 4096" using u last by simp
    then have ne: "a \<noteq> last_va" by auto
    have free: "\<forall>va. in_range (a + PGSIZE) (Suc n) va \<longrightarrow> pt_val (mem s2) 2 pt va AND PTE_V = 0"
    proof (intro allI impI)
      fix va assume r: "in_range (a + PGSIZE) (Suc n) va"
      then have "va < MAXVA" "\<not> in_range a 1 va" "in_range a (Suc (Suc n)) va"
        using Suc.prems(3) u(1) by (auto simp: in_range_def word_less_nat_alt unat_MAXVA)
      then show "pt_val (mem s2) 2 pt va AND PTE_V = 0"
        using st(2) Suc.prems(5) by (simp add: pt_mapped_def)
    qed
    have "unat (a + PGSIZE) + Suc n * 4096 \<le> 2 ^ 38" using Suc.prems(3) u(1) by simp
    then obtain r s' vs ps' j where IH: "mappages_loop pt (a + PGSIZE) last_va (pa + PGSIZE) perm s2 = Ok (r, s')"
      "ps1 = vs @ ps'" "pt_own s' ps' 2 pt" "pt_mapped s2 s' pt vs (a + PGSIZE) j (pa + PGSIZE) perm"
      "r = 0 \<and> j = Suc n \<and> length vs \<le> 2 * Suc n \<or>
       r = -1 \<and> ps' = [] \<and> j \<le> n \<and> length vs < 2 * Suc n"
      using Suc.IH [OF st(1) u(2) _ last free] by blast
    have "load64 (mem s1) pte AND PTE_V = 0" using w(7) Suc.prems(5) by (simp add: in_range_def)
    then have run: "mappages_loop pt a last_va pa perm s = Ok (r, s')"
      using w(1,3) ne IH(1) by (subst mappages_loop.simps) (simp add: s2_def)
    show ?case
      using run IH w(2,8) pt_mapped_trans [OF st(2) IH(4) u(1)]
      by (intro exI [of _ r] exI [of _ s'] exI [of _ "us @ vs"] exI [of _ ps'] exI [of _ "Suc j"]) auto
  qed
qed

lemma pt_leaf_same_index:
  "\<forall>k \<le> l. PX k va = PX k va' \<Longrightarrow> pt_leaf m l pt va = pt_leaf m l pt va'"
  by (induction l arbitrary: pt) (simp_all add: pte_addr_def split: option.split)

lemma pt_val_same_page:
  assumes "va < VATOP" and "va' < VATOP" and "PGROUNDDOWN va = PGROUNDDOWN va'"
  shows "pt_val m 2 pt va = pt_val m 2 pt va'"
  using pt_leaf_same_index [of 2 va va' m pt] same_page_iff [OF assms(1,2)] assms(3)
  by (simp add: pt_val_def)

text \<open>Mapping a single page.\<close>

lemma PGROUNDDOWN_page_end:
  assumes "page_aligned a" and "unat a + 4096 \<le> 2 ^ 38"
  shows "PGROUNDDOWN (a + PGSIZE - 1) = a"
proof -
  have "unat (a + 4095) = unat a + 4095" using assms(2) unat_add_lem [of a 4095] by simp
  moreover have "unat a mod 4096 = 0" using assms(1) by (simp add: page_aligned_unat)
  ultimately have "unat (PGROUNDDOWN (a + 4095)) = unat a"
    by (auto simp: unat_PGROUNDDOWN elim!: dvdE)
  moreover have eq: "a + PGSIZE - 1 = a + 4095" by (simp add: PGSIZE_def)
  ultimately show ?thesis unfolding eq by (simp add: word_unat_eq_iff)
qed

lemma mappages_page:
  assumes own: "pt_own s ps 2 pt" and a: "page_aligned a" "unat a + 4096 \<le> 2 ^ 38"
    and free: "pt_val (mem s) 2 pt a AND PTE_V = 0"
  obtains (mapped) s' us ps' where "mappages pt a PGSIZE pa perm s = Ok (0, s')" "ps = us @ ps'"
      "pt_own s' ps' 2 pt" "pt_mapped s s' pt us a 1 pa perm"
  | (exhausted) s' where "mappages pt a PGSIZE pa perm s = Ok (-1, s')" "pt_own s' [] 2 pt"
      "pt_mapped s s' pt ps a 0 pa perm" "length ps < 2"
proof -
  have run: "mappages pt a PGSIZE pa perm s = mappages_loop pt a a pa perm s"
    using a by (simp add: mappages_def PGROUNDDOWN_page_end PGROUNDDOWN_aligned) (simp add: PGSIZE_def)
  have "pt_val (mem s) 2 pt va = pt_val (mem s) 2 pt a" if "in_range a 1 va" for va
  proof -
    have "va < MAXVA" "a < MAXVA" using that a(2) by (auto simp: in_range_def word_less_nat_alt unat_MAXVA)
    then show ?thesis using in_page_iff [OF a(1)] that by (intro pt_val_same_page) auto
  qed
  then have all: "\<forall>va. in_range a (Suc 0) va \<longrightarrow> pt_val (mem s) 2 pt va AND PTE_V = 0"
    using free by simp
  have le: "unat a + Suc 0 * 4096 \<le> 2 ^ 38" and eq: "a = a + of_nat 0 * PGSIZE" using a(2) by simp_all
  obtain r s' us ps' j where m: "mappages_loop pt a a pa perm s = Ok (r, s')" "ps = us @ ps'"
    "pt_own s' ps' 2 pt" "pt_mapped s s' pt us a j pa perm"
    "r = 0 \<and> j = Suc 0 \<and> length us \<le> 2 * Suc 0 \<or> r = -1 \<and> ps' = [] \<and> j \<le> 0 \<and> length us < 2 * Suc 0"
    using mappages_loop_maps [OF own a(1) le eq all, of pa perm] by (elim exE conjE) (rule that)
  from m(5) show thesis
  proof
    assume "r = 0 \<and> j = Suc 0 \<and> length us \<le> 2 * Suc 0"
    with m show thesis by (intro mapped) (auto simp: run)
  next
    assume "r = -1 \<and> ps' = [] \<and> j \<le> 0 \<and> length us < 2 * Suc 0"
    with m show thesis by (intro exhausted) (auto simp: run)
  qed
qed

section \<open>uvmunmap\<close>

definition pt_unmapped :: "pmem \<Rightarrow> pmem \<Rightarrow> uint64 \<Rightarrow> uint64 \<Rightarrow> nat \<Rightarrow> uint64 set \<Rightarrow> bool" where
  "pt_unmapped s s' pt a n P \<longleftrightarrow> kend s' = kend s \<and>
     pt_pages (mem s') 2 pt = pt_pages (mem s) 2 pt \<and>
     changes_in (pt_pages (mem s) 2 pt \<union> P) (mem s) (mem s') \<and>
     (\<forall>va < VATOP. pt_val (mem s') 2 pt va = (if in_range a n va then 0 else pt_val (mem s) 2 pt va))"

text \<open>The frames that the \<open>n\<close> pages from \<open>a\<close> are mapped to.\<close>

fun frames :: "memory \<Rightarrow> uint64 \<Rightarrow> uint64 \<Rightarrow> nat \<Rightarrow> uint64 list" where
  "frames m pt a 0 = []"
| "frames m pt a (Suc n) = PTE2PA (pt_val m 2 pt a) # frames m pt (a + PGSIZE) n"

lemma range_next:
  assumes "unat a + Suc n * 4096 \<le> 2 ^ 38"
  shows "unat (a + PGSIZE) = unat a + 4096"
    and "in_range a (Suc n) va \<longleftrightarrow> in_range a 1 va \<or> in_range (a + PGSIZE) n va"
    and "\<not> (in_range a 1 va \<and> in_range (a + PGSIZE) n va)"
    and "in_range a (Suc n) va \<Longrightarrow> va < MAXVA"
proof -
  show u: "unat (a + PGSIZE) = unat a + 4096" using assms unat_add_lem [of a PGSIZE] by simp
  then show "in_range a (Suc n) va \<longleftrightarrow> in_range a 1 va \<or> in_range (a + PGSIZE) n va"
    and "\<not> (in_range a 1 va \<and> in_range (a + PGSIZE) n va)"
    by (auto simp: in_range_def)
  show "va < MAXVA" if "in_range a (Suc n) va"
    using that assms by (simp add: in_range_def word_less_nat_alt unat_MAXVA)
qed

lemma frames_cong:
  assumes "unat a + n * 4096 \<le> 2 ^ 38"
    and "\<forall>va. in_range a n va \<longrightarrow> pt_val m' 2 pt va = pt_val m 2 pt va"
  shows "frames m' pt a n = frames m pt a n"
  using assms
proof (induction n arbitrary: a)
  case 0
  show ?case by simp
next
  case (Suc n)
  note r = range_next [OF Suc.prems(1)]
  have "pt_val m' 2 pt a = pt_val m 2 pt a" using Suc.prems(2) by (simp add: in_range_def)
  moreover have "unat (a + PGSIZE) + n * 4096 \<le> 2 ^ 38" using Suc.prems(1) r(1) by simp
  ultimately show ?case using Suc.IH [of "a + PGSIZE"] Suc.prems(2) r(2) by simp
qed

lemma kfree_pt:
  assumes own: "pt_own s ps 2 pt" and f: "page_ok s f" "f \<notin> set ps" "f \<notin> pt_pages (mem s) 2 pt"
  obtains s2 where "kfree f s = Ok s2" "pt_own s2 (f # ps) 2 pt" "kend s2 = kend s"
    "agree_on (pt_pages (mem s) 2 pt) (mem s) (mem s2)" "changes_in {f} (mem s) (mem s2)"
proof -
  let ?s2 = "s\<lparr>mach := touch (mach s), freelist := f,
    mem := store64 (memset (mem s) f 1 4096) f (freelist s)\<rparr>"
  have k: "kfree f s = Ok ?s2" using own f(1) by (intro kfree_Ok) (simp add: pt_own_def)
  have so: "same_outside f (mem s) (mem ?s2)"
    by (simp add: same_outside_trans [OF same_outside_memset same_outside_store64])
  have ag: "agree_on (pt_pages (mem s) 2 pt) (mem s) (mem ?s2)"
    using f pt_own_aligned [OF own] by (intro agree_on_same_outside [OF so]) (auto simp: page_ok_def)
  have "kmem_inv ?s2 (f # ps)" using own f by (intro kmem_inv_cons) (auto simp: pt_own_def)
  then have "pt_own ?s2 (f # ps) 2 pt"
    using own f(3) ag by (simp add: pt_own_def pt_wf_agree pt_pages_agree kmem_ready_def)
  then show thesis using k ag so by (intro that [of ?s2]) (auto simp: changes_in_single)
qed

text \<open>Clearing the entry of the page at \<open>a\<close>, after its frame was freed or not.\<close>

lemma pt_unmapped_step:
  assumes own: "pt_own s ps 2 pt" and own1: "pt_own s1 ps1 2 pt"
    and ag: "agree_on (pt_pages (mem s) 2 pt) (mem s) (mem s1)"
    and ch: "changes_in F (mem s) (mem s1)" "kend s1 = kend s"
    and leaf: "pt_leaf (mem s) 2 pt a = Some e" and a: "a < MAXVA" "page_aligned a"
    and s2: "s2 = s1\<lparr>mem := store64 (mem s1) e 0\<rparr>"
  shows "pt_own s2 ps1 2 pt" and "pt_unmapped s s2 pt a 1 F"
proof -
  have leaf1: "pt_leaf (mem s1) 2 pt a = Some e" using leaf ag by (simp add: pt_leaf_agree)
  note st = pt_own_store [OF own1 leaf1 s2]
  show "pt_own s2 ps1 2 pt" by (rule st(1))
  have wf1: "pt_wf (mem s1) 2 pt" using own1 by (simp add: pt_own_def)
  have pages: "pt_pages (mem s1) 2 pt = pt_pages (mem s) 2 pt" using ag by (rule pt_pages_agree)
  have "changes_in (pt_pages (mem s) 2 pt \<union> F) (mem s) (mem s2)"
    using changes_in_trans [OF ch(1) st(3)] by (simp add: pages Un_commute)
  moreover have "pt_val (mem s2) 2 pt va = (if in_range a 1 va then 0 else pt_val (mem s) 2 pt va)"
    if "va < VATOP" for va
    using pt_val_store [OF wf1 leaf1 below_VATOP [OF a(1)] that] in_page_iff [OF a(2), of va] ag
    by (simp add: s2 pt_val_agree)
  ultimately show "pt_unmapped s s2 pt a 1 F"
    using st(2) pages ch(2) by (simp add: pt_unmapped_def s2)
qed

lemma pt_unmapped_trans:
  assumes 1: "pt_unmapped s s1 pt a 1 F" and 2: "pt_unmapped s1 s2 pt (a + PGSIZE) n G"
    and r: "unat a + Suc n * 4096 \<le> 2 ^ 38"
  shows "pt_unmapped s s2 pt a (Suc n) (F \<union> G)"
proof -
  have ch: "changes_in (pt_pages (mem s) 2 pt \<union> F) (mem s) (mem s1)"
    "changes_in (pt_pages (mem s) 2 pt \<union> G) (mem s1) (mem s2)"
    using 1 2 by (auto simp: pt_unmapped_def)
  have "changes_in (pt_pages (mem s) 2 pt \<union> (F \<union> G)) (mem s) (mem s2)"
    using changes_in_trans [OF ch] by (rule changes_in_mono) auto
  then show ?thesis using 1 2 range_next(2) [OF r] by (auto simp: pt_unmapped_def)
qed

definition leaf_entry :: "uint64 \<Rightarrow> bool" where
  "leaf_entry v \<longleftrightarrow> v AND PTE_V \<noteq> 0 \<and> PTE_FLAGS v \<noteq> PTE_V"

lemma uvmunmap_loop_unmaps:
  assumes "pt_own s ps 2 pt" and "page_aligned a" and "unat a + n * 4096 \<le> 2 ^ 38"
    and "end_va = a + of_nat n * PGSIZE"
    and "\<forall>va. in_range a n va \<longrightarrow> leaf_entry (pt_val (mem s) 2 pt va)"
    and "do_free \<Longrightarrow> distinct (frames (mem s) pt a n) \<and>
       (\<forall>f \<in> set (frames (mem s) pt a n). page_ok s f \<and> f \<notin> pt_pages (mem s) 2 pt \<and> f \<notin> set ps)"
  shows "\<exists>s'. uvmunmap_loop pt a end_va do_free s = Ok s' \<and>
     pt_own s' (if do_free then rev (frames (mem s) pt a n) @ ps else ps) 2 pt \<and>
     pt_unmapped s s' pt a n (if do_free then set (frames (mem s) pt a n) else {})"
  using assms
proof (induction n arbitrary: a s ps)
  case 0
  then show ?case by (auto simp: uvmunmap_loop.simps pt_unmapped_def in_range_def)
next
  case (Suc n)
  note r = range_next [OF Suc.prems(3)]
  let ?v = "pt_val (mem s) 2 pt a" and ?fs = "frames (mem s) pt (a + PGSIZE) n"
  have a: "a < MAXVA" and v: "leaf_entry ?v" using r(4) Suc.prems(5) by (auto simp: in_range_def)
  then obtain e where e: "pt_leaf (mem s) 2 pt a = Some e" "load64 (mem s) e = ?v"
    by (auto simp: pt_val_def leaf_entry_def split: option.splits)
  have wf: "pt_wf (mem s) 2 pt" using Suc.prems(1) by (simp add: pt_own_def)
  have "e \<noteq> 0" using pt_leaf_nonzero [OF wf e(1)] .
  have end_va: "end_va = (a + PGSIZE) + of_nat n * PGSIZE"
    using Suc.prems(4) by (simp add: algebra_simps)
  have "unat (of_nat n * PGSIZE :: uint64) = n * 4096"
    using Suc.prems(3) by (simp add: unat_word_ariths unat_of_nat take_bit_nat_eq_self)
  then have "unat end_va = unat a + 4096 + n * 4096"
    using Suc.prems(3) r(1) end_va unat_add_lem [of "a + PGSIZE" "of_nat n * PGSIZE"] by simp
  then have lt: "a < end_va" by (simp add: word_less_nat_alt)
  define F where "F = (if do_free then [PTE2PA ?v] else [])"
  obtain s1 where s1: "(if do_free then kfree (PTE2PA ?v) s else Ok s) = Ok s1"
    "pt_own s1 (F @ ps) 2 pt" "kend s1 = kend s"
    "agree_on (pt_pages (mem s) 2 pt) (mem s) (mem s1)" "changes_in (set F) (mem s) (mem s1)"
  proof (cases do_free)
    case True
    then have "page_ok s (PTE2PA ?v)" "PTE2PA ?v \<notin> set ps" "PTE2PA ?v \<notin> pt_pages (mem s) 2 pt"
      using Suc.prems(6) by auto
    then show thesis using True by (rule_tac kfree_pt [OF Suc.prems(1)]) (auto simp: F_def intro!: that)
  next
    case False
    then show thesis using Suc.prems(1) by (intro that [of s]) (auto simp: F_def agree_on_def)
  qed
  define s2 where "s2 = s1\<lparr>mem := store64 (mem s1) e 0\<rparr>"
  note st = pt_unmapped_step [OF Suc.prems(1) s1(2,4,5,3) e(1) a Suc.prems(2) s2_def]
  have al: "page_aligned (a + PGSIZE)" using page_of_next [OF Suc.prems(2)] Suc.prems(3) by simp
  have le: "unat (a + PGSIZE) + n * 4096 \<le> 2 ^ 38" using Suc.prems(3) r(1) by simp
  have same: "pt_val (mem s2) 2 pt va = pt_val (mem s) 2 pt va" if "in_range (a + PGSIZE) n va" for va
    using st(2) r(2-4) [of va] that by (auto simp: pt_unmapped_def)
  have fr: "frames (mem s2) pt (a + PGSIZE) n = ?fs" using same by (intro frames_cong [OF le]) auto
  have pg: "pt_pages (mem s2) 2 pt = pt_pages (mem s) 2 pt" "kend s2 = kend s"
    using st(2) by (auto simp: pt_unmapped_def)
  have "\<exists>s'. uvmunmap_loop pt (a + PGSIZE) end_va do_free s2 = Ok s' \<and>
      pt_own s' (if do_free then rev ?fs @ (F @ ps) else F @ ps) 2 pt \<and>
      pt_unmapped s2 s' pt (a + PGSIZE) n (if do_free then set ?fs else {})"
  proof (rule Suc.IH [OF st(1) al le end_va, unfolded fr pg page_ok_cong [OF pg(2)]])
    show "\<forall>va. in_range (a + PGSIZE) n va \<longrightarrow> leaf_entry (pt_val (mem s2) 2 pt va)"
      using same Suc.prems(5) r(2) by simp
    show "distinct ?fs \<and> (\<forall>f \<in> set ?fs. page_ok s f \<and> f \<notin> pt_pages (mem s) 2 pt \<and> f \<notin> set (F @ ps))"
      if do_free using Suc.prems(6) that by (auto simp: F_def)
  qed
  then obtain s' where IH: "uvmunmap_loop pt (a + PGSIZE) end_va do_free s2 = Ok s'"
    "pt_own s' (if do_free then rev ?fs @ (F @ ps) else F @ ps) 2 pt"
    "pt_unmapped s2 s' pt (a + PGSIZE) n (if do_free then set ?fs else {})" by blast
  have "uvmunmap_loop pt a end_va do_free s = Ok s'"
    using lt a e s1(1) \<open>e \<noteq> 0\<close> v IH(1)
    by (subst uvmunmap_loop.simps) (cases do_free; simp add: walk_lookup leaf_entry_def Let_def s2_def)
  then show ?case
    using IH(2) pt_unmapped_trans [OF st(2) IH(3) Suc.prems(3)] by (auto simp: F_def split: if_splits)
qed

section \<open>Properties\<close>

definition page_count :: "uint64 \<Rightarrow> uint64 \<Rightarrow> nat" where
  "page_count va sz = Suc (unat (va + sz - 1) div 4096 - unat va div 4096)"

lemma unat_range_end:
  fixes va sz :: uint64
  assumes "0 < sz" and "unat va + unat sz \<le> 2 ^ 38"
  shows "unat (va + sz - 1) = unat va + unat sz - 1"
proof -
  have "0 < unat sz" using assms(1) by (simp add: unat_gt_0)
  have "unat (va + sz) = unat va + unat sz" using assms(2) unat_add_lem [of va sz] by simp
  moreover have "va + sz \<noteq> 0" using \<open>0 < unat sz\<close> calculation by (metis add_is_0 less_numeral_extra(3) unat_0)
  ultimately show ?thesis by (simp add: unat_minus_one)
qed

lemma page_count_bounds:
  assumes "0 < sz" and "unat va + unat sz \<le> 2 ^ 38"
  shows "unat (PGROUNDDOWN va) + page_count va sz * 4096 \<le> 2 ^ 38"
    and "PGROUNDDOWN (va + sz - 1) = PGROUNDDOWN va + of_nat (page_count va sz - 1) * PGSIZE"
proof -
  note e = unat_range_end [OF assms]
  have pos: "0 < unat sz" using assms(1) by (simp add: unat_gt_0)
  then have le: "unat va div 4096 \<le> unat (va + sz - 1) div 4096" by (intro div_le_mono) (simp add: e)
  have "unat (va + sz - 1) < 2 ^ 26 * 4096" using e pos assms(2) by simp
  then have lt: "unat (va + sz - 1) div 4096 < 2 ^ 26" by (simp add: less_mult_imp_div_less)
  then show "unat (PGROUNDDOWN va) + page_count va sz * 4096 \<le> 2 ^ 38"
    using le by (simp add: page_count_def unat_PGROUNDDOWN diff_mult_distrib)
  let ?k = "unat (va + sz - 1) div 4096 - unat va div 4096"
  have k: "?k < 2 ^ 26" using lt by simp
  have "unat (of_nat ?k * PGSIZE :: uint64) = ?k * 4096"
    using k by (simp add: unat_word_ariths unat_of_nat take_bit_nat_eq_self)
  then have "unat (PGROUNDDOWN va + of_nat ?k * PGSIZE) = unat va div 4096 * 4096 + ?k * 4096"
    using lt le unat_add_lem [of "PGROUNDDOWN va" "of_nat ?k * PGSIZE"]
    by (simp add: unat_PGROUNDDOWN diff_mult_distrib)
  also have "\<dots> = unat (PGROUNDDOWN (va + sz - 1))" using le by (simp add: unat_PGROUNDDOWN diff_mult_distrib)
  finally show "PGROUNDDOWN (va + sz - 1) = PGROUNDDOWN va + of_nat (page_count va sz - 1) * PGSIZE"
    by (simp add: word_unat_eq_iff page_count_def)
qed

lemma PGROUNDDOWN_is_aligned: "page_aligned (PGROUNDDOWN a)"
  by (simp add: page_aligned_unat unat_PGROUNDDOWN)

text \<open>
  C4. \<^verbatim>\<open>mappages\<close> on a well-formed table, for a range below MAXVA that is not mapped yet: it never
  panics; it returns 0 with every page of the range mapped to its frame and flags and every
  other entry unchanged, or -1 when the allocator has run out, with a prefix mapped, which does
  not happen with two free pages per page to map; the table stays a tree disjoint from the free
  pages, and only table pages were written.
\<close>

theorem mappages_correct:
  assumes "pt_own s ps 2 pt" and "0 < sz" and "unat va + unat sz \<le> 2 ^ 38"
    and "\<forall>w. in_range (PGROUNDDOWN va) (page_count va sz) w \<longrightarrow> pt_val (mem s) 2 pt w AND PTE_V = 0"
  shows "\<exists>r s' us ps' j. mappages pt va sz pa perm s = Ok (r, s') \<and> ps = us @ ps' \<and>
     pt_own s' ps' 2 pt \<and> pt_mapped s s' pt us (PGROUNDDOWN va) j pa perm \<and>
     (r = 0 \<and> j = page_count va sz \<and> length us \<le> 2 * page_count va sz \<or>
      r = -1 \<and> ps' = [] \<and> j < page_count va sz \<and> length us < 2 * page_count va sz)"
proof -
  note b = page_count_bounds [OF assms(2,3)]
  have suc: "Suc (page_count va sz - 1) = page_count va sz" by (simp add: page_count_def)
  have "mappages pt va sz pa perm s =
      mappages_loop pt (PGROUNDDOWN va) (PGROUNDDOWN (va + sz - 1)) pa perm s"
    using assms(2) by (auto simp: mappages_def)
  moreover have "j \<le> page_count va sz - 1 \<longleftrightarrow> j < page_count va sz" for j
    by (auto simp: page_count_def)
  moreover have "unat (PGROUNDDOWN va) + Suc (page_count va sz - 1) * 4096 \<le> 2 ^ 38"
    "\<forall>w. in_range (PGROUNDDOWN va) (Suc (page_count va sz - 1)) w \<longrightarrow> pt_val (mem s) 2 pt w AND PTE_V = 0"
    unfolding suc by (rule b(1) assms(4))+
  note mappages_loop_maps [OF assms(1) PGROUNDDOWN_is_aligned this(1) b(2) this(2)]
  ultimately show ?thesis unfolding suc by simp
qed

text \<open>An empty table at 0x80024000 with two free pages.\<close>

definition empty_table :: pmem where
  "empty_table = (boot_pmem 0x80022000)\<lparr>freelist := 0x80025000,
     mem := store64 (\<lambda>_. 0) 0x80025000 0x80026000\<rparr>"

lemma empty_table_mem:
  "unat (a - 0x80025000) \<ge> 8 \<Longrightarrow> mem empty_table a = 0"
  by (simp add: empty_table_def store64_outside)

lemma empty_table_own: "pt_own empty_table [0x80025000, 0x80026000] 2 0x80024000"
  and empty_table_val: "pt_val (mem empty_table) 2 0x80024000 va = 0"
  and empty_table_pages: "pt_pages (mem empty_table) 2 0x80024000 = {0x80024000}"
proof -
  let ?m = "mem empty_table"
  have al: "page_aligned 0x80024000" "page_aligned 0x80025000" "page_aligned 0x80026000"
    by (simp_all add: page_aligned_def PGSIZE_def)
  have "agree_on {0x80024000, 0x80026000} (\<lambda>_. 0) ?m"
    using al by (intro agree_on_same_outside [of "0x80025000"])
      (auto simp: empty_table_def same_outside_store64)
  then have z: "?m a = 0" if "unat (a - 0x80024000) < 4096 \<or> unat (a - 0x80026000) < 4096" for a
    using that by (auto simp: agree_on_def)
  have "table_page 0x80024000" using al by (simp add: table_page_def)
  moreover have "\<forall>a. unat (a - 0x80024000) < 4096 \<longrightarrow> ?m a = 0" using z by blast
  ultimately have t: "pt_wf ?m 2 0x80024000" "pt_pages ?m 2 0x80024000 = {0x80024000}"
    "pt_val ?m 2 0x80024000 va = 0" by (rule zero_page_table)+
  have "load64 ?m 0x80026000 = load64 (\<lambda>_. 0) 0x80026000" using z by (intro load64_cong) simp
  then have "load64 ?m 0x80026000 = 0" by (simp add: load64_zero)
  moreover have "load64 ?m 0x80025000 = 0x80026000" by (simp add: empty_table_def)
  ultimately have "kmem_inv empty_table [0x80025000, 0x80026000]"
    by (simp add: kmem_inv_def page_ok_def al empty_table_def boot_pmem_def PHYSTOP_def KERNBASE_def)
  then show "pt_own empty_table [0x80025000, 0x80026000] 2 0x80024000"
    using t by (simp add: pt_own_def kmem_ready_def empty_table_def boot_pmem_def)
  show "pt_val ?m 2 0x80024000 va = 0" "pt_pages ?m 2 0x80024000 = {0x80024000}" by (rule t)+
qed

theorem mappages_correct_witness:
  "\<exists>r s' us ps' j. mappages 0x80024000 0 PGSIZE 0x80027000 (PTE_R OR PTE_W OR PTE_U) empty_table = Ok (r, s') \<and>
     [0x80025000, 0x80026000] = us @ ps' \<and> pt_own s' ps' 2 0x80024000 \<and>
     pt_mapped empty_table s' 0x80024000 us 0 j 0x80027000 (PTE_R OR PTE_W OR PTE_U) \<and> r = 0 \<and> j = 1"
proof -
  have c: "page_count 0 PGSIZE = 1" by (simp add: page_count_def PGSIZE_def)
  have z: "PGROUNDDOWN 0 = 0" by (simp add: PGROUNDDOWN_def)
  have "(0 :: uint64) < PGSIZE" "unat (0 :: uint64) + unat PGSIZE \<le> 2 ^ 38"
    "\<forall>w. in_range (PGROUNDDOWN 0) (page_count 0 PGSIZE) w \<longrightarrow> pt_val (mem empty_table) 2 0x80024000 w AND PTE_V = 0"
    by (simp_all add: empty_table_val) (simp add: PGSIZE_def)
  from mappages_correct [OF empty_table_own this, of "0x80027000" "PTE_R OR PTE_W OR PTE_U", unfolded c z]
  obtain r s' us ps' j where m:
    "mappages 0x80024000 0 PGSIZE 0x80027000 (PTE_R OR PTE_W OR PTE_U) empty_table = Ok (r, s')"
    "[0x80025000, 0x80026000] = us @ ps'" "pt_own s' ps' 2 0x80024000"
    "pt_mapped empty_table s' 0x80024000 us 0 j 0x80027000 (PTE_R OR PTE_W OR PTE_U)"
    "r = 0 \<and> j = 1 \<and> length us \<le> 2 * 1 \<or> r = -1 \<and> ps' = [] \<and> j < 1 \<and> length us < 2 * 1"
    by (elim exE conjE) (rule that)
  from m(2,5) have "r = 0 \<and> j = 1" by auto
  with m show ?thesis by blast
qed

text \<open>The state after that call: page 0 mapped, readable and writable by the user.\<close>

lemma one_user_page:
  obtains s' ps' where "mappages 0x80024000 0 PGSIZE 0x80027000 (PTE_R OR PTE_W OR PTE_U) empty_table = Ok (0, s')"
    "pt_own s' ps' 2 0x80024000" "set ps' \<subseteq> {0x80025000, 0x80026000}" "kend s' = 0x80022000"
    "pt_pages (mem s') 2 0x80024000 \<subseteq> {0x80024000, 0x80025000, 0x80026000}"
    "\<And>va. va < VATOP \<Longrightarrow> pt_val (mem s') 2 0x80024000 va =
       (if unat va < 4096 then PA2PTE 0x80027000 OR (PTE_R OR PTE_W OR PTE_U) OR PTE_V else 0)"
proof (rule mappages_page [OF empty_table_own, of 0 "0x80027000" "PTE_R OR PTE_W OR PTE_U"])
  show "page_aligned 0" "unat (0 :: uint64) + 4096 \<le> 2 ^ 38"
    "pt_val (mem empty_table) 2 0x80024000 0 AND PTE_V = 0"
    by (simp_all add: page_aligned_def empty_table_val)
next
  fix s' us ps'
  assume m: "mappages 0x80024000 0 PGSIZE 0x80027000 (PTE_R OR PTE_W OR PTE_U) empty_table = Ok (0, s')"
    "[0x80025000, 0x80026000] = us @ ps'" "pt_own s' ps' 2 0x80024000"
    "pt_mapped empty_table s' 0x80024000 us 0 1 0x80027000 (PTE_R OR PTE_W OR PTE_U)"
  have sub: "set us \<subseteq> {0x80025000, 0x80026000}" "set ps' \<subseteq> {0x80025000, 0x80026000}"
    using arg_cong [OF m(2), of set] by auto
  show thesis
  proof (rule that [OF m(1,3) sub(2)])
    show "kend s' = 0x80022000" "pt_pages (mem s') 2 0x80024000 \<subseteq> {0x80024000, 0x80025000, 0x80026000}"
      using m(4) sub(1)
      by (auto simp: pt_mapped_def empty_table_pages) (simp add: empty_table_def boot_pmem_def)
    show "pt_val (mem s') 2 0x80024000 va =
        (if unat va < 4096 then PA2PTE 0x80027000 OR (PTE_R OR PTE_W OR PTE_U) OR PTE_V else 0)"
      if "va < VATOP" for va
    proof -
      have "PGROUNDDOWN va = 0" if "unat va < 4096"
        using that by (simp add: word_unat_eq_iff unat_PGROUNDDOWN)
      then show ?thesis
        using m(4) that by (auto simp: pt_mapped_def in_range_def empty_table_val entry_for_def)
    qed
  qed
next
  fix s' assume "length [0x80025000 :: uint64, 0x80026000] < 2"
  then show thesis by simp
qed

text \<open>
  C26. \<^verbatim>\<open>uvmunmap\<close> on a range of mapped leaf pages: it never panics, clears exactly the entries of
  the range, and with \<^verbatim>\<open>do_free\<close> returns every frame of the range to the allocator; memory
  changes only in the table's pages and the freed frames.
\<close>

theorem uvmunmap_correct:
  assumes "pt_own s ps 2 pt" and "page_aligned a" and "unat a + n * 4096 \<le> 2 ^ 38"
    and "\<forall>va. in_range a n va \<longrightarrow> leaf_entry (pt_val (mem s) 2 pt va)"
    and "do_free \<Longrightarrow> distinct (frames (mem s) pt a n) \<and>
       (\<forall>f \<in> set (frames (mem s) pt a n). page_ok s f \<and> f \<notin> pt_pages (mem s) 2 pt \<and> f \<notin> set ps)"
  shows "\<exists>s'. uvmunmap pt a (of_nat n) do_free s = Ok s' \<and>
     pt_own s' (if do_free then rev (frames (mem s) pt a n) @ ps else ps) 2 pt \<and>
     pt_unmapped s s' pt a n (if do_free then set (frames (mem s) pt a n) else {})"
  using uvmunmap_loop_unmaps [OF assms(1-3) refl assms(4,5)] assms(2)
  by (simp add: uvmunmap_def page_aligned_def)

lemma mapped_frame:
  "PTE2PA (PA2PTE 0x80027000 OR (PTE_R OR PTE_W OR PTE_U) OR PTE_V) = 0x80027000"
  "leaf_entry (PA2PTE 0x80027000 OR (PTE_R OR PTE_W OR PTE_U) OR PTE_V)"
  by (simp_all add: PTE2PA_def PA2PTE_def PTE_R_def PTE_W_def PTE_U_def PTE_V_def leaf_entry_def PTE_FLAGS_def)

theorem uvmunmap_correct_witness:
  "\<exists>s ps s'. mappages 0x80024000 0 PGSIZE 0x80027000 (PTE_R OR PTE_W OR PTE_U) empty_table = Ok (0, s) \<and>
     uvmunmap 0x80024000 0 1 True s = Ok s' \<and> pt_own s' (0x80027000 # ps) 2 0x80024000"
proof (rule one_user_page)
  fix s ps'
  assume m: "mappages 0x80024000 0 PGSIZE 0x80027000 (PTE_R OR PTE_W OR PTE_U) empty_table = Ok (0, s)"
    and own: "pt_own s ps' 2 0x80024000" and ps': "set ps' \<subseteq> {0x80025000, 0x80026000}"
    and k: "kend s = 0x80022000"
    and pages: "pt_pages (mem s) 2 0x80024000 \<subseteq> {0x80024000, 0x80025000, 0x80026000}"
    and val: "\<And>va. va < VATOP \<Longrightarrow> pt_val (mem s) 2 0x80024000 va =
       (if unat va < 4096 then PA2PTE 0x80027000 OR (PTE_R OR PTE_W OR PTE_U) OR PTE_V else 0)"
  have lt: "va < VATOP" if "unat va < 4096" for va
    using that by (simp add: word_less_nat_alt unat_VATOP)
  have "frames (mem s) 0x80024000 0 1 = [0x80027000]"
    using val [OF lt] mapped_frame by simp
  moreover have "page_ok s 0x80027000"
    by (simp add: page_ok_def page_aligned_def PGSIZE_def k PHYSTOP_def KERNBASE_def)
  moreover have "0x80027000 \<notin> pt_pages (mem s) 2 0x80024000" "0x80027000 \<notin> set ps'"
    using pages ps' by auto
  ultimately have "\<exists>s'. uvmunmap 0x80024000 0 (of_nat 1) True s = Ok s' \<and>
      pt_own s' (rev [0x80027000] @ ps') 2 0x80024000 \<and> pt_unmapped s s' 0x80024000 0 1 {0x80027000}"
    using uvmunmap_correct [OF own, of 0 1 True] val lt mapped_frame
    by (auto simp: page_aligned_def in_range_def)
  with m show ?thesis by auto
qed

end
