(* ===== verification/Usercopy.thy ===== *)
theory Usercopy
  imports Addrspace
begin

text \<open>
  \<^verbatim>\<open>copyout\<close>, \<^verbatim>\<open>copyin\<close> and \<^verbatim>\<open>copyinstr\<close> of kernel/vm.c against the user's view of memory:
  \<open>uread m pt va\<close> is the byte a process with page table \<open>pt\<close> sees at \<open>va\<close>. \<open>user_ok\<close> says that no
  user page is a page of the table and that two pages never share a frame.
\<close>

definition uread :: "memory \<Rightarrow> uint64 \<Rightarrow> uint64 \<Rightarrow> uint8" where
  "uread m pt va = m (translate m pt (PGROUNDDOWN va) + (va - PGROUNDDOWN va))"

definition umapped :: "memory \<Rightarrow> uint64 \<Rightarrow> uint64 \<Rightarrow> bool" where
  "umapped m pt va \<longleftrightarrow> translate m pt (PGROUNDDOWN va) \<noteq> 0"

definition user_ok :: "memory \<Rightarrow> uint64 \<Rightarrow> bool" where
  "user_ok m pt \<longleftrightarrow> pt_wf m 2 pt \<and>
     (\<forall>va. umapped m pt va \<longrightarrow> translate m pt (PGROUNDDOWN va) \<notin> pt_pages m 2 pt) \<and>
     (\<forall>va va'. umapped m pt va \<longrightarrow> umapped m pt va' \<longrightarrow>
        translate m pt (PGROUNDDOWN va) = translate m pt (PGROUNDDOWN va') \<longrightarrow>
        PGROUNDDOWN va = PGROUNDDOWN va')"

lemma PTE2PA_aligned: "page_aligned (PTE2PA v)"
proof -
  have "take_bit 12 (PTE2PA v) = 0"
    unfolding PTE2PA_def by (rule bit_word_eqI) (auto simp: bit_simps)
  then show ?thesis by (simp add: page_aligned_def PGSIZE_def take_bit_eq_mod)
qed

lemma translate_aligned: "page_aligned (translate m pt va)"
  using PTE2PA_aligned by (auto simp: translate_def Let_def page_aligned_def)

lemma translate_agree:
  "agree_on (pt_pages m 2 pt) m m' \<Longrightarrow> translate m' pt va = translate m pt va"
  by (simp add: translate_def pt_val_agree)

lemma user_ok_agree:
  assumes "user_ok m pt" and "agree_on (pt_pages m 2 pt) m m'"
  shows "user_ok m' pt"
  using assms translate_agree [OF assms(2)]
  by (simp add: user_ok_def umapped_def pt_wf_agree pt_pages_agree)

lemma write_bytes_apply:
  assumes "length bs \<le> 4096"
  shows "write_bytes m a bs x = (if unat (x - a) < length bs then bs ! unat (x - a) else m x)"
  using assms
proof (induction bs arbitrary: m a)
  case Nil
  show ?case by simp
next
  case (Cons b bs)
  have step: "unat (x - (a + 1)) = unat (x - a) - 1" if "x \<noteq> a"
  proof -
    have "x - a \<noteq> 0" using that by simp
    then show ?thesis by (simp add: unat_minus_one flip: diff_diff_eq)
  qed
  show ?case
  proof (cases "x = a")
    case True
    have "unat (a - (a + 1)) = 2 ^ 64 - 1" by (simp add: unsigned_minus_1_eq_mask mask_eq_exp_minus_1)
    then show ?thesis using Cons True by simp
  next
    case False
    then have "0 < unat (x - a)" by (simp add: unat_gt_0)
    then show ?thesis using Cons step [OF False] False by (auto simp: nth_Cons')
  qed
qed

text \<open>The bytes of one page: offsets and page of \<open>va + i\<close> for \<open>i\<close> up to the end of the page.\<close>

lemma in_chunk:
  assumes "unat va + len \<le> 2 ^ 38" and "unat w - unat va < chunk va len" and "unat va \<le> unat w"
  shows "PGROUNDDOWN w = PGROUNDDOWN va"
proof -
  have "unat w - unat va < 4096 - unat va mod 4096" using assms(2) by (simp add: chunk_eq)
  then have "unat w < unat va + (4096 - unat va mod 4096)" using assms(3) by linarith
  moreover have "unat va = unat va div 4096 * 4096 + unat va mod 4096" by simp
  ultimately have "unat va div 4096 * 4096 \<le> unat w" "unat w < unat va div 4096 * 4096 + 4096"
    using assms(3) mod_less_divisor [of 4096 "unat va"] by linarith+
  then have "unat w div 4096 = unat va div 4096" by (simp add: div_nat_eqI)
  then show ?thesis by (simp add: word_unat_eq_iff unat_PGROUNDDOWN)
qed

text \<open>One round of \<^verbatim>\<open>copyout\<close>: the chunk is written, every other mapped byte is kept.\<close>

lemma copy_chunk:
  assumes ok: "user_ok m pt" and pa0: "pa0 = translate m pt (PGROUNDDOWN dst)" "pa0 \<noteq> 0"
    and len: "unat dst + length src \<le> 2 ^ 38" and n: "n = chunk dst (length src)"
    and m': "m' = write_bytes m (pa0 + (dst - PGROUNDDOWN dst)) (take n src)"
  shows "agree_on (pt_pages m 2 pt) m m'"
    and "umapped m pt va \<Longrightarrow> uread m' pt va =
      (if unat dst \<le> unat va \<and> unat va - unat dst < n then src ! (unat va - unat dst) else uread m pt va)"
    and "changes_in {pa0} m m'"
proof -
  let ?off = "dst - PGROUNDDOWN dst"
  have n_le: "n \<le> length src" "n + unat ?off \<le> 4096"
    using mod_less_divisor [of 4096 "unat dst"] by (auto simp: n chunk_eq offset_in_page)
  have app: "m' x = (if unat (x - (pa0 + ?off)) < n then src ! unat (x - (pa0 + ?off)) else m x)" for x
    using n_le by (simp add: m' write_bytes_apply min_def)
  have so: "same_outside pa0 m m'"
    unfolding same_outside_def
  proof (intro allI impI)
    fix x assume x: "4096 \<le> unat (x - pa0)"
    have "?off \<le> x - pa0" using x n_le by (simp add: word_le_nat_alt)
    then have "unat ((x - pa0) - ?off) = unat (x - pa0) - unat ?off" by (rule unat_sub)
    moreover have "x - (pa0 + ?off) = (x - pa0) - ?off" by (rule diff_diff_add [symmetric])
    ultimately have "unat (x - (pa0 + ?off)) = unat (x - pa0) - unat ?off" by metis
    then have "\<not> unat (x - (pa0 + ?off)) < n" using x n_le by linarith
    then show "m' x = m x" using app by simp
  qed
  then show "changes_in {pa0} m m'" by (simp add: changes_in_single)
  have al: "page_aligned pa0" by (simp add: pa0 translate_aligned)
  have "pa0 \<notin> pt_pages m 2 pt" using ok pa0 by (auto simp: user_ok_def umapped_def)
  moreover have "\<forall>p \<in> pt_pages m 2 pt. page_aligned p"
    using ok wf_pages_aligned by (auto simp: user_ok_def table_page_def)
  ultimately show ag: "agree_on (pt_pages m 2 pt) m m'" by (intro agree_on_same_outside [OF so al])
  show "uread m' pt va =
      (if unat dst \<le> unat va \<and> unat va - unat dst < n then src ! (unat va - unat dst) else uread m pt va)"
    if mapped: "umapped m pt va"
  proof (cases "PGROUNDDOWN va = PGROUNDDOWN dst")
    case True
    then have rel: "pa0 + (va - PGROUNDDOWN va) - (pa0 + ?off) = va - dst" by simp
    have "unat (va - dst) < n \<longleftrightarrow> unat dst \<le> unat va \<and> unat va - unat dst < n"
      and "unat dst \<le> unat va \<Longrightarrow> unat (va - dst) = unat va - unat dst"
      using n_le len by (auto simp: unat_sub_if_size word_size)
    then show ?thesis
      using True by (simp add: uread_def translate_agree [OF ag] pa0(1) [symmetric] app rel)
  next
    case False
    let ?pa = "translate m pt (PGROUNDDOWN va)"
    have "\<not> (unat dst \<le> unat va \<and> unat va - unat dst < n)"
      using in_chunk [OF len, of va] False by (auto simp: n)
    moreover have "?pa \<noteq> pa0" using ok mapped pa0 False by (auto simp: user_ok_def umapped_def)
    then have "agree_on {?pa} m m'"
      using al translate_aligned by (intro agree_on_same_outside [OF so]) auto
    then have "m' (?pa + (va - PGROUNDDOWN va)) = m (?pa + (va - PGROUNDDOWN va))"
      by (simp add: agree_on_def offset_in_page)
    ultimately show ?thesis by (auto simp: uread_def translate_agree [OF ag])
  qed
qed

lemma chunk_next:
  assumes "unat va + len \<le> 2 ^ 38" and "chunk va len < len"
  shows "unat (PGROUNDDOWN va + PGSIZE) = unat va + chunk va len"
proof -
  have c: "chunk va len = 4096 - unat va mod 4096" using assms(2) by (simp add: chunk_eq)
  have "unat va div 4096 * 4096 + unat va mod 4096 = unat va" by simp
  then have "unat (PGROUNDDOWN va) + 4096 = unat va + chunk va len"
    using c mod_less_divisor [of 4096 "unat va"] unfolding unat_PGROUNDDOWN by linarith
  moreover have "unat va + chunk va len < 2 ^ 64" using assms by simp
  ultimately show ?thesis using unat_add_lem [of "PGROUNDDOWN va" PGSIZE] by simp
qed

lemma chunk_le: "chunk va len \<le> len"
  by (simp add: chunk_eq)

text \<open>All bytes of the range are mapped.\<close>

definition range_mapped :: "memory \<Rightarrow> uint64 \<Rightarrow> uint64 \<Rightarrow> nat \<Rightarrow> bool" where
  "range_mapped m pt va len \<longleftrightarrow> (\<forall>w. unat va \<le> unat w \<and> unat w < unat va + len \<longrightarrow> umapped m pt w)"

lemma range_mapped_chunk:
  assumes "0 < len" and "unat va + len \<le> 2 ^ 38"
  shows "range_mapped m pt va len \<longleftrightarrow>
     umapped m pt va \<and> range_mapped m pt (PGROUNDDOWN va + PGSIZE) (len - chunk va len)"
proof (cases "chunk va len < len")
  case True
  let ?c = "chunk va len"
  have first: "umapped m pt w = umapped m pt va"
    if "unat va \<le> unat w" "unat w < unat va + ?c" for w
  proof -
    have "unat w - unat va < ?c" using that by linarith
    then show ?thesis using in_chunk [OF assms(2) _ that(1)] by (simp only: umapped_def)
  qed
  have rest: "range_mapped m pt (PGROUNDDOWN va + PGSIZE) (len - ?c) \<longleftrightarrow>
      (\<forall>w. unat va + ?c \<le> unat w \<and> unat w < unat va + len \<longrightarrow> umapped m pt w)"
  proof -
    have eq: "unat va + ?c + (len - ?c) = unat va + len" using True by simp
    show ?thesis unfolding range_mapped_def chunk_next [OF assms(2) True] eq by (rule refl)
  qed
  show ?thesis
    unfolding rest
    unfolding range_mapped_def
  proof (intro iffI conjI allI impI)
    assume "\<forall>w. unat va \<le> unat w \<and> unat w < unat va + len \<longrightarrow> umapped m pt w"
    then show "umapped m pt va" using assms(1) by (auto dest!: spec [of _ va])
  next
    fix w :: uint64
    assume all: "\<forall>w. unat va \<le> unat w \<and> unat w < unat va + len \<longrightarrow> umapped m pt w"
    assume "unat va + ?c \<le> unat w \<and> unat w < unat va + len"
    then show "umapped m pt w" using all by (auto dest!: spec [of _ w])
  next
    fix w :: uint64
    assume all: "umapped m pt va \<and> (\<forall>w. unat va + ?c \<le> unat w \<and> unat w < unat va + len \<longrightarrow> umapped m pt w)"
      and w: "unat va \<le> unat w \<and> unat w < unat va + len"
    show "umapped m pt w"
    proof (cases "unat w < unat va + ?c")
      case True
      with first w all show ?thesis by blast
    next
      case False
      then have "unat va + ?c \<le> unat w" by linarith
      with all w show ?thesis by blast
    qed
  qed
next
  case False
  then have c: "chunk va len = len" using chunk_le [of va len] by simp
  have same: "umapped m pt w = umapped m pt va" if "unat va \<le> unat w" "unat w < unat va + len" for w
  proof -
    have "unat w - unat va < chunk va len" using that c by linarith
    then show ?thesis using in_chunk [OF assms(2) _ that(1)] by (simp only: umapped_def)
  qed
  have "range_mapped m pt va len \<longleftrightarrow> umapped m pt va"
  proof
    assume "range_mapped m pt va len"
    then show "umapped m pt va" using assms(1) by (auto simp: range_mapped_def dest!: spec [of _ va])
  next
    assume "umapped m pt va"
    then show "range_mapped m pt va len" unfolding range_mapped_def using same by blast
  qed
  moreover have "range_mapped m pt w 0" for w by (auto simp: range_mapped_def)
  ultimately show ?thesis by (simp add: c)
qed

lemma range_mapped_agree:
  "agree_on (pt_pages m 2 pt) m m' \<Longrightarrow> range_mapped m' pt va len = range_mapped m pt va len"
  by (simp add: range_mapped_def umapped_def translate_agree)

lemma copyout_writes:
  assumes "user_ok (mem s) pt" and "unat dst + length src \<le> 2 ^ 38"
    and "range_mapped (mem s) pt dst (length src)"
  shows "\<exists>m'. copyout pt dst src s = Ok (0, s\<lparr>mem := m'\<rparr>) \<and> agree_on (pt_pages (mem s) 2 pt) (mem s) m' \<and>
     (\<forall>va. umapped (mem s) pt va \<longrightarrow> uread m' pt va =
        (if unat dst \<le> unat va \<and> unat va < unat dst + length src then src ! (unat va - unat dst)
         else uread (mem s) pt va))"
  using assms
proof (induction pt dst src s rule: copyout.induct)
  case (1 pt dst src s)
  show ?case
  proof (cases "length src > 0")
    case False
    then have "copyout pt dst src s = Ok (0, s\<lparr>mem := mem s\<rparr>)" by (simp add: copyout.simps)
    then show ?thesis using False by (intro exI [of _ "mem s"]) (auto simp: agree_on_def)
  next
    case True
    let ?pa0 = "translate (mem s) pt (PGROUNDDOWN dst)" and ?n = "chunk dst (length src)"
    define m1 where "m1 = write_bytes (mem s) (?pa0 + (dst - PGROUNDDOWN dst)) (take ?n src)"
    have wf: "pt_wf (mem s) 2 pt" using "1.prems"(1) by (simp add: user_ok_def)
    have mapped: "?pa0 \<noteq> 0"
      and rest: "range_mapped (mem s) pt (PGROUNDDOWN dst + PGSIZE) (length src - ?n)"
      using "1.prems" range_mapped_chunk [OF True] by (auto simp: umapped_def)
    note c = copy_chunk [OF "1.prems"(1) refl mapped "1.prems"(2) refl m1_def]
    have run: "copyout pt dst src s =
        copyout pt (PGROUNDDOWN dst + PGSIZE) (drop ?n src) (s\<lparr>mem := m1\<rparr>)"
      using True mapped by (subst copyout.simps) (simp add: walkaddr_translate [OF wf] Let_def m1_def)
    have ok1: "user_ok m1 pt" using user_ok_agree [OF "1.prems"(1) c(1)] .
    have map1: "umapped m1 pt va = umapped (mem s) pt va" for va
      using c(1) by (simp add: umapped_def translate_agree)
    have nx: "unat (PGROUNDDOWN dst + PGSIZE) = unat dst + ?n" if "?n < length src"
      using chunk_next [OF "1.prems"(2) that] .
    have "\<exists>m'. copyout pt (PGROUNDDOWN dst + PGSIZE) (drop ?n src) (s\<lparr>mem := m1\<rparr>) = Ok (0, s\<lparr>mem := m'\<rparr>) \<and>
        agree_on (pt_pages m1 2 pt) m1 m' \<and>
        (\<forall>va. umapped m1 pt va \<longrightarrow> uread m' pt va =
          (if unat dst + ?n \<le> unat va \<and> unat va < unat dst + length src then src ! (unat va - unat dst)
           else uread m1 pt va))"
    proof (cases "?n < length src")
      case False
      then have "?n = length src" using chunk_le [of dst "length src"] by simp
      then have "copyout pt (PGROUNDDOWN dst + PGSIZE) (drop ?n src) (s\<lparr>mem := m1\<rparr>) = Ok (0, s\<lparr>mem := m1\<rparr>)"
        by (simp add: copyout.simps)
      then show ?thesis using False by (intro exI [of _ m1]) (auto simp: agree_on_def)
    next
      case lt: True
      have step: "unat (PGROUNDDOWN dst + PGSIZE) + length (drop ?n src) \<le> 2 ^ 38"
        using nx [OF lt] lt "1.prems"(2) by simp
      have rest1: "range_mapped m1 pt (PGROUNDDOWN dst + PGSIZE) (length (drop ?n src))"
        using rest c(1) by (simp add: range_mapped_agree)
      have IH: "\<exists>m'. copyout pt (PGROUNDDOWN dst + PGSIZE) (drop ?n src) (s\<lparr>mem := m1\<rparr>) =
          Ok (0, (s\<lparr>mem := m1\<rparr>)\<lparr>mem := m'\<rparr>) \<and> agree_on (pt_pages (mem (s\<lparr>mem := m1\<rparr>)) 2 pt) (mem (s\<lparr>mem := m1\<rparr>)) m' \<and>
          (\<forall>va. umapped (mem (s\<lparr>mem := m1\<rparr>)) pt va \<longrightarrow> uread m' pt va =
            (if unat (PGROUNDDOWN dst + PGSIZE) \<le> unat va \<and>
                unat va < unat (PGROUNDDOWN dst + PGSIZE) + length (drop ?n src)
             then drop ?n src ! (unat va - unat (PGROUNDDOWN dst + PGSIZE)) else uread (mem (s\<lparr>mem := m1\<rparr>)) pt va))"
        by (rule "1.IH" [OF True walkaddr_translate [OF wf] refl mapped refl, folded m1_def])
           (use ok1 step rest1 in simp_all)
      then show ?thesis using nx [OF lt] lt by (auto simp: nth_drop)
    qed
    then obtain m' where m': "copyout pt dst src s = Ok (0, s\<lparr>mem := m'\<rparr>)" "agree_on (pt_pages m1 2 pt) m1 m'"
      "\<And>va. umapped (mem s) pt va \<Longrightarrow> uread m' pt va =
        (if unat dst + ?n \<le> unat va \<and> unat va < unat dst + length src then src ! (unat va - unat dst)
         else uread m1 pt va)"
      unfolding run map1 by blast
    have "agree_on (pt_pages (mem s) 2 pt) (mem s) m'"
      using agree_on_trans [OF c(1)] m'(2) by (simp add: pt_pages_agree [OF c(1)])
    moreover have "uread m' pt va =
        (if unat dst \<le> unat va \<and> unat va < unat dst + length src then src ! (unat va - unat dst)
         else uread (mem s) pt va)" if "umapped (mem s) pt va" for va
      using m'(3) [OF that] c(2) [OF that] chunk_le [of dst "length src"] by auto
    ultimately show ?thesis using m'(1) by blast
  qed
qed

text \<open>A range with an unmapped byte makes the copy fail.\<close>

lemma copyout_fails:
  assumes "user_ok (mem s) pt" and "unat dst + length src \<le> 2 ^ 38"
    and "\<not> range_mapped (mem s) pt dst (length src)"
  shows "\<exists>m'. copyout pt dst src s = Ok (-1, s\<lparr>mem := m'\<rparr>)"
  using assms
proof (induction pt dst src s rule: copyout.induct)
  case (1 pt dst src s)
  have pos: "length src > 0" using "1.prems"(3) by (auto simp: range_mapped_def)
  let ?pa0 = "translate (mem s) pt (PGROUNDDOWN dst)" and ?n = "chunk dst (length src)"
  define m1 where "m1 = write_bytes (mem s) (?pa0 + (dst - PGROUNDDOWN dst)) (take ?n src)"
  have wf: "pt_wf (mem s) 2 pt" using "1.prems"(1) by (simp add: user_ok_def)
  show ?case
  proof (cases "?pa0 = 0")
    case True
    then show ?thesis
      using pos by (subst copyout.simps) (auto simp: walkaddr_translate [OF wf] intro: exI [of _ "mem s"])
  next
    case False
    note c = copy_chunk [OF "1.prems"(1) refl False "1.prems"(2) refl m1_def]
    have rest: "\<not> range_mapped (mem s) pt (PGROUNDDOWN dst + PGSIZE) (length src - ?n)"
      using "1.prems" range_mapped_chunk [OF pos] False by (auto simp: umapped_def)
    then have lt: "?n < length src" using chunk_le [of dst "length src"]
      by (auto simp: range_mapped_def le_less)
    have run: "copyout pt dst src s =
        copyout pt (PGROUNDDOWN dst + PGSIZE) (drop ?n src) (s\<lparr>mem := m1\<rparr>)"
      using pos False by (subst copyout.simps) (simp add: walkaddr_translate [OF wf] Let_def m1_def)
    have "\<exists>m'. copyout pt (PGROUNDDOWN dst + PGSIZE) (drop ?n src) (s\<lparr>mem := m1\<rparr>) =
        Ok (-1, (s\<lparr>mem := m1\<rparr>)\<lparr>mem := m'\<rparr>)"
    proof (rule "1.IH" [OF pos walkaddr_translate [OF wf] refl False refl, folded m1_def])
      show "user_ok (mem (s\<lparr>mem := m1\<rparr>)) pt" using user_ok_agree [OF "1.prems"(1) c(1)] by simp
      show "unat (PGROUNDDOWN dst + PGSIZE) + length (drop ?n src) \<le> 2 ^ 38"
        using chunk_next [OF "1.prems"(2) lt] lt "1.prems"(2) by simp
      show "\<not> range_mapped (mem (s\<lparr>mem := m1\<rparr>)) pt (PGROUNDDOWN dst + PGSIZE) (length (drop ?n src))"
        using rest c(1) by (simp add: range_mapped_agree)
    qed
    then show ?thesis by (simp add: run)
  qed
qed

lemma read_bytes_chunk:
  assumes "unat va + len \<le> 2 ^ 38"
  shows "read_bytes m (translate m pt (PGROUNDDOWN va) + (va - PGROUNDDOWN va)) (chunk va len) =
     map (\<lambda>i. uread m pt (va + of_nat i)) [0..<chunk va len]"
  unfolding read_bytes_def
proof (rule map_cong [OF refl])
  fix i assume "i \<in> set [0..<chunk va len]"
  then have i: "i < chunk va len" by simp
  moreover have "chunk va len \<le> len" by (rule chunk_le)
  ultimately have "unat (va + of_nat i) = unat va + i"
    using assms unat_add_lem [of va "of_nat i"] by (simp add: unat_of_nat take_bit_nat_eq_self)
  then have "PGROUNDDOWN (va + of_nat i) = PGROUNDDOWN va"
    using i by (intro in_chunk [OF assms]) auto
  then show "m (translate m pt (PGROUNDDOWN va) + (va - PGROUNDDOWN va) + of_nat i) =
      uread m pt (va + of_nat i)"
    by (simp add: uread_def algebra_simps)
qed

lemma copyin_reads:
  assumes "pt_wf (mem s) 2 pt" and "unat src + len \<le> 2 ^ 38" and "range_mapped (mem s) pt src len"
  shows "copyin pt src len s = Ok (0, map (\<lambda>i. uread (mem s) pt (src + of_nat i)) [0..<len], s)"
  using assms
proof (induction pt src len s rule: copyin.induct)
  case (1 pt src len s)
  show ?case
  proof (cases "len > 0")
    case False
    then show ?thesis by (simp add: copyin.simps)
  next
    case True
    let ?n = "chunk src len" and ?pa0 = "translate (mem s) pt (PGROUNDDOWN src)"
      and ?f = "\<lambda>i. uread (mem s) pt (src + of_nat i)"
    note walk = walkaddr_translate [OF "1.prems"(1), of "PGROUNDDOWN src"]
    have mapped: "?pa0 \<noteq> 0"
      and rest: "range_mapped (mem s) pt (PGROUNDDOWN src + PGSIZE) (len - ?n)"
      using "1.prems" range_mapped_chunk [OF True] by (auto simp: umapped_def)
    have "copyin pt (PGROUNDDOWN src + PGSIZE) (len - ?n) s = Ok (0, map ?f [?n..<len], s)"
    proof (cases "?n < len")
      case False
      then show ?thesis using chunk_le [of src len] by (simp add: copyin.simps)
    next
      case lt: True
      note nx = chunk_next [OF "1.prems"(2) lt]
      have eq: "PGROUNDDOWN src + PGSIZE = src + of_nat ?n"
        using nx "1.prems"(2) lt by (simp add: word_unat_eq_iff unat_word_ariths unat_of_nat take_bit_nat_eq_self)
      have "copyin pt (PGROUNDDOWN src + PGSIZE) (len - ?n) s =
          Ok (0, map (\<lambda>i. uread (mem s) pt (PGROUNDDOWN src + PGSIZE + of_nat i)) [0..<len - ?n], s)"
        by (rule "1.IH" [OF True walk refl mapped refl "1.prems"(1) _ rest])
           (use nx lt "1.prems"(2) in simp)
      moreover have "map (\<lambda>i. uread (mem s) pt (PGROUNDDOWN src + PGSIZE + of_nat i)) [0..<len - ?n] =
          map ?f [?n..<len]"
        unfolding eq using lt by (intro nth_equalityI) (auto simp: ac_simps)
      ultimately show ?thesis by simp
    qed
    moreover have "map ?f [0..<len] = map ?f [0..<?n] @ map ?f [?n..<len]"
      using chunk_le [of src len] by (metis map_append upt_add_eq_append le_add_diff_inverse zero_le)
    ultimately show ?thesis
      using True mapped walk read_bytes_chunk [OF "1.prems"(2), of "mem s" pt]
      by (subst copyin.simps) (simp add: Let_def)
  qed
qed

section \<open>Properties\<close>

lemma one_user_page_ok:
  assumes own: "pt_own s ps 2 0x80024000"
    and pages: "pt_pages (mem s) 2 0x80024000 \<subseteq> {0x80024000, 0x80025000, 0x80026000}"
    and val_all: "\<forall>va. va < MAXVA \<longrightarrow> pt_val (mem s) 2 0x80024000 va =
       (if unat va < 4096 then PA2PTE 0x80027000 OR (PTE_R OR PTE_W OR PTE_U) OR PTE_V else 0)"
  shows "user_ok (mem s) 0x80024000" and "unat va < 4096 \<Longrightarrow> umapped (mem s) 0x80024000 va"
proof -
  note val = val_all [rule_format]
  let ?e = "PA2PTE 0x80027000 OR (PTE_R OR PTE_W OR PTE_U) OR PTE_V"
  have e: "?e AND PTE_V \<noteq> 0" "?e AND PTE_U \<noteq> 0"
    by (simp_all add: PA2PTE_def PTE_R_def PTE_W_def PTE_U_def PTE_V_def)
  have tr: "translate (mem s) 0x80024000 va = (if unat va < 4096 then 0x80027000 else 0)" for va
  proof (cases "va < MAXVA")
    case True
    then show ?thesis using e mapped_frame(1) by (simp add: translate_def val)
  next
    case False
    then have "\<not> unat va < 4096" by (simp add: word_less_nat_alt unat_MAXVA)
    with False show ?thesis by (simp add: translate_def Let_def)
  qed
  have um: "umapped (mem s) 0x80024000 va \<longleftrightarrow> unat va < 4096" for va
    by (auto simp: umapped_def tr unat_PGROUNDDOWN)
  show "umapped (mem s) 0x80024000 va" if "unat va < 4096" using that um by simp
  have zero: "PGROUNDDOWN va = 0" if "unat va < 4096" for va
    using that by (simp add: word_unat_eq_iff unat_PGROUNDDOWN)
  show "user_ok (mem s) 0x80024000"
    using own pages zero by (auto simp: user_ok_def um tr pt_own_def)
qed

text \<open>
  C5. \<^verbatim>\<open>copyout\<close> to a range below MAXVA returns 0 exactly when every byte of the range is
  mapped for the user, and then the process sees the bytes of the buffer there, every other
  byte of the process is unchanged, and \<^verbatim>\<open>copyin\<close> reads the buffer back; otherwise it
  returns -1.
\<close>

theorem copyout_copyin_roundtrip:
  assumes "user_ok (mem s) pt" and "unat dst + length src \<le> 2 ^ 38"
  shows "if range_mapped (mem s) pt dst (length src)
    then \<exists>m'. copyout pt dst src s = Ok (0, s\<lparr>mem := m'\<rparr>) \<and>
      copyin pt dst (length src) (s\<lparr>mem := m'\<rparr>) = Ok (0, src, s\<lparr>mem := m'\<rparr>) \<and>
      (\<forall>va. umapped (mem s) pt va \<and> \<not> (unat dst \<le> unat va \<and> unat va < unat dst + length src) \<longrightarrow>
         uread m' pt va = uread (mem s) pt va)
    else \<exists>m'. copyout pt dst src s = Ok (-1, s\<lparr>mem := m'\<rparr>)"
proof (cases "range_mapped (mem s) pt dst (length src)")
  case True
  then obtain m' where m': "copyout pt dst src s = Ok (0, s\<lparr>mem := m'\<rparr>)"
    "agree_on (pt_pages (mem s) 2 pt) (mem s) m'"
    "\<And>va. umapped (mem s) pt va \<Longrightarrow> uread m' pt va =
        (if unat dst \<le> unat va \<and> unat va < unat dst + length src then src ! (unat va - unat dst)
         else uread (mem s) pt va)"
    using copyout_writes [OF assms True] by blast
  have byte: "uread m' pt (dst + of_nat i) = src ! i" if "i < length src" for i
  proof -
    have u: "unat (dst + of_nat i) = unat dst + i"
      using that assms(2) unat_add_lem [of dst "of_nat i"]
      by (simp add: unat_of_nat take_bit_nat_eq_self)
    then have "umapped (mem s) pt (dst + of_nat i)" using True that by (simp add: range_mapped_def)
    from m'(3) [OF this] u that show ?thesis by simp
  qed
  have "pt_wf m' 2 pt" using assms(1) m'(2) by (simp add: user_ok_def pt_wf_agree)
  then have "copyin pt dst (length src) (s\<lparr>mem := m'\<rparr>) =
      Ok (0, map (\<lambda>i. uread m' pt (dst + of_nat i)) [0..<length src], s\<lparr>mem := m'\<rparr>)"
    using copyin_reads [of "s\<lparr>mem := m'\<rparr>" pt dst "length src"] assms(2) True m'(2)
    by (simp add: range_mapped_agree)
  also have "map (\<lambda>i. uread m' pt (dst + of_nat i)) [0..<length src] = src"
    using byte by (intro nth_equalityI) auto
  finally show ?thesis using True m'(1,3) by auto
next
  case False
  then show ?thesis using copyout_fails [OF assms] by simp
qed

theorem copyout_copyin_roundtrip_witness:
  "\<exists>s m'. mappages 0x80024000 0 PGSIZE 0x80027000 (PTE_R OR PTE_W OR PTE_U) empty_table = Ok (0, s) \<and>
     copyout 0x80024000 16 [7, 8, 9] s = Ok (0, s\<lparr>mem := m'\<rparr>) \<and>
     copyin 0x80024000 16 3 (s\<lparr>mem := m'\<rparr>) = Ok (0, [7, 8, 9], s\<lparr>mem := m'\<rparr>)"
proof (rule one_user_page)
  fix s ps'
  assume m: "mappages 0x80024000 0 PGSIZE 0x80027000 (PTE_R OR PTE_W OR PTE_U) empty_table = Ok (0, s)"
    and own: "pt_own s ps' 2 0x80024000"
    and pages: "pt_pages (mem s) 2 0x80024000 \<subseteq> {0x80024000, 0x80025000, 0x80026000}"
    and val: "\<And>va. va < VATOP \<Longrightarrow> pt_val (mem s) 2 0x80024000 va =
       (if unat va < 4096 then PA2PTE 0x80027000 OR (PTE_R OR PTE_W OR PTE_U) OR PTE_V else 0)"
  have "\<forall>va. va < MAXVA \<longrightarrow> pt_val (mem s) 2 0x80024000 va =
      (if unat va < 4096 then PA2PTE 0x80027000 OR (PTE_R OR PTE_W OR PTE_U) OR PTE_V else 0)"
    using val by simp
  note ok = one_user_page_ok [OF own pages this]
  have r: "range_mapped (mem s) 0x80024000 16 3" unfolding range_mapped_def using ok(2) by auto
  have len: "length [7, 8, 9 :: uint8] = 3" and le: "unat (16 :: uint64) + 3 \<le> 2 ^ 38" by simp_all
  from copyout_copyin_roundtrip [OF ok(1), of 16 "[7, 8, 9]", unfolded len, OF le] m show ?thesis
    unfolding if_P [OF r] by blast
qed

end
