(* ===== verification/Pagefree.thy ===== *)
theory Pagefree
  imports Usercopy
begin

text \<open>
  Tearing an address space down (kernel/vm.c): \<^verbatim>\<open>freewalk\<close> and \<^verbatim>\<open>uvmfree\<close> give every page of
  the table, and every user frame, back to the allocator, each exactly once.
\<close>

section \<open>freewalk\<close>

fun no_leaf :: "memory \<Rightarrow> nat \<Rightarrow> uint64 \<Rightarrow> bool" where
  "no_leaf m 0 pt \<longleftrightarrow> (\<forall>i. unat i < 512 \<longrightarrow> load64 m (pt + 8 * i) AND PTE_V = 0)"
| "no_leaf m (Suc l) pt \<longleftrightarrow> (\<forall>i c. child m pt i = Some c \<longrightarrow> no_leaf m l c)"

lemma no_leaf_agree:
  "agree_on (pt_pages m l pt) m m' \<Longrightarrow> no_leaf m' l pt = no_leaf m l pt"
proof (induction l arbitrary: pt)
  case 0
  then show ?case by (auto simp: load64_agree_on)
next
  case (Suc l)
  have "child m' pt i = child m pt i" for i
    using Suc.prems by (rule child_agree_on) (simp add: root_in_pages)
  moreover have "no_leaf m' l c = no_leaf m l c" if "child m pt i = Some c" for i c
    using that Suc.prems
    by (intro Suc.IH) (rule agree_on_mono, auto simp: in_pages_Suc in_sub_iff)
  ultimately show ?case by (metis no_leaf.simps(2))
qed

text \<open>\<open>freed s ps s' qs\<close>: from \<open>s\<close> to \<open>s'\<close> the pages \<open>qs\<close> were given back to the pool \<open>ps\<close>.\<close>

definition freed :: "pmem \<Rightarrow> uint64 list \<Rightarrow> pmem \<Rightarrow> uint64 list \<Rightarrow> uint64 set \<Rightarrow> bool" where
  "freed s ps s' qs W \<longleftrightarrow> kmem_ready s' \<and> kmem_inv s' (qs @ ps) \<and> kend s' = kend s \<and>
     changes_in (set qs \<union> W) (mem s) (mem s')"

lemma freed_trans:
  "freed s ps s1 qs W \<Longrightarrow> freed s1 (qs @ ps) s2 rs W' \<Longrightarrow> freed s ps s2 (rs @ qs) (W \<union> W')"
  unfolding freed_def by (auto intro: changes_in_trans [THEN changes_in_mono])

text \<open>What the loop over the entries \<open>is\<close> of a table page relies on.\<close>

definition kids_ok :: "pmem \<Rightarrow> uint64 list \<Rightarrow> nat \<Rightarrow> uint64 \<Rightarrow> nat list \<Rightarrow> bool" where
  "kids_ok s ps l pt is \<longleftrightarrow> kmem_ready s \<and> kmem_inv s ps \<and> table_page pt \<and> pt \<notin> set ps \<and>
     interior_ok (mem s) pt \<and> distinct is \<and>
     (\<forall>i \<in> set is. i < 512 \<and> pt \<notin> sub (mem s) l pt (of_nat i) \<and>
        sub (mem s) l pt (of_nat i) \<inter> set ps = {} \<and>
        (\<forall>p \<in> sub (mem s) l pt (of_nat i). page_ok s p) \<and>
        (\<forall>c. child (mem s) pt (of_nat i) = Some c \<longrightarrow> pt_wf (mem s) l c \<and> no_leaf (mem s) l c) \<and>
        (\<forall>j \<in> set is. j \<noteq> i \<longrightarrow> sub (mem s) l pt (of_nat i) \<inter> sub (mem s) l pt (of_nat j) = {}))"

definition frees_tables :: "nat \<Rightarrow> (uint64 \<Rightarrow> pmem \<Rightarrow> pmem outcome) \<Rightarrow> bool" where
  "frees_tables l f \<longleftrightarrow> (\<forall>c s ps. pt_own s ps l c \<and> no_leaf (mem s) l c \<and>
       (\<forall>p \<in> pt_pages (mem s) l c. page_ok s p) \<longrightarrow>
     (\<exists>s' qs. f c s = Ok s' \<and> freed s ps s' qs {} \<and> set qs = pt_pages (mem s) l c))"

lemma kids_ok_skip: "kids_ok s ps l pt (i # is) \<Longrightarrow> kids_ok s ps l pt is"
  by (auto simp: kids_ok_def)

lemma unat_small [simp]: "i < 512 \<Longrightarrow> unat (of_nat i :: uint64) = i"
  by (simp add: unat_of_nat take_bit_nat_eq_self)

lemma of_nat_small_eq: "i < 512 \<Longrightarrow> j < 512 \<Longrightarrow> (of_nat i :: uint64) = of_nat j \<longleftrightarrow> i = j"
  by (metis unat_small)

lemma kids_ok_step:
  assumes k: "kids_ok s ps l pt (i # is)" and c: "child (mem s) pt (of_nat i) = Some c"
    and f: "freed s ps s1 qs {}" "set qs = pt_pages (mem s) l c"
    and s2: "s2 = s1\<lparr>mem := store64 (mem s1) (pt + 8 * of_nat i) 0\<rparr>"
  shows "kids_ok s2 (qs @ ps) l pt is" and "freed s ps s2 qs {pt}"
    and "j \<in> set is \<Longrightarrow> sub (mem s2) l pt (of_nat j) = sub (mem s) l pt (of_nat j)"
proof -
  let ?S = "\<lambda>j. sub (mem s) l pt (of_nat j)"
  have i: "i < 512" "i \<notin> set is" and lt: "\<forall>j \<in> set is. j < 512" using k by (auto simp: kids_ok_def)
  have qs: "set qs = ?S i" using f(2) c by (simp add: sub_def)
  have al: "page_aligned pt" using k by (simp add: kids_ok_def table_page_def)
  have al_S: "\<forall>j \<in> set (i # is). \<forall>p \<in> ?S j. page_aligned p"
    using k by (auto simp: kids_ok_def page_ok_def)
  have pt_out: "pt \<notin> set qs" "pt \<notin> set ps" using k qs by (auto simp: kids_ok_def)
  have ch1: "changes_in (set qs) (mem s) (mem s1)" using f(1) by (simp add: freed_def)
  have so: "same_outside pt (mem s1) (mem s2)"
    using same_outside_entry [of "of_nat i" pt "mem s1" 0] i(1) by (simp add: s2)
  have ch2: "changes_in {pt} (mem s1) (mem s2)" using so by (simp add: changes_in_single)
  have ch: "changes_in (set qs \<union> {pt}) (mem s) (mem s2)" using changes_in_trans [OF ch1 ch2] .
  have ag_pt: "agree_on {pt} (mem s) (mem s1)"
    using pt_out al al_S qs by (intro changes_in_agree [OF ch1]) auto
  have entry: "load64 (mem s2) (pt + 8 * w) = load64 (mem s) (pt + 8 * w)"
    if "w \<noteq> of_nat i" "unat w < 512" for w
  proof -
    have "load64 (mem s2) (pt + 8 * w) = load64 (mem s1) (pt + 8 * w)"
      using that i(1) unfolding s2 by (simp add: load64_store64_apart entries_of_page_apart)
    also have "\<dots> = load64 (mem s) (pt + 8 * w)" using load64_agree_on [OF ag_pt] that by simp
    finally show ?thesis .
  qed
  have zero: "load64 (mem s2) (pt + 8 * of_nat i) = 0" by (simp add: s2)
  have "interior_ok (mem s) pt" using k by (simp add: kids_ok_def)
  then have int: "interior_ok (mem s2) pt"
    unfolding interior_ok_def
  proof (intro allI impI)
    fix w assume w: "unat w < 512" "load64 (mem s2) (pt + 8 * w) AND PTE_V \<noteq> 0"
      and old: "\<forall>i. unat i < 512 \<longrightarrow> load64 (mem s) (pt + 8 * i) AND PTE_V \<noteq> 0 \<longrightarrow>
        load64 (mem s) (pt + 8 * i) AND (PTE_R OR PTE_W OR PTE_X) = 0"
    have "w \<noteq> of_nat i" using w(2) zero by auto
    then show "load64 (mem s2) (pt + 8 * w) AND (PTE_R OR PTE_W OR PTE_X) = 0"
      using w old entry [of w] by simp
  qed
  have child_j: "child (mem s2) pt (of_nat j) = child (mem s) pt (of_nat j)" if "j \<in> set is" for j
  proof -
    have "j \<noteq> i" "j < 512" using that lt i by auto
    then show ?thesis using entry [of "of_nat j"] i(1) by (simp add: child_def of_nat_small_eq)
  qed
  have ag_j: "agree_on (?S j) (mem s) (mem s2)" if "j \<in> set is" for j
  proof (rule changes_in_agree [OF ch])
    show "(set qs \<union> {pt}) \<inter> ?S j = {}" using k that i(2) qs by (auto simp: kids_ok_def)
  qed (use al_S al that qs in auto)
  have ag_c: "agree_on (pt_pages (mem s) l d) (mem s) (mem s2)"
    if "j \<in> set is" "child (mem s) pt (of_nat j) = Some d" for j d
    using ag_j [OF that(1)] that(2) by (simp add: sub_def)
  have sub_j: "sub (mem s2) l pt (of_nat j) = ?S j" if "j \<in> set is" for j
    using child_j [OF that] ag_c [OF that]
    by (auto simp: sub_def pt_pages_agree split: option.split)
  then show "sub (mem s2) l pt (of_nat j) = ?S j" if "j \<in> set is" using that by simp
  have inv1: "kmem_inv s1 (qs @ ps)" using f(1) by (simp add: freed_def)
  then have "agree_on (set (qs @ ps)) (mem s1) (mem s2)"
    using pt_out al by (intro agree_on_same_outside [OF so]) (auto simp: kmem_inv_def page_ok_def)
  then have inv: "kmem_inv s2 (qs @ ps)" using kmem_inv_agree [OF inv1] by (simp add: s2)
  show fr: "freed s ps s2 qs {pt}"
    using f(1) inv ch by (simp add: freed_def s2 kmem_ready_def)
  have kend: "kend s2 = kend s" using fr by (simp add: freed_def)
  have "pt_wf (mem s2) l d \<and> no_leaf (mem s2) l d"
    if "j \<in> set is" "child (mem s2) pt (of_nat j) = Some d" for j d
    using that ag_c [of j d] k child_j [OF that(1)]
    by (auto simp: kids_ok_def pt_wf_agree no_leaf_agree)
  then show "kids_ok s2 (qs @ ps) l pt is"
    using k fr int inv sub_j qs pt_out i(2) page_ok_cong [OF kend]
    unfolding kids_ok_def by (auto simp: freed_def)
qed

lemma freewalk_loop_frees:
  assumes "frees_tables l f" and "kids_ok s ps l pt is"
  shows "\<exists>s' qs. freewalk_loop f pt is s = Ok s' \<and> freed s ps s' qs {pt} \<and>
     set qs = (\<Union>i \<in> set is. sub (mem s) l pt (of_nat i))"
  using assms(2)
proof (induction "is" arbitrary: s ps)
  case Nil
  then show ?case by (auto simp: freed_def kids_ok_def intro!: exI [of _ "[]"])
next
  case (Cons i "is")
  let ?e = "load64 (mem s) (pt + 8 * of_nat i)"
  have i: "i < 512" and int: "interior_ok (mem s) pt" using Cons.prems by (auto simp: kids_ok_def)
  show ?case
  proof (cases "child (mem s) pt (of_nat i)")
    case None
    then have "?e AND PTE_V = 0" using i by (auto simp: child_def Let_def split: if_splits)
    then have "freewalk_loop f pt (i # is) s = freewalk_loop f pt is s" by simp
    moreover have "sub (mem s) l pt (of_nat i) = {}" using None by (simp add: sub_def)
    ultimately show ?thesis using Cons.IH [OF kids_ok_skip [OF Cons.prems]] by simp
  next
    case (Some c)
    then have e: "?e AND PTE_V \<noteq> 0" "PTE2PA ?e = c"
      by (auto simp: child_def Let_def split: if_splits)
    then have rwx: "?e AND (PTE_R OR PTE_W OR PTE_X) = 0" using int i by (simp add: interior_ok_def)
    have "pt_own s ps l c \<and> no_leaf (mem s) l c \<and> (\<forall>p \<in> pt_pages (mem s) l c. page_ok s p)"
      using Cons.prems Some by (auto simp: kids_ok_def pt_own_def sub_def)
    then obtain s1 qs where s1: "f c s = Ok s1" "freed s ps s1 qs {}" "set qs = pt_pages (mem s) l c"
      using assms(1) unfolding frees_tables_def by blast
    define s2 where "s2 = s1\<lparr>mem := store64 (mem s1) (pt + 8 * of_nat i) 0\<rparr>"
    note st = kids_ok_step [OF Cons.prems Some s1(2,3) s2_def]
    obtain s' rs where IH: "freewalk_loop f pt is s2 = Ok s'" "freed s2 (qs @ ps) s' rs {pt}"
      "set rs = (\<Union>i \<in> set is. sub (mem s2) l pt (of_nat i))"
      using Cons.IH [OF st(1)] by blast
    have "freewalk_loop f pt (i # is) s = Ok s'"
      using e rwx s1(1) IH(1) by (simp add: s2_def Let_def)
    moreover have "freed s ps s' (rs @ qs) {pt}" using freed_trans [OF st(2) IH(2)] by simp
    moreover have "set (rs @ qs) = (\<Union>i \<in> set (i # is). sub (mem s) l pt (of_nat i))"
      using IH(3) st(3) s1(3) Some by (auto simp: sub_def)
    ultimately show ?thesis by blast
  qed
qed

lemma freewalk_loop_no_leaf:
  assumes "no_leaf (mem s) 0 pt" and "\<forall>i \<in> set is. i < 512"
  shows "freewalk_loop f pt is s = Ok s"
  using assms by (induction "is") (auto simp: Let_def)

lemma freed_kfree:
  assumes "freed s ps s1 qs {pt}" and "page_ok s pt" and "pt \<notin> set (qs @ ps)"
  shows "\<exists>s'. kfree pt s1 = Ok s' \<and> freed s ps s' (pt # qs) {}"
proof -
  have k: "kmem_ready s1" "kmem_inv s1 (qs @ ps)" "kend s1 = kend s" using assms(1) by (auto simp: freed_def)
  have ok: "page_ok s1 pt" using assms(2) page_ok_cong [OF k(3)] by simp
  let ?m = "store64 (memset (mem s1) pt 1 4096) pt (freelist s1)"
  have "changes_in {pt} (mem s1) ?m"
    unfolding changes_in_single by (rule same_outside_trans [OF same_outside_memset same_outside_store64])
  then have "changes_in (set (pt # qs) \<union> {}) (mem s) ?m"
    using assms(1) changes_in_trans [of "set qs \<union> {pt}" "mem s" "mem s1" "{pt}" ?m]
    by (simp add: freed_def insert_commute)
  then have "freed s ps (s1\<lparr>mach := touch (mach s1), freelist := pt, mem := ?m\<rparr>) (pt # qs) {}"
    unfolding freed_def using kmem_inv_cons [OF k(2) ok assms(3), of "touch (mach s1)"] k(1,3)
    by (simp add: kmem_ready_def)
  with kfree_Ok [OF k(1) ok] show ?thesis by blast
qed

lemma kids_ok_all:
  assumes "pt_own s ps (Suc l) pt" and "no_leaf (mem s) (Suc l) pt"
    and "\<forall>p \<in> pt_pages (mem s) (Suc l) pt. page_ok s p"
  shows "kids_ok s ps l pt [0..<512]"
proof -
  have "sub (mem s) l pt i \<inter> set ps = {}" for i
  proof -
    have "sub (mem s) l pt i \<subseteq> pt_pages (mem s) (Suc l) pt" by (auto simp: pt_pages_Suc)
    then show ?thesis using assms(1) by (auto simp: pt_own_def simp del: pt_wf.simps)
  qed
  then show ?thesis using assms by (simp add: kids_ok_def pt_own_def pt_pages_Suc of_nat_small_eq)
qed

lemma sub_all: "(\<Union>i \<in> set [0..<512]. sub m l pt (of_nat i)) = (\<Union>i. sub m l pt i)"
proof -
  have "sub m l pt i \<subseteq> (\<Union>i \<in> {0..<512}. sub m l pt (of_nat i))" for i :: uint64
  proof (cases "unat i < 512")
    case True
    then have "sub m l pt (of_nat (unat i)) \<subseteq> (\<Union>i \<in> {0..<512}. sub m l pt (of_nat i))"
      by (intro UN_upper) (simp add: atLeastLessThan_def)
    then show ?thesis by (simp only: of_nat_unat ucast_id)
  qed (simp add: sub_def child_def Let_def)
  then show ?thesis unfolding set_upt by (intro subset_antisym UN_least UN_upper) auto
qed

lemma freewalk_frees: "l < d \<Longrightarrow> frees_tables l (freewalk_depth d)"
proof (induction l arbitrary: d)
  case 0
  then obtain e where d: "d = Suc e" by (cases d) auto
  show ?case
    unfolding frees_tables_def
  proof (intro allI impI, elim conjE)
    fix c s ps
    assume own: "pt_own s ps 0 c" and leaf: "no_leaf (mem s) 0 c" and ok: "\<forall>p \<in> pt_pages (mem s) 0 c. page_ok s p"
    have "freed s ps s [] {c}" using own by (simp add: freed_def pt_own_def)
    then have "\<exists>s'. kfree c s = Ok s' \<and> freed s ps s' [c] {}"
      using own ok by (intro freed_kfree) (auto simp: pt_own_def)
    moreover have "freewalk_loop f c [0..<512] s = Ok s" for f using leaf by (rule freewalk_loop_no_leaf) simp
    ultimately show "\<exists>s' qs. freewalk_depth d c s = Ok s' \<and> freed s ps s' qs {} \<and> set qs = pt_pages (mem s) 0 c"
      by (auto simp: d intro!: exI [of _ "[c]"])
  qed
next
  case (Suc l)
  then obtain e where d: "d = Suc e" and e: "l < e" by (cases d) auto
  show ?case
    unfolding frees_tables_def
  proof (intro allI impI, elim conjE)
    fix c s ps
    assume own: "pt_own s ps (Suc l) c" and leaf: "no_leaf (mem s) (Suc l) c"
      and ok: "\<forall>p \<in> pt_pages (mem s) (Suc l) c. page_ok s p"
    obtain s1 qs where s1: "freewalk_loop (freewalk_depth e) c [0..<512] s = Ok s1"
      "freed s ps s1 qs {c}" "set qs = (\<Union>i. sub (mem s) l c i)"
      using freewalk_loop_frees [OF Suc.IH [OF e] kids_ok_all [OF own leaf ok]] unfolding sub_all by blast
    have "c \<notin> set (qs @ ps)" using own s1(3) root_in_pages [of c "mem s" "Suc l"] by (auto simp: pt_own_def)
    then obtain s' where "kfree c s1 = Ok s'" "freed s ps s' (c # qs) {}"
      using freed_kfree [OF s1(2)] ok by (auto simp: root_in_pages)
    then show "\<exists>s' qs. freewalk_depth d c s = Ok s' \<and> freed s ps s' qs {} \<and> set qs = pt_pages (mem s) (Suc l) c"
      using s1(1,3) by (auto simp: d pt_pages_Suc intro!: exI [of _ "c # qs"])
  qed
qed

section \<open>uvmfree\<close>

text \<open>Every level-0 entry belongs to an address below VATOP.\<close>

lemma no_leaf_vals:
  assumes "\<forall>va < VATOP. pt_val m 2 pt va AND PTE_V = 0"
  shows "no_leaf m 2 pt"
proof -
  have "load64 m (d + 8 * k) AND PTE_V = 0"
    if "child m pt i = Some c" "child m c j = Some d" "unat k < 512" for i j k c d
  proof -
    have lt: "unat i < 512" "unat j < 512"
      using that by (auto simp: child_def Let_def split: if_splits)
    define n where "n = ((unat i * 512 + unat j) * 512 + unat k) * 4096"
    define va :: uint64 where "va = of_nat n"
    have n: "n < 2 ^ 39" using lt that(3) by (simp add: n_def)
    then have va: "unat va = n" by (simp add: va_def unat_of_nat take_bit_nat_eq_self)
    have dig: "n div 4096 = (unat i * 512 + unat j) * 512 + unat k"
      "((unat i * 512 + unat j) * 512 + unat k) div 512 = unat i * 512 + unat j"
      "(unat i * 512 + unat j) div 512 = unat i"
      using lt that(3) unfolding n_def by simp_all
    have p: "(2 :: nat) ^ (12 + 9 * Suc 0) = 4096 * 512" "(2 :: nat) ^ (12 + 9 * 2) = 4096 * 512 * 512"
      "(2 :: nat) ^ (12 + 9 * 0) = 4096" by simp_all
    have "unat (PX 2 va) = unat i" "unat (PX (Suc 0) va) = unat j" "unat (PX 0 va) = unat k"
      unfolding unat_PX va p div_mult2_eq dig mod_mult_self3 using lt that(3) by simp_all
    then have px: "PX 2 va = i" "PX (Suc 0) va = j" "PX 0 va = k" by (simp_all add: word_unat_eq_iff)
    have "pt_val m 2 pt va = load64 m (d + 8 * k)"
      using that(1,2) px by (simp add: numeral_2_eq_2 pt_val_simps pte_addr_def)
    moreover have "va < VATOP" using n va by (simp add: word_less_nat_alt unat_VATOP)
    ultimately show ?thesis using assms by metis
  qed
  then show ?thesis by (simp add: numeral_2_eq_2)
qed

text \<open>The pages of a process's address space: table pages and user frames.\<close>

definition aspace_pages :: "memory \<Rightarrow> uint64 \<Rightarrow> nat \<Rightarrow> uint64 set" where
  "aspace_pages m pt n = pt_pages m 2 pt \<union> set (frames m pt 0 n)"

definition aspace_ok :: "pmem \<Rightarrow> uint64 list \<Rightarrow> uint64 \<Rightarrow> nat \<Rightarrow> bool" where
  "aspace_ok s ps pt n \<longleftrightarrow> pt_own s ps 2 pt \<and> n * 4096 \<le> 2 ^ 38 \<and>
     (\<forall>va < VATOP. if in_range 0 n va then leaf_entry (pt_val (mem s) 2 pt va)
        else pt_val (mem s) 2 pt va AND PTE_V = 0) \<and>
     distinct (frames (mem s) pt 0 n) \<and>
     set (frames (mem s) pt 0 n) \<inter> (pt_pages (mem s) 2 pt \<union> set ps) = {} \<and>
     (\<forall>p \<in> aspace_pages (mem s) pt n. page_ok s p)"

lemma freewalk_empty_table:
  assumes "pt_own s ps 2 pt" and "\<forall>va < VATOP. pt_val (mem s) 2 pt va AND PTE_V = 0"
    and "\<forall>p \<in> pt_pages (mem s) 2 pt. page_ok s p"
  shows "\<exists>s' qs. freewalk pt s = Ok s' \<and> freed s ps s' qs {} \<and> set qs = pt_pages (mem s) 2 pt"
  using freewalk_frees [of 2 "2 ^ 44 + 1"] assms no_leaf_vals
  unfolding frees_tables_def freewalk_def by simp

lemma page_count_of_size:
  assumes "unat sz \<le> n * 4096" and "n * 4096 < unat sz + 4096" and "n * 4096 \<le> 2 ^ 38"
  shows "PGROUNDUP sz div PGSIZE = of_nat n"
proof -
  have "unat (PGROUNDUP sz) = (unat sz + 4095) div 4096 * 4096"
    using assms by (subst unat_PGROUNDUP) auto
  moreover have "(unat sz + 4095) div 4096 = n" using assms by (intro div_nat_eqI) simp_all
  ultimately have "unat (PGROUNDUP sz div PGSIZE) = n" by (simp add: unat_div_distrib)
  then show ?thesis by (metis of_nat_unat ucast_id)
qed

lemma uvmfree_frees:
  assumes ok: "aspace_ok s ps pt n" and sz: "unat sz \<le> n * 4096" "n * 4096 < unat sz + 4096"
  shows "\<exists>s' qs. uvmfree pt sz s = Ok s' \<and> freed s ps s' qs {} \<and> set qs = aspace_pages (mem s) pt n"
proof -
  let ?fs = "frames (mem s) pt 0 n"
  have own: "pt_own s ps 2 pt" and n: "n * 4096 \<le> 2 ^ 38" using ok by (auto simp: aspace_ok_def)
  have r: "in_range 0 n va \<Longrightarrow> va < VATOP" for va
    using n by (simp add: in_range_def word_less_nat_alt unat_VATOP)
  have leaf: "\<forall>va. in_range 0 n va \<longrightarrow> leaf_entry (pt_val (mem s) 2 pt va)"
    using ok r unfolding aspace_ok_def by meson
  have fs: "distinct ?fs \<and> (\<forall>f \<in> set ?fs. page_ok s f \<and> f \<notin> pt_pages (mem s) 2 pt \<and> f \<notin> set ps)"
    using ok by (auto simp: aspace_ok_def aspace_pages_def)
  obtain s1 where s1: "uvmunmap pt 0 (of_nat n) True s = Ok s1"
    "pt_own s1 (rev ?fs @ ps) 2 pt" "pt_unmapped s s1 pt 0 n (set ?fs)"
    using uvmunmap_loop_unmaps [OF own _ _ refl leaf, of True] fs n
    by (auto simp: uvmunmap_def page_aligned_def)
  have pg: "pt_pages (mem s1) 2 pt = pt_pages (mem s) 2 pt" "kend s1 = kend s"
    "changes_in (pt_pages (mem s) 2 pt \<union> set ?fs) (mem s) (mem s1)"
    using s1(3) by (auto simp: pt_unmapped_def)
  have "\<forall>va < VATOP. pt_val (mem s1) 2 pt va AND PTE_V = 0"
    using s1(3) ok by (auto simp: pt_unmapped_def aspace_ok_def)
  moreover have "\<forall>p \<in> pt_pages (mem s1) 2 pt. page_ok s1 p"
    using ok page_ok_cong [OF pg(2)] by (auto simp: pg(1) aspace_ok_def aspace_pages_def)
  ultimately obtain s' qs where s': "freewalk pt s1 = Ok s'" "freed s1 (rev ?fs @ ps) s' qs {}"
    "set qs = pt_pages (mem s) 2 pt"
    using freewalk_empty_table [OF s1(2)] pg(1) by auto
  have "(if sz > 0 then uvmunmap pt 0 (PGROUNDUP sz div PGSIZE) True s else Ok s) = Ok s1"
  proof (cases "sz > 0")
    case True
    then show ?thesis using s1(1) page_count_of_size [OF sz n] by simp
  next
    case False
    then have "sz = 0" by (simp add: word_gt_0)
    then have "n = 0" using sz by simp
    then show ?thesis using False s1(1) by (simp add: uvmunmap_def uvmunmap_loop.simps page_aligned_def)
  qed
  then have "uvmfree pt sz s = Ok s'" using s'(1) by (simp add: uvmfree_def)
  moreover have "changes_in (set qs \<union> {}) (mem s1) (mem s')" using s'(2) by (simp add: freed_def)
  from changes_in_trans [OF pg(3) this] have "changes_in (set qs \<union> set ?fs) (mem s) (mem s')"
    by (rule changes_in_mono) (auto simp: s'(3))
  then have "freed s ps s' (qs @ rev ?fs) {}" using s'(2) pg(2) by (simp add: freed_def)
  moreover have "set (qs @ rev ?fs) = aspace_pages (mem s) pt n" using s'(3) by (simp add: aspace_pages_def)
  ultimately show ?thesis by blast
qed

section \<open>Property\<close>

text \<open>
  C19. \<^verbatim>\<open>uvmfree\<close> on an address space of \<open>n\<close> mapped pages with nothing else mapped never panics and
  leaves no page behind: the pages it adds to the allocator's pool, each once, are exactly the
  user frames and every page of the page table.
\<close>

theorem uvmfree_returns_all:
  assumes "aspace_ok s ps pt n" and "unat sz \<le> n * 4096" and "n * 4096 < unat sz + 4096"
  shows "\<exists>s' qs. uvmfree pt sz s = Ok s' \<and> kmem_ready s' \<and> kmem_inv s' (qs @ ps) \<and>
     set qs = aspace_pages (mem s) pt n \<and> changes_in (aspace_pages (mem s) pt n) (mem s) (mem s')"
  using uvmfree_frees [OF assms] unfolding freed_def by fastforce

theorem uvmfree_returns_all_witness:
  "\<exists>s s' qs. mappages 0x80024000 0 PGSIZE 0x80027000 (PTE_R OR PTE_W OR PTE_U) empty_table = Ok (0, s) \<and>
     uvmfree 0x80024000 100 s = Ok s' \<and> kmem_inv s' qs \<and> {0x80024000, 0x80027000} \<subseteq> set qs"
proof (rule one_user_page)
  fix s ps'
  assume m: "mappages 0x80024000 0 PGSIZE 0x80027000 (PTE_R OR PTE_W OR PTE_U) empty_table = Ok (0, s)"
    and own: "pt_own s ps' 2 0x80024000" and ps': "set ps' \<subseteq> {0x80025000, 0x80026000}"
    and k: "kend s = 0x80022000"
    and pages: "pt_pages (mem s) 2 0x80024000 \<subseteq> {0x80024000, 0x80025000, 0x80026000}"
    and val: "\<And>va. va < VATOP \<Longrightarrow> pt_val (mem s) 2 0x80024000 va =
       (if unat va < 4096 then PA2PTE 0x80027000 OR (PTE_R OR PTE_W OR PTE_U) OR PTE_V else 0)"
  have z: "(0 :: uint64) < VATOP" by (simp add: VATOP_def)
  have fr: "frames (mem s) 0x80024000 0 1 = [0x80027000]"
    using val [OF z] mapped_frame by simp
  have "page_ok s p" if "p \<in> {0x80024000, 0x80025000, 0x80026000, 0x80027000}" for p
    using that by (auto simp: page_ok_def page_aligned_def PGSIZE_def k PHYSTOP_def KERNBASE_def)
  then have "aspace_ok s ps' 0x80024000 1"
    using own pages ps' val mapped_frame(2)
    unfolding aspace_ok_def aspace_pages_def fr by (auto simp: in_range_def)
  then obtain s' qs where "uvmfree 0x80024000 100 s = Ok s'" "kmem_inv s' (qs @ ps')"
    "set qs = aspace_pages (mem s) 0x80024000 1"
    using uvmfree_returns_all [of s ps' "0x80024000" 1 100] by auto
  moreover have "{0x80024000, 0x80027000} \<subseteq> aspace_pages (mem s) 0x80024000 1"
    using fr by (simp add: aspace_pages_def root_in_pages)
  ultimately show ?thesis using m by (intro exI [of _ s] exI [of _ s'] exI [of _ "qs @ ps'"]) auto
qed

end
