(* ===== verification/Proc.thy ===== *)
theory Proc
  imports Pagefree "HOL-Library.Signed_Division"
begin

text \<open>
  kernel/proc.h and kernel/proc.c: the process table, creation and destruction of processes,
  sleep and wakeup, and the scheduler with its three policies. A \<^verbatim>\<open>struct proc *\<close> is the index
  of its slot in the table; the lock of slot \<open>i\<close> is \<open>ProcLock i\<close> of the machine.

  Two things are arguments. \<open>run\<close> and \<open>sw\<close> stand for what happens between a call of the
  assembly routine \<^verbatim>\<open>swtch\<close> and its return: other threads of the kernel. The record \<open>fsops\<close>
  holds the file-system routines that fork, exit and boot call; they belong to components above
  this one. The kernel state is an extensible record, so that those components can add theirs.
\<close>

section \<open>State\<close>

datatype procstate = UNUSED | USED | SLEEPING | RUNNABLE | RUNNING | ZOMBIE

text \<open>A wait channel is an address; each object a thread can sleep on has its own.\<close>

datatype chan =
    ChProc nat | ChTicks | ChPipeRead uint64 | ChPipeWrite uint64 | ChLog | ChSleep sleepid
  | ChConsR | ChUartTx | ChDisk nat | ChDiskFree

record proc =
  pstate :: procstate
  pchan :: "chan option"
  pkilled :: int32
  xstate :: int32
  pid :: int32
  parent :: "nat option"
  exit_msg :: "uint8 list"
  accumulator :: int64
  ps_priority :: uint64
  cfs_priority :: int32
  rtime :: int32
  stime :: int32
  retime :: int32
  kstack :: uint64
  psz :: uint64
  pagetable :: uint64
  trapframe :: uint64
  pcontext :: kcontext
  ofile :: "nat option list"
  cwd :: "nat option"
  pname :: "uint8 list"

text \<open>
  The kernel's globals. \<open>trampoline\<close> and \<open>forkret_addr\<close> are addresses the linker assigns.
\<close>

record kernel =
  pm :: pmem
  procs :: "proc list"
  nextpid :: int32
  initproc :: "nat option"
  sched_policy :: int32
  min_accumulator :: int64
  ticks :: uint32
  trampoline :: uint64
  forkret_addr :: uint64

abbreviation kmach :: "'a kernel_scheme \<Rightarrow> machine" where
  "kmach s \<equiv> mach (pm s)"

definition set_mach :: "machine \<Rightarrow> 'a kernel_scheme \<Rightarrow> 'a kernel_scheme" where
  "set_mach m s = s\<lparr>pm := (pm s)\<lparr>mach := m\<rparr>\<rparr>"

definition kacquire :: "lockid \<Rightarrow> 'a kernel_scheme \<Rightarrow> 'a kernel_scheme outcome" where
  "kacquire lk s = andThen (acquire lk (kmach s)) (\<lambda>m. Ok (set_mach m s))"

definition krelease :: "lockid \<Rightarrow> 'a kernel_scheme \<Rightarrow> 'a kernel_scheme outcome" where
  "krelease lk s = andThen (release lk (kmach s)) (\<lambda>m. Ok (set_mach m s))"

definition lift_pm :: "(pmem \<Rightarrow> pmem outcome) \<Rightarrow> 'a kernel_scheme \<Rightarrow> 'a kernel_scheme outcome" where
  "lift_pm f s = andThen (f (pm s)) (\<lambda>v. Ok (s\<lparr>pm := v\<rparr>))"

definition lift_pmr ::
    "(pmem \<Rightarrow> ('r \<times> pmem) outcome) \<Rightarrow> 'a kernel_scheme \<Rightarrow> ('r \<times> 'a kernel_scheme) outcome" where
  "lift_pmr f s = andThen (f (pm s)) (\<lambda>(r, v). Ok (r, s\<lparr>pm := v\<rparr>))"

definition set_proc :: "nat \<Rightarrow> (proc \<Rightarrow> proc) \<Rightarrow> 'a kernel_scheme \<Rightarrow> 'a kernel_scheme" where
  "set_proc i f s = s\<lparr>procs := (procs s)[i := f (procs s ! i)]\<rparr>"

text \<open>\<^verbatim>\<open>for(p = proc; p < &proc[NPROC]; p++)\<close> with a body that always goes on.\<close>

fun for_procs :: "(nat \<Rightarrow> 's \<Rightarrow> 's outcome) \<Rightarrow> nat list \<Rightarrow> 's \<Rightarrow> 's outcome" where
  "for_procs body [] s = Ok s"
| "for_procs body (i # is) s = andThen (body i s) (for_procs body is)"

section \<open>The current process\<close>

definition procinit_one :: "nat \<Rightarrow> 'a kernel_scheme \<Rightarrow> 'a kernel_scheme outcome" where
  "procinit_one i s =
     Ok (set_proc i (\<lambda>p. p\<lparr>pstate := UNUSED, kstack := KSTACK i, accumulator := 0, ps_priority := 5,
           cfs_priority := 0, rtime := 0, retime := 0, stime := 0\<rparr>)
         (set_mach (initlock (ProcLock i) ''proc'' (kmach s)) s))"

definition procinit :: "'a kernel_scheme \<Rightarrow> 'a kernel_scheme outcome" where
  "procinit s = for_procs procinit_one [0..<NPROC]
     (set_mach (initlock WaitLock ''wait_lock'' (initlock PidLock ''nextpid'' (kmach s))) s)"

definition set_policy :: "int32 \<Rightarrow> 'a kernel_scheme \<Rightarrow> int32 \<times> 'a kernel_scheme" where
  "set_policy policy s = (0, s\<lparr>sched_policy := policy\<rparr>)"

definition myproc :: "'a kernel_scheme \<Rightarrow> (nat option \<times> 'a kernel_scheme) outcome" where
  "myproc s =
     (let m = push_off (kmach s); p = cproc (mycpu m) in
      andThen (pop_off m) (\<lambda>m'. Ok (p, set_mach m' s)))"

text \<open>
  Kernel code dereferences \<^verbatim>\<open>myproc()\<close>. A null pointer faults, and \<^verbatim>\<open>kerneltrap\<close> panics.
\<close>

definition curproc :: "'a kernel_scheme \<Rightarrow> (nat \<times> 'a kernel_scheme) outcome" where
  "curproc s = andThen (myproc s) (\<lambda>(p, s1).
     case p of None \<Rightarrow> Panic ''kerneltrap'' | Some i \<Rightarrow> Ok (i, s1))"

definition allocpid :: "'a kernel_scheme \<Rightarrow> (int32 \<times> 'a kernel_scheme) outcome" where
  "allocpid s =
     andThen (kacquire PidLock s) (\<lambda>s1.
     let pid = nextpid s1; s2 = s1\<lparr>nextpid := nextpid s1 + 1\<rparr> in
     andThen (krelease PidLock s2) (\<lambda>s3. Ok (pid, s3)))"

section \<open>Page tables of processes\<close>

definition proc_pagetable :: "uint64 \<Rightarrow> uint64 \<Rightarrow> pmem \<Rightarrow> (uint64 \<times> pmem) outcome" where
  "proc_pagetable tramp tf s =
     andThen (uvmcreate s) (\<lambda>(pt, s1).
     if pt = 0 then Ok (0, s1)
     else andThen (mappages pt TRAMPOLINE PGSIZE tramp (PTE_R OR PTE_X) s1) (\<lambda>(r, s2).
       if r <s 0 then andThen (uvmfree pt 0 s2) (\<lambda>s3. Ok (0, s3))
       else andThen (mappages pt TRAPFRAME PGSIZE tf (PTE_R OR PTE_W) s2) (\<lambda>(r', s3).
         if r' <s 0 then
           andThen (uvmunmap pt TRAMPOLINE 1 False s3) (\<lambda>s4.
           andThen (uvmfree pt 0 s4) (\<lambda>s5. Ok (0, s5)))
         else Ok (pt, s3))))"

definition proc_freepagetable :: "uint64 \<Rightarrow> uint64 \<Rightarrow> pmem \<Rightarrow> pmem outcome" where
  "proc_freepagetable pt sz s =
     andThen (uvmunmap pt TRAMPOLINE 1 False s) (\<lambda>s1.
     andThen (uvmunmap pt TRAPFRAME 1 False s1) (uvmfree pt sz))"

section \<open>Allocating and freeing a slot\<close>

definition freeproc :: "nat \<Rightarrow> 'a kernel_scheme \<Rightarrow> 'a kernel_scheme outcome" where
  "freeproc i s =
     andThen (if trapframe (procs s ! i) \<noteq> 0 then lift_pm (kfree (trapframe (procs s ! i))) s else Ok s) (\<lambda>s1.
     let s2 = set_proc i (\<lambda>p. p\<lparr>trapframe := 0\<rparr>) s1; p2 = procs s2 ! i in
     andThen (if pagetable p2 \<noteq> 0 then lift_pm (proc_freepagetable (pagetable p2) (psz p2)) s2 else Ok s2) (\<lambda>s3.
     Ok (set_proc i (\<lambda>p. p\<lparr>pagetable := 0, psz := 0, pid := 0, parent := None, pname := (pname p)[0 := 0],
       pchan := None, pkilled := 0, xstate := 0, pstate := UNUSED\<rparr>) s3)))"

fun alloc_scan :: "nat list \<Rightarrow> 'a kernel_scheme \<Rightarrow> (nat option \<times> 'a kernel_scheme) outcome" where
  "alloc_scan [] s = Ok (None, s)"
| "alloc_scan (i # is) s =
     andThen (kacquire (ProcLock i) s) (\<lambda>s1.
       if pstate (procs s1 ! i) = UNUSED then Ok (Some i, s1)
       else andThen (krelease (ProcLock i) s1) (alloc_scan is))"

definition alloc_fail :: "nat \<Rightarrow> 'a kernel_scheme \<Rightarrow> (nat option \<times> 'a kernel_scheme) outcome" where
  "alloc_fail i s =
     andThen (freeproc i s) (\<lambda>s1. andThen (krelease (ProcLock i) s1) (\<lambda>s2. Ok (None, s2)))"

definition allocproc :: "'a kernel_scheme \<Rightarrow> (nat option \<times> 'a kernel_scheme) outcome" where
  "allocproc s =
     andThen (alloc_scan [0..<NPROC] s) (\<lambda>(found, s1).
     case found of None \<Rightarrow> Ok (None, s1)
     | Some i \<Rightarrow>
       andThen (allocpid s1) (\<lambda>(n, s2).
       let s3 = set_proc i (\<lambda>p. p\<lparr>pid := n, pstate := USED\<rparr>) s2 in
       andThen (lift_pmr kalloc s3) (\<lambda>(tf, s4).
       let s5 = set_proc i (\<lambda>p. p\<lparr>trapframe := tf\<rparr>) s4 in
       if tf = 0 then alloc_fail i s5
       else andThen (lift_pmr (proc_pagetable (trampoline s5) tf) s5) (\<lambda>(pt, s6).
       let s7 = set_proc i (\<lambda>p. p\<lparr>pagetable := pt\<rparr>) s6 in
       if pt = 0 then alloc_fail i s7
       else Ok (Some i, set_proc i (\<lambda>p. p\<lparr>pcontext :=
         zero_context\<lparr>ctx_ra := forkret_addr s7, ctx_sp := kstack p + PGSIZE\<rparr>\<rparr>) s7)))))"

section \<open>Giving up and getting back the CPU\<close>

text \<open>The checks of \<^verbatim>\<open>sched\<close> up to its \<^verbatim>\<open>swtch\<close>, with the \<^verbatim>\<open>intena\<close> it saves.\<close>

definition sched_enter :: "'a kernel_scheme \<Rightarrow> (bool \<times> 'a kernel_scheme) outcome" where
  "sched_enter s =
     andThen (curproc s) (\<lambda>(p, s1).
     if \<not> holding (ProcLock p) (kmach s1) then Panic ''sched p->lock''
     else if noff (mycpu (kmach s1)) \<noteq> 1 then Panic ''sched locks''
     else if pstate (procs s1 ! p) = RUNNING then Panic ''sched running''
     else if intr_get (kmach s1) then Panic ''sched interruptible''
     else Ok (intena (mycpu (kmach s1)), s1))"

definition sched_return :: "bool \<Rightarrow> 'a kernel_scheme \<Rightarrow> 'a kernel_scheme" where
  "sched_return ie s = set_mach (set_mycpu ((mycpu (kmach s))\<lparr>intena := ie\<rparr>) (kmach s)) s"

definition sched ::
    "('a kernel_scheme \<Rightarrow> 'a kernel_scheme outcome) \<Rightarrow> 'a kernel_scheme \<Rightarrow> 'a kernel_scheme outcome" where
  "sched sw s =
     andThen (sched_enter s) (\<lambda>(ie, s1). andThen (sw s1) (\<lambda>s2. Ok (sched_return ie s2)))"

definition yield ::
    "('a kernel_scheme \<Rightarrow> 'a kernel_scheme outcome) \<Rightarrow> 'a kernel_scheme \<Rightarrow> 'a kernel_scheme outcome" where
  "yield sw s =
     andThen (curproc s) (\<lambda>(p, s1).
     andThen (kacquire (ProcLock p) s1) (\<lambda>s2.
     andThen (sched sw (set_proc p (\<lambda>q. q\<lparr>pstate := RUNNABLE\<rparr>) s2)) (krelease (ProcLock p))))"

text \<open>\<^verbatim>\<open>sleep\<close> up to the call of \<^verbatim>\<open>sched\<close>, and after it.\<close>

definition sleep_enter :: "chan \<Rightarrow> lockid \<Rightarrow> 'a kernel_scheme \<Rightarrow> (nat \<times> 'a kernel_scheme) outcome" where
  "sleep_enter ch lk s =
     andThen (curproc s) (\<lambda>(p, s1).
     andThen (kacquire (ProcLock p) s1) (\<lambda>s2.
     andThen (krelease lk s2) (\<lambda>s3.
     Ok (p, set_proc p (\<lambda>q. q\<lparr>pchan := Some ch, pstate := SLEEPING\<rparr>) s3))))"

definition sleep_return :: "nat \<Rightarrow> lockid \<Rightarrow> 'a kernel_scheme \<Rightarrow> 'a kernel_scheme outcome" where
  "sleep_return p lk s =
     andThen (krelease (ProcLock p) (set_proc p (\<lambda>q. q\<lparr>pchan := None\<rparr>) s)) (kacquire lk)"

definition sleep ::
    "('a kernel_scheme \<Rightarrow> 'a kernel_scheme outcome) \<Rightarrow> chan \<Rightarrow> lockid \<Rightarrow> 'a kernel_scheme
     \<Rightarrow> 'a kernel_scheme outcome" where
  "sleep sw ch lk s =
     andThen (sleep_enter ch lk s) (\<lambda>(p, s1). andThen (sched sw s1) (sleep_return p lk))"

text \<open>The channel of a wakeup may be a null pointer, as that of a process without parent.\<close>

definition wakeup_one :: "chan option \<Rightarrow> nat \<Rightarrow> 'a kernel_scheme \<Rightarrow> 'a kernel_scheme outcome" where
  "wakeup_one ch i s =
     andThen (myproc s) (\<lambda>(me, s1).
     if me \<noteq> Some i then
       andThen (kacquire (ProcLock i) s1) (\<lambda>s2.
       krelease (ProcLock i)
         (if pstate (procs s2 ! i) = SLEEPING \<and> pchan (procs s2 ! i) = ch
          then set_proc i (\<lambda>p. p\<lparr>pstate := RUNNABLE, accumulator := min_accumulator s2\<rparr>) s2
          else s2))
     else Ok s1)"

definition wakeup :: "chan option \<Rightarrow> 'a kernel_scheme \<Rightarrow> 'a kernel_scheme outcome" where
  "wakeup ch s = for_procs (wakeup_one ch) [0..<NPROC] s"

definition cfs_update_one :: "nat \<Rightarrow> 'a kernel_scheme \<Rightarrow> 'a kernel_scheme outcome" where
  "cfs_update_one i s =
     andThen (kacquire (ProcLock i) s) (\<lambda>s1.
     krelease (ProcLock i)
       (case pstate (procs s1 ! i) of
          RUNNABLE \<Rightarrow> set_proc i (\<lambda>p. p\<lparr>retime := retime p + 1\<rparr>) s1
        | SLEEPING \<Rightarrow> set_proc i (\<lambda>p. p\<lparr>stime := stime p + 1\<rparr>) s1
        | RUNNING \<Rightarrow> set_proc i (\<lambda>p. p\<lparr>rtime := rtime p + 1\<rparr>) s1
        | _ \<Rightarrow> s1))"

definition cfs_update :: "'a kernel_scheme \<Rightarrow> 'a kernel_scheme outcome" where
  "cfs_update s = andThen (myproc s) (\<lambda>(p, s1). for_procs cfs_update_one [0..<NPROC] s1)"

fun kill_scan :: "int32 \<Rightarrow> nat list \<Rightarrow> 'a kernel_scheme \<Rightarrow> (int32 \<times> 'a kernel_scheme) outcome" where
  "kill_scan n [] s = Ok (-1, s)"
| "kill_scan n (i # is) s =
     andThen (kacquire (ProcLock i) s) (\<lambda>s1.
       if pid (procs s1 ! i) = n then
         andThen (krelease (ProcLock i) (set_proc i (\<lambda>p. p\<lparr>pkilled := 1,
             pstate := (if pstate p = SLEEPING then RUNNABLE else pstate p)\<rparr>) s1)) (\<lambda>s2. Ok (0, s2))
       else andThen (krelease (ProcLock i) s1) (kill_scan n is))"

definition kill :: "int32 \<Rightarrow> 'a kernel_scheme \<Rightarrow> (int32 \<times> 'a kernel_scheme) outcome" where
  "kill n s = kill_scan n [0..<NPROC] s"

definition setkilled :: "nat \<Rightarrow> 'a kernel_scheme \<Rightarrow> 'a kernel_scheme outcome" where
  "setkilled i s =
     andThen (kacquire (ProcLock i) s) (\<lambda>s1. krelease (ProcLock i) (set_proc i (\<lambda>p. p\<lparr>pkilled := 1\<rparr>) s1))"

definition killed :: "nat \<Rightarrow> 'a kernel_scheme \<Rightarrow> (int32 \<times> 'a kernel_scheme) outcome" where
  "killed i s =
     andThen (kacquire (ProcLock i) s) (\<lambda>s1.
     let k = pkilled (procs s1 ! i) in andThen (krelease (ProcLock i) s1) (\<lambda>s2. Ok (k, s2)))"

section \<open>User memory, fork, exit and wait\<close>

definition growproc :: "int32 \<Rightarrow> 'a kernel_scheme \<Rightarrow> (int32 \<times> 'a kernel_scheme) outcome" where
  "growproc n s =
     andThen (curproc s) (\<lambda>(i, s1).
     let sz = psz (procs s1 ! i); pt = pagetable (procs s1 ! i) in
     if 0 <s n then
       andThen (lift_pmr (uvmalloc pt sz (sz + scast n) PTE_W) s1) (\<lambda>(sz', s2).
       if sz' = 0 then Ok (-1, s2) else Ok (0, set_proc i (\<lambda>p. p\<lparr>psz := sz'\<rparr>) s2))
     else if n <s 0 then
       andThen (lift_pmr (uvmdealloc pt sz (sz + scast n)) s1) (\<lambda>(sz', s2).
       Ok (0, set_proc i (\<lambda>p. p\<lparr>psz := sz'\<rparr>) s2))
     else Ok (0, set_proc i (\<lambda>p. p\<lparr>psz := sz\<rparr>) s1))"

record 'k fsops =
  fs_filedup :: "nat \<Rightarrow> 'k \<Rightarrow> (nat \<times> 'k) outcome"
  fs_fileclose :: "nat \<Rightarrow> 'k \<Rightarrow> 'k outcome"
  fs_idup :: "nat option \<Rightarrow> 'k \<Rightarrow> (nat option \<times> 'k) outcome"
  fs_iput :: "nat option \<Rightarrow> 'k \<Rightarrow> 'k outcome"
  fs_begin_op :: "'k \<Rightarrow> 'k outcome"
  fs_end_op :: "'k \<Rightarrow> 'k outcome"
  fs_namei :: "uint8 list \<Rightarrow> 'k \<Rightarrow> (nat option \<times> 'k) outcome"

text \<open>Byte offsets of trapframe members (kernel/proc.h), and its size.\<close>

definition TF_kernel_satp :: uint64 where "TF_kernel_satp = 0"
definition TF_kernel_sp :: uint64 where "TF_kernel_sp = 8"
definition TF_kernel_trap :: uint64 where "TF_kernel_trap = 16"
definition TF_epc :: uint64 where "TF_epc = 24"
definition TF_kernel_hartid :: uint64 where "TF_kernel_hartid = 32"
definition TF_sp :: uint64 where "TF_sp = 48"
definition TF_a0 :: uint64 where "TF_a0 = 112"
definition TF_a1 :: uint64 where "TF_a1 = 120"
definition TF_a2 :: uint64 where "TF_a2 = 128"
definition TF_a3 :: uint64 where "TF_a3 = 136"
definition TF_a4 :: uint64 where "TF_a4 = 144"
definition TF_a5 :: uint64 where "TF_a5 = 152"
definition TF_a7 :: uint64 where "TF_a7 = 168"
definition TF_SIZE :: nat where "TF_SIZE = 288"

definition kmem_upd :: "(memory \<Rightarrow> memory) \<Rightarrow> 'a kernel_scheme \<Rightarrow> 'a kernel_scheme" where
  "kmem_upd f s = s\<lparr>pm := (pm s)\<lparr>mem := f (mem (pm s))\<rparr>\<rparr>"

fun fork_files :: "'a kernel_scheme fsops \<Rightarrow> nat \<Rightarrow> nat \<Rightarrow> nat list \<Rightarrow> 'a kernel_scheme \<Rightarrow> 'a kernel_scheme outcome"
  where
  "fork_files fs p np [] s = Ok s"
| "fork_files fs p np (fd # fds) s =
     (case ofile (procs s ! p) ! fd of
        None \<Rightarrow> fork_files fs p np fds s
      | Some f \<Rightarrow> andThen (fs_filedup fs f s) (\<lambda>(f', s1).
          fork_files fs p np fds (set_proc np (\<lambda>q. q\<lparr>ofile := (ofile q)[fd := Some f']\<rparr>) s1)))"

text \<open>\<^verbatim>\<open>safestrcpy\<close> reads its source up to the NUL; the arrays it is applied to here hold one.\<close>

definition arr :: "uint8 list \<Rightarrow> cptr" where
  "arr bs i = (if i < length bs then bs ! i else 0)"

definition fork :: "'a kernel_scheme fsops \<Rightarrow> 'a kernel_scheme \<Rightarrow> (int32 \<times> 'a kernel_scheme) outcome" where
  "fork fs s =
     andThen (curproc s) (\<lambda>(p, s1).
     andThen (allocproc s1) (\<lambda>(found, s2).
     case found of None \<Rightarrow> Ok (-1, s2)
     | Some np \<Rightarrow>
       andThen (lift_pmr (uvmcopy (pagetable (procs s2 ! p)) (pagetable (procs s2 ! np)) (psz (procs s2 ! p))) s2)
         (\<lambda>(r, s3).
       if r <s 0 then
         andThen (freeproc np s3) (\<lambda>s4. andThen (krelease (ProcLock np) s4) (\<lambda>s5. Ok (-1, s5)))
       else
         let s4 = set_proc np (\<lambda>q. q\<lparr>psz := psz (procs s3 ! p)\<rparr>) s3;
             tf = trapframe (procs s4 ! np);
             s5 = kmem_upd (\<lambda>m. memmove m tf (trapframe (procs s4 ! p)) TF_SIZE) s4;
             s6 = kmem_upd (\<lambda>m. store64 m (tf + TF_a0) 0) s5
         in andThen (fork_files fs p np [0..<NOFILE] s6) (\<lambda>s7.
         andThen (fs_idup fs (cwd (procs s7 ! p)) s7) (\<lambda>(d, s8).
         let s9 = set_proc np (\<lambda>q. q\<lparr>cwd := d, pname := safestrcpy (pname q) (arr (pname (procs s8 ! p))) 16\<rparr>) s8;
             n = pid (procs s9 ! np)
         in andThen (krelease (ProcLock np) s9) (\<lambda>s10.
         andThen (kacquire WaitLock s10) (\<lambda>s11.
         andThen (krelease WaitLock (set_proc np (\<lambda>q. q\<lparr>parent := Some p\<rparr>) s11)) (\<lambda>s12.
         andThen (kacquire (ProcLock np) s12) (\<lambda>s13.
         andThen (krelease (ProcLock np) (set_proc np (\<lambda>q. q\<lparr>pstate := RUNNABLE\<rparr>) s13)) (\<lambda>s14.
         Ok (n, s14)))))))))))"

definition reparent_one :: "nat \<Rightarrow> nat \<Rightarrow> 'a kernel_scheme \<Rightarrow> 'a kernel_scheme outcome" where
  "reparent_one p pp s =
     (if parent (procs s ! pp) = Some p
      then wakeup (map_option ChProc (initproc s)) (set_proc pp (\<lambda>q. q\<lparr>parent := initproc s\<rparr>) s)
      else Ok s)"

definition reparent :: "nat \<Rightarrow> 'a kernel_scheme \<Rightarrow> 'a kernel_scheme outcome" where
  "reparent p s = for_procs (reparent_one p) [0..<NPROC] s"

fun exit_files :: "'a kernel_scheme fsops \<Rightarrow> nat \<Rightarrow> nat list \<Rightarrow> 'a kernel_scheme \<Rightarrow> 'a kernel_scheme outcome" where
  "exit_files fs p [] s = Ok s"
| "exit_files fs p (fd # fds) s =
     (case ofile (procs s ! p) ! fd of
        None \<Rightarrow> exit_files fs p fds s
      | Some f \<Rightarrow> andThen (fs_fileclose fs f s) (\<lambda>s1.
          exit_files fs p fds (set_proc p (\<lambda>q. q\<lparr>ofile := (ofile q)[fd := None]\<rparr>) s1)))"


text \<open>\<^verbatim>\<open>exit\<close> up to its call of \<^verbatim>\<open>sched\<close>; \<open>msg\<close> is the string argument.\<close>

definition exit_enter ::
    "'a kernel_scheme fsops \<Rightarrow> int32 \<Rightarrow> cptr \<Rightarrow> 'a kernel_scheme \<Rightarrow> 'a kernel_scheme outcome" where
  "exit_enter fs status msg s =
     andThen (myproc s) (\<lambda>(me, s1).
     if me = initproc s1 then Panic ''init exiting''
     else case me of None \<Rightarrow> Panic ''kerneltrap''
     | Some p \<Rightarrow>
       andThen (exit_files fs p [0..<NOFILE] s1) (\<lambda>s2.
       andThen (fs_begin_op fs s2) (\<lambda>s3.
       andThen (fs_iput fs (cwd (procs s3 ! p)) s3) (\<lambda>s4.
       andThen (fs_end_op fs s4) (\<lambda>s5.
       andThen (kacquire WaitLock (set_proc p (\<lambda>q. q\<lparr>cwd := None\<rparr>) s5)) (\<lambda>s6.
       andThen (reparent p s6) (\<lambda>s7.
       andThen (wakeup (map_option ChProc (parent (procs s7 ! p))) s7) (\<lambda>s8.
       andThen (kacquire (ProcLock p) s8) (\<lambda>s9.
       krelease WaitLock (set_proc p (\<lambda>q. q\<lparr>exit_msg := safestrcpy (exit_msg q) msg 32,
         xstate := status, pstate := ZOMBIE\<rparr>) s9))))))))))"

definition exit ::
    "'a kernel_scheme fsops \<Rightarrow> ('a kernel_scheme \<Rightarrow> 'a kernel_scheme outcome) \<Rightarrow> int32 \<Rightarrow> cptr
     \<Rightarrow> 'a kernel_scheme \<Rightarrow> 'a kernel_scheme outcome" where
  "exit fs sw status msg s =
     andThen (exit_enter fs status msg s) (\<lambda>s1. andThen (sched sw s1) (\<lambda>s2. Panic ''zombie exit''))"

definition bytes32 :: "32 word \<Rightarrow> uint8 list" where
  "bytes32 w = map (\<lambda>i. ucast (drop_bit (8 * i) w)) [0..<4]"

text \<open>
  One pass of \<^verbatim>\<open>wait\<close> over the table, entered and left with \<^verbatim>\<open>wait_lock\<close> held unless it returns:
  \<open>Inl r\<close> is the return of \<open>r\<close>, \<open>Inr havekids\<close> the end of the pass.
\<close>

fun wait_scan ::
    "nat \<Rightarrow> uint64 \<Rightarrow> uint64 \<Rightarrow> nat list \<Rightarrow> bool \<Rightarrow> 'a kernel_scheme
     \<Rightarrow> ((int32 + bool) \<times> 'a kernel_scheme) outcome" where
  "wait_scan p addr dst [] havekids s = Ok (Inr havekids, s)"
| "wait_scan p addr dst (pp # pps) havekids s =
     (if parent (procs s ! pp) = Some p then
        andThen (kacquire (ProcLock pp) s) (\<lambda>s1.
        if pstate (procs s1 ! pp) = ZOMBIE then
          let n = pid (procs s1 ! pp) in
          andThen (if addr \<noteq> 0 then lift_pmr (copyout (pagetable (procs s1 ! p)) addr (bytes32 (xstate (procs s1 ! pp)))) s1
                   else Ok (0, s1)) (\<lambda>(r, s2).
          if r <s 0 then
            andThen (krelease (ProcLock pp) s2) (\<lambda>s3. andThen (krelease WaitLock s3) (\<lambda>s4. Ok (Inl (-1), s4)))
          else
          andThen (if dst \<noteq> 0 then lift_pmr (copyout (pagetable (procs s2 ! p)) dst (exit_msg (procs s2 ! pp))) s2
                   else Ok (0, s2)) (\<lambda>(r', s3).
          if r' <s 0 then
            andThen (krelease (ProcLock pp) s3) (\<lambda>s4. andThen (krelease WaitLock s4) (\<lambda>s5. Ok (Inl (-1), s5)))
          else
            andThen (freeproc pp s3) (\<lambda>s4.
            andThen (krelease (ProcLock pp) s4) (\<lambda>s5.
            andThen (krelease WaitLock s5) (\<lambda>s6. Ok (Inl n, s6))))))
        else andThen (krelease (ProcLock pp) s1) (wait_scan p addr dst pps True))
      else wait_scan p addr dst pps havekids s)"

text \<open>The loop of \<^verbatim>\<open>wait\<close>; the fuel bounds the number of times it sleeps.\<close>

fun wait_loop ::
    "nat \<Rightarrow> ('a kernel_scheme \<Rightarrow> 'a kernel_scheme outcome) \<Rightarrow> nat \<Rightarrow> uint64 \<Rightarrow> uint64 \<Rightarrow> 'a kernel_scheme
     \<Rightarrow> (int32 \<times> 'a kernel_scheme) outcome" where
  "wait_loop 0 sw p addr dst s = Spin"
| "wait_loop (Suc fuel) sw p addr dst s =
     andThen (wait_scan p addr dst [0..<NPROC] False s) (\<lambda>(r, s1).
     case r of Inl n \<Rightarrow> Ok (n, s1)
     | Inr havekids \<Rightarrow>
       andThen (if havekids then killed p s1 else Ok (1, s1)) (\<lambda>(k, s2).
       if k \<noteq> 0 then andThen (krelease WaitLock s2) (\<lambda>s3. Ok (-1, s3))
       else andThen (sleep sw (ChProc p) WaitLock s2) (wait_loop fuel sw p addr dst)))"

definition wait ::
    "nat \<Rightarrow> ('a kernel_scheme \<Rightarrow> 'a kernel_scheme outcome) \<Rightarrow> uint64 \<Rightarrow> uint64 \<Rightarrow> 'a kernel_scheme
     \<Rightarrow> (int32 \<times> 'a kernel_scheme) outcome" where
  "wait fuel sw addr dst s =
     andThen (curproc s) (\<lambda>(p, s1). andThen (kacquire WaitLock s1) (wait_loop fuel sw p addr dst))"

definition initcode :: "uint8 list" where
  "initcode = [
    0x17, 0x05, 0x00, 0x00, 0x13, 0x05, 0x45, 0x02,
    0x97, 0x05, 0x00, 0x00, 0x93, 0x85, 0x35, 0x02,
    0x93, 0x08, 0x70, 0x00, 0x73, 0x00, 0x00, 0x00,
    0x93, 0x08, 0x20, 0x00, 0x73, 0x00, 0x00, 0x00,
    0xef, 0xf0, 0x9f, 0xff, 0x2f, 0x69, 0x6e, 0x69,
    0x74, 0x00, 0x00, 0x24, 0x00, 0x00, 0x00, 0x00,
    0x00, 0x00, 0x00, 0x00]"

text \<open>The bytes of a C string literal, with its NUL.\<close>

definition cstr :: "string \<Rightarrow> uint8 list" where
  "cstr str = map of_char str @ [0]"

definition userinit :: "'a kernel_scheme fsops \<Rightarrow> 'a kernel_scheme \<Rightarrow> 'a kernel_scheme outcome" where
  "userinit fs s =
     andThen (allocproc s) (\<lambda>(found, s1).
     case found of None \<Rightarrow> Panic ''kerneltrap''
     | Some p \<Rightarrow>
       andThen (lift_pm (uvmfirst (pagetable (procs s1 ! p)) initcode) (s1\<lparr>initproc := Some p\<rparr>)) (\<lambda>s2.
       let s3 = set_proc p (\<lambda>q. q\<lparr>psz := PGSIZE\<rparr>) s2;
           tf = trapframe (procs s3 ! p);
           s4 = kmem_upd (\<lambda>m. store64 (store64 m (tf + TF_epc) 0) (tf + TF_sp) PGSIZE) s3;
           s5 = set_proc p (\<lambda>q. q\<lparr>pname := safestrcpy (pname q) (arr (cstr ''initcode'')) 16\<rparr>) s4
       in andThen (fs_namei fs (cstr ''/'') s5) (\<lambda>(d, s6).
       krelease (ProcLock p) (set_proc p (\<lambda>q. q\<lparr>cwd := d, pstate := RUNNABLE\<rparr>) s6))))"

section \<open>The scheduler\<close>

definition set_cproc :: "nat option \<Rightarrow> 'a kernel_scheme \<Rightarrow> 'a kernel_scheme" where
  "set_cproc p s = set_mach (set_mycpu ((mycpu (kmach s))\<lparr>cproc := p\<rparr>) (kmach s)) s"

text \<open>
  Switching to a process whose lock is held: \<open>run i\<close> is what the hart does from \<^verbatim>\<open>swtch\<close> into
  process \<open>i\<close> until the \<^verbatim>\<open>swtch\<close> back.
\<close>

definition dispatch ::
    "(nat \<Rightarrow> 'a kernel_scheme \<Rightarrow> 'a kernel_scheme outcome) \<Rightarrow> nat \<Rightarrow> 'a kernel_scheme \<Rightarrow> 'a kernel_scheme outcome"
  where
  "dispatch run i s =
     (if pstate (procs s ! i) = RUNNABLE then
        andThen (run i (set_cproc (Some i) (set_proc i (\<lambda>p. p\<lparr>pstate := RUNNING\<rparr>) s))) (\<lambda>s1.
        Ok (set_cproc None s1))
      else Ok s)"

text \<open>Policy 0: the original round robin.\<close>

definition rr_one ::
    "(nat \<Rightarrow> 'a kernel_scheme \<Rightarrow> 'a kernel_scheme outcome) \<Rightarrow> nat \<Rightarrow> 'a kernel_scheme \<Rightarrow> 'a kernel_scheme outcome"
  where
  "rr_one run i s =
     andThen (kacquire (ProcLock i) s) (\<lambda>s1. andThen (dispatch run i s1) (krelease (ProcLock i)))"

text \<open>
  Policy 1: priority scheduling. The scan returns \<^verbatim>\<open>min_acc\<close>, \<^verbatim>\<open>min_proc\<close> and \<^verbatim>\<open>proc_counter\<close>;
  \<open>ctr\<close> is the lock on the scheduler's stack.
\<close>

fun ps_scan ::
    "lockid \<Rightarrow> nat list \<Rightarrow> int64 \<times> nat option \<times> int32 \<Rightarrow> 'a kernel_scheme
     \<Rightarrow> ((int64 \<times> nat option \<times> int32) \<times> 'a kernel_scheme) outcome" where
  "ps_scan ctr [] acc s = Ok (acc, s)"
| "ps_scan ctr (i # is) (min_acc, min_proc, proc_counter) s =
     andThen (kacquire (ProcLock i) s) (\<lambda>s1.
     andThen
       (if pstate (procs s1 ! i) = RUNNABLE \<or> pstate (procs s1 ! i) = RUNNING then
          andThen (kacquire ctr s1) (\<lambda>s2.
          andThen (krelease ctr s2) (\<lambda>s3.
          let n = proc_counter + 1; a = accumulator (procs s3 ! i) in
          if a <s min_acc \<or> n = 0
          then Ok ((a, Some i, n), s3\<lparr>min_accumulator := a\<rparr>)
          else Ok ((min_acc, min_proc, n), s3)))
        else Ok ((min_acc, min_proc, proc_counter), s1))
       (\<lambda>(acc, s4). andThen (krelease (ProcLock i) s4) (ps_scan ctr is acc)))"

definition LLONG_MAX :: int64 where "LLONG_MAX = 0x7FFFFFFFFFFFFFFF"
definition INT_MAX :: int32 where "INT_MAX = 0x7FFFFFFF"

definition ps_dispatch ::
    "(nat \<Rightarrow> 'a kernel_scheme \<Rightarrow> 'a kernel_scheme outcome) \<Rightarrow> nat \<Rightarrow> int32 \<Rightarrow> 'a kernel_scheme
     \<Rightarrow> 'a kernel_scheme outcome" where
  "ps_dispatch run i proc_counter s =
     andThen (kacquire (ProcLock i) s) (\<lambda>s1.
     let s2 = (if proc_counter = 1
               then (set_proc i (\<lambda>p. p\<lparr>accumulator := 0\<rparr>) s1)\<lparr>min_accumulator := 0\<rparr> else s1)
     in andThen (dispatch run i s2) (krelease (ProcLock i)))"

definition ps_round ::
    "(nat \<Rightarrow> 'a kernel_scheme \<Rightarrow> 'a kernel_scheme outcome) \<Rightarrow> lockid \<Rightarrow> 'a kernel_scheme \<Rightarrow> 'a kernel_scheme outcome"
  where
  "ps_round run ctr s =
     andThen (ps_scan ctr [0..<NPROC] (LLONG_MAX, None, 0) s) (\<lambda>((min_acc, min_proc, proc_counter), s1).
     case min_proc of None \<Rightarrow> Ok s1 | Some i \<Rightarrow> ps_dispatch run i proc_counter s1)"

text \<open>
  Policy 2: the CFS variant. The division is the \<^verbatim>\<open>divw\<close> instruction, which rounds to zero and
  yields -1 when the divisor is 0 (C leaves that case undefined).
\<close>

definition divw :: "int32 \<Rightarrow> int32 \<Rightarrow> int32" where
  "divw a b = (if b = 0 then -1 else word_of_int (sint a sdiv sint b))"

definition cfs_decay :: "int32 \<Rightarrow> int32 \<Rightarrow> int32" where
  "cfs_decay prio decay_factor =
     (if prio = 0 then 75 else if prio = 1 then 100 else if prio = 2 then 125 else decay_factor)"

definition vruntime :: "int32 \<Rightarrow> proc \<Rightarrow> int32" where
  "vruntime decay_factor p = decay_factor * divw (rtime p) (rtime p + stime p + retime p)"

fun cfs_scan ::
    "nat list \<Rightarrow> int32 \<times> int32 \<times> nat option \<Rightarrow> 'a kernel_scheme
     \<Rightarrow> ((int32 \<times> int32 \<times> nat option) \<times> 'a kernel_scheme) outcome" where
  "cfs_scan [] acc s = Ok (acc, s)"
| "cfs_scan (i # is) (decay_factor, min_vruntime, min_proc) s =
     andThen (kacquire (ProcLock i) s) (\<lambda>s1.
     let p = procs s1 ! i; d = cfs_decay (cfs_priority p) decay_factor; v = vruntime d p;
         acc = (if pstate p = RUNNABLE \<and> v <s min_vruntime then (d, v, Some i) else (d, min_vruntime, min_proc))
     in andThen (krelease (ProcLock i) s1) (cfs_scan is acc))"

definition cfs_round ::
    "(nat \<Rightarrow> 'a kernel_scheme \<Rightarrow> 'a kernel_scheme outcome) \<Rightarrow> int32 \<Rightarrow> 'a kernel_scheme
     \<Rightarrow> (int32 \<times> 'a kernel_scheme) outcome" where
  "cfs_round run decay_factor s =
     andThen (cfs_scan [0..<NPROC] (decay_factor, INT_MAX, None) s) (\<lambda>((d, min_vruntime, min_proc), s1).
     case min_proc of None \<Rightarrow> Ok (d, s1)
     | Some i \<Rightarrow> andThen (rr_one run i s1) (\<lambda>s2. Ok (d, s2)))"

text \<open>One round of \<^verbatim>\<open>scheduler\<close>'s endless loop; \<^verbatim>\<open>decay_factor\<close> lives across rounds.\<close>

definition scheduler_round ::
    "(nat \<Rightarrow> 'a kernel_scheme \<Rightarrow> 'a kernel_scheme outcome) \<Rightarrow> lockid \<Rightarrow> int32 \<Rightarrow> 'a kernel_scheme
     \<Rightarrow> (int32 \<times> 'a kernel_scheme) outcome" where
  "scheduler_round run ctr decay_factor s =
     andThen (kacquire ctr (set_mach (intr_on (kmach s)) s)) (\<lambda>s1.
     andThen (krelease ctr s1) (\<lambda>s2.
     if sched_policy s2 = 0 then
       andThen (for_procs (rr_one run) [0..<NPROC] s2) (\<lambda>s3. Ok (decay_factor, s3))
     else if sched_policy s2 = 1 then andThen (ps_round run ctr s2) (\<lambda>s3. Ok (decay_factor, s3))
     else if sched_policy s2 = 2 then cfs_round run decay_factor s2
     else Ok (decay_factor, s2)))"

fun scheduler_rounds ::
    "nat \<Rightarrow> (nat \<Rightarrow> 'a kernel_scheme \<Rightarrow> 'a kernel_scheme outcome) \<Rightarrow> lockid \<Rightarrow> int32 \<Rightarrow> 'a kernel_scheme
     \<Rightarrow> (int32 \<times> 'a kernel_scheme) outcome" where
  "scheduler_rounds 0 run ctr decay_factor s = Ok (decay_factor, s)"
| "scheduler_rounds (Suc n) run ctr decay_factor s =
     andThen (scheduler_round run ctr decay_factor s) (\<lambda>(d, s1). scheduler_rounds n run ctr d s1)"

text \<open>The state of \<^verbatim>\<open>scheduler\<close> after \<open>n\<close> rounds.\<close>

definition scheduler ::
    "nat \<Rightarrow> (nat \<Rightarrow> 'a kernel_scheme \<Rightarrow> 'a kernel_scheme outcome) \<Rightarrow> 'a kernel_scheme
     \<Rightarrow> (int32 \<times> 'a kernel_scheme) outcome" where
  "scheduler n run s =
     (let ctr = CounterLock (cpuid (kmach s)) in
      scheduler_rounds n run ctr 100 (set_mach (initlock ctr ''counter'' (kmach s)) s))"

section \<open>Queries\<close>

fun get_ps_scan :: "int32 \<Rightarrow> nat list \<Rightarrow> nat option \<Rightarrow> 'a kernel_scheme \<Rightarrow> (nat option \<times> 'a kernel_scheme) outcome"
  where
  "get_ps_scan n [] found s = Ok (found, s)"
| "get_ps_scan n (i # is) found s =
     andThen (kacquire (ProcLock i) s) (\<lambda>s1.
     andThen (krelease (ProcLock i) s1) (get_ps_scan n is (if pid (procs s1 ! i) = n then Some i else found)))"

definition get_ps_priority :: "int32 \<Rightarrow> 'a kernel_scheme \<Rightarrow> (nat option \<times> 'a kernel_scheme) outcome" where
  "get_ps_priority n s = get_ps_scan n [0..<NPROC] None s"

fun get_cfs_scan :: "uint64 \<Rightarrow> int32 \<Rightarrow> nat list \<Rightarrow> 'a kernel_scheme \<Rightarrow> (int32 \<times> 'a kernel_scheme) outcome" where
  "get_cfs_scan add n [] s = Ok (-1, s)"
| "get_cfs_scan add n (i # is) s =
     andThen (kacquire (ProcLock i) s) (\<lambda>s1.
     let p = procs s1 ! i in
     if pid p = n then
       andThen (lift_pmr (copyout (pagetable p) add
           (bytes32 (cfs_priority p) @ bytes32 (rtime p) @ bytes32 (stime p) @ bytes32 (retime p))) s1)
         (\<lambda>(r, s2).
       andThen (krelease (ProcLock i) s2) (\<lambda>s3. Ok (if r <s 0 then -1 else 0, s3)))
     else andThen (krelease (ProcLock i) s1) (get_cfs_scan add n is))"

definition get_cfs_stats :: "uint64 \<Rightarrow> int32 \<Rightarrow> 'a kernel_scheme \<Rightarrow> (int32 \<times> 'a kernel_scheme) outcome" where
  "get_cfs_stats add n s = get_cfs_scan add n [0..<NPROC] s"

definition either_copyout ::
    "bool \<Rightarrow> uint64 \<Rightarrow> uint8 list \<Rightarrow> 'a kernel_scheme \<Rightarrow> (int32 \<times> 'a kernel_scheme) outcome" where
  "either_copyout user_dst dst src s =
     andThen (myproc s) (\<lambda>(me, s1).
     if user_dst then
       (case me of None \<Rightarrow> Panic ''kerneltrap''
        | Some p \<Rightarrow> lift_pmr (copyout (pagetable (procs s1 ! p)) dst src) s1)
     else Ok (0, kmem_upd (\<lambda>m. write_bytes m dst src) s1))"

definition either_copyin ::
    "bool \<Rightarrow> uint64 \<Rightarrow> nat \<Rightarrow> 'a kernel_scheme \<Rightarrow> (int32 \<times> uint8 list \<times> 'a kernel_scheme) outcome" where
  "either_copyin user_src src len s =
     andThen (myproc s) (\<lambda>(me, s1).
     if user_src then
       (case me of None \<Rightarrow> Panic ''kerneltrap''
        | Some p \<Rightarrow> andThen (copyin (pagetable (procs s1 ! p)) src len (pm s1)) (\<lambda>(r, bs, v).
            Ok (r, bs, s1\<lparr>pm := v\<rparr>)))
     else Ok (0, read_bytes (mem (pm s1)) src len, s1))"

fun state_name :: "procstate \<Rightarrow> string" where
  "state_name UNUSED = ''unused''"
| "state_name USED = ''used''"
| "state_name SLEEPING = ''sleep ''"
| "state_name RUNNABLE = ''runble''"
| "state_name RUNNING = ''run   ''"
| "state_name ZOMBIE = ''zombie''"

text \<open>The lines \<^verbatim>\<open>procdump\<close> prints: pid, state and name of every slot in use.\<close>

definition procdump :: "'a kernel_scheme \<Rightarrow> (int32 \<times> string \<times> uint8 list) list" where
  "procdump s = map (\<lambda>p. (pid p, state_name (pstate p), pname p)) (filter (\<lambda>p. pstate p \<noteq> UNUSED) (procs s))"

end
