(* ===== verification/Proctable.thy ===== *)
theory Proctable
  imports Proc
begin

text \<open>
  The operations of kernel/proc.c that walk the process table under the process locks, reduced
  to what they do to the table: wakeup, kill, the CFS tick, the queries. \<open>kready\<close> is the
  condition under which they run without spinning or panicking: the table has its size, all
  process locks are free and the hart keeps the interrupt discipline. A balanced
  acquire/release leaves \<open>ktouch\<close>: only the hart's saved interrupt flag may change.
\<close>

section \<open>Balanced lock operations\<close>

definition ktouch :: "'a kernel_scheme \<Rightarrow> 'a kernel_scheme" where
  "ktouch s = set_mach (touch (kmach s)) s"

definition kready :: "'a kernel_scheme \<Rightarrow> bool" where
  "kready s \<longleftrightarrow> length (procs s) = NPROC \<and> irq_ok (kmach s) \<and>
     (\<forall>i < NPROC. lock_free (ProcLock i) (kmach s))"

lemma set_mach_simps [simp]:
  "kmach (set_mach m s) = m" "procs (set_mach m s) = procs s" "nextpid (set_mach m s) = nextpid s"
  "initproc (set_mach m s) = initproc s" "sched_policy (set_mach m s) = sched_policy s"
  "min_accumulator (set_mach m s) = min_accumulator s" "ticks (set_mach m s) = ticks s"
  "trampoline (set_mach m s) = trampoline s" "forkret_addr (set_mach m s) = forkret_addr s"
  "mem (pm (set_mach m s)) = mem (pm s)" "freelist (pm (set_mach m s)) = freelist (pm s)"
  "kend (pm (set_mach m s)) = kend (pm s)"
  "set_mach m (set_mach m' s) = set_mach m s" "set_mach (kmach s) s = s"
  by (simp_all add: set_mach_def)

lemma ktouch_simps [simp]:
  "procs (ktouch s) = procs s" "nextpid (ktouch s) = nextpid s"
  "initproc (ktouch s) = initproc s" "sched_policy (ktouch s) = sched_policy s"
  "min_accumulator (ktouch s) = min_accumulator s" "ticks (ktouch s) = ticks s"
  "trampoline (ktouch s) = trampoline s" "forkret_addr (ktouch s) = forkret_addr s"
  "mem (pm (ktouch s)) = mem (pm s)" "freelist (pm (ktouch s)) = freelist (pm s)"
  "kend (pm (ktouch s)) = kend (pm s)" "kmach (ktouch s) = touch (kmach s)"
  "ktouch (ktouch s) = ktouch s"
  by (simp_all add: ktouch_def)

lemma set_proc_simps [simp]:
  "pm (set_proc i f s) = pm s" "nextpid (set_proc i f s) = nextpid s"
  "initproc (set_proc i f s) = initproc s" "sched_policy (set_proc i f s) = sched_policy s"
  "min_accumulator (set_proc i f s) = min_accumulator s" "ticks (set_proc i f s) = ticks s"
  "trampoline (set_proc i f s) = trampoline s" "forkret_addr (set_proc i f s) = forkret_addr s"
  "procs (set_proc i f s) = (procs s)[i := f (procs s ! i)]"
  "length (procs (set_proc i f s)) = length (procs s)"
  by (simp_all add: set_proc_def)

lemma set_proc_id [simp]: "set_proc i (\<lambda>p. p) s = s"
  by (simp add: set_proc_def)

lemma set_proc_set_mach: "set_proc i f (set_mach m s) = set_mach m (set_proc i f s)"
  by (simp add: set_proc_def set_mach_def)

lemma set_mach_commute:
  "(set_mach m s)\<lparr>min_accumulator := a\<rparr> = set_mach m (s\<lparr>min_accumulator := a\<rparr>)"
  "(set_mach m s)\<lparr>procs := ps\<rparr> = set_mach m (s\<lparr>procs := ps\<rparr>)"
  "(set_mach m s)\<lparr>nextpid := n\<rparr> = set_mach m (s\<lparr>nextpid := n\<rparr>)"
  "(set_mach m s)\<lparr>ticks := t\<rparr> = set_mach m (s\<lparr>ticks := t\<rparr>)"
  "(set_mach m s)\<lparr>sched_policy := n\<rparr> = set_mach m (s\<lparr>sched_policy := n\<rparr>)"
  by (cases s; simp add: set_mach_def)+

lemma kready_ktouch [simp]: "kready (ktouch s) = kready s"
  by (simp add: kready_def)

lemma kready_set_proc [simp]: "kready (set_proc i f s) = kready s"
  by (simp add: kready_def)

lemma kready_min_accumulator [simp]: "kready (s\<lparr>min_accumulator := a\<rparr>) = kready s"
  by (simp add: kready_def)

lemma ktouch_set_proc: "ktouch (set_proc i f s) = set_proc i f (ktouch s)"
  by (simp add: ktouch_def set_proc_set_mach)

lemma kacquire_free:
  "lock_free lk (kmach s) \<Longrightarrow> kacquire lk s = Ok (set_mach (taken lk (kmach s)) s)"
  by (simp add: kacquire_def acquire_free)

lemma krelease_taken:
  "lock_free lk (kmach s) \<Longrightarrow> irq_ok (kmach s) \<Longrightarrow>
     krelease lk (set_mach (taken lk (kmach s)) s) = Ok (ktouch s)"
  by (simp add: krelease_def release_taken ktouch_def)

text \<open>A critical section on the lock of slot \<open>i\<close> that only rewrites the slot.\<close>

lemma plock_section:
  assumes "kready s" and "i < NPROC"
  shows "kacquire (ProcLock i) s = Ok (set_mach (taken (ProcLock i) (kmach s)) s)"
    and "krelease (ProcLock i) (set_proc i f (set_mach (taken (ProcLock i) (kmach s)) s)) =
      Ok (ktouch (set_proc i f s))"
    and "krelease (ProcLock i) (set_mach (taken (ProcLock i) (kmach s)) s) = Ok (ktouch s)"
proof -
  have free: "lock_free (ProcLock i) (kmach s)" and irq: "irq_ok (kmach s)"
    using assms by (auto simp: kready_def)
  show "kacquire (ProcLock i) s = Ok (set_mach (taken (ProcLock i) (kmach s)) s)"
    using free by (rule kacquire_free)
  show "krelease (ProcLock i) (set_mach (taken (ProcLock i) (kmach s)) s) = Ok (ktouch s)"
    using free irq by (rule krelease_taken)
  show "krelease (ProcLock i) (set_proc i f (set_mach (taken (ProcLock i) (kmach s)) s)) =
      Ok (ktouch (set_proc i f s))"
    using krelease_taken [of "ProcLock i" "set_proc i f s"] free irq by (simp add: set_proc_set_mach)
qed

lemma myproc_eq:
  assumes "irq_ok (kmach s)"
  shows "myproc s = Ok (cproc (mycpu (kmach s)), ktouch s)"
  using assms by (simp add: myproc_def push_pop_touch mycpu_push_off ktouch_def)

text \<open>
  A loop over slots each of which is rewritten by \<open>g i\<close>: the net effect is to apply \<open>g\<close> to every
  slot, and to touch the hart.
\<close>

definition map_procs :: "(nat \<Rightarrow> proc \<Rightarrow> proc) \<Rightarrow> nat list \<Rightarrow> proc list \<Rightarrow> proc list" where
  "map_procs g is ps = fold (\<lambda>i qs. qs[i := g i (qs ! i)]) is ps"

lemma length_map_procs [simp]: "length (map_procs g is ps) = length ps"
  unfolding map_procs_def by (induction "is" arbitrary: ps) simp_all

lemma map_procs_nth:
  assumes "distinct is" and "k < length ps"
  shows "map_procs g is ps ! k = (if k \<in> set is then g k (ps ! k) else ps ! k)"
  using assms
proof (induction "is" arbitrary: ps)
  case Nil
  then show ?case by (simp add: map_procs_def)
next
  case (Cons i "is")
  have "map_procs g (i # is) ps = map_procs g is (ps[i := g i (ps ! i)])"
    by (simp add: map_procs_def)
  then show ?case using Cons by (cases "i = k") auto
qed

lemma map_procs_all:
  assumes "length ps = n"
  shows "map_procs g [0..<n] ps = map (\<lambda>i. g i (ps ! i)) [0..<n]"
  using assms by (intro nth_equalityI) (auto simp: map_procs_nth)

lemma for_procs_maps:
  assumes body: "\<And>i s. i \<in> set is \<Longrightarrow> kready s \<Longrightarrow> P s \<Longrightarrow> body i s = Ok (ktouch (set_proc i (g i) s))"
    and keep: "\<And>i s. P s \<Longrightarrow> P (ktouch (set_proc i (g i) s))"
    and "kready s" and "P s" and "is \<noteq> []"
  shows "for_procs body is s = Ok (ktouch (s\<lparr>procs := map_procs g is (procs s)\<rparr>))"
proof -
  have step: "ktouch (s\<lparr>procs := ps\<rparr>) = (ktouch s)\<lparr>procs := ps\<rparr>" for ps and s :: "'a kernel_scheme"
    by (simp add: ktouch_def set_mach_def)
  have main: "for_procs body is (ktouch s) = Ok (ktouch (s\<lparr>procs := map_procs g is (procs s)\<rparr>))"
    if "kready s" "P (ktouch s)" "\<And>i s. i \<in> set is \<Longrightarrow> kready s \<Longrightarrow> P s \<Longrightarrow> body i s = Ok (ktouch (set_proc i (g i) s))"
    for "is" and s :: "'a kernel_scheme"
    using that
  proof (induction "is" arbitrary: s)
    case Nil
    then show ?case by (simp add: map_procs_def)
  next
    case (Cons i "is")
    let ?s = "set_proc i (g i) s"
    have "body i (ktouch s) = Ok (ktouch ?s)"
      using Cons.prems by (simp add: ktouch_set_proc)
    moreover have "P (ktouch ?s)" using keep [OF Cons.prems(2), of i] by (simp add: ktouch_set_proc)
    moreover have "kready ?s" using Cons.prems(1) by simp
    ultimately have "for_procs body (i # is) (ktouch s) =
        Ok (ktouch (?s\<lparr>procs := map_procs g is (procs ?s)\<rparr>))"
      using Cons.IH [of ?s] Cons.prems(3) by simp
    then show ?case by (simp add: map_procs_def set_proc_def)
  qed
  obtain i js where "is": "is = i # js" using assms(5) by (cases "is") auto
  let ?s = "set_proc i (g i) s"
  have "for_procs body is s = for_procs body js (ktouch ?s)"
    using assms "is" by simp
  also have "\<dots> = Ok (ktouch (?s\<lparr>procs := map_procs g js (procs ?s)\<rparr>))"
    using main [of ?s js] keep [OF assms(4)] assms(3) body "is" by simp
  also have "\<dots> = Ok (ktouch (s\<lparr>procs := map_procs g is (procs s)\<rparr>))"
    by (simp add: "is" map_procs_def set_proc_def)
  finally show ?thesis .
qed

section \<open>wakeup, the CFS tick, kill\<close>

definition woken :: "nat option \<Rightarrow> chan option \<Rightarrow> int64 \<Rightarrow> nat \<Rightarrow> proc \<Rightarrow> proc" where
  "woken me ch a i p =
     (if me \<noteq> Some i \<and> pstate p = SLEEPING \<and> pchan p = ch
      then p\<lparr>pstate := RUNNABLE, accumulator := a\<rparr> else p)"

lemma wakeup_one_eq:
  assumes "kready s" and "i < NPROC" and "cproc (mycpu (kmach s)) = me" and "min_accumulator s = a"
  shows "wakeup_one ch i s = Ok (ktouch (set_proc i (woken me ch a i) s))"
proof -
  have me: "myproc s = Ok (me, ktouch s)" using assms by (simp add: myproc_eq kready_def)
  note sec = plock_section [of "ktouch s" i, simplified, OF assms(1,2)]
  have upd: "set_proc i f s = set_proc i (woken me ch a i) s" if "f (procs s ! i) = woken me ch a i (procs s ! i)" for f
    using that by (simp add: set_proc_def)
  show ?thesis
  proof (cases "me = Some i")
    case True
    then have "set_proc i (woken me ch a i) s = s" by (simp add: set_proc_def woken_def)
    then show ?thesis using me True by (simp add: wakeup_one_def)
  next
    case False
    show ?thesis
    proof (cases "pstate (procs s ! i) = SLEEPING \<and> pchan (procs s ! i) = ch")
      case True
      then have "wakeup_one ch i s =
          Ok (ktouch (set_proc i (\<lambda>p. p\<lparr>pstate := RUNNABLE, accumulator := a\<rparr>) (ktouch s)))"
        using me False sec assms(4) by (simp add: wakeup_one_def)
      then show ?thesis
        using upd [of "\<lambda>p. p\<lparr>pstate := RUNNABLE, accumulator := a\<rparr>"] True False
        by (simp add: woken_def flip: ktouch_set_proc)
    next
      case no: False
      then have "set_proc i (woken me ch a i) s = s" by (auto simp: set_proc_def woken_def)
      then show ?thesis using me False sec no by (auto simp: wakeup_one_def)
    qed
  qed
qed

lemma cproc_ktouch: "cproc (mycpu (kmach (ktouch s))) = cproc (mycpu (kmach s))"
  by simp

lemma wakeup_eq:
  assumes "kready s"
  shows "wakeup ch s = Ok (ktouch (s\<lparr>procs :=
     map (\<lambda>i. woken (cproc (mycpu (kmach s))) ch (min_accumulator s) i (procs s ! i)) [0..<NPROC]\<rparr>))"
proof -
  let ?P = "\<lambda>t :: 'a kernel_scheme. cproc (mycpu (kmach t)) = cproc (mycpu (kmach s)) \<and>
    min_accumulator t = min_accumulator s"
  have "wakeup ch s = Ok (ktouch (s\<lparr>procs :=
      map_procs (woken (cproc (mycpu (kmach s))) ch (min_accumulator s)) [0..<NPROC] (procs s)\<rparr>))"
    unfolding wakeup_def
    by (rule for_procs_maps [where P = ?P]) (use assms in \<open>auto simp: wakeup_one_eq NPROC_def\<close>)
  then show ?thesis using assms by (simp add: map_procs_all kready_def)
qed

definition cfs_tick :: "proc \<Rightarrow> proc" where
  "cfs_tick p = (case pstate p of
     RUNNABLE \<Rightarrow> p\<lparr>retime := retime p + 1\<rparr>
   | SLEEPING \<Rightarrow> p\<lparr>stime := stime p + 1\<rparr>
   | RUNNING \<Rightarrow> p\<lparr>rtime := rtime p + 1\<rparr>
   | _ \<Rightarrow> p)"

lemma cfs_update_one_eq:
  assumes "kready s" and "i < NPROC"
  shows "cfs_update_one i s = Ok (ktouch (set_proc i cfs_tick s))"
proof -
  have "(case pstate (procs s ! i) of RUNNABLE \<Rightarrow> set_proc i (\<lambda>p. p\<lparr>retime := retime p + 1\<rparr>) t
      | SLEEPING \<Rightarrow> set_proc i (\<lambda>p. p\<lparr>stime := stime p + 1\<rparr>) t
      | RUNNING \<Rightarrow> set_proc i (\<lambda>p. p\<lparr>rtime := rtime p + 1\<rparr>) t | _ \<Rightarrow> t) = set_proc i cfs_tick t"
    if "procs t = procs s" for t :: "'a kernel_scheme"
    using that by (simp add: cfs_tick_def set_proc_def split: procstate.split)
  then show ?thesis using plock_section [OF assms] by (simp add: cfs_update_one_def)
qed

lemma cfs_update_eq:
  assumes "kready s"
  shows "cfs_update s = Ok (ktouch (s\<lparr>procs := map cfs_tick (procs s)\<rparr>))"
proof -
  have "for_procs cfs_update_one [0..<NPROC] (ktouch s) =
      Ok (ktouch ((ktouch s)\<lparr>procs := map_procs (\<lambda>_. cfs_tick) [0..<NPROC] (procs (ktouch s))\<rparr>))"
    by (rule for_procs_maps [where P = "\<lambda>_. True"])
       (use assms in \<open>auto simp: cfs_update_one_eq NPROC_def\<close>)
  moreover have "map (\<lambda>i. cfs_tick (procs s ! i)) [0..<NPROC] = map cfs_tick (procs s)"
    using assms by (intro nth_equalityI) (auto simp: kready_def)
  moreover have "ktouch ((ktouch s)\<lparr>procs := ps\<rparr>) = ktouch (s\<lparr>procs := ps\<rparr>)" for ps
    by (simp add: ktouch_def set_mach_def)
  ultimately show ?thesis
    using assms by (simp add: cfs_update_def myproc_eq map_procs_all kready_def)
qed

definition kill_mark :: "proc \<Rightarrow> proc" where
  "kill_mark p = p\<lparr>pkilled := 1, pstate := (if pstate p = SLEEPING then RUNNABLE else pstate p)\<rparr>"

lemma kill_scan_eq:
  assumes "kready s" and "set is \<subseteq> {..<NPROC}"
  shows "kill_scan n is s =
    (case find (\<lambda>i. pid (procs s ! i) = n) is of
       None \<Rightarrow> Ok (-1, if is = [] then s else ktouch s)
     | Some i \<Rightarrow> Ok (0, ktouch (set_proc i kill_mark s)))"
  using assms
proof (induction "is" arbitrary: s)
  case Nil
  show ?case by simp
next
  case (Cons i "is")
  then have i: "i < NPROC" by simp
  note sec = plock_section [OF Cons.prems(1) i]
  show ?case
  proof (cases "pid (procs s ! i) = n")
    case True
    then show ?thesis using sec by (simp add: kill_mark_def [abs_def])
  next
    case False
    then have "kill_scan n (i # is) s = kill_scan n is (ktouch s)" using sec by simp
    also have "\<dots> = (case find (\<lambda>i. pid (procs s ! i) = n) is of
       None \<Rightarrow> Ok (-1, ktouch s) | Some i \<Rightarrow> Ok (0, ktouch (set_proc i kill_mark s)))"
      using Cons.IH [of "ktouch s"] Cons.prems
      by (simp add: ktouch_set_proc [symmetric] split: option.split)
    finally show ?thesis using False by simp
  qed
qed

lemma killed_eq:
  "kready s \<Longrightarrow> i < NPROC \<Longrightarrow> killed i s = Ok (pkilled (procs s ! i), ktouch s)"
  using plock_section [of s i] by (simp add: killed_def)

lemma setkilled_eq:
  "kready s \<Longrightarrow> i < NPROC \<Longrightarrow> setkilled i s = Ok (ktouch (set_proc i (\<lambda>p. p\<lparr>pkilled := 1\<rparr>) s))"
  using plock_section [of s i] by (simp add: setkilled_def)

end
