(* ===== verification/Scheduler.thy ===== *)
theory Scheduler
  imports Proctable
begin

text \<open>
  The three policies of \<^verbatim>\<open>scheduler\<close> (kernel/proc.c). The scans of policies 1 and 2 are reduced to
  pure choices on the process table; both are instances of one contract, the locale
  \<open>min_policy\<close>: the first eligible slot with the least key, the key below a limit.
\<close>

section \<open>Choosing a least key\<close>

fun pick :: "(nat \<Rightarrow> bool) \<Rightarrow> (nat \<Rightarrow> int) \<Rightarrow> nat list \<Rightarrow> int \<times> nat option \<Rightarrow> int \<times> nat option" where
  "pick ok key [] acc = acc"
| "pick ok key (i # is) (m, r) =
     pick ok key is (if ok i \<and> key i < m then (key i, Some i) else (m, r))"

lemma pick_append: "pick ok key (is @ js) acc = pick ok key js (pick ok key is acc)"
  by (induction "is" arbitrary: acc) (auto split: prod.splits)

lemma pick_keeps_Some: "snd (pick ok key is (m, Some i)) \<noteq> None"
  by (induction "is" arbitrary: m i) auto

text \<open>What a scan has found after the slots below \<open>n\<close>.\<close>

definition found_min :: "(nat \<Rightarrow> bool) \<Rightarrow> (nat \<Rightarrow> int) \<Rightarrow> nat \<Rightarrow> int \<Rightarrow> int \<times> nat option \<Rightarrow> bool" where
  "found_min ok key n limit acc \<longleftrightarrow>
     (case snd acc of
        None \<Rightarrow> fst acc = limit \<and> (\<forall>j < n. ok j \<longrightarrow> limit \<le> key j)
      | Some i \<Rightarrow> i < n \<and> ok i \<and> key i < limit \<and> fst acc = key i \<and>
          (\<forall>j < n. ok j \<longrightarrow> key i \<le> key j) \<and> (\<forall>j < i. ok j \<longrightarrow> key i < key j))"

lemma pick_found_min: "found_min ok key n limit (pick ok key [0..<n] (limit, None))"
proof (induction n)
  case 0
  show ?case by (simp add: found_min_def)
next
  case (Suc n)
  obtain m r where acc: "pick ok key [0..<n] (limit, None) = (m, r)" by (cases "pick ok key [0..<n] (limit, None)")
  have step: "pick ok key [0..<Suc n] (limit, None) = (if ok n \<and> key n < m then (key n, Some n) else (m, r))"
    by (simp add: pick_append acc)
  from Suc acc have inv: "found_min ok key n limit (m, r)" by simp
  show ?case
    unfolding step using inv
    by (auto simp: found_min_def less_Suc_eq split: option.splits)
qed

locale min_policy =
  fixes chosen :: "proc list \<Rightarrow> nat option"
    and eligible :: "proc \<Rightarrow> bool"
    and key :: "proc \<Rightarrow> int"
    and limit :: int
    and domain :: "proc list \<Rightarrow> bool"
  assumes choose_Some: "domain ps \<Longrightarrow> chosen ps = Some i \<Longrightarrow>
      i < length ps \<and> eligible (ps ! i) \<and> key (ps ! i) < limit \<and>
      (\<forall>j < length ps. eligible (ps ! j) \<longrightarrow> key (ps ! i) \<le> key (ps ! j)) \<and>
      (\<forall>j < i. eligible (ps ! j) \<longrightarrow> key (ps ! i) < key (ps ! j))"
    and choose_None: "domain ps \<Longrightarrow> chosen ps = None \<Longrightarrow>
      \<forall>j < length ps. eligible (ps ! j) \<longrightarrow> limit \<le> key (ps ! j)"
begin

lemma choose_iff:
  assumes "domain ps"
  shows "chosen ps = Some i \<longleftrightarrow>
    i < length ps \<and> eligible (ps ! i) \<and> key (ps ! i) < limit \<and>
    (\<forall>j < length ps. eligible (ps ! j) \<longrightarrow> key (ps ! i) \<le> key (ps ! j)) \<and>
    (\<forall>j < i. eligible (ps ! j) \<longrightarrow> key (ps ! i) < key (ps ! j))" (is "_ \<longleftrightarrow> ?R i")
proof
  assume "chosen ps = Some i"
  then show "?R i" by (rule choose_Some [OF assms])
next
  assume R: "?R i"
  show "chosen ps = Some i"
  proof (cases "chosen ps")
    case None
    then show ?thesis using choose_None [OF assms None] R by auto
  next
    case (Some k)
    note K = choose_Some [OF assms Some]
    have "k = i"
    proof (rule linorder_cases [of k i])
      assume "k < i"
      then show ?thesis using R K by (metis not_less)
    next
      assume "i < k"
      then show ?thesis using R K by (metis not_less)
    qed
    with Some show ?thesis by simp
  qed
qed

lemma choose_exists:
  assumes "domain ps" and "j < length ps" and "eligible (ps ! j)" and "key (ps ! j) < limit"
  shows "\<exists>i. chosen ps = Some i"
proof (cases "chosen ps")
  case None
  then show ?thesis using choose_None [OF assms(1) None] assms by auto
qed auto

text \<open>A process whose key is raised above another eligible one loses its turn.\<close>

lemma choose_moves_on:
  assumes "domain (ps[i := p])" and "i < length ps" and "j < length ps" and "i \<noteq> j"
    and "eligible (ps ! j)" and "key (ps ! j) < key p"
  shows "chosen (ps[i := p]) \<noteq> Some i"
  using assms choose_Some [OF assms(1), of i] by force

end

section \<open>Policy 1\<close>

definition live :: "proc \<Rightarrow> bool" where
  "live p \<longleftrightarrow> pstate p = RUNNABLE \<or> pstate p = RUNNING"

definition ps_key :: "proc \<Rightarrow> int" where
  "ps_key p = sint (accumulator p)"

definition ps_choice :: "proc list \<Rightarrow> int \<times> nat option" where
  "ps_choice ps = pick (\<lambda>i. live (ps ! i)) (\<lambda>i. ps_key (ps ! i)) [0..<length ps] (sint LLONG_MAX, None)"

interpretation ps: min_policy "\<lambda>ps. snd (ps_choice ps)" live ps_key "sint LLONG_MAX" "\<lambda>_. True"
proof
  fix ps :: "proc list" and i
  note f = pick_found_min [of "\<lambda>i. live (ps ! i)" "\<lambda>i. ps_key (ps ! i)" "length ps" "sint LLONG_MAX"]
  show "i < length ps \<and> live (ps ! i) \<and> ps_key (ps ! i) < sint LLONG_MAX \<and>
      (\<forall>j < length ps. live (ps ! j) \<longrightarrow> ps_key (ps ! i) \<le> ps_key (ps ! j)) \<and>
      (\<forall>j < i. live (ps ! j) \<longrightarrow> ps_key (ps ! i) < ps_key (ps ! j))" if "snd (ps_choice ps) = Some i"
    using f that by (simp add: ps_choice_def found_min_def)
  show "\<forall>j < length ps. live (ps ! j) \<longrightarrow> sint LLONG_MAX \<le> ps_key (ps ! j)" if "snd (ps_choice ps) = None"
    using f that by (simp add: ps_choice_def found_min_def)
qed

lemma irq_ok_taken [simp]: "irq_ok m \<Longrightarrow> irq_ok (taken lk m)"
  and touch_taken [simp]: "irq_ok m \<Longrightarrow> touch (taken lk m) = taken lk m"
  by (simp_all add: irq_ok_def taken_def touch_def mycpu_push_off)

text \<open>A lock taken and released inside the critical section of another leaves nothing behind.\<close>

lemma inner_section:
  assumes "irq_ok (kmach s)" and "lock_free lk (kmach s)" and "lk \<noteq> lk'"
    and t: "t = set_mach (taken lk' (kmach s)) s"
  obtains u where "kacquire lk t = Ok u" "krelease lk u = Ok t"
proof -
  have "lock_free lk (kmach t)" and irq: "irq_ok (kmach t)"
    using assms by (simp_all add: lock_free_taken)
  moreover have "ktouch t = t" using assms by (simp add: ktouch_def)
  ultimately show thesis
    using that [OF kacquire_free] krelease_taken [of lk t] by simp
qed

lemma sless_sint: "a <s b \<longleftrightarrow> sint a < sint b"
  by (simp add: word_sless_alt)

declare ps_scan.simps(2) [simp del]

lemma ps_scan_step:
  assumes "kready s" and "i < NPROC" and "lock_free ctr (kmach s)" and "ctr \<noteq> ProcLock i" and "c + 1 \<noteq> 0"
  shows "ps_scan ctr (i # is) (m, r, c) s =
    (let p = procs s ! i; a = accumulator p in
     if live p then
       if a <s m then ps_scan ctr is (a, Some i, c + 1) (ktouch (s\<lparr>min_accumulator := a\<rparr>))
       else ps_scan ctr is (m, r, c + 1) (ktouch s)
     else ps_scan ctr is (m, r, c) (ktouch s))"
proof -
  let ?t = "set_mach (taken (ProcLock i) (kmach s)) s"
  note sec = plock_section [OF assms(1,2)]
  obtain u where u: "kacquire ctr ?t = Ok u" "krelease ctr u = Ok ?t"
    using inner_section [OF _ assms(3,4) refl] assms(1) by (auto simp: kready_def)
  have sec_a: "krelease (ProcLock i) (?t\<lparr>min_accumulator := a\<rparr>) = Ok (ktouch (s\<lparr>min_accumulator := a\<rparr>))" for a
    using plock_section(3) [of "s\<lparr>min_accumulator := a\<rparr>" i] assms(1,2) by (simp add: set_mach_commute)
  show ?thesis using sec u sec_a assms(5) by (auto simp: ps_scan.simps(2) live_def Let_def)
qed

lemma ktouch_min_accumulator:
  "ktouch ((ktouch s)\<lparr>min_accumulator := a\<rparr>) = ktouch (s\<lparr>min_accumulator := a\<rparr>)"
  by (simp add: ktouch_def set_mach_commute)

lemma ps_scan_eq:
  assumes "kready s" and "set is \<subseteq> {..<NPROC}" and "lock_free ctr (kmach s)" and "\<forall>i. ctr \<noteq> ProcLock i"
    and "unat c + length is < 2 ^ 32" and "r \<noteq> None \<longrightarrow> min_accumulator s = m"
  shows "\<exists>m' r'. ps_scan ctr is (m, r, c) (ktouch s) =
      Ok ((m', r', c + of_nat (length (filter (\<lambda>i. live (procs s ! i)) is))),
          ktouch (s\<lparr>min_accumulator := (if r' = None then min_accumulator s else m')\<rparr>)) \<and>
    pick (\<lambda>i. live (procs s ! i)) (\<lambda>i. ps_key (procs s ! i)) is (sint m, r) = (sint m', r')"
  using assms
proof (induction "is" arbitrary: m r c s)
  case Nil
  then have "s\<lparr>min_accumulator := (if r = None then min_accumulator s else m)\<rparr> = s" by auto
  then show ?case by (intro exI [of _ m] exI [of _ r]) simp
next
  case (Cons i "is")
  have "unat (c + 1) = unat c + 1" using Cons.prems(5) by (simp add: unat_word_ariths)
  then have c1: "c + 1 \<noteq> 0" "unat (c + 1) + length is < 2 ^ 32" "unat c + length is < 2 ^ 32"
    using Cons.prems(5) by auto
  let ?p = "procs s ! i" and ?n = "\<lambda>is. of_nat (length (filter (\<lambda>i. live (procs s ! i)) is)) :: int32"
  have step: "ps_scan ctr (i # is) (m, r, c) (ktouch s) =
      (if live ?p then
         if accumulator ?p <s m
         then ps_scan ctr is (accumulator ?p, Some i, c + 1) (ktouch (s\<lparr>min_accumulator := accumulator ?p\<rparr>))
         else ps_scan ctr is (m, r, c + 1) (ktouch s)
       else ps_scan ctr is (m, r, c) (ktouch s))"
    using ps_scan_step [of "ktouch s" i ctr c "is" m r] Cons.prems c1
    by (simp add: ktouch_min_accumulator Let_def)
  consider (skip) "\<not> live ?p" | (lower) "live ?p" "accumulator ?p <s m" | (keep) "live ?p" "\<not> accumulator ?p <s m"
    by blast
  then show ?case
  proof cases
    case skip
    have run: "ps_scan ctr (i # is) (m, r, c) (ktouch s) = ps_scan ctr is (m, r, c) (ktouch s)"
      using step skip by simp
    show ?thesis using Cons.IH [of s c r m] Cons.prems c1 skip unfolding run by simp
  next
    case lower
    let ?s = "s\<lparr>min_accumulator := accumulator ?p\<rparr>"
    have run: "ps_scan ctr (i # is) (m, r, c) (ktouch s) = ps_scan ctr is (accumulator ?p, Some i, c + 1) (ktouch ?s)"
      using step lower by simp
    obtain m' r' where IH: "ps_scan ctr is (accumulator ?p, Some i, c + 1) (ktouch ?s) =
        Ok ((m', r', c + 1 + ?n is), ktouch (?s\<lparr>min_accumulator := (if r' = None then accumulator ?p else m')\<rparr>))"
      "pick (\<lambda>i. live (procs s ! i)) (\<lambda>i. ps_key (procs s ! i)) is (sint (accumulator ?p), Some i) = (sint m', r')"
      using Cons.IH [of ?s "c + 1" "Some i" "accumulator ?p"] Cons.prems c1 by auto
    obtain y where "r' = Some y" using pick_keeps_Some IH(2) by (metis snd_conv not_None_eq)
    then show ?thesis
      using run IH lower by (intro exI [of _ m'] exI [of _ r']) (simp add: ps_key_def sless_sint algebra_simps)
  next
    case keep
    have run: "ps_scan ctr (i # is) (m, r, c) (ktouch s) = ps_scan ctr is (m, r, c + 1) (ktouch s)"
      using step keep by simp
    obtain m' r' where IH: "ps_scan ctr is (m, r, c + 1) (ktouch s) =
        Ok ((m', r', c + 1 + ?n is), ktouch (s\<lparr>min_accumulator := (if r' = None then min_accumulator s else m')\<rparr>))"
      "pick (\<lambda>i. live (procs s ! i)) (\<lambda>i. ps_key (procs s ! i)) is (sint m, r) = (sint m', r')"
      using Cons.IH [of s "c + 1" r m] Cons.prems c1 by auto
    then show ?thesis
      using run keep by (intro exI [of _ m'] exI [of _ r']) (simp add: ps_key_def sless_sint algebra_simps)
  qed
qed

text \<open>The scan of policy 1 on the whole table.\<close>

lemma ps_scan_whole:
  assumes "kready s" and "lock_free ctr (kmach s)" and "\<forall>i. ctr \<noteq> ProcLock i"
  shows "\<exists>m'. ps_scan ctr [0..<NPROC] (LLONG_MAX, None, 0) (ktouch s) =
      Ok ((m', snd (ps_choice (procs s)), of_nat (length (filter live (procs s)))),
          ktouch (s\<lparr>min_accumulator :=
            (case snd (ps_choice (procs s)) of None \<Rightarrow> min_accumulator s
             | Some i \<Rightarrow> accumulator (procs s ! i))\<rparr>))"
proof -
  have len: "length (procs s) = NPROC" using assms(1) by (simp add: kready_def)
  have cnt: "length (filter (\<lambda>i. live (procs s ! i)) [0..<NPROC]) = length (filter live (procs s))"
  proof -
    have "filter live (map ((!) (procs s)) [0..<length (procs s)]) =
        map ((!) (procs s)) (filter (\<lambda>i. live (procs s ! i)) [0..<length (procs s)])"
      by (simp add: filter_map o_def)
    then show ?thesis by (metis len length_map map_nth)
  qed
  have bound: "unat (0 :: int32) + length [0..<NPROC] < 2 ^ 32" by (simp add: NPROC_def)
  have all: "set [0..<NPROC] \<subseteq> {..<NPROC}" and none: "(None :: nat option) \<noteq> None \<longrightarrow> min_accumulator s = LLONG_MAX"
    by auto
  from ps_scan_eq [OF assms(1) all assms(2,3) bound none]
  obtain m' r' where scan: "ps_scan ctr [0..<NPROC] (LLONG_MAX, None, 0) (ktouch s) =
      Ok ((m', r', 0 + of_nat (length (filter (\<lambda>i. live (procs s ! i)) [0..<NPROC]))),
          ktouch (s\<lparr>min_accumulator := (if r' = None then min_accumulator s else m')\<rparr>))"
    "pick (\<lambda>i. live (procs s ! i)) (\<lambda>i. ps_key (procs s ! i)) [0..<NPROC] (sint LLONG_MAX, None) = (sint m', r')"
    by (elim exE conjE) (rule that)
  have r': "ps_choice (procs s) = (sint m', r')" using scan(2) by (simp add: ps_choice_def len)
  have "m' = accumulator (procs s ! i)" if "r' = Some i" for i
  proof -
    have "sint m' = ps_key (procs s ! i)"
      using pick_found_min [of "\<lambda>i. live (procs s ! i)" "\<lambda>i. ps_key (procs s ! i)" NPROC "sint LLONG_MAX"]
        scan(2) that by (simp add: found_min_def)
    then show ?thesis by (simp add: ps_key_def signed_word_eqI)
  qed
  then show ?thesis
    using scan(1) r' cnt by (intro exI [of _ m']) (auto split: option.split)
qed

section \<open>Policy 2\<close>

text \<open>The key of a process whose priority is one of the three the kernel sets.\<close>

definition cfs_key :: "proc \<Rightarrow> int" where
  "cfs_key p = sint (vruntime (cfs_decay (cfs_priority p) 100) p)"

definition cfs_eligible :: "proc \<Rightarrow> bool" where
  "cfs_eligible p \<longleftrightarrow> pstate p = RUNNABLE"

definition cfs_prio_ok :: "proc \<Rightarrow> bool" where
  "cfs_prio_ok p \<longleftrightarrow> cfs_priority p \<in> {0, 1, 2}"

definition cfs_choice :: "proc list \<Rightarrow> int \<times> nat option" where
  "cfs_choice ps =
     pick (\<lambda>i. cfs_eligible (ps ! i)) (\<lambda>i. cfs_key (ps ! i)) [0..<length ps] (sint INT_MAX, None)"

interpretation cfs: min_policy "\<lambda>ps. snd (cfs_choice ps)" cfs_eligible cfs_key "sint INT_MAX" "\<lambda>_. True"
proof
  fix ps :: "proc list" and i
  note f = pick_found_min [of "\<lambda>i. cfs_eligible (ps ! i)" "\<lambda>i. cfs_key (ps ! i)" "length ps" "sint INT_MAX"]
  show "i < length ps \<and> cfs_eligible (ps ! i) \<and> cfs_key (ps ! i) < sint INT_MAX \<and>
      (\<forall>j < length ps. cfs_eligible (ps ! j) \<longrightarrow> cfs_key (ps ! i) \<le> cfs_key (ps ! j)) \<and>
      (\<forall>j < i. cfs_eligible (ps ! j) \<longrightarrow> cfs_key (ps ! i) < cfs_key (ps ! j))" if "snd (cfs_choice ps) = Some i"
    using f that by (simp add: cfs_choice_def found_min_def)
  show "\<forall>j < length ps. cfs_eligible (ps ! j) \<longrightarrow> sint INT_MAX \<le> cfs_key (ps ! j)"
    if "snd (cfs_choice ps) = None"
    using f that by (simp add: cfs_choice_def found_min_def)
qed

declare cfs_scan.simps(2) [simp del]

lemma cfs_decay_known: "cfs_prio_ok p \<Longrightarrow> cfs_decay (cfs_priority p) d = cfs_decay (cfs_priority p) 100"
  by (auto simp: cfs_prio_ok_def cfs_decay_def)

lemma cfs_scan_eq:
  assumes "kready s" and "set is \<subseteq> {..<NPROC}" and "\<forall>i \<in> set is. cfs_prio_ok (procs s ! i)"
  shows "\<exists>d' m' r'. cfs_scan is (d, m, r) (ktouch s) = Ok ((d', m', r'), ktouch s) \<and>
    pick (\<lambda>i. cfs_eligible (procs s ! i)) (\<lambda>i. cfs_key (procs s ! i)) is (sint m, r) = (sint m', r')"
  using assms
proof (induction "is" arbitrary: d m r)
  case Nil
  show ?case by simp
next
  case (Cons i "is")
  let ?p = "procs s ! i"
  let ?d = "cfs_decay (cfs_priority ?p) d"
  have i: "i < NPROC" using Cons.prems by simp
  note sec = plock_section [of "ktouch s" i, simplified, OF Cons.prems(1) i]
  have d: "vruntime ?d ?p = vruntime (cfs_decay (cfs_priority ?p) 100) ?p"
    using Cons.prems(3) cfs_decay_known [of ?p d] by simp
  have run: "cfs_scan (i # is) (d, m, r) (ktouch s) =
      cfs_scan is (if cfs_eligible ?p \<and> cfs_key ?p < sint m then (?d, vruntime ?d ?p, Some i) else (?d, m, r)) (ktouch s)"
    using sec by (simp add: cfs_scan.simps(2) Let_def cfs_eligible_def cfs_key_def sless_sint d)
  show ?case
  proof (cases "cfs_eligible ?p \<and> cfs_key ?p < sint m")
    case True
    then show ?thesis
      using run Cons.IH [of ?d "vruntime ?d ?p" "Some i"] Cons.prems by (simp add: cfs_key_def d)
  next
    case False
    then have run': "cfs_scan (i # is) (d, m, r) (ktouch s) = cfs_scan is (?d, m, r) (ktouch s)"
      using run by (simp only: if_False)
    then show ?thesis
      using False Cons.IH [of ?d m r] Cons.prems by auto
  qed
qed

section \<open>Rounds\<close>

text \<open>
  \<open>handed i s\<close> is the state in which process \<open>i\<close> gets the hart: its lock held, its state RUNNING,
  and the hart's \<^verbatim>\<open>c->proc\<close> set; \<open>turn\<close> is one such switch and the way back.
\<close>

definition handed :: "nat \<Rightarrow> 'a kernel_scheme \<Rightarrow> 'a kernel_scheme" where
  "handed i s = set_cproc (Some i) (set_proc i (\<lambda>p. p\<lparr>pstate := RUNNING\<rparr>)
     (set_mach (taken (ProcLock i) (kmach s)) s))"

definition turn ::
    "(nat \<Rightarrow> 'a kernel_scheme \<Rightarrow> 'a kernel_scheme outcome) \<Rightarrow> nat \<Rightarrow> 'a kernel_scheme \<Rightarrow> 'a kernel_scheme outcome"
  where
  "turn run i s = andThen (run i (handed i s)) (\<lambda>s1. krelease (ProcLock i) (set_cproc None s1))"

lemma rr_one_eq:
  assumes "kready s" and "i < NPROC"
  shows "rr_one run i s = (if pstate (procs s ! i) = RUNNABLE then turn run i s else Ok (ktouch s))"
  using plock_section [OF assms]
  by (simp add: rr_one_def dispatch_def turn_def handed_def andThen_assoc)

text \<open>The effect of policy 1 on a table in which exactly one process is live.\<close>

definition ps_reset :: "nat \<Rightarrow> 'a kernel_scheme \<Rightarrow> 'a kernel_scheme" where
  "ps_reset i s =
     (if length (filter live (procs s)) = 1
      then (set_proc i (\<lambda>p. p\<lparr>accumulator := 0\<rparr>) s)\<lparr>min_accumulator := 0\<rparr> else s)"

lemma kready_ps_reset [simp]: "kready (ps_reset i s) = kready s"
  by (simp add: ps_reset_def)

lemma ps_dispatch_eq:
  assumes "kready s" and "i < NPROC" and n: "n = of_nat (length (filter live (procs s)))"
  shows "ps_dispatch run i n s =
    (if pstate (procs s ! i) = RUNNABLE then turn run i (ps_reset i s) else Ok (ktouch (ps_reset i s)))"
proof -
  let ?t = "set_mach (taken (ProcLock i) (kmach s)) s"
  have "length (filter live (procs s)) \<le> NPROC"
    using assms(1) by (auto simp: kready_def intro: order_trans [OF length_filter_le])
  then have n1: "n = 1 \<longleftrightarrow> length (filter live (procs s)) = 1"
    unfolding n NPROC_def by (auto simp: word_unat_eq_iff unat_of_nat take_bit_nat_eq_self)
  have eq: "(if n = 1 then (set_proc i (\<lambda>p. p\<lparr>accumulator := 0\<rparr>) ?t)\<lparr>min_accumulator := 0\<rparr> else ?t) =
      set_mach (taken (ProcLock i) (kmach (ps_reset i s))) (ps_reset i s)"
    by (simp add: n1 ps_reset_def set_proc_set_mach set_mach_commute)
  have st: "pstate (procs (ps_reset i s) ! i) = pstate (procs s ! i)"
    using assms(1,2) by (auto simp: ps_reset_def kready_def)
  have "ps_dispatch run i n s =
      andThen (dispatch run i (set_mach (taken (ProcLock i) (kmach (ps_reset i s))) (ps_reset i s)))
        (krelease (ProcLock i))"
    using plock_section(1) [OF assms(1,2)] by (simp add: ps_dispatch_def Let_def eq)
  also have "\<dots> = rr_one run i (ps_reset i s)"
    using plock_section(1) [of "ps_reset i s" i] assms(1,2) by (simp add: rr_one_def)
  finally show ?thesis using rr_one_eq [of "ps_reset i s" i run] assms(1,2) st by simp
qed

text \<open>
  \<open>kidle\<close>: the hart is in its scheduler, holding nothing; the loop turns interrupts on and takes and
  releases its counter lock, which leaves \<open>awake s\<close>.
\<close>

definition kidle :: "lockid \<Rightarrow> 'a kernel_scheme \<Rightarrow> bool" where
  "kidle ctr s \<longleftrightarrow> kready s \<and> noff (mycpu (kmach s)) = 0 \<and> lock_free ctr (kmach s) \<and>
     (\<forall>i. ctr \<noteq> ProcLock i)"

definition awake :: "'a kernel_scheme \<Rightarrow> 'a kernel_scheme" where
  "awake s = ktouch (set_mach (intr_on (kmach s)) s)"

lemma awake_simps [simp]:
  "procs (awake s) = procs s" "sched_policy (awake s) = sched_policy s"
  "min_accumulator (awake s) = min_accumulator s" "ktouch (awake s) = awake s"
  by (simp_all add: awake_def)


lemma irq_ok_intr_on: "noff (mycpu m) = 0 \<Longrightarrow> irq_ok (intr_on m)"
  by (simp add: irq_ok_def)

lemma lock_free_intr_on [simp]: "lock_free lk (intr_on m) = lock_free lk m"
  by (simp add: lock_free_def)

lemma kready_awake: "kidle ctr s \<Longrightarrow> kready (awake s)"
  and lock_free_awake: "kidle ctr s \<Longrightarrow> lock_free ctr (kmach (awake s))"
  by (auto simp: kidle_def kready_def awake_def irq_ok_intr_on)

lemma scheduler_round_start:
  assumes "kidle ctr s"
  shows "scheduler_round run ctr d s =
    (if sched_policy s = 0 then andThen (for_procs (rr_one run) [0..<NPROC] (awake s)) (\<lambda>s1. Ok (d, s1))
     else if sched_policy s = 1 then andThen (ps_round run ctr (awake s)) (\<lambda>s1. Ok (d, s1))
     else if sched_policy s = 2 then cfs_round run d (awake s)
     else Ok (d, awake s))"
proof -
  let ?s = "set_mach (intr_on (kmach s)) s"
  have "lock_free ctr (kmach ?s)" "irq_ok (kmach ?s)"
    using assms by (simp_all add: kidle_def irq_ok_intr_on)
  then show ?thesis
    using kacquire_free [of ctr ?s] krelease_taken [of ctr ?s] by (simp add: scheduler_round_def awake_def)
qed

section \<open>Properties\<close>

definition blank_proc :: proc where
  "blank_proc = \<lparr>pstate = UNUSED, pchan = None, pkilled = 0, xstate = 0, pid = 0, parent = None,
     exit_msg = replicate 32 0, accumulator = 0, ps_priority = 5, cfs_priority = 0, rtime = 0, stime = 0,
     retime = 0, kstack = 0, psz = 0, pagetable = 0, trapframe = 0, pcontext = zero_context,
     ofile = replicate NOFILE None, cwd = None, pname = replicate 16 0\<rparr>"

definition boot_kernel :: "int32 \<Rightarrow> proc list \<Rightarrow> kernel" where
  "boot_kernel policy ps = \<lparr>pm = boot_pmem 0x80022000, procs = ps @ replicate (NPROC - length ps) blank_proc,
     nextpid = 1, initproc = None, sched_policy = policy, min_accumulator = 0x7FFFFFFF, ticks = 0,
     trampoline = 0x80007000, forkret_addr = 0x80001a00\<rparr>"

lemma pstate_blank [simp]: "pstate blank_proc = UNUSED"
  by (simp add: blank_proc_def)

lemma boot_kernel_ready: "length ps \<le> NPROC \<Longrightarrow> kready (boot_kernel policy ps)"
  by (simp add: kready_def boot_kernel_def boot_pmem_def)

lemma boot_kernel_idle: "length ps \<le> NPROC \<Longrightarrow> kidle (CounterLock 0) (boot_kernel policy ps)"
  unfolding kidle_def using boot_kernel_ready
  by (simp add: boot_kernel_def boot_pmem_def boot_machine_def mycpu_def cpuid_def r_tp_def lock_free_def)

text \<open>\<open>i\<close> is the first live slot with the least accumulator.\<close>

definition ps_least :: "'a kernel_scheme \<Rightarrow> nat \<Rightarrow> bool" where
  "ps_least s i \<longleftrightarrow> i < NPROC \<and> live (procs s ! i) \<and> sint (accumulator (procs s ! i)) < 2 ^ 63 - 1 \<and>
     (\<forall>j < NPROC. live (procs s ! j) \<longrightarrow> sint (accumulator (procs s ! i)) \<le> sint (accumulator (procs s ! j))) \<and>
     (\<forall>j < i. live (procs s ! j) \<longrightarrow> sint (accumulator (procs s ! i)) < sint (accumulator (procs s ! j)))"

lemma sint_LLONG_MAX: "sint LLONG_MAX = 2 ^ 63 - 1"
  by (simp add: LLONG_MAX_def)

lemma ps_least_choice: "kready s \<Longrightarrow> ps_least s i \<longleftrightarrow> snd (ps_choice (procs s)) = Some i"
  by (simp add: ps.choose_iff ps_least_def ps_key_def sint_LLONG_MAX kready_def)

lemma priority_round_eq:
  assumes idle: "kidle ctr s" and policy: "sched_policy s = 1"
  shows "(\<forall>i. ps_least s i \<longrightarrow> scheduler_round run ctr d s =
      (let t = ps_reset i ((awake s)\<lparr>min_accumulator := accumulator (procs s ! i)\<rparr>) in
       if pstate (procs s ! i) = RUNNABLE then andThen (turn run i t) (\<lambda>u. Ok (d, u))
       else Ok (d, ktouch t))) \<and>
    ((\<forall>j < NPROC. \<not> live (procs s ! j)) \<longrightarrow> scheduler_round run ctr d s = Ok (d, awake s))"
proof -
  note ready = kready_awake [OF idle]
  have ctr: "\<forall>i. ctr \<noteq> ProcLock i" using idle by (simp add: kidle_def)
  have s: "kready s" using idle by (simp add: kidle_def)
  obtain m' where scan: "ps_scan ctr [0..<NPROC] (LLONG_MAX, None, 0) (awake s) =
      Ok ((m', snd (ps_choice (procs s)), of_nat (length (filter live (procs s)))),
          ktouch ((awake s)\<lparr>min_accumulator := (case snd (ps_choice (procs s)) of None \<Rightarrow> min_accumulator s
             | Some i \<Rightarrow> accumulator (procs s ! i))\<rparr>))"
    using ps_scan_whole [OF ready lock_free_awake [OF idle] ctr, unfolded awake_simps] by blast
  have round: "scheduler_round run ctr d s = andThen (ps_round run ctr (awake s)) (\<lambda>s1. Ok (d, s1))"
    using scheduler_round_start [OF idle] policy by simp
  have fin: "ktouch ((awake s)\<lparr>min_accumulator := a\<rparr>) = (awake s)\<lparr>min_accumulator := a\<rparr>" for a
    by (simp add: awake_def ktouch_def set_mach_commute)
  have "scheduler_round run ctr d s =
      (let t = ps_reset i ((awake s)\<lparr>min_accumulator := accumulator (procs s ! i)\<rparr>) in
       if pstate (procs s ! i) = RUNNABLE then andThen (turn run i t) (\<lambda>u. Ok (d, u))
       else Ok (d, ktouch t))" if "ps_least s i" for i
  proof -
    have i: "snd (ps_choice (procs s)) = Some i" "i < NPROC"
      using that ps_least_choice [OF s] by (auto simp: ps_least_def)
    show ?thesis
      using ready i ps_dispatch_eq [of "(awake s)\<lparr>min_accumulator := accumulator (procs s ! i)\<rparr>" i]
      by (simp add: round ps_round_def scan fin Let_def)
  qed
  moreover have "scheduler_round run ctr d s = Ok (d, awake s)" if "\<forall>j < NPROC. \<not> live (procs s ! j)"
  proof -
    have same: "(awake s)\<lparr>min_accumulator := min_accumulator (awake s)\<rparr> = awake s"
      by (simp del: awake_simps)
    have "snd (ps_choice (procs s)) = None"
      using that s ps.choose_Some [of "procs s"] by (cases "snd (ps_choice (procs s))") (auto simp: kready_def)
    then show ?thesis by (simp add: round ps_round_def scan same [unfolded awake_simps])
  qed
  ultimately show ?thesis by blast
qed

text \<open>
  C14. The priority policy. A round of the scheduler chooses the first of the live processes
  (runnable or running) whose accumulator is least, records it in \<^verbatim>\<open>min_accumulator\<close>, resets
  both to 0 when it is the only live process, and switches to it if it is runnable; if no
  process is live it does nothing.
\<close>

theorem priority_round_runs_least:
  assumes "kidle ctr s" and "sched_policy s = 1"
  shows "(\<forall>i. ps_least s i \<longrightarrow> scheduler_round run ctr d s =
      (let t = ps_reset i ((awake s)\<lparr>min_accumulator := accumulator (procs s ! i)\<rparr>) in
       if pstate (procs s ! i) = RUNNABLE then andThen (turn run i t) (\<lambda>u. Ok (d, u))
       else Ok (d, ktouch t))) \<and>
    ((\<forall>j < NPROC. \<not> live (procs s ! j)) \<longrightarrow> scheduler_round run ctr d s = Ok (d, awake s))"
  using assms by (rule priority_round_eq)

text \<open>A process that gives the hart back at once, still runnable.\<close>

definition yielding :: "nat \<Rightarrow> 'a kernel_scheme \<Rightarrow> 'a kernel_scheme outcome" where
  "yielding i s = Ok (set_proc i (\<lambda>p. p\<lparr>pstate := RUNNABLE\<rparr>) s)"

definition two_runnable :: kernel where
  "two_runnable = boot_kernel 1 [blank_proc\<lparr>pstate := RUNNABLE, accumulator := 7\<rparr>,
     blank_proc\<lparr>pstate := RUNNABLE, accumulator := 3\<rparr>]"

lemma two_runnable_nth:
  "procs two_runnable ! j = (if j = 0 then blank_proc\<lparr>pstate := RUNNABLE, accumulator := 7\<rparr>
     else if j = 1 then blank_proc\<lparr>pstate := RUNNABLE, accumulator := 3\<rparr> else blank_proc)" if "j < NPROC"
  using that by (auto simp: two_runnable_def boot_kernel_def nth_append nth_Cons' NPROC_def)

lemma two_runnable_least: "ps_least two_runnable 1"
  unfolding ps_least_def
proof (intro conjI allI impI)
  show "live (procs two_runnable ! 1)" "sint (accumulator (procs two_runnable ! 1)) < 2 ^ 63 - 1"
    by (simp_all add: two_runnable_nth NPROC_def live_def)
  fix j
  show "sint (accumulator (procs two_runnable ! 1)) \<le> sint (accumulator (procs two_runnable ! j))"
    if "j < NPROC" "live (procs two_runnable ! j)"
    using that by (auto simp: two_runnable_nth NPROC_def live_def blank_proc_def split: if_splits)
  show "sint (accumulator (procs two_runnable ! 1)) < sint (accumulator (procs two_runnable ! j))"
    if "j < 1" using that by (simp add: two_runnable_nth NPROC_def)
qed (simp add: NPROC_def)

theorem priority_round_runs_least_witness:
  "scheduler_round yielding (CounterLock 0) 100 two_runnable =
     andThen (turn yielding 1 (ps_reset 1 ((awake two_runnable)\<lparr>min_accumulator := 3\<rparr>))) (\<lambda>u. Ok (100, u))"
proof -
  have "kidle (CounterLock 0) two_runnable" "sched_policy two_runnable = 1"
    unfolding two_runnable_def by (rule boot_kernel_idle) (simp_all add: NPROC_def boot_kernel_def)
  from priority_round_runs_least [OF this, of yielding 100] two_runnable_least show ?thesis
    by (simp add: two_runnable_nth NPROC_def Let_def)
qed

text \<open>\<open>i\<close> is the first runnable slot with the least virtual run time.\<close>

definition cfs_least :: "'a kernel_scheme \<Rightarrow> nat \<Rightarrow> bool" where
  "cfs_least s i \<longleftrightarrow> i < NPROC \<and> pstate (procs s ! i) = RUNNABLE \<and> cfs_key (procs s ! i) < 2 ^ 31 - 1 \<and>
     (\<forall>j < NPROC. pstate (procs s ! j) = RUNNABLE \<longrightarrow> cfs_key (procs s ! i) \<le> cfs_key (procs s ! j)) \<and>
     (\<forall>j < i. pstate (procs s ! j) = RUNNABLE \<longrightarrow> cfs_key (procs s ! i) < cfs_key (procs s ! j))"

lemma sint_INT_MAX: "sint INT_MAX = 2 ^ 31 - 1"
  by (simp add: INT_MAX_def)

lemma cfs_least_choice: "kready s \<Longrightarrow> cfs_least s i \<longleftrightarrow> snd (cfs_choice (procs s)) = Some i"
  by (simp add: cfs.choose_iff cfs_least_def cfs_eligible_def sint_INT_MAX kready_def)

lemma cfs_round_eq:
  assumes idle: "kidle ctr s" and policy: "sched_policy s = 2"
    and prio: "\<forall>j < NPROC. cfs_priority (procs s ! j) \<in> {0, 1, 2}"
  shows "\<exists>d'. scheduler_round run ctr d s =
    (case snd (cfs_choice (procs s)) of None \<Rightarrow> Ok (d', awake s)
     | Some i \<Rightarrow> andThen (turn run i (awake s)) (\<lambda>u. Ok (d', u)))"
proof -
  note ready = kready_awake [OF idle]
  have len: "length (procs s) = NPROC" using idle by (simp add: kidle_def kready_def)
  have pr: "\<forall>i \<in> set [0..<NPROC]. cfs_prio_ok (procs (awake s) ! i)" using prio by (simp add: cfs_prio_ok_def)
  obtain d' m' r' where scan: "cfs_scan [0..<NPROC] (d, INT_MAX, None) (awake s) = Ok ((d', m', r'), awake s)"
    "pick (\<lambda>i. cfs_eligible (procs s ! i)) (\<lambda>i. cfs_key (procs s ! i)) [0..<NPROC] (sint INT_MAX, None) = (sint m', r')"
    using cfs_scan_eq [OF ready _ pr, of d INT_MAX None] by (auto simp: atLeast0LessThan)
  have r': "r' = snd (cfs_choice (procs s))" using scan(2) by (simp add: cfs_choice_def len)
  have "scheduler_round run ctr d s = cfs_round run d (awake s)"
    using scheduler_round_start [OF idle] policy by simp
  also have "\<dots> = (case r' of None \<Rightarrow> Ok (d', awake s)
     | Some i \<Rightarrow> andThen (turn run i (awake s)) (\<lambda>u. Ok (d', u)))"
  proof (cases r')
    case None
    then show ?thesis by (simp add: cfs_round_def scan(1))
  next
    case (Some i)
    then have "i < NPROC" "pstate (procs s ! i) = RUNNABLE"
      using cfs.choose_Some [of "procs s" i] r' len by (auto simp: cfs_eligible_def)
    then show ?thesis using Some ready rr_one_eq [of "awake s" i run] by (simp add: cfs_round_def scan(1))
  qed
  finally show ?thesis unfolding r' by blast
qed

text \<open>
  C15. The CFS policy. With the priorities the kernel sets, a round switches to the first of the
  runnable processes whose virtual run time is least, and does nothing if none is runnable.
\<close>

theorem cfs_round_runs_least:
  assumes "kidle ctr s" and "sched_policy s = 2" and "\<forall>j < NPROC. cfs_priority (procs s ! j) \<in> {0, 1, 2}"
  shows "\<exists>d'. (\<forall>i. cfs_least s i \<longrightarrow>
        scheduler_round run ctr d s = andThen (turn run i (awake s)) (\<lambda>u. Ok (d', u))) \<and>
     ((\<forall>j < NPROC. pstate (procs s ! j) \<noteq> RUNNABLE) \<longrightarrow> scheduler_round run ctr d s = Ok (d', awake s))"
proof -
  have s: "kready s" using assms(1) by (simp add: kidle_def)
  have none: "snd (cfs_choice (procs s)) = None" if "\<forall>j < NPROC. pstate (procs s ! j) \<noteq> RUNNABLE"
    using that s cfs.choose_Some [of "procs s"]
    by (cases "snd (cfs_choice (procs s))") (auto simp: kready_def cfs_eligible_def)
  obtain d' where "scheduler_round run ctr d s =
      (case snd (cfs_choice (procs s)) of None \<Rightarrow> Ok (d', awake s)
       | Some i \<Rightarrow> andThen (turn run i (awake s)) (\<lambda>u. Ok (d', u)))"
    using cfs_round_eq [OF assms] by blast
  then show ?thesis using none cfs_least_choice [OF s] by (intro exI [of _ d']) auto
qed

definition cfs_pair :: kernel where
  "cfs_pair = boot_kernel 2 [blank_proc\<lparr>pstate := RUNNABLE, cfs_priority := 0, rtime := 4\<rparr>,
     blank_proc\<lparr>pstate := RUNNABLE, cfs_priority := 2, rtime := 4, retime := 1\<rparr>]"

lemma cfs_pair_nth:
  "procs cfs_pair ! j = (if j = 0 then blank_proc\<lparr>pstate := RUNNABLE, cfs_priority := 0, rtime := 4\<rparr>
     else if j = 1 then blank_proc\<lparr>pstate := RUNNABLE, cfs_priority := 2, rtime := 4, retime := 1\<rparr>
     else blank_proc)" if "j < NPROC"
  using that by (auto simp: cfs_pair_def boot_kernel_def nth_append nth_Cons' NPROC_def)

lemma cfs_pair_keys:
  "cfs_key (procs cfs_pair ! 0) = 75" "cfs_key (procs cfs_pair ! 1) = 0"
  by (simp_all add: cfs_pair_nth NPROC_def cfs_key_def vruntime_def divw_def cfs_decay_def blank_proc_def)

theorem cfs_round_runs_least_witness:
  "\<exists>d'. scheduler_round yielding (CounterLock 0) 100 cfs_pair =
     andThen (turn yielding 1 (awake cfs_pair)) (\<lambda>u. Ok (d', u))"
proof -
  have "kidle (CounterLock 0) cfs_pair" "sched_policy cfs_pair = 2"
    unfolding cfs_pair_def by (rule boot_kernel_idle) (simp_all add: NPROC_def boot_kernel_def)
  moreover have "\<forall>j < NPROC. cfs_priority (procs cfs_pair ! j) \<in> {0, 1, 2}"
    by (auto simp: cfs_pair_nth blank_proc_def)
  moreover have "j = 0 \<or> j = 1" if "j < NPROC" "pstate (procs cfs_pair ! j) = RUNNABLE" for j
    using that by (auto simp: cfs_pair_nth blank_proc_def split: if_splits)
  then have "cfs_least cfs_pair 1"
    using cfs_pair_keys by (auto simp: cfs_least_def NPROC_def cfs_pair_nth)
  ultimately show ?thesis using cfs_round_runs_least [of "CounterLock 0" cfs_pair yielding 100] by blast
qed

lemma sint_add_in_range:
  fixes a b :: int32
  assumes "- (2 ^ 31) \<le> sint a + sint b" and "sint a + sint b < 2 ^ 31"
  shows "sint (a + b) = sint a + sint b"
  using assms by (simp add: sint_word_ariths signed_take_bit_int_eq_self)

text \<open>The key of a process that has slept or waited: the quotient rounds to 0.\<close>

lemma cfs_key_zero:
  assumes "0 \<le> sint (rtime p)" and "0 \<le> sint (stime p)" and "0 \<le> sint (retime p)"
    and "0 < sint (stime p) + sint (retime p)"
    and "sint (rtime p) + sint (stime p) + sint (retime p) < 2 ^ 31"
  shows "vruntime d p = 0"
proof -
  let ?t = "sint (rtime p) + sint (stime p) + sint (retime p)"
  have "sint (rtime p + stime p) = sint (rtime p) + sint (stime p)"
    using assms by (intro sint_add_in_range) auto
  then have t: "sint (rtime p + stime p + retime p) = ?t"
    using assms sint_add_in_range [of "rtime p + stime p" "retime p"] by simp
  then have "rtime p + stime p + retime p \<noteq> 0" using assms by auto
  moreover have "sint (rtime p) sdiv ?t = 0"
    using assms by (simp add: signed_divide_int_def)
  ultimately show ?thesis by (simp add: vruntime_def divw_def t)
qed

text \<open>
  C35. The CFS policy does not see priorities or run times. Once every runnable process has
  waited or slept for a tick (with counters that have not overflowed), all virtual run times
  are 0, and a round always switches to the runnable process in the lowest slot, whatever the
  priorities and the times already consumed.
\<close>

theorem cfs_prefers_lowest_slot:
  assumes "kidle ctr s" and "sched_policy s = 2" and "\<forall>j < NPROC. cfs_priority (procs s ! j) \<in> {0, 1, 2}"
    and "\<forall>j < NPROC. pstate (procs s ! j) = RUNNABLE \<longrightarrow> (let p = procs s ! j in
       0 \<le> sint (rtime p) \<and> 0 \<le> sint (stime p) \<and> 0 \<le> sint (retime p) \<and> 0 < sint (stime p) + sint (retime p) \<and>
       sint (rtime p) + sint (stime p) + sint (retime p) < 2 ^ 31)"
    and "i < NPROC" and "pstate (procs s ! i) = RUNNABLE" and "\<forall>j < i. pstate (procs s ! j) \<noteq> RUNNABLE"
  shows "\<exists>d'. scheduler_round run ctr d s = andThen (turn run i (awake s)) (\<lambda>u. Ok (d', u))"
proof -
  have "cfs_key (procs s ! j) = 0" if "j < NPROC" "pstate (procs s ! j) = RUNNABLE" for j
    using that assms(4) by (simp add: cfs_key_def cfs_key_zero Let_def)
  then have "cfs_least s i" using assms(5-7) by (auto simp: cfs_least_def)
  then have "snd (cfs_choice (procs s)) = Some i"
    using assms(1) cfs_least_choice by (auto simp: kidle_def)
  then show ?thesis using cfs_round_eq [OF assms(1-3), of run d] by simp
qed

definition cfs_hog :: kernel where
  "cfs_hog = boot_kernel 2 [blank_proc\<lparr>pstate := RUNNABLE, cfs_priority := 2, rtime := 1000, retime := 1\<rparr>,
     blank_proc\<lparr>pstate := RUNNABLE, cfs_priority := 0, rtime := 1, retime := 1000\<rparr>]"

lemma cfs_hog_nth:
  "procs cfs_hog ! j = (if j = 0 then blank_proc\<lparr>pstate := RUNNABLE, cfs_priority := 2, rtime := 1000, retime := 1\<rparr>
     else if j = 1 then blank_proc\<lparr>pstate := RUNNABLE, cfs_priority := 0, rtime := 1, retime := 1000\<rparr>
     else blank_proc)" if "j < NPROC"
  using that by (auto simp: cfs_hog_def boot_kernel_def nth_append nth_Cons' NPROC_def)

theorem cfs_prefers_lowest_slot_witness:
  "\<exists>d'. scheduler_round yielding (CounterLock 0) 100 cfs_hog =
     andThen (turn yielding 0 (awake cfs_hog)) (\<lambda>u. Ok (d', u))"
proof (rule cfs_prefers_lowest_slot)
  show "kidle (CounterLock 0) cfs_hog" "sched_policy cfs_hog = 2"
    unfolding cfs_hog_def by (rule boot_kernel_idle) (simp_all add: NPROC_def boot_kernel_def)
qed (auto simp: cfs_hog_nth NPROC_def blank_proc_def Let_def)

definition busy_elsewhere :: kernel where
  "busy_elsewhere = boot_kernel 1 [blank_proc\<lparr>pstate := RUNNING, accumulator := 3\<rparr>,
     blank_proc\<lparr>pstate := RUNNABLE, accumulator := 7\<rparr>]"

lemma busy_elsewhere_nth:
  "procs busy_elsewhere ! j = (if j = 0 then blank_proc\<lparr>pstate := RUNNING, accumulator := 3\<rparr>
     else if j = 1 then blank_proc\<lparr>pstate := RUNNABLE, accumulator := 7\<rparr> else blank_proc)" if "j < NPROC"
  using that by (auto simp: busy_elsewhere_def boot_kernel_def nth_append nth_Cons' NPROC_def)

lemma busy_elsewhere_least: "ps_least busy_elsewhere 0"
  unfolding ps_least_def
proof (intro conjI allI impI)
  show "live (procs busy_elsewhere ! 0)" "sint (accumulator (procs busy_elsewhere ! 0)) < 2 ^ 63 - 1"
    by (simp_all add: busy_elsewhere_nth NPROC_def live_def)
  fix j
  show "sint (accumulator (procs busy_elsewhere ! 0)) \<le> sint (accumulator (procs busy_elsewhere ! j))"
    if "j < NPROC" "live (procs busy_elsewhere ! j)"
    using that by (auto simp: busy_elsewhere_nth NPROC_def live_def split: if_splits)
qed (simp_all add: NPROC_def)


section \<open>Policy 0\<close>

text \<open>
  What is asked of the code that runs between the two switches: it comes back with the
  process lock and the interrupt discipline as it found them, and does not touch the state of
  the other slots.
\<close>

definition returns_turn :: "(nat \<Rightarrow> 'a kernel_scheme \<Rightarrow> 'a kernel_scheme outcome) \<Rightarrow> bool" where
  "returns_turn run \<longleftrightarrow> (\<forall>i s. i < NPROC \<longrightarrow> kready s \<longrightarrow> ktouch s = s \<longrightarrow>
     (\<exists>s'. turn run i s = Ok s' \<and> kready s' \<and> ktouch s' = s' \<and>
        (\<forall>j < NPROC. j \<noteq> i \<longrightarrow> pstate (procs s' ! j) = pstate (procs s ! j))))"

lemma for_procs_rr:
  assumes "returns_turn run" and "kready s" and "ktouch s = s" and "set is \<subseteq> {..<NPROC}" and "distinct is"
  shows "for_procs (rr_one run) is s =
    for_procs (turn run) (filter (\<lambda>i. pstate (procs s ! i) = RUNNABLE) is) s"
  using assms(2-5)
proof (induction "is" arbitrary: s)
  case Nil
  show ?case by simp
next
  case (Cons i "is")
  have i: "i < NPROC" using Cons.prems by simp
  show ?case
  proof (cases "pstate (procs s ! i) = RUNNABLE")
    case False
    then show ?thesis using Cons i by (simp add: rr_one_eq)
  next
    case True
    obtain s' where s': "turn run i s = Ok s'" "kready s'" "ktouch s' = s'"
      "\<forall>j < NPROC. j \<noteq> i \<longrightarrow> pstate (procs s' ! j) = pstate (procs s ! j)"
      using assms(1) i Cons.prems(1,2) unfolding returns_turn_def by blast
    have "filter (\<lambda>j. pstate (procs s' ! j) = RUNNABLE) is = filter (\<lambda>j. pstate (procs s ! j) = RUNNABLE) is"
      using s'(4) Cons.prems by (intro filter_cong) auto
    then show ?thesis using True Cons i s' by (simp add: rr_one_eq)
  qed
qed


lemma taken_cproc:
  "set_mycpu ((mycpu (taken lk m))\<lparr>cproc := p\<rparr>) (taken lk m) = taken lk (set_mycpu ((mycpu m)\<lparr>cproc := p\<rparr>) m)"
proof -
  have off: "intr_off (set_mycpu c m) = set_mycpu c (intr_off m)" for c
    by (simp add: intr_off_def machine_defs)
  have comm: "c\<lparr>intena := b, cproc := p\<rparr> = c\<lparr>cproc := p, intena := b\<rparr>"
    "c\<lparr>noff := n, cproc := p\<rparr> = c\<lparr>cproc := p, noff := n\<rparr>" for c :: cpu and b n
    by (cases c; simp)+
  show ?thesis by (simp add: taken_def push_off_eq set_mycpu_set_lock off comm)
qed

lemma set_cproc_taken:
  "set_cproc p (set_mach (taken lk (kmach s)) s) =
     set_mach (taken lk (kmach (set_cproc p s))) (set_cproc p s)"
  by (simp add: set_cproc_def taken_cproc)

lemma set_cproc_set_proc: "set_cproc p (set_proc i f s) = set_proc i f (set_cproc p s)"
  by (simp add: set_cproc_def set_proc_set_mach)

lemma irq_ok_cproc: "irq_ok (set_mycpu ((mycpu m)\<lparr>cproc := p\<rparr>) m) = irq_ok m"
  by (simp add: irq_ok_def)

lemma lock_free_set_mycpu [simp]: "lock_free lk (set_mycpu c m) = lock_free lk m"
  by (simp add: lock_free_def)

lemma kready_set_cproc [simp]: "kready (set_cproc p s) = kready s"
  by (simp add: kready_def set_cproc_def irq_ok_cproc)

lemma procs_set_cproc [simp]: "procs (set_cproc p s) = procs s"
  by (simp add: set_cproc_def)

lemma set_cproc_set_cproc [simp]: "set_cproc p (set_cproc q s) = set_cproc p s"
  by (simp add: set_cproc_def)

lemma turn_yielding:
  assumes "kready s" and "i < NPROC"
  shows "turn yielding i s = Ok (ktouch (set_cproc None (set_proc i (\<lambda>p. p\<lparr>pstate := RUNNABLE\<rparr>) s)))"
proof -
  let ?f = "\<lambda>p. p\<lparr>pstate := RUNNABLE\<rparr>" and ?g = "\<lambda>p. p\<lparr>pstate := RUNNING\<rparr>"
  have "set_cproc None (set_proc i ?f (handed i s)) =
      set_proc i ?f (set_proc i ?g (set_mach (taken (ProcLock i) (kmach (set_cproc None s))) (set_cproc None s)))"
    by (simp add: handed_def set_cproc_set_proc set_cproc_taken)
  also have "\<dots> = set_proc i ?f (set_mach (taken (ProcLock i) (kmach (set_cproc None s))) (set_cproc None s))"
    using assms by (simp add: set_proc_def kready_def)
  finally show ?thesis
    using plock_section(2) [of "set_cproc None s" i ?f] assms
    by (simp add: turn_def yielding_def set_cproc_set_proc)
qed

lemma returns_turn_yielding: "returns_turn yielding"
  by (auto simp: returns_turn_def turn_yielding)


end
