(* ===== verification/Sleepwake.thy ===== *)
theory Sleepwake
  imports Scheduler
begin

text \<open>
  Sleeping, waking, yielding and killing (kernel/proc.c). The lemmas describe the state in which
  \<^verbatim>\<open>sched\<close> switches away: only the process's own lock is held, so none of the checks of \<^verbatim>\<open>sched\<close>
  fires, and the lock passed to \<^verbatim>\<open>sleep\<close> is free again.
\<close>

section \<open>Reaching the switch\<close>

text \<open>A process \<open>p\<close> running on the current hart, and the hart holding no lock.\<close>

definition running :: "nat \<Rightarrow> 'a kernel_scheme \<Rightarrow> bool" where
  "running p s \<longleftrightarrow> kready s \<and> p < NPROC \<and> cproc (mycpu (kmach s)) = Some p \<and>
     noff (mycpu (kmach s)) = 0"

lemma curproc_eq:
  "irq_ok (kmach s) \<Longrightarrow> cproc (mycpu (kmach s)) = Some p \<Longrightarrow> curproc s = Ok (p, ktouch s)"
  by (simp add: curproc_def myproc_eq)

lemma mycpu_taken:
  "mycpu (taken lk m) = (mycpu m)\<lparr>intena := (if noff (mycpu m) = 0 then intr_get m else intena (mycpu m)),
     noff := noff (mycpu m) + 1\<rparr>"
  by (simp add: taken_def mycpu_push_off)

lemma intr_get_taken [simp]: "\<not> intr_get (taken lk m)"
  by (simp add: taken_def)

lemma sched_enter_eq:
  assumes "irq_ok (kmach s)" and "cproc (mycpu (kmach s)) = Some p"
  shows "sched_enter s =
    (if \<not> holding (ProcLock p) (kmach s) then Panic ''sched p->lock''
     else if noff (mycpu (kmach s)) \<noteq> 1 then Panic ''sched locks''
     else if pstate (procs s ! p) = RUNNING then Panic ''sched running''
     else if intr_get (kmach s) then Panic ''sched interruptible''
     else Ok (intena (mycpu (kmach s)), s))"
proof -
  have h: "holding lk (touch m) = holding lk m" for lk m
    by (simp add: holding_def)
  have "noff (mycpu (kmach s)) = 1 \<Longrightarrow> ktouch s = s"
    by (simp add: ktouch_def touch_nested)
  then show ?thesis using curproc_eq [OF assms] by (auto simp: sched_enter_def h)
qed

text \<open>The state at the switch of \<^verbatim>\<open>yield\<close>.\<close>

definition yielded :: "nat \<Rightarrow> 'a kernel_scheme \<Rightarrow> 'a kernel_scheme" where
  "yielded p s = set_proc p (\<lambda>q. q\<lparr>pstate := RUNNABLE\<rparr>) (set_mach (taken (ProcLock p) (kmach (ktouch s))) s)"

lemma yield_eq:
  assumes "running p s"
  shows "yield sw s = andThen (sw (yielded p s)) (\<lambda>u.
     krelease (ProcLock p) (sched_return (intr_get (kmach s)) u))"
proof -
  have r: "kready s" "p < NPROC" "cproc (mycpu (kmach s)) = Some p" "noff (mycpu (kmach s)) = 0"
    "irq_ok (kmach s)" "length (procs s) = NPROC"
    using assms by (auto simp: running_def kready_def)
  have acq: "kacquire (ProcLock p) (ktouch s) = Ok (set_mach (taken (ProcLock p) (touch (kmach s))) s)"
  proof -
    have "kready (ktouch s)" using r(1) by simp
    from plock_section(1) [OF this r(2)] show ?thesis by (simp add: ktouch_def)
  qed
  have eq: "set_proc p (\<lambda>q. q\<lparr>pstate := RUNNABLE\<rparr>) (set_mach (taken (ProcLock p) (touch (kmach s))) s) = yielded p s"
    by (simp add: yielded_def)
  have "sched_enter (yielded p s) = Ok (intr_get (kmach s), yielded p s)"
    using r by (subst sched_enter_eq [where p = p]) (simp_all add: yielded_def mycpu_taken)
  then show ?thesis
    using curproc_eq [OF r(5,3)] acq by (simp add: yield_def sched_def eq andThen_assoc)
qed

text \<open>The state at the switch of \<^verbatim>\<open>sleep\<close>, entered with only \<open>lk\<close> held.\<close>

definition asleep :: "nat \<Rightarrow> chan \<Rightarrow> lockid \<Rightarrow> 'a kernel_scheme \<Rightarrow> 'a kernel_scheme" where
  "asleep p ch lk s = set_proc p (\<lambda>q. q\<lparr>pchan := Some ch, pstate := SLEEPING\<rparr>)
     (set_mach (taken (ProcLock p) (kmach (ktouch s))) s)"

lemma release_under:
  assumes "lock_free lk m" and "lock_free lk' m" and "lk \<noteq> lk'" and "irq_ok m" and "noff (mycpu m) = 0"
  shows "release lk (taken lk' (taken lk m)) = Ok (taken lk' (touch m))"
proof -
  have off: "intr_off (set_mycpu c n) = set_mycpu c (intr_off n)" for c n
    by (simp add: intr_off_def machine_defs)
  let ?m = "taken lk' (taken lk m)"
  have l: "(locks m lk)\<lparr>lkcpu := None, locked := 0\<rparr> = locks m lk" using assms(1) by (simp add: lock_free_def)
  have "holding lk ?m" "\<not> intr_get ?m" "noff (mycpu ?m) = 2"
    using assms by (simp_all add: holding_def taken_def mycpu_push_off)
  then have "release lk ?m = Ok (set_mycpu ((mycpu ?m)\<lparr>noff := 1\<rparr>)
      (set_lock lk ((locks ?m lk)\<lparr>lkcpu := None, locked := 0\<rparr>) ?m))"
    by (subst release_holding) (simp_all add: Let_def)
  moreover have "set_mycpu ((mycpu ?m)\<lparr>noff := 1\<rparr>)
      (set_lock lk ((locks ?m lk)\<lparr>lkcpu := None, locked := 0\<rparr>) ?m) = taken lk' (touch m)"
    using assms(5) off set_lock_id [of lk "set_mycpu c (intr_off m)" for c]
    by (simp add: taken_def push_off_eq touch_def set_mycpu_set_lock
        intr_off_set_lock set_lock_commute [OF assms(3)] l)
  ultimately show ?thesis by simp
qed

text \<open>A process that holds \<open>lk\<close> and nothing else is in \<open>set_mach (taken lk (kmach s)) s\<close>.\<close>

lemma sleep_eq:
  assumes run: "running p s" and free: "lock_free lk (kmach s)" and ne: "lk \<noteq> ProcLock p"
  shows "sleep sw ch lk (set_mach (taken lk (kmach s)) s) =
    andThen (sw (asleep p ch lk s)) (\<lambda>u. sleep_return p lk (sched_return (intr_get (kmach s)) u))"
proof -
  have r: "kready s" "p < NPROC" "cproc (mycpu (kmach s)) = Some p" "noff (mycpu (kmach s)) = 0"
    "irq_ok (kmach s)" "length (procs s) = NPROC" "lock_free (ProcLock p) (kmach s)"
    using run by (auto simp: running_def kready_def)
  let ?t = "set_mach (taken lk (kmach s)) s"
  have irq: "irq_ok (kmach ?t)" "cproc (mycpu (kmach ?t)) = Some p" using r by (simp_all add: mycpu_taken)
  have "ktouch ?t = ?t" using r by (simp add: ktouch_def)
  then have cur: "curproc ?t = Ok (p, ?t)" using curproc_eq [OF irq] by simp
  have acq: "kacquire (ProcLock p) ?t = Ok (set_mach (taken (ProcLock p) (taken lk (kmach s))) s)"
    using r(7) ne by (subst kacquire_free) (simp_all add: lock_free_taken)
  have rel: "krelease lk (set_mach (taken (ProcLock p) (taken lk (kmach s))) s) =
      Ok (set_mach (taken (ProcLock p) (touch (kmach s))) s)"
    using release_under [OF free r(7) ne r(5,4)] by (simp add: krelease_def)
  have enter: "sleep_enter ch lk ?t = Ok (p, asleep p ch lk s)"
    using cur acq rel by (simp add: sleep_enter_def asleep_def)
  have "sched_enter (asleep p ch lk s) = Ok (intr_get (kmach s), asleep p ch lk s)"
    using r by (subst sched_enter_eq [where p = p]) (simp_all add: asleep_def mycpu_taken)
  then show ?thesis using enter by (simp add: sleep_def sched_def andThen_assoc)
qed

section \<open>Properties\<close>

lemma acquire_taken_elsewhere:
  assumes "locked (locks m lk) \<noteq> 0" and "lkcpu (locks m lk) \<noteq> Some (cpuid m)"
  shows "acquire lk m = Spin"
  using assms by (simp add: acquire_def acquire_enter_def holding_def sync_lock_test_and_set_def Let_def)

lemma acquire_other_hart:
  "holding lk m \<Longrightarrow> h \<noteq> cpuid m \<Longrightarrow> acquire lk (m\<lparr>tp := h\<rparr>) = Spin"
  by (rule acquire_taken_elsewhere) (auto simp: holding_def cpuid_def r_tp_def)


definition one_running :: kernel where
  "one_running = set_cproc (Some 0) (boot_kernel 0 [blank_proc\<lparr>pstate := RUNNING, pid := 1\<rparr>])"

lemma one_running_running: "running 0 one_running" and one_running_free: "lock_free WaitLock (kmach one_running)"
proof -
  have "kready one_running" unfolding one_running_def by (simp add: boot_kernel_ready NPROC_def)
  then show "running 0 one_running"
    by (simp add: running_def one_running_def set_cproc_def NPROC_def boot_kernel_def boot_pmem_def
        boot_machine_def mycpu_def cpuid_def r_tp_def set_mycpu_def)
  show "lock_free WaitLock (kmach one_running)"
    by (simp add: one_running_def set_cproc_def boot_kernel_def boot_pmem_def)
qed


text \<open>
  \<^verbatim>\<open>yield\<close> by a running process that holds no lock never panics before the switch: it switches
  with the process RUNNABLE and only its lock held, and after the switch back releases that lock.
\<close>

theorem yield_switches:
  assumes "running p s"
  shows "\<exists>t. (\<forall>sw. yield sw s = andThen (sw t) (\<lambda>u. krelease (ProcLock p) (sched_return (intr_get (kmach s)) u))) \<and>
     pstate (procs t ! p) = RUNNABLE \<and> holding (ProcLock p) (kmach t) \<and> noff (mycpu (kmach t)) = 1 \<and>
     \<not> intr_get (kmach t) \<and> (\<forall>i < NPROC. i \<noteq> p \<longrightarrow> lock_free (ProcLock i) (kmach t) \<and> procs t ! i = procs s ! i)"
proof -
  have r: "p < NPROC" "length (procs s) = NPROC" "noff (mycpu (kmach s)) = 0"
    "\<forall>i < NPROC. lock_free (ProcLock i) (kmach s)"
    using assms by (auto simp: running_def kready_def)
  then have "pstate (procs (yielded p s) ! p) = RUNNABLE" "holding (ProcLock p) (kmach (yielded p s))"
    "noff (mycpu (kmach (yielded p s))) = 1" "\<not> intr_get (kmach (yielded p s))"
    "\<forall>i < NPROC. i \<noteq> p \<longrightarrow> lock_free (ProcLock i) (kmach (yielded p s)) \<and> procs (yielded p s) ! i = procs s ! i"
    by (simp_all add: yielded_def mycpu_taken lock_free_taken)
  then show ?thesis using yield_eq [OF assms] by blast
qed

theorem yield_switches_witness:
  "\<exists>t. (\<forall>sw. yield sw one_running =
     andThen (sw t) (\<lambda>u. krelease (ProcLock 0) (sched_return (intr_get (kmach one_running)) u))) \<and>
     pstate (procs t ! 0) = RUNNABLE"
  using yield_switches [OF one_running_running] by auto

text \<open>
  \<^verbatim>\<open>wakeup\<close> makes exactly the processes that sleep on the channel runnable, the caller apart,
  gives them the least accumulator, and changes no other slot and no other part of the state.
\<close>

theorem wakeup_exact:
  assumes "kready s"
  shows "\<exists>s'. wakeup ch s = Ok s' \<and> kready s' \<and> s' = ktouch (s\<lparr>procs := procs s'\<rparr>) \<and>
     (\<forall>i < NPROC. procs s' ! i =
       (if cproc (mycpu (kmach s)) \<noteq> Some i \<and> pstate (procs s ! i) = SLEEPING \<and> pchan (procs s ! i) = ch
        then (procs s ! i)\<lparr>pstate := RUNNABLE, accumulator := min_accumulator s\<rparr> else procs s ! i))"
  using wakeup_eq [OF assms, of ch] assms by (simp add: woken_def kready_def)

definition sleepers :: kernel where
  "sleepers = boot_kernel 0 [blank_proc\<lparr>pstate := SLEEPING, pchan := Some ChTicks\<rparr>,
     blank_proc\<lparr>pstate := SLEEPING, pchan := Some ChLog\<rparr>]"

theorem wakeup_exact_witness:
  "\<exists>s'. wakeup (Some ChTicks) sleepers = Ok s' \<and> pstate (procs s' ! 0) = RUNNABLE \<and>
     pstate (procs s' ! 1) = SLEEPING"
proof -
  have "kready sleepers" unfolding sleepers_def by (rule boot_kernel_ready) (simp add: NPROC_def)
  moreover have "procs sleepers ! 0 = blank_proc\<lparr>pstate := SLEEPING, pchan := Some ChTicks\<rparr>"
    "procs sleepers ! 1 = blank_proc\<lparr>pstate := SLEEPING, pchan := Some ChLog\<rparr>"
    "cproc (mycpu (kmach sleepers)) = None"
    by (simp_all add: sleepers_def boot_kernel_def boot_pmem_def boot_machine_def mycpu_def)
  ultimately show ?thesis using wakeup_exact [of sleepers "Some ChTicks"] by (auto simp: NPROC_def)
qed

text \<open>
  C37. \<^verbatim>\<open>kill\<close> returns -1 and changes nothing when no slot has the pid; otherwise it marks the
  first slot with that pid killed, makes it runnable if it sleeps, and returns 0.
\<close>

theorem kill_exact:
  assumes "kready s"
  shows "case find (\<lambda>i. pid (procs s ! i) = n) [0..<NPROC] of
      None \<Rightarrow> kill n s = Ok (-1, ktouch s)
    | Some i \<Rightarrow> kill n s = Ok (0, ktouch (set_proc i (\<lambda>p. p\<lparr>pkilled := 1,
        pstate := (if pstate p = SLEEPING then RUNNABLE else pstate p)\<rparr>) s))"
  using kill_scan_eq [OF assms, of "[0..<NPROC]" n]
  by (auto simp: kill_def kill_mark_def [abs_def] atLeast0LessThan NPROC_def split: option.splits)

theorem kill_exact_witness:
  "kill 1 one_running = Ok (0, ktouch (set_proc 0 (\<lambda>p. p\<lparr>pkilled := 1,
     pstate := (if pstate p = SLEEPING then RUNNABLE else pstate p)\<rparr>) one_running))"
proof -
  have "find (\<lambda>i. pid (procs one_running ! i) = 1) [0..<NPROC] = Some 0"
    by (simp add: NPROC_def upt_conv_Cons one_running_def boot_kernel_def)
  then show ?thesis
    using kill_exact [of one_running 1] one_running_running by (simp add: running_def)
qed

end
