(* ===== verification/Fsstate.thy ===== *)
theory Fsstate
  imports Sleepwake
begin

text \<open>
  The data of the file system's layers, as the headers declare it: kernel/sleeplock.h, buf.h,
  fs.h, file.h, virtio.h, and the globals of bio.c, log.c, fs.c, file.c and virtio_disk.c. They are
  one record, \<open>fsstate\<close>, that extends the kernel state by the field \<open>fs\<close>. A pointer to an element of
  a static array is the element's index.

  Block contents and other byte arrays are lists of bytes; \<open>rd16\<close>, \<open>rd32\<close>, \<open>blit\<close>, \<open>wr16\<close> and \<open>wr32\<close>
  read and write their little-endian fields. Reads beyond an array yield 0, writes beyond it are
  cut off; the code stays inside.
\<close>

section \<open>Constants\<close>

definition BSIZE :: nat where "BSIZE = 1024"
definition ROOTINO :: uint32 where "ROOTINO = 1"
definition FSMAGIC :: uint32 where "FSMAGIC = 0x10203040"
definition NDIRECT :: nat where "NDIRECT = 12"
definition NINDIRECT :: nat where "NINDIRECT = BSIZE div 4"
definition MAXFILE :: nat where "MAXFILE = NDIRECT + NINDIRECT"
definition IPB :: nat where "IPB = BSIZE div 64"
definition BPB :: nat where "BPB = BSIZE * 8"
definition DIRSIZ :: nat where "DIRSIZ = 14"
definition T_DIR :: uint16 where "T_DIR = 1"
definition T_FILE :: uint16 where "T_FILE = 2"
definition T_DEVICE :: uint16 where "T_DEVICE = 3"
definition NUM :: nat where "NUM = 8"

section \<open>Byte arrays\<close>

definition rd16 :: "uint8 list \<Rightarrow> nat \<Rightarrow> uint16" where
  "rd16 bs i = ucast (arr bs i) OR push_bit 8 (ucast (arr bs (i + 1)))"

definition rd32 :: "uint8 list \<Rightarrow> nat \<Rightarrow> uint32" where
  "rd32 bs i = ucast (rd16 bs i) OR push_bit 16 (ucast (rd16 bs (i + 2)))"

definition bytes16 :: "uint16 \<Rightarrow> uint8 list" where
  "bytes16 w = [ucast w, ucast (drop_bit 8 w)]"

text \<open>\<open>blit bs i vs\<close>: the array \<open>bs\<close> with \<open>vs\<close> copied to index \<open>i\<close>.\<close>

definition blit :: "uint8 list \<Rightarrow> nat \<Rightarrow> uint8 list \<Rightarrow> uint8 list" where
  "blit bs i vs = take (length bs) (take i bs @ vs) @ drop (i + length vs) bs"

definition slice :: "uint8 list \<Rightarrow> nat \<Rightarrow> nat \<Rightarrow> uint8 list" where
  "slice bs i n = take n (drop i bs)"

definition wr16 :: "uint8 list \<Rightarrow> nat \<Rightarrow> uint16 \<Rightarrow> uint8 list" where
  "wr16 bs i w = blit bs i (bytes16 w)"

definition wr32 :: "uint8 list \<Rightarrow> nat \<Rightarrow> uint32 \<Rightarrow> uint8 list" where
  "wr32 bs i w = blit bs i (bytes32 w)"

section \<open>The structures\<close>

record sleeplock =
  slocked :: uint32
  sname :: string
  spid :: int32

record buf =
  bvalid :: bool
  bdisk :: bool
  bdev :: uint32
  bblockno :: uint32
  brefcnt :: uint32
  bprev :: nat
  bnext :: nat
  bdata :: "uint8 list"

text \<open>An address a descriptor can hold: a null pointer or one of the three objects of a request.\<close>

datatype dma = NullAddr | AtOps nat | AtData nat | AtStatus nat

record virtq_desc =
  desc_addr :: dma
  desc_len :: uint32
  desc_flags :: uint16
  desc_next :: uint16

record virtio_blk_req =
  req_type :: uint32
  req_reserved :: uint32
  req_sector :: uint64

text \<open>
  The driver's state: descriptor table, the two rings with their indices, and its own
  bookkeeping. \<open>info_b\<close> and \<open>info_status\<close> are the members of \<^verbatim>\<open>info[]\<close>.
\<close>

record vdisk =
  desc :: "virtq_desc list"
  avail_idx :: uint16
  avail_ring :: "uint16 list"
  used_dev_idx :: uint16
  used_ring :: "uint32 list"
  dfree :: "bool list"
  used_idx :: uint16
  info_b :: "nat option list"
  info_status :: "uint8 list"
  ops :: "virtio_blk_req list"

record klog =
  log_start :: int32
  log_size :: int32
  outstanding :: int32
  committing :: bool
  log_dev :: int32
  lh_n :: int32
  lh_block :: "int32 list"

record superblock =
  sb_magic :: uint32
  sb_size :: uint32
  sb_nblocks :: uint32
  sb_ninodes :: uint32
  sb_nlog :: uint32
  sb_logstart :: uint32
  sb_inodestart :: uint32
  sb_bmapstart :: uint32

record inode =
  idev :: uint32
  inum :: uint32
  iref :: int32
  ivalid :: bool
  itype :: uint16
  imajor :: uint16
  iminor :: uint16
  nlink :: uint16
  isize :: uint32
  addrs :: "uint32 list"

datatype fdtype = FD_NONE | FD_PIPE | FD_INODE | FD_DEVICE

record kfile =
  ftype :: fdtype
  fref :: int32
  readable :: bool
  writable :: bool
  fpipe :: uint64
  fip :: nat
  foff :: uint32
  fmajor :: uint16

text \<open>\<open>bufs\<close> holds the NBUF buffers and, at index NBUF, the list head. \<open>platter\<close> is the device's storage.\<close>

record fsstate =
  slks :: "sleepid \<Rightarrow> sleeplock"
  bufs :: "buf list"
  platter :: "nat \<Rightarrow> uint8 list"
  lg :: klog
  sb :: superblock
  itable :: "inode list"
  ftable :: "kfile list"

record fskernel = kernel +
  vd :: vdisk
  fs :: fsstate

definition fs_upd :: "(fsstate \<Rightarrow> fsstate) \<Rightarrow> 'a fskernel_scheme \<Rightarrow> 'a fskernel_scheme" where
  "fs_upd f s = s\<lparr>fs := f (fs s)\<rparr>"

definition set_buf :: "nat \<Rightarrow> (buf \<Rightarrow> buf) \<Rightarrow> 'a fskernel_scheme \<Rightarrow> 'a fskernel_scheme" where
  "set_buf b f = fs_upd (\<lambda>v. v\<lparr>bufs := (bufs v)[b := f (bufs v ! b)]\<rparr>)"

definition set_inode :: "nat \<Rightarrow> (inode \<Rightarrow> inode) \<Rightarrow> 'a fskernel_scheme \<Rightarrow> 'a fskernel_scheme" where
  "set_inode i f = fs_upd (\<lambda>v. v\<lparr>itable := (itable v)[i := f (itable v ! i)]\<rparr>)"

definition set_file :: "nat \<Rightarrow> (kfile \<Rightarrow> kfile) \<Rightarrow> 'a fskernel_scheme \<Rightarrow> 'a fskernel_scheme" where
  "set_file i f = fs_upd (\<lambda>v. v\<lparr>ftable := (ftable v)[i := f (ftable v ! i)]\<rparr>)"

definition set_log :: "(klog \<Rightarrow> klog) \<Rightarrow> 'a fskernel_scheme \<Rightarrow> 'a fskernel_scheme" where
  "set_log f = fs_upd (\<lambda>v. v\<lparr>lg := f (lg v)\<rparr>)"

definition set_vd :: "(vdisk \<Rightarrow> vdisk) \<Rightarrow> 'a fskernel_scheme \<Rightarrow> 'a fskernel_scheme" where
  "set_vd f s = s\<lparr>vd := f (vd s)\<rparr>"

text \<open>The driver at rest: all descriptors free, every request seen.\<close>

definition zero_desc :: virtq_desc where
  "zero_desc = \<lparr>desc_addr = NullAddr, desc_len = 0, desc_flags = 0, desc_next = 0\<rparr>"

definition vd_idle :: "vdisk \<Rightarrow> bool" where
  "vd_idle d \<longleftrightarrow> desc d = replicate NUM zero_desc \<and> dfree d = replicate NUM True \<and>
     length (avail_ring d) = NUM \<and> length (used_ring d) = NUM \<and> length (info_b d) = NUM \<and>
     length (info_status d) = NUM \<and> length (ops d) = NUM \<and>
     used_dev_idx d = avail_idx d \<and> used_idx d = avail_idx d"

text \<open>
  What the routines that may sleep are run with: \<open>env_sw\<close> is the rest of the system between a
  call of \<^verbatim>\<open>swtch\<close> and its return, \<open>env_fuel\<close> how often a waiting loop may go to sleep, and \<open>env_rw\<close>
  the disk driver's entry point, \<^verbatim>\<open>virtio_disk_rw(b, write)\<close> of kernel/virtio_disk.c.
\<close>

record 'k env =
  env_sw :: "'k \<Rightarrow> 'k outcome"
  env_fuel :: nat
  env_rw :: "nat \<Rightarrow> bool \<Rightarrow> 'k \<Rightarrow> 'k outcome"

end
