(* ===== verification/Sleeplock.thy ===== *)
theory Sleeplock
  imports Fsstate
begin

text \<open>
  Sleep locks (kernel/sleeplock.c), and the calculus in which the file system's operations are
  specified. \<open>sys_ok p s\<close> is a state in which process \<open>p\<close> runs, no spinlock is held and the disk is idle;
  \<open>does p s m F\<close> says that the operation \<open>m\<close> started in \<open>s\<close> returns, leaves everything outside the file
  system alone (\<open>quiet\<close>: sleepers may have become runnable) and leaves the file system as \<open>F\<close>.
\<close>

section \<open>kernel/sleeplock.c\<close>

definition set_slk :: "sleepid \<Rightarrow> (sleeplock \<Rightarrow> sleeplock) \<Rightarrow> 'a fskernel_scheme \<Rightarrow> 'a fskernel_scheme" where
  "set_slk lk f = fs_upd (\<lambda>v. v\<lparr>slks := (slks v)(lk := f (slks v lk))\<rparr>)"

definition initsleeplock :: "sleepid \<Rightarrow> string \<Rightarrow> 'a fskernel_scheme \<Rightarrow> 'a fskernel_scheme" where
  "initsleeplock lk name s =
     set_slk lk (\<lambda>_. \<lparr>slocked = 0, sname = name, spid = 0\<rparr>)
       (set_mach (initlock (SleepLk lk) ''sleep lock'' (kmach s)) s)"

text \<open>\<^verbatim>\<open>while(lk->locked) sleep(lk, &lk->lk)\<close>, for at most \<open>fuel\<close> sleeps.\<close>

fun acquiresleep_wait ::
    "nat \<Rightarrow> ('a fskernel_scheme \<Rightarrow> 'a fskernel_scheme outcome) \<Rightarrow> sleepid \<Rightarrow> 'a fskernel_scheme
     \<Rightarrow> 'a fskernel_scheme outcome" where
  "acquiresleep_wait 0 sw lk s = (if slocked (slks (fs s) lk) = 0 then Ok s else Spin)"
| "acquiresleep_wait (Suc fuel) sw lk s =
     (if slocked (slks (fs s) lk) = 0 then Ok s
      else andThen (sleep sw (ChSleep lk) (SleepLk lk) s) (acquiresleep_wait fuel sw lk))"

definition acquiresleep ::
    "'a fskernel_scheme env \<Rightarrow> sleepid \<Rightarrow> 'a fskernel_scheme \<Rightarrow> 'a fskernel_scheme outcome" where
  "acquiresleep e lk s =
     andThen (kacquire (SleepLk lk) s) (\<lambda>s1.
     andThen (acquiresleep_wait (env_fuel e) (env_sw e) lk s1) (\<lambda>s2.
     andThen (curproc s2) (\<lambda>(p, s3).
     krelease (SleepLk lk)
       (set_slk lk (\<lambda>l. l\<lparr>slocked := 1, spid := pid (procs s3 ! p)\<rparr>) s3))))"

definition releasesleep :: "sleepid \<Rightarrow> 'a fskernel_scheme \<Rightarrow> 'a fskernel_scheme outcome" where
  "releasesleep lk s =
     andThen (kacquire (SleepLk lk) s) (\<lambda>s1.
     andThen (wakeup (Some (ChSleep lk)) (set_slk lk (\<lambda>l. l\<lparr>slocked := 0, spid := 0\<rparr>) s1))
       (krelease (SleepLk lk)))"

definition holdingsleep :: "sleepid \<Rightarrow> 'a fskernel_scheme \<Rightarrow> (bool \<times> 'a fskernel_scheme) outcome" where
  "holdingsleep lk s =
     andThen (kacquire (SleepLk lk) s) (\<lambda>s1.
     andThen (if slocked (slks (fs s1) lk) \<noteq> 0
              then andThen (curproc s1) (\<lambda>(p, s2). Ok (spid (slks (fs s2) lk) = pid (procs s2 ! p), s2))
              else Ok (False, s1)) (\<lambda>(r, s2).
     andThen (krelease (SleepLk lk) s2) (\<lambda>s3. Ok (r, s3))))"

section \<open>Specifying file-system operations\<close>

definition sys_ok :: "nat \<Rightarrow> 'a fskernel_scheme \<Rightarrow> bool" where
  "sys_ok p s \<longleftrightarrow> running p s \<and> pstate (procs s ! p) = RUNNING \<and> (\<forall>lk. lock_free lk (kmach s)) \<and>
     vd_idle (vd s)"

text \<open>A slot up to what sleeping and waking change: for \<open>p\<close> itself, and for the others.\<close>

definition pview :: "nat \<Rightarrow> nat \<Rightarrow> proc \<Rightarrow> proc" where
  "pview p i q =
     (if i = p then q\<lparr>pchan := None, accumulator := 0\<rparr>
      else q\<lparr>pstate := (if pstate q = SLEEPING then RUNNABLE else pstate q), accumulator := 0\<rparr>)"

definition quiet :: "nat \<Rightarrow> 'a fskernel_scheme \<Rightarrow> 'a fskernel_scheme \<Rightarrow> bool" where
  "quiet p s s' \<longleftrightarrow> sys_ok p s' \<and> mem (pm s') = mem (pm s) \<and> freelist (pm s') = freelist (pm s) \<and>
     kend (pm s') = kend (pm s) \<and> nextpid s' = nextpid s \<and> initproc s' = initproc s \<and>
     sched_policy s' = sched_policy s \<and> min_accumulator s' = min_accumulator s \<and> ticks s' = ticks s \<and>
     trampoline s' = trampoline s \<and> forkret_addr s' = forkret_addr s \<and>
     fskernel.more s' = fskernel.more s \<and>
     (\<forall>i < NPROC. pview p i (procs s' ! i) = pview p i (procs s ! i))"

lemma quiet_refl: "sys_ok p s \<Longrightarrow> quiet p s s"
  by (simp add: quiet_def)

lemma quiet_trans: "quiet p s s' \<Longrightarrow> quiet p s' s'' \<Longrightarrow> quiet p s s''"
  by (simp add: quiet_def)

lemma quiet_ok: "quiet p s s' \<Longrightarrow> sys_ok p s'"
  by (simp add: quiet_def)

lemma quiet_proc:
  assumes "quiet p s s'" and "p < NPROC"
  shows "pid (procs s' ! p) = pid (procs s ! p)" "pagetable (procs s' ! p) = pagetable (procs s ! p)"
    "ofile (procs s' ! p) = ofile (procs s ! p)" "cwd (procs s' ! p) = cwd (procs s ! p)"
    "psz (procs s' ! p) = psz (procs s ! p)" "trapframe (procs s' ! p) = trapframe (procs s ! p)"
    "pkilled (procs s' ! p) = pkilled (procs s ! p)"
proof -
  have eq: "pview p p (procs s' ! p) = pview p p (procs s ! p)" using assms by (simp add: quiet_def)
  have "pid q = pid (pview p p q)" "pagetable q = pagetable (pview p p q)" "ofile q = ofile (pview p p q)"
    "cwd q = cwd (pview p p q)" "psz q = psz (pview p p q)" "trapframe q = trapframe (pview p p q)"
    "pkilled q = pkilled (pview p p q)" for q
    by (simp_all add: pview_def)
  then show "pid (procs s' ! p) = pid (procs s ! p)" "pagetable (procs s' ! p) = pagetable (procs s ! p)"
    "ofile (procs s' ! p) = ofile (procs s ! p)" "cwd (procs s' ! p) = cwd (procs s ! p)"
    "psz (procs s' ! p) = psz (procs s ! p)" "trapframe (procs s' ! p) = trapframe (procs s ! p)"
    "pkilled (procs s' ! p) = pkilled (procs s ! p)"
    using eq by metis+
qed

definition does :: "nat \<Rightarrow> 'a fskernel_scheme \<Rightarrow> 'a fskernel_scheme outcome \<Rightarrow> fsstate \<Rightarrow> bool" where
  "does p s m v \<longleftrightarrow> (\<exists>s'. m = Ok s' \<and> quiet p s s' \<and> fs s' = v)"

definition yields ::
    "nat \<Rightarrow> 'a fskernel_scheme \<Rightarrow> ('r \<times> 'a fskernel_scheme) outcome \<Rightarrow> 'r \<Rightarrow> fsstate \<Rightarrow> bool" where
  "yields p s m r v \<longleftrightarrow> (\<exists>s'. m = Ok (r, s') \<and> quiet p s s' \<and> fs s' = v)"

lemma does_Ok: "sys_ok p s \<Longrightarrow> fs s = v \<Longrightarrow> does p s (Ok s) v"
  by (auto simp: does_def quiet_refl)

lemma does_bind:
  assumes "does p s m v" and "\<And>s'. quiet p s s' \<Longrightarrow> fs s' = v \<Longrightarrow> does p s' (g s') v'"
  shows "does p s (andThen m g) v'"
  using assms unfolding does_def by (metis andThen.simps(1) quiet_trans)

lemma does_yields_bind:
  assumes "does p s m v" and "\<And>s'. quiet p s s' \<Longrightarrow> fs s' = v \<Longrightarrow> yields p s' (g s') r v'"
  shows "yields p s (andThen m g) r v'"
  using assms unfolding does_def yields_def by (metis andThen.simps(1) quiet_trans)

lemma yields_bind:
  assumes "yields p s m r v" and "\<And>s'. quiet p s s' \<Longrightarrow> fs s' = v \<Longrightarrow> yields p s' (g r s') r' v'"
  shows "yields p s (andThen m (\<lambda>(x, s'). g x s')) r' v'"
  using assms unfolding yields_def
  by (smt (verit, best) andThen.simps(1) case_prod_conv quiet_trans)

lemma yields_does_bind:
  assumes "yields p s m r v" and "\<And>s'. quiet p s s' \<Longrightarrow> fs s' = v \<Longrightarrow> does p s' (g r s') v'"
  shows "does p s (andThen m (\<lambda>(x, s'). g x s')) v'"
  using assms unfolding yields_def does_def
  by (smt (verit, best) andThen.simps(1) case_prod_conv quiet_trans)

lemma yields_Ok: "sys_ok p s \<Longrightarrow> fs s = v \<Longrightarrow> yields p s (Ok (r, s)) r v"
  by (auto simp: yields_def quiet_refl)

section \<open>Critical sections\<close>

lemma krelease_view:
  "lock_free lk m \<Longrightarrow> irq_ok m \<Longrightarrow> kmach t = taken lk m \<Longrightarrow> krelease lk t = Ok (set_mach (touch m) t)"
  by (simp add: krelease_def release_taken)

lemma sys_okD:
  assumes "sys_ok p s"
  shows "lock_free lk (kmach s)" "irq_ok (kmach s)" "kready s" "cproc (mycpu (kmach s)) = Some p"
    "p < NPROC" "length (procs s) = NPROC"
  using assms by (auto simp: sys_ok_def running_def kready_def)

lemma kready_taken:
  "kready s \<Longrightarrow> \<forall>i. lk \<noteq> ProcLock i \<Longrightarrow> kmach t = taken lk (kmach s) \<Longrightarrow> procs t = procs s \<Longrightarrow> kready t"
  by (metis kready_def irq_ok_taken lock_free_taken)

lemma fs_upd_simps [simp]:
  "pm (fs_upd f s) = pm s" "procs (fs_upd f s) = procs s" "fs (fs_upd f s) = f (fs s)"
  "nextpid (fs_upd f s) = nextpid s" "initproc (fs_upd f s) = initproc s"
  "sched_policy (fs_upd f s) = sched_policy s" "min_accumulator (fs_upd f s) = min_accumulator s"
  "ticks (fs_upd f s) = ticks s" "trampoline (fs_upd f s) = trampoline s"
  "forkret_addr (fs_upd f s) = forkret_addr s" "vd (fs_upd f s) = vd s" "fskernel.more (fs_upd f s) = fskernel.more s"
  by (simp_all add: fs_upd_def)

lemma set_mach_fs [simp]:
  "vd (set_mach m s) = vd s" "vd (ktouch s) = vd s" "vd (set_proc i g s) = vd s"
  "fs (set_mach m s) = fs s" "fskernel.more (set_mach m s) = fskernel.more s"
  "fs (ktouch s) = fs s" "fskernel.more (ktouch s) = fskernel.more s"
  "fs (set_proc i g s) = fs s" "fskernel.more (set_proc i g s) = fskernel.more s"
  by (simp_all add: set_mach_def ktouch_def set_proc_def)

text \<open>States that differ from \<open>s\<close> in the file system and the touched hart only.\<close>

lemma quiet_touch:
  assumes "sys_ok p s" and "kmach t = touch (kmach s)" and "procs t = procs s" and "vd t = vd s"
    and "mem (pm t) = mem (pm s)" "freelist (pm t) = freelist (pm s)" "kend (pm t) = kend (pm s)"
    and "nextpid t = nextpid s" "initproc t = initproc s" "sched_policy t = sched_policy s"
    and "min_accumulator t = min_accumulator s" "ticks t = ticks s" "trampoline t = trampoline s"
    and "forkret_addr t = forkret_addr s" "fskernel.more t = fskernel.more s"
  shows "quiet p s t"
  using assms by (simp add: quiet_def sys_ok_def running_def kready_def)

lemma quiet_fs_upd: "sys_ok p s \<Longrightarrow> quiet p s (fs_upd f s)"
  by (simp add: quiet_def sys_ok_def running_def kready_def)

lemma quiet_ktouch: "sys_ok p s \<Longrightarrow> quiet p s (ktouch s)"
  by (rule quiet_touch) simp_all

text \<open>A critical section that only changes the file system's data.\<close>

lemma fs_section:
  assumes "sys_ok p s"
  shows "kacquire lk s = Ok (set_mach (taken lk (kmach s)) s)"
    and "krelease lk (fs_upd f (set_mach (taken lk (kmach s)) s)) = Ok (ktouch (fs_upd f s))"
    and "krelease lk (set_mach (taken lk (kmach s)) s) = Ok (ktouch s)"
proof -
  note ok = sys_okD [OF assms]
  have comm: "set_mach m (fs_upd f (set_mach m' s)) = set_mach m (fs_upd f s)" for m m'
    by (simp add: set_mach_def fs_upd_def)
  show "kacquire lk s = Ok (set_mach (taken lk (kmach s)) s)" by (rule kacquire_free [OF ok(1)])
  show "krelease lk (fs_upd f (set_mach (taken lk (kmach s)) s)) = Ok (ktouch (fs_upd f s))"
    using krelease_view [OF ok(1,2), of "fs_upd f (set_mach (taken lk (kmach s)) s)" lk]
    by (simp add: comm ktouch_def)
  show "krelease lk (set_mach (taken lk (kmach s)) s) = Ok (ktouch s)"
    using krelease_view [OF ok(1,2), of "set_mach (taken lk (kmach s)) s" lk] by (simp add: ktouch_def)
qed

lemma does_section:
  assumes "sys_ok p s"
  shows "does p s (andThen (kacquire lk s) (\<lambda>s1. krelease lk (fs_upd f s1))) (f (fs s))"
  using fs_section [OF assms] quiet_touch [OF assms, of "ktouch (fs_upd f s)"]
  by (simp add: does_def)

text \<open>\<^verbatim>\<open>wakeup\<close> inside a critical section on a lock that is not a process lock.\<close>

lemma quiet_woken:
  assumes "sys_ok p s"
  shows "quiet p s (set_mach (touch (kmach s)) (s\<lparr>procs :=
     map (\<lambda>i. woken (Some p) ch a i (procs s ! i)) [0..<NPROC]\<rparr>))"
  using assms
  by (auto simp: quiet_def sys_ok_def running_def kready_def woken_def pview_def set_mach_def)

lemma section_wakeup:
  assumes ok: "sys_ok p s" and lk: "\<forall>i. lk \<noteq> ProcLock i"
  shows "does p s (andThen (kacquire lk s) (\<lambda>s1. andThen (wakeup ch (fs_upd f s1)) (krelease lk))) (f (fs s))"
proof -
  note sok = sys_okD [OF ok]
  let ?s1 = "fs_upd f (set_mach (taken lk (kmach s)) s)"
  have "kready ?s1" by (rule kready_taken [OF sok(3) lk]) simp_all
  note w = wakeup_eq [OF this, of ch]
  let ?t = "ktouch (?s1\<lparr>procs := map (\<lambda>i. woken (cproc (mycpu (kmach ?s1))) ch (min_accumulator ?s1) i
    (procs ?s1 ! i)) [0..<NPROC]\<rparr>)"
  have m: "kmach ?t = taken lk (kmach s)" using sok(2) by (simp add: irq_ok_taken)
  have "quiet p s (set_mach (touch (kmach s)) ?t)"
    using quiet_woken [OF ok, of ch "min_accumulator s"] sok(4)
    by (auto simp: quiet_def sys_ok_def running_def kready_def mycpu_taken set_mach_def)
  then show ?thesis
    using fs_section(1) [OF ok, of lk] w krelease_view [OF sok(1,2) m] by (simp add: does_def)
qed

section \<open>Net effect of the sleep-lock operations\<close>

definition slk_set :: "sleepid \<Rightarrow> uint32 \<Rightarrow> int32 \<Rightarrow> fsstate \<Rightarrow> fsstate" where
  "slk_set lk l n v = v\<lparr>slks := (slks v)(lk := (slks v lk)\<lparr>slocked := l, spid := n\<rparr>)\<rparr>"

lemma set_slk_eq: "set_slk lk (\<lambda>l. l\<lparr>slocked := a, spid := n\<rparr>) = fs_upd (slk_set lk a n)"
  by (simp add: set_slk_def slk_set_def [abs_def])

lemma curproc_section:
  assumes "sys_ok p s"
  shows "curproc (set_mach (taken lk (kmach s)) s) = Ok (p, set_mach (taken lk (kmach s)) s)"
  using sys_okD [OF assms] curproc_eq [of "set_mach (taken lk (kmach s)) s" p]
  by (simp add: irq_ok_taken mycpu_taken ktouch_def)

lemma acquiresleep_does:
  assumes "sys_ok p s" and "slocked (slks (fs s) lk) = 0"
  shows "does p s (acquiresleep e lk s) (slk_set lk 1 (pid (procs s ! p)) (fs s))"
proof -
  have "acquiresleep_wait n sw lk t = Ok t" if "fs t = fs s" for n sw and t :: "'a fskernel_scheme"
    using that assms(2) by (cases n) simp_all
  then have "acquiresleep e lk s = andThen (kacquire (SleepLk lk) s) (\<lambda>s1. krelease (SleepLk lk)
      (fs_upd (slk_set lk 1 (pid (procs s ! p))) s1))"
    using curproc_section [OF assms(1)] fs_section(1) [OF assms(1)]
    by (simp add: acquiresleep_def set_slk_eq)
  then show ?thesis using does_section [OF assms(1)] by simp
qed

lemma releasesleep_does:
  assumes "sys_ok p s"
  shows "does p s (releasesleep lk s) (slk_set lk 0 0 (fs s))"
  using section_wakeup [OF assms, of "SleepLk lk"]
  by (simp add: releasesleep_def set_slk_eq)

lemma holdingsleep_yields:
  assumes "sys_ok p s"
  shows "yields p s (holdingsleep lk s)
     (slocked (slks (fs s) lk) \<noteq> 0 \<and> spid (slks (fs s) lk) = pid (procs s ! p)) (fs s)"
  using curproc_section [OF assms] fs_section [OF assms] quiet_ktouch [OF assms]
  by (auto simp: holdingsleep_def yields_def)

section \<open>Properties\<close>

text \<open>
  Sleep locks exclude: however often the waiter sleeps, and whatever the rest of the system
  does meanwhile, \<^verbatim>\<open>acquiresleep\<close> takes the lock only in a state in which it is not locked, and
  returns with it locked by the calling process.
\<close>

theorem acquiresleep_takes_unlocked:
  assumes "acquiresleep e lk s = Ok s'"
  shows "\<exists>s1 s2 p s3. kacquire (SleepLk lk) s = Ok s1 \<and>
     acquiresleep_wait (env_fuel e) (env_sw e) lk s1 = Ok s2 \<and> slocked (slks (fs s2) lk) = 0 \<and>
     curproc s2 = Ok (p, s3) \<and> slks (fs s') lk = (slks (fs s3) lk)\<lparr>slocked := 1, spid := pid (procs s3 ! p)\<rparr>"
proof -
  have wait: "acquiresleep_wait n sw lk s1 = Ok s2 \<Longrightarrow> slocked (slks (fs s2) lk) = 0"
    for n sw and s1 s2 :: "'a fskernel_scheme"
    by (induction n sw lk s1 rule: acquiresleep_wait.induct) (auto simp: outcome_simps split: if_splits)
  show ?thesis
    using assms wait
    by (fastforce simp: acquiresleep_def outcome_simps krelease_def set_slk_def)
qed

text \<open>A state with one running process, for the examples.\<close>

definition boot_fs :: fsstate where
  "boot_fs = \<lparr>slks = \<lambda>_. \<lparr>slocked = 0, sname = ''buffer'', spid = 0\<rparr>, bufs = [],
     platter = \<lambda>_. replicate 1024 0,
     lg = \<lparr>log_start = 2, log_size = 30, outstanding = 0, committing = False, log_dev = 1, lh_n = 0,
       lh_block = replicate 30 0\<rparr>,
     sb = \<lparr>sb_magic = 0x10203040, sb_size = 2000, sb_nblocks = 1954, sb_ninodes = 200, sb_nlog = 30,
       sb_logstart = 2, sb_inodestart = 32, sb_bmapstart = 45\<rparr>,
     itable = [], ftable = []\<rparr>"

definition idle_vd :: vdisk where
  "idle_vd = \<lparr>desc = replicate NUM zero_desc, avail_idx = 0, avail_ring = replicate NUM 0,
     used_dev_idx = 0, used_ring = replicate NUM 0, dfree = replicate NUM True, used_idx = 0,
     info_b = replicate NUM None, info_status = replicate NUM 0,
     ops = replicate NUM \<lparr>req_type = 0, req_reserved = 0, req_sector = 0\<rparr>\<rparr>"

definition with_fs :: "kernel \<Rightarrow> fsstate \<Rightarrow> fskernel" where
  "with_fs k v = \<lparr>pm = pm k, procs = procs k, nextpid = nextpid k, initproc = initproc k,
     sched_policy = sched_policy k, min_accumulator = min_accumulator k, ticks = ticks k,
     trampoline = trampoline k, forkret_addr = forkret_addr k, vd = idle_vd, fs = v\<rparr>"

lemma with_fs_simps [simp]:
  "pm (with_fs k v) = pm k" "procs (with_fs k v) = procs k" "fs (with_fs k v) = v" "vd (with_fs k v) = idle_vd"
  by (simp_all add: with_fs_def)

lemma one_running_sys_ok: "sys_ok 0 (with_fs one_running v)"
proof -
  have "pstate (procs one_running ! 0) = RUNNING"
    by (simp add: one_running_def set_cproc_def boot_kernel_def)
  moreover have "lock_free lk (kmach one_running)" for lk
    by (simp add: one_running_def set_cproc_def boot_kernel_def boot_pmem_def)
  ultimately show ?thesis
    using one_running_running by (simp add: sys_ok_def running_def kready_def vd_idle_def idle_vd_def)
qed

theorem acquiresleep_takes_unlocked_witness:
  "\<exists>s'. acquiresleep \<lparr>env_sw = Ok, env_fuel = 0, env_rw = \<lambda>b w. Ok\<rparr> (BufLock 0) (with_fs one_running boot_fs) = Ok s' \<and>
     slocked (slks (fs s') (BufLock 0)) = 1"
proof -
  have "slocked (slks (fs (with_fs one_running boot_fs)) (BufLock 0)) = 0" by (simp add: boot_fs_def)
  then obtain s' where s': "acquiresleep \<lparr>env_sw = Ok, env_fuel = 0, env_rw = \<lambda>b w. Ok\<rparr> (BufLock 0)
      (with_fs one_running boot_fs) = Ok s'"
    using acquiresleep_does [OF one_running_sys_ok] unfolding does_def by blast
  with acquiresleep_takes_unlocked [OF s'] show ?thesis by auto
qed



end
