(* ===== verification/Virtio.thy ===== *)
theory Virtio
  imports Sleeplock
begin

text \<open>
  The disk driver (kernel/virtio_disk.c). The device is hardware: it is an argument \<open>dev\<close>, run while
  the driver's caller sleeps, and the hypothesis \<open>device_ok\<close> states what the virtio specification says
  it does with a three-descriptor block request. Its registers are read through an argument \<open>rd\<close>,
  which sees the register writes so far. The lemmas show that descriptors are neither lost nor handed
  out twice, and that a request transfers the block it names.
\<close>

section \<open>Registers and flags (kernel/virtio.h)\<close>

definition VIRTIO_MMIO_MAGIC_VALUE :: nat where "VIRTIO_MMIO_MAGIC_VALUE = 0x000"
definition VIRTIO_MMIO_VERSION :: nat where "VIRTIO_MMIO_VERSION = 0x004"
definition VIRTIO_MMIO_DEVICE_ID :: nat where "VIRTIO_MMIO_DEVICE_ID = 0x008"
definition VIRTIO_MMIO_VENDOR_ID :: nat where "VIRTIO_MMIO_VENDOR_ID = 0x00c"
definition VIRTIO_MMIO_DEVICE_FEATURES :: nat where "VIRTIO_MMIO_DEVICE_FEATURES = 0x010"
definition VIRTIO_MMIO_DRIVER_FEATURES :: nat where "VIRTIO_MMIO_DRIVER_FEATURES = 0x020"
definition VIRTIO_MMIO_QUEUE_SEL :: nat where "VIRTIO_MMIO_QUEUE_SEL = 0x030"
definition VIRTIO_MMIO_QUEUE_NUM_MAX :: nat where "VIRTIO_MMIO_QUEUE_NUM_MAX = 0x034"
definition VIRTIO_MMIO_QUEUE_NUM :: nat where "VIRTIO_MMIO_QUEUE_NUM = 0x038"
definition VIRTIO_MMIO_QUEUE_READY :: nat where "VIRTIO_MMIO_QUEUE_READY = 0x044"
definition VIRTIO_MMIO_STATUS :: nat where "VIRTIO_MMIO_STATUS = 0x070"
definition VIRTIO_MMIO_QUEUE_DESC_LOW :: nat where "VIRTIO_MMIO_QUEUE_DESC_LOW = 0x080"
definition VIRTIO_MMIO_QUEUE_DESC_HIGH :: nat where "VIRTIO_MMIO_QUEUE_DESC_HIGH = 0x084"
definition VIRTIO_MMIO_DRIVER_DESC_LOW :: nat where "VIRTIO_MMIO_DRIVER_DESC_LOW = 0x090"
definition VIRTIO_MMIO_DRIVER_DESC_HIGH :: nat where "VIRTIO_MMIO_DRIVER_DESC_HIGH = 0x094"
definition VIRTIO_MMIO_DEVICE_DESC_LOW :: nat where "VIRTIO_MMIO_DEVICE_DESC_LOW = 0x0a0"
definition VIRTIO_MMIO_DEVICE_DESC_HIGH :: nat where "VIRTIO_MMIO_DEVICE_DESC_HIGH = 0x0a4"

definition VIRTIO_CONFIG_S_ACKNOWLEDGE :: uint32 where "VIRTIO_CONFIG_S_ACKNOWLEDGE = 1"
definition VIRTIO_CONFIG_S_DRIVER :: uint32 where "VIRTIO_CONFIG_S_DRIVER = 2"
definition VIRTIO_CONFIG_S_DRIVER_OK :: uint32 where "VIRTIO_CONFIG_S_DRIVER_OK = 4"
definition VIRTIO_CONFIG_S_FEATURES_OK :: uint32 where "VIRTIO_CONFIG_S_FEATURES_OK = 8"

definition VIRTIO_BLK_F_RO :: nat where "VIRTIO_BLK_F_RO = 5"
definition VIRTIO_BLK_F_SCSI :: nat where "VIRTIO_BLK_F_SCSI = 7"
definition VIRTIO_BLK_F_CONFIG_WCE :: nat where "VIRTIO_BLK_F_CONFIG_WCE = 11"
definition VIRTIO_BLK_F_MQ :: nat where "VIRTIO_BLK_F_MQ = 12"
definition VIRTIO_F_ANY_LAYOUT :: nat where "VIRTIO_F_ANY_LAYOUT = 27"
definition VIRTIO_RING_F_INDIRECT_DESC :: nat where "VIRTIO_RING_F_INDIRECT_DESC = 28"
definition VIRTIO_RING_F_EVENT_IDX :: nat where "VIRTIO_RING_F_EVENT_IDX = 29"

definition VRING_DESC_F_NEXT :: uint16 where "VRING_DESC_F_NEXT = 1"
definition VRING_DESC_F_WRITE :: uint16 where "VRING_DESC_F_WRITE = 2"
definition VIRTIO_BLK_T_IN :: uint32 where "VIRTIO_BLK_T_IN = 0"
definition VIRTIO_BLK_T_OUT :: uint32 where "VIRTIO_BLK_T_OUT = 1"

section \<open>Initialisation\<close>

definition driver_features :: "uint64 \<Rightarrow> uint64" where
  "driver_features f = fold (\<lambda>b x. x AND NOT (push_bit b 1))
     [VIRTIO_BLK_F_RO, VIRTIO_BLK_F_SCSI, VIRTIO_BLK_F_CONFIG_WCE, VIRTIO_BLK_F_MQ, VIRTIO_F_ANY_LAYOUT,
      VIRTIO_RING_F_EVENT_IDX, VIRTIO_RING_F_INDIRECT_DESC] f"

text \<open>The handshake up to the queue's memory; the result is the list of register writes so far.\<close>

definition virtio_handshake ::
    "((nat \<times> uint32) list \<Rightarrow> nat \<Rightarrow> uint32) \<Rightarrow> (nat \<times> uint32) list outcome" where
  "virtio_handshake rd =
     (if rd [] VIRTIO_MMIO_MAGIC_VALUE \<noteq> 0x74726976 \<or> rd [] VIRTIO_MMIO_VERSION \<noteq> 2 \<or>
         rd [] VIRTIO_MMIO_DEVICE_ID \<noteq> 2 \<or> rd [] VIRTIO_MMIO_VENDOR_ID \<noteq> 0x554d4551
      then Panic ''could not find virtio disk''
      else
        let st1 = VIRTIO_CONFIG_S_ACKNOWLEDGE; st2 = st1 OR VIRTIO_CONFIG_S_DRIVER;
            st3 = st2 OR VIRTIO_CONFIG_S_FEATURES_OK;
            w1 = [(VIRTIO_MMIO_STATUS, 0), (VIRTIO_MMIO_STATUS, st1), (VIRTIO_MMIO_STATUS, st2)];
            w2 = w1 @ [(VIRTIO_MMIO_DRIVER_FEATURES,
                        ucast (driver_features (ucast (rd w1 VIRTIO_MMIO_DEVICE_FEATURES)))),
                       (VIRTIO_MMIO_STATUS, st3)];
            w3 = w2 @ [(VIRTIO_MMIO_QUEUE_SEL, 0)]
        in if rd w2 VIRTIO_MMIO_STATUS AND VIRTIO_CONFIG_S_FEATURES_OK = 0
           then Panic ''virtio disk FEATURES_OK unset''
           else if rd w3 VIRTIO_MMIO_QUEUE_READY \<noteq> 0 then Panic ''virtio disk should not be ready''
           else if rd w3 VIRTIO_MMIO_QUEUE_NUM_MAX = 0 then Panic ''virtio disk has no queue 0''
           else if rd w3 VIRTIO_MMIO_QUEUE_NUM_MAX < of_nat NUM then Panic ''virtio disk max queue too short''
           else Ok w3)"

text \<open>The status read back is the one the handshake ends with.\<close>

definition virtio_disk_init ::
    "((nat \<times> uint32) list \<Rightarrow> nat \<Rightarrow> uint32) \<Rightarrow> 'a fskernel_scheme
     \<Rightarrow> ((nat \<times> uint32) list \<times> 'a fskernel_scheme) outcome" where
  "virtio_disk_init rd s =
     (let s1 = set_mach (initlock VdiskLock ''virtio_disk'' (kmach s)) s in
      andThen (virtio_handshake rd) (\<lambda>w.
      andThen (lift_pmr kalloc s1) (\<lambda>(d, s2).
      andThen (lift_pmr kalloc s2) (\<lambda>(a, s3).
      andThen (lift_pmr kalloc s3) (\<lambda>(u, s4).
      if d = 0 \<or> a = 0 \<or> u = 0 then Panic ''virtio disk kalloc''
      else
        let w5 = take 5 w; status = rd w5 VIRTIO_MMIO_STATUS;
            s5 = kmem_upd (\<lambda>m. memset (memset (memset m d 0 4096) a 0 4096) u 0 4096) s4;
            s6 = set_vd (\<lambda>v. v\<lparr>desc := replicate NUM zero_desc, avail_idx := 0, avail_ring := replicate NUM 0,
                   used_dev_idx := 0, used_ring := replicate NUM 0, dfree := replicate NUM True\<rparr>) s5
        in Ok (w @ [(VIRTIO_MMIO_QUEUE_NUM, of_nat NUM),
                (VIRTIO_MMIO_QUEUE_DESC_LOW, ucast d), (VIRTIO_MMIO_QUEUE_DESC_HIGH, ucast (drop_bit 32 d)),
                (VIRTIO_MMIO_DRIVER_DESC_LOW, ucast a), (VIRTIO_MMIO_DRIVER_DESC_HIGH, ucast (drop_bit 32 a)),
                (VIRTIO_MMIO_DEVICE_DESC_LOW, ucast u), (VIRTIO_MMIO_DEVICE_DESC_HIGH, ucast (drop_bit 32 u)),
                (VIRTIO_MMIO_QUEUE_READY, 1), (VIRTIO_MMIO_STATUS, status OR VIRTIO_CONFIG_S_DRIVER_OK)],
               s6))))))"

section \<open>Descriptors\<close>

fun alloc_desc_scan :: "nat list \<Rightarrow> vdisk \<Rightarrow> nat option \<times> vdisk" where
  "alloc_desc_scan [] d = (None, d)"
| "alloc_desc_scan (i # is) d =
     (if dfree d ! i then (Some i, d\<lparr>dfree := (dfree d)[i := False]\<rparr>) else alloc_desc_scan is d)"

definition alloc_desc :: "vdisk \<Rightarrow> nat option \<times> vdisk" where
  "alloc_desc = alloc_desc_scan [0..<NUM]"

definition free_desc :: "nat \<Rightarrow> 'a fskernel_scheme \<Rightarrow> 'a fskernel_scheme outcome" where
  "free_desc i s =
     (if NUM \<le> i then Panic ''free_desc 1''
      else if dfree (vd s) ! i then Panic ''free_desc 2''
      else wakeup (Some ChDiskFree)
        (set_vd (\<lambda>d. d\<lparr>desc := (desc d)[i := zero_desc], dfree := (dfree d)[i := True]\<rparr>) s))"

text \<open>A chain that does not end visits a free descriptor after NUM steps, which is a panic.\<close>

fun free_chain_loop :: "nat \<Rightarrow> nat \<Rightarrow> 'a fskernel_scheme \<Rightarrow> 'a fskernel_scheme outcome" where
  "free_chain_loop 0 i s = Spin"
| "free_chain_loop (Suc fuel) i s =
     (let flag = desc_flags (desc (vd s) ! i); nxt = unat (desc_next (desc (vd s) ! i)) in
      andThen (free_desc i s) (\<lambda>s1.
      if flag AND VRING_DESC_F_NEXT \<noteq> 0 then free_chain_loop fuel nxt s1 else Ok s1))"

definition free_desc_chain :: "nat \<Rightarrow> 'a fskernel_scheme \<Rightarrow> 'a fskernel_scheme outcome" where
  "free_desc_chain = free_chain_loop (Suc NUM)"

fun free_descs :: "nat list \<Rightarrow> 'a fskernel_scheme \<Rightarrow> 'a fskernel_scheme outcome" where
  "free_descs [] s = Ok s"
| "free_descs (j # js) s = andThen (free_desc j s) (free_descs js)"

text \<open>The loop of \<^verbatim>\<open>alloc3_desc\<close>: \<open>n\<close> descriptors to go, \<open>idx\<close> those already taken.\<close>

fun alloc_descs :: "nat \<Rightarrow> nat list \<Rightarrow> 'a fskernel_scheme \<Rightarrow> (nat list option \<times> 'a fskernel_scheme) outcome" where
  "alloc_descs 0 idx s = Ok (Some idx, s)"
| "alloc_descs (Suc n) idx s =
     (let (r, d) = alloc_desc (vd s); s1 = set_vd (\<lambda>_. d) s in
      case r of
        None \<Rightarrow> andThen (free_descs idx s1) (\<lambda>s2. Ok (None, s2))
      | Some i \<Rightarrow> alloc_descs n (idx @ [i]) s1)"

definition alloc3_desc :: "'a fskernel_scheme \<Rightarrow> (nat list option \<times> 'a fskernel_scheme) outcome" where
  "alloc3_desc = alloc_descs 3 []"

section \<open>Requests\<close>

fun virtio_alloc_wait ::
    "nat \<Rightarrow> ('a fskernel_scheme \<Rightarrow> 'a fskernel_scheme outcome) \<Rightarrow> 'a fskernel_scheme
     \<Rightarrow> (nat list \<times> 'a fskernel_scheme) outcome" where
  "virtio_alloc_wait fuel sw s =
     andThen (alloc3_desc s) (\<lambda>(r, s1).
     case r of Some idx \<Rightarrow> Ok (idx, s1)
     | None \<Rightarrow> (case fuel of 0 \<Rightarrow> Spin
        | Suc fuel' \<Rightarrow> andThen (sleep sw ChDiskFree VdiskLock s1) (virtio_alloc_wait fuel' sw)))"

text \<open>The three descriptors of a request and the entry in the available ring.\<close>

definition format_request :: "nat \<Rightarrow> bool \<Rightarrow> uint64 \<Rightarrow> nat \<Rightarrow> nat \<Rightarrow> nat \<Rightarrow> vdisk \<Rightarrow> vdisk" where
  "format_request b write sector i0 i1 i2 d =
     (let d1 = d\<lparr>ops := (ops d)[i0 := \<lparr>req_type = (if write then VIRTIO_BLK_T_OUT else VIRTIO_BLK_T_IN),
                   req_reserved = 0, req_sector = sector\<rparr>]\<rparr>;
          d2 = d1\<lparr>desc := (desc d1)[
                 i0 := \<lparr>desc_addr = AtOps i0, desc_len = 16, desc_flags = VRING_DESC_F_NEXT, desc_next = of_nat i1\<rparr>,
                 i1 := \<lparr>desc_addr = AtData b, desc_len = of_nat BSIZE,
                        desc_flags = (if write then 0 else VRING_DESC_F_WRITE) OR VRING_DESC_F_NEXT, desc_next = of_nat i2\<rparr>,
                 i2 := \<lparr>desc_addr = AtStatus i0, desc_len = 1, desc_flags = VRING_DESC_F_WRITE, desc_next = 0\<rparr>]\<rparr>;
          d3 = d2\<lparr>info_status := (info_status d2)[i0 := 0xff], info_b := (info_b d2)[i0 := Some b]\<rparr>
      in d3\<lparr>avail_ring := (avail_ring d3)[unat (avail_idx d3) mod NUM := of_nat i0],
            avail_idx := avail_idx d3 + 1\<rparr>)"

fun virtio_done_wait ::
    "nat \<Rightarrow> ('a fskernel_scheme \<Rightarrow> 'a fskernel_scheme outcome) \<Rightarrow> nat \<Rightarrow> 'a fskernel_scheme
     \<Rightarrow> 'a fskernel_scheme outcome" where
  "virtio_done_wait 0 sw b s = (if bdisk (bufs (fs s) ! b) then Spin else Ok s)"
| "virtio_done_wait (Suc fuel) sw b s =
     (if bdisk (bufs (fs s) ! b)
      then andThen (sleep sw (ChDisk b) VdiskLock s) (virtio_done_wait fuel sw b) else Ok s)"

definition virtio_disk_rw ::
    "nat \<Rightarrow> ('a fskernel_scheme \<Rightarrow> 'a fskernel_scheme outcome) \<Rightarrow> nat \<Rightarrow> bool \<Rightarrow> 'a fskernel_scheme
     \<Rightarrow> 'a fskernel_scheme outcome" where
  "virtio_disk_rw fuel sw b write s =
     (let sector = ucast (bblockno (bufs (fs s) ! b) * (of_nat BSIZE div 512)) in
      andThen (kacquire VdiskLock s) (\<lambda>s1.
      andThen (virtio_alloc_wait fuel sw s1) (\<lambda>(idx, s2).
      let i0 = idx ! 0;
          s3 = set_vd (format_request b write sector i0 (idx ! 1) (idx ! 2)) s2;
          s4 = set_buf b (\<lambda>u. u\<lparr>bdisk := True\<rparr>) s3
      in andThen (virtio_done_wait fuel sw b s4) (\<lambda>s5.
         andThen (free_desc_chain i0 (set_vd (\<lambda>d. d\<lparr>info_b := (info_b d)[i0 := None]\<rparr>) s5))
           (krelease VdiskLock)))))"

text \<open>
  The loop of \<^verbatim>\<open>virtio_disk_intr\<close> goes round once per entry the device has added; the distance of
  the two 16-bit indices bounds it.
\<close>

fun virtio_intr_loop :: "nat \<Rightarrow> 'a fskernel_scheme \<Rightarrow> 'a fskernel_scheme outcome" where
  "virtio_intr_loop 0 s = (if used_idx (vd s) \<noteq> used_dev_idx (vd s) then Spin else Ok s)"
| "virtio_intr_loop (Suc fuel) s =
     (if used_idx (vd s) \<noteq> used_dev_idx (vd s) then
        let i = unat (used_ring (vd s) ! (unat (used_idx (vd s)) mod NUM)) in
        if info_status (vd s) ! i \<noteq> 0 then Panic ''virtio_disk_intr status''
        else (case info_b (vd s) ! i of None \<Rightarrow> Panic ''kerneltrap''
          | Some b \<Rightarrow> andThen (wakeup (Some (ChDisk b)) (set_buf b (\<lambda>u. u\<lparr>bdisk := False\<rparr>) s)) (\<lambda>s1.
              virtio_intr_loop fuel (set_vd (\<lambda>d. d\<lparr>used_idx := used_idx d + 1\<rparr>) s1)))
      else Ok s)"

definition virtio_disk_intr :: "'a fskernel_scheme \<Rightarrow> 'a fskernel_scheme outcome" where
  "virtio_disk_intr s =
     andThen (kacquire VdiskLock s) (\<lambda>s1.
     andThen (virtio_intr_loop 65536 s1) (krelease VdiskLock))"

declare virtio_alloc_wait.simps [simp del]

section \<open>Wakeups inside a critical section\<close>

definition woke :: "nat option \<Rightarrow> int64 \<Rightarrow> proc \<Rightarrow> proc \<Rightarrow> nat \<Rightarrow> bool" where
  "woke me a q q' i \<longleftrightarrow> q' = q \<or>
     (me \<noteq> Some i \<and> pstate q = SLEEPING \<and> q' = q\<lparr>pstate := RUNNABLE, accumulator := a\<rparr>)"

text \<open>\<open>wk s s'\<close>: \<open>s'\<close> is \<open>s\<close> with some sleepers made runnable.\<close>

definition wk :: "'a fskernel_scheme \<Rightarrow> 'a fskernel_scheme \<Rightarrow> bool" where
  "wk s s' \<longleftrightarrow> (\<exists>f. s' = s\<lparr>procs := f\<rparr> \<and> length f = length (procs s) \<and>
     (\<forall>i < NPROC. woke (cproc (mycpu (kmach s))) (min_accumulator s) (procs s ! i) (f ! i) i))"

lemma wk_refl: "wk s s"
  unfolding wk_def woke_def by (intro exI [of _ "procs s"]) simp

lemma wk_simps:
  assumes "wk s s'"
  shows "kmach s' = kmach s" "pm s' = pm s" "vd s' = vd s" "fs s' = fs s" "kready s' = kready s"
    "length (procs s') = length (procs s)" "min_accumulator s' = min_accumulator s"
  using assms by (auto simp: wk_def kready_def)

lemma woke_trans: "woke me a q q' i \<Longrightarrow> woke me a q' q'' i \<Longrightarrow> woke me a q q'' i"
  by (auto simp: woke_def)

lemma wk_trans:
  assumes "wk s s'" and "wk s' s''"
  shows "wk s s''"
proof -
  obtain f where f: "s' = s\<lparr>procs := f\<rparr>" "length f = length (procs s)"
    "\<forall>i < NPROC. woke (cproc (mycpu (kmach s))) (min_accumulator s) (procs s ! i) (f ! i) i"
    using assms(1) unfolding wk_def by blast
  obtain g where g: "s'' = s'\<lparr>procs := g\<rparr>" "length g = length (procs s')"
    "\<forall>i < NPROC. woke (cproc (mycpu (kmach s'))) (min_accumulator s') (procs s' ! i) (g ! i) i"
    using assms(2) unfolding wk_def by blast
  show ?thesis
    unfolding wk_def using f g by (intro exI [of _ g]) (auto intro: woke_trans)
qed

lemma set_vd_procs: "set_vd g (s\<lparr>procs := f\<rparr>) = (set_vd g s)\<lparr>procs := f\<rparr>"
  by (cases s) (simp add: set_vd_def)

lemma wk_set_vd: "wk s s' \<Longrightarrow> wk (set_vd g s) (set_vd g s')"
  unfolding wk_def by (auto simp: set_vd_procs) (auto simp: set_vd_def)

lemma wakeup_wk:
  assumes "kready s" and "touch (kmach s) = kmach s"
  shows "\<exists>s'. wakeup ch s = Ok s' \<and> wk s s' \<and>
     (\<forall>i < NPROC. cproc (mycpu (kmach s)) \<noteq> Some i \<longrightarrow> pstate (procs s ! i) = SLEEPING \<longrightarrow>
        pchan (procs s ! i) = ch \<longrightarrow> pstate (procs s' ! i) = RUNNABLE)"
proof -
  let ?f = "map (\<lambda>i. woken (cproc (mycpu (kmach s))) ch (min_accumulator s) i (procs s ! i)) [0..<NPROC]"
  have "ktouch (s\<lparr>procs := ?f\<rparr>) = s\<lparr>procs := ?f\<rparr>" using assms(2) by (simp add: ktouch_def set_mach_def)
  moreover have "wk s (s\<lparr>procs := ?f\<rparr>)"
    unfolding wk_def using assms(1) by (intro exI [of _ ?f]) (auto simp: woke_def woken_def kready_def)
  ultimately show ?thesis using wakeup_eq [OF assms(1), of ch] by (auto simp: woken_def)
qed

section \<open>Descriptor accounting\<close>

lemma set_vd_simps [simp]:
  "pm (set_vd f s) = pm s" "procs (set_vd f s) = procs s" "fs (set_vd f s) = fs s" "vd (set_vd f s) = f (vd s)"
  "min_accumulator (set_vd f s) = min_accumulator s" "kready (set_vd f s) = kready s"
  "set_vd f (set_vd g s) = set_vd (\<lambda>d. f (g d)) s" "nextpid (set_vd f s) = nextpid s"
  "initproc (set_vd f s) = initproc s" "sched_policy (set_vd f s) = sched_policy s" "ticks (set_vd f s) = ticks s"
  "trampoline (set_vd f s) = trampoline s" "forkret_addr (set_vd f s) = forkret_addr s"
  "fskernel.more (set_vd f s) = fskernel.more s"
  by (simp_all add: set_vd_def kready_def)

definition descs_freed :: "nat list \<Rightarrow> vdisk \<Rightarrow> vdisk" where
  "descs_freed js d = d\<lparr>desc := fold (\<lambda>j ds. ds[j := zero_desc]) js (desc d),
     dfree := fold (\<lambda>j bs. bs[j := True]) js (dfree d)\<rparr>"

lemma free_descs_frees:
  assumes "kready s" and "touch (kmach s) = kmach s" and "distinct js" and "length (dfree (vd s)) = NUM"
    and "\<forall>j \<in> set js. j < NUM \<and> \<not> dfree (vd s) ! j"
  shows "\<exists>s'. free_descs js s = Ok s' \<and> wk (set_vd (descs_freed js) s) s'"
  using assms
proof (induction js arbitrary: s)
  case Nil
  then show ?case by (simp add: descs_freed_def set_vd_def wk_refl)
next
  case (Cons j js)
  let ?s = "set_vd (\<lambda>d. d\<lparr>desc := (desc d)[j := zero_desc], dfree := (dfree d)[j := True]\<rparr>) s"
  obtain s1 where s1: "wakeup (Some ChDiskFree) ?s = Ok s1" "wk ?s s1"
    using wakeup_wk [of ?s "Some ChDiskFree"] Cons.prems by auto
  have one: "free_desc j s = Ok s1" using s1(1) Cons.prems by (simp add: free_desc_def)
  note w = wk_simps [OF s1(2)]
  have "\<forall>i \<in> set js. i < NUM \<and> \<not> dfree (vd s1) ! i"
  proof
    fix i assume "i \<in> set js"
    then show "i < NUM \<and> \<not> dfree (vd s1) ! i" using Cons.prems(3,5) w(3) by (cases "i = j") auto
  qed
  then obtain s' where s': "free_descs js s1 = Ok s'" "wk (set_vd (descs_freed js) s1) s'"
    using Cons.IH [of s1] Cons.prems w by auto
  have "set_vd (descs_freed js) ?s = set_vd (descs_freed (j # js)) s"
    by (simp add: descs_freed_def [abs_def])
  then have "wk (set_vd (descs_freed (j # js)) s) s'"
    using wk_trans [OF wk_set_vd [OF s1(2)] s'(2)] by simp
  with one s'(1) show ?case by simp
qed

lemma alloc_desc_scan_spec:
  "alloc_desc_scan is d = (case filter (\<lambda>i. dfree d ! i) is of
     [] \<Rightarrow> (None, d) | i # _ \<Rightarrow> (Some i, d\<lparr>dfree := (dfree d)[i := False]\<rparr>))"
  by (induction "is" d rule: alloc_desc_scan.induct) auto

definition free_set :: "vdisk \<Rightarrow> nat set" where
  "free_set d = {i. i < NUM \<and> dfree d ! i}"

lemma alloc_desc_cases:
  obtains (none) "alloc_desc d = (None, d)" "free_set d = {}"
  | (some) i where "alloc_desc d = (Some i, d\<lparr>dfree := (dfree d)[i := False]\<rparr>)" "i \<in> free_set d"
proof (cases "filter (\<lambda>i. dfree d ! i) [0..<NUM]")
  case Nil
  then have "alloc_desc d = (None, d)" by (simp add: alloc_desc_def alloc_desc_scan_spec)
  moreover have "free_set d = {}"
    using Nil by (auto simp: free_set_def filter_empty_conv)
  ultimately show thesis by (rule none)
next
  case (Cons i xs)
  then have "alloc_desc d = (Some i, d\<lparr>dfree := (dfree d)[i := False]\<rparr>)"
    by (simp add: alloc_desc_def alloc_desc_scan_spec)
  moreover have "i \<in> set (filter (\<lambda>i. dfree d ! i) [0..<NUM])" by (simp only: Cons) simp
  ultimately show thesis using some by (simp add: free_set_def)
qed

definition descs_taken :: "nat list \<Rightarrow> vdisk \<Rightarrow> vdisk" where
  "descs_taken js d = d\<lparr>dfree := fold (\<lambda>j bs. bs[j := False]) js (dfree d)\<rparr>"

lemma free_set_take:
  "length (dfree d) = NUM \<Longrightarrow> i \<in> free_set d \<Longrightarrow>
     free_set (d\<lparr>dfree := (dfree d)[i := False]\<rparr>) = free_set d - {i}"
  by (auto simp: free_set_def nth_list_update)

lemma fold_set_nth:
  "i < length bs \<Longrightarrow> fold (\<lambda>j bs. bs[j := b]) js bs ! i = (if i \<in> set js then b else bs ! i)"
  by (induction js arbitrary: bs) (auto simp: nth_list_update)

lemma length_fold_set [simp]: "length (fold (\<lambda>j bs. bs[j := b]) js bs) = length bs"
  by (induction js arbitrary: bs) auto

lemma alloc_descs_spec:
  assumes "kready s" and "touch (kmach s) = kmach s" and "length (dfree (vd s)) = NUM"
    and "distinct idx" and "\<forall>j \<in> set idx. j < NUM \<and> \<not> dfree (vd s) ! j"
  shows "(\<exists>js. alloc_descs n idx s = Ok (Some (idx @ js), set_vd (descs_taken js) s) \<and> length js = n \<and>
       distinct js \<and> set js \<subseteq> free_set (vd s)) \<or>
     (\<exists>js s'. alloc_descs n idx s = Ok (None, s') \<and> card (free_set (vd s)) < n \<and>
       wk (set_vd (\<lambda>d. descs_freed (idx @ js) (descs_taken js d)) s) s' \<and> set js = free_set (vd s) \<and> distinct js)"
  using assms
proof (induction n arbitrary: idx s)
  case 0
  then show ?case by (simp add: descs_taken_def set_vd_def)
next
  case (Suc n)
  show ?case
  proof (cases "vd s" rule: alloc_desc_cases)
    case none
    have same: "set_vd (\<lambda>_. vd s) s = s" by (simp add: set_vd_def)
    obtain s' where "free_descs idx s = Ok s'" "wk (set_vd (descs_freed idx) s) s'"
      using free_descs_frees [OF Suc.prems(1,2,4,3,5)] by blast
    then show ?thesis using none
      by (intro disjI2 exI [of _ "[]"] exI [of _ s']) (simp add: descs_taken_def same)
  next
    case (some i)
    let ?s = "set_vd (\<lambda>d. d\<lparr>dfree := (dfree d)[i := False]\<rparr>) s"
    have eq: "set_vd (\<lambda>_. (vd s)\<lparr>dfree := (dfree (vd s))[i := False]\<rparr>) s = ?s" by (simp add: set_vd_def)
    have i: "i < NUM" "dfree (vd s) ! i" using some(2) by (auto simp: free_set_def)
    have "\<forall>j \<in> set (idx @ [i]). j < NUM \<and> \<not> dfree (vd ?s) ! j"
      using Suc.prems(3,5) i by (auto simp: nth_list_update)
    moreover have "distinct (idx @ [i])" using Suc.prems(4,5) i by auto
    moreover have "free_set (vd ?s) = free_set (vd s) - {i}" using free_set_take [OF Suc.prems(3) some(2)] by simp
    ultimately have IH: "(\<exists>js. alloc_descs n (idx @ [i]) ?s = Ok (Some ((idx @ [i]) @ js), set_vd (descs_taken js) ?s) \<and>
         length js = n \<and> distinct js \<and> set js \<subseteq> free_set (vd s) - {i}) \<or>
       (\<exists>js s'. alloc_descs n (idx @ [i]) ?s = Ok (None, s') \<and> card (free_set (vd s) - {i}) < n \<and>
         wk (set_vd (\<lambda>d. descs_freed ((idx @ [i]) @ js) (descs_taken js d)) ?s) s' \<and>
         set js = free_set (vd s) - {i} \<and> distinct js)"
      using Suc.IH [of ?s "idx @ [i]"] Suc.prems(1-3) by simp
    have step: "alloc_descs (Suc n) idx s = alloc_descs n (idx @ [i]) ?s"
      using some(1) by (simp add: eq)
    have taken: "set_vd (descs_taken js) ?s = set_vd (descs_taken (i # js)) s" for js
      by (simp add: descs_taken_def [abs_def])
    have undo: "set_vd (\<lambda>d. descs_freed ((idx @ [i]) @ js) (descs_taken js d)) ?s =
        set_vd (\<lambda>d. descs_freed (idx @ (i # js)) (descs_taken (i # js) d)) s" for js
      by (simp add: descs_taken_def [abs_def])
    have "finite (free_set (vd s))" by (simp add: free_set_def)
    then have card: "card (free_set (vd s) - {i}) < n \<Longrightarrow> card (free_set (vd s)) < Suc n"
      using some(2) by (simp add: card_Diff_singleton)
    from IH show ?thesis
    proof
      assume "\<exists>js. alloc_descs n (idx @ [i]) ?s = Ok (Some ((idx @ [i]) @ js), set_vd (descs_taken js) ?s) \<and>
         length js = n \<and> distinct js \<and> set js \<subseteq> free_set (vd s) - {i}"
      then obtain js where "alloc_descs n (idx @ [i]) ?s = Ok (Some ((idx @ [i]) @ js), set_vd (descs_taken js) ?s)"
        "length js = n" "distinct js" "set js \<subseteq> free_set (vd s) - {i}" by blast
      then show ?thesis
        using some(2) unfolding step taken by (intro disjI1 exI [of _ "i # js"]) auto
    next
      assume "\<exists>js s'. alloc_descs n (idx @ [i]) ?s = Ok (None, s') \<and> card (free_set (vd s) - {i}) < n \<and>
         wk (set_vd (\<lambda>d. descs_freed ((idx @ [i]) @ js) (descs_taken js d)) ?s) s' \<and>
         set js = free_set (vd s) - {i} \<and> distinct js"
      then obtain js s' where "alloc_descs n (idx @ [i]) ?s = Ok (None, s')" "card (free_set (vd s) - {i}) < n"
        "wk (set_vd (\<lambda>d. descs_freed ((idx @ [i]) @ js) (descs_taken js d)) ?s) s'"
        "set js = free_set (vd s) - {i}" "distinct js" by blast
      then show ?thesis
        using some(2) card unfolding step undo by (intro disjI2 exI [of _ "i # js"] exI [of _ s']) auto
    qed
  qed
qed

section \<open>Sleeping while the rest of the system works\<close>

text \<open>
  A system in which only \<open>p\<close> has something to do: between its \<^verbatim>\<open>swtch\<close> and the return the scheduler
  releases its lock, \<open>work\<close> happens (devices and interrupts), and the scheduler runs \<open>p\<close> again if it
  is RUNNABLE.
\<close>

definition idle_turn ::
    "('a kernel_scheme \<Rightarrow> 'a kernel_scheme outcome) \<Rightarrow> nat \<Rightarrow> 'a kernel_scheme \<Rightarrow> 'a kernel_scheme outcome" where
  "idle_turn work p s =
     andThen (krelease (ProcLock p) (set_cproc None s)) (\<lambda>s1.
     andThen (work s1) (\<lambda>s2.
     andThen (kacquire (ProcLock p) s2) (\<lambda>s3.
     if pstate (procs s3 ! p) = RUNNABLE
     then Ok (set_cproc (Some p) (set_proc p (\<lambda>q. q\<lparr>pstate := RUNNING\<rparr>) s3)) else Spin)))"

definition cp :: "nat option \<Rightarrow> machine \<Rightarrow> machine" where
  "cp c m = set_mycpu ((mycpu m)\<lparr>cproc := c\<rparr>) m"

lemma set_cproc_cp: "set_cproc c s = set_mach (cp c (kmach s)) s"
  by (simp add: set_cproc_def cp_def)

lemma cp_simps [simp]:
  "lock_free lk (cp c m) = lock_free lk m" "irq_ok (cp c m) = irq_ok m" "cproc (mycpu (cp c m)) = c"
  "noff (mycpu (cp c m)) = noff (mycpu m)" "intr_get (cp c m) = intr_get m" "cp c (cp d m) = cp c m"
  by (simp_all add: cp_def irq_ok_cproc)

lemma cp_same: "cproc (mycpu m) = c \<Longrightarrow> cp c m = m"
proof -
  assume "cproc (mycpu m) = c"
  then have "(mycpu m)\<lparr>cproc := c\<rparr> = mycpu m" by (cases "mycpu m") simp
  then show ?thesis by (simp add: cp_def)
qed

lemma taken_cp: "taken lk (cp c m) = cp c (taken lk m)"
  by (simp add: cp_def taken_cproc)

lemma touch_cp: "touch (cp c m) = cp c (touch m)"
proof -
  have "(mycpu m)\<lparr>cproc := c, intena := intr_get m\<rparr> = (mycpu m)\<lparr>intena := intr_get m, cproc := c\<rparr>" by simp
  from arg_cong [OF this, of "\<lambda>c. set_mycpu c m"] show ?thesis by (auto simp: touch_def cp_def)
qed

lemma taken_touch: "taken lk (touch m) = taken lk m"
proof -
  have "intr_off (set_mycpu c m) = set_mycpu c (intr_off m)" for c
    by (simp add: intr_off_def machine_defs)
  then show ?thesis by (simp add: taken_def push_off_eq touch_def)
qed

lemma sleep_idle_turn:
  fixes q :: "'a kernel_scheme"
  assumes run: "running p q" and free: "\<forall>lk. lock_free lk (kmach q)" and lk: "\<forall>i. lk \<noteq> ProcLock i"
    and work: "work (set_mach (cp None (touch (kmach q)))
       (set_proc p (\<lambda>r. r\<lparr>pchan := Some ch, pstate := SLEEPING\<rparr>) q)) = Ok w"
    and w: "kmach w = cp None (touch (kmach q))" "pstate (procs w ! p) = RUNNABLE" "length (procs w) = NPROC"
  shows "sleep (idle_turn work p) ch lk (set_mach (taken lk (kmach q)) q) =
     Ok (set_mach (taken lk (kmach q)) (set_proc p (\<lambda>r. r\<lparr>pstate := RUNNING, pchan := None\<rparr>) w))"
proof -
  let ?f = "\<lambda>r. r\<lparr>pchan := Some ch, pstate := SLEEPING\<rparr>" and ?M = "touch (kmach q)" and ?P = "ProcLock p"
  let ?t = "asleep p ch lk q"
  have r: "kready q" "p < NPROC" "cproc (mycpu (kmach q)) = Some p" "noff (mycpu (kmach q)) = 0"
    "irq_ok (kmach q)" using run by (auto simp: running_def kready_def)
  have fr: "lock_free l (cp c (touch (kmach q)))" for l c using free by simp
  have "set_cproc None ?t = set_proc p ?f (set_mach (taken ?P (cp None ?M)) q)"
    by (simp add: asleep_def set_cproc_cp set_proc_set_mach taken_cp)
  then have rel: "krelease ?P (set_cproc None ?t) = Ok (set_mach (cp None ?M) (set_proc p ?f q))"
    using krelease_view [of ?P "cp None ?M" "set_cproc None ?t"] r(5) fr
    by (simp add: set_proc_set_mach touch_cp)
  have acq: "kacquire ?P w = Ok (set_mach (taken ?P (cp None ?M)) w)"
    using kacquire_free [of ?P w] w(1) fr by simp
  let ?u = "set_cproc (Some p) (set_proc p (\<lambda>q. q\<lparr>pstate := RUNNING\<rparr>) (set_mach (taken ?P (cp None ?M)) w))"
  have turn: "idle_turn work p ?t = Ok ?u"
    unfolding idle_turn_def using rel work acq w(2) by simp
  have mu: "kmach ?u = taken ?P ?M"
    using cp_same [of ?M "Some p"] r(3) by (simp add: set_cproc_cp taken_cp [symmetric])
  have "intena (mycpu (taken ?P ?M)) = intr_get (kmach q)" using r(4) by (simp add: mycpu_taken)
  then have "(mycpu (taken ?P ?M))\<lparr>intena := intr_get (kmach q)\<rparr> = mycpu (taken ?P ?M)"
    by (cases "mycpu (taken ?P ?M)") simp
  moreover have "set_mach (taken ?P ?M) ?u = ?u" unfolding mu [symmetric] by (rule set_mach_simps)
  ultimately have ret: "sched_return (intr_get (kmach q)) ?u = ?u" by (simp add: sched_return_def mu)
  let ?v = "set_proc p (\<lambda>q. q\<lparr>pchan := None\<rparr>) ?u"
  have "krelease ?P ?v = Ok (set_mach ?M ?v)"
    using krelease_view [of ?P ?M ?v] free r(5) mu by simp
  moreover have "kacquire lk (set_mach ?M ?v) = Ok (set_mach (taken lk (kmach q)) ?v)"
    using kacquire_free [of lk "set_mach ?M ?v"] free by (simp add: taken_touch)
  moreover have "set_mach (taken lk (kmach q)) ?v =
      set_mach (taken lk (kmach q)) (set_proc p (\<lambda>r. r\<lparr>pstate := RUNNING, pchan := None\<rparr>) w)"
    using w(3) r(2) by (simp add: set_cproc_cp set_proc_def set_mach_def)
  ultimately have "sleep_return p lk ?u =
      Ok (set_mach (taken lk (kmach q)) (set_proc p (\<lambda>r. r\<lparr>pstate := RUNNING, pchan := None\<rparr>) w))"
    by (simp add: sleep_return_def)
  then show ?thesis
    using sleep_eq [OF run] free lk turn ret by simp
qed

section \<open>The device and the interrupt\<close>

text \<open>
  What the virtio specification (5.2, 2.6) says a block device does with the oldest request it has
  not used yet: transfer one block between the data buffer and the sectors of the request, write
  0 to the status byte and add the head of the chain to the used ring.
\<close>

definition serve :: "'a fskernel_scheme \<Rightarrow> 'a fskernel_scheme" where
  "serve s =
     (let d = vd s; h = avail_ring d ! (unat (used_dev_idx d) mod NUM);
          d0 = desc d ! unat h; d1 = desc d ! unat (desc_next d0); d2 = desc d ! unat (desc_next d1) in
      case (desc_addr d0, desc_addr d1, desc_addr d2) of
        (AtOps i, AtData b, AtStatus j) \<Rightarrow>
          let k = unat (req_sector (ops d ! i)) div 2 in
          set_vd (\<lambda>d. d\<lparr>info_status := (info_status d)[j := 0],
              used_ring := (used_ring d)[unat (used_dev_idx d) mod NUM := ucast h], used_dev_idx := used_dev_idx d + 1\<rparr>)
            (fs_upd (\<lambda>v. if req_type (ops d ! i) = VIRTIO_BLK_T_OUT
               then v\<lparr>platter := (platter v)(k := bdata (bufs v ! b))\<rparr>
               else v\<lparr>bufs := (bufs v)[b := (bufs v ! b)\<lparr>bdata := platter v k\<rparr>]\<rparr>) s)
      | _ \<Rightarrow> s)"

definition device_ok :: "('a fskernel_scheme \<Rightarrow> 'a fskernel_scheme outcome) \<Rightarrow> bool" where
  "device_ok dev \<longleftrightarrow> (\<forall>s. used_dev_idx (vd s) + 1 = avail_idx (vd s) \<longrightarrow> dev s = Ok (serve s))"

definition disk_work ::
    "('a fskernel_scheme \<Rightarrow> 'a fskernel_scheme outcome) \<Rightarrow> 'a fskernel_scheme \<Rightarrow> 'a fskernel_scheme outcome" where
  "disk_work dev s = andThen (dev s) virtio_disk_intr"

definition virtio_env ::
    "('a fskernel_scheme \<Rightarrow> 'a fskernel_scheme outcome) \<Rightarrow> nat \<Rightarrow> 'a fskernel_scheme env" where
  "virtio_env dev p = (let sw = idle_turn (disk_work dev) p in
     \<lparr>env_sw = sw, env_fuel = 1, env_rw = virtio_disk_rw 1 sw\<rparr>)"

lemma set_mach_commutes:
  "set_vd f (set_mach m s) = set_mach m (set_vd f s)" "fs_upd g (set_mach m s) = set_mach m (fs_upd g s)"
  "set_buf b h (set_mach m s) = set_mach m (set_buf b h s)"
  by (simp_all add: set_vd_def fs_upd_def set_buf_def set_mach_def)

lemma set_buf_simps [simp]:
  "pm (set_buf b h s) = pm s" "procs (set_buf b h s) = procs s" "vd (set_buf b h s) = vd s"
  "min_accumulator (set_buf b h s) = min_accumulator s" "kready (set_buf b h s) = kready s"
  "fs (set_buf b h s) = (fs s)\<lparr>bufs := (bufs (fs s))[b := h (bufs (fs s) ! b)]\<rparr>" "nextpid (set_buf b h s) = nextpid s"
  "initproc (set_buf b h s) = initproc s" "sched_policy (set_buf b h s) = sched_policy s"
  "ticks (set_buf b h s) = ticks s" "trampoline (set_buf b h s) = trampoline s"
  "forkret_addr (set_buf b h s) = forkret_addr s" "fskernel.more (set_buf b h s) = fskernel.more s"
  by (simp_all add: set_buf_def kready_def)

lemma virtio_disk_intr_one:
  fixes x :: "'a fskernel_scheme"
  assumes ready: "kready x" and free: "lock_free VdiskLock (kmach x)" and t: "touch (kmach x) = kmach x"
    and one: "used_idx (vd x) + 1 = used_dev_idx (vd x)"
    and i: "i = unat (used_ring (vd x) ! (unat (used_idx (vd x)) mod NUM))"
    and st: "info_status (vd x) ! i = 0" and b: "info_b (vd x) ! i = Some b"
  shows "\<exists>y. virtio_disk_intr x = Ok (set_vd (\<lambda>d. d\<lparr>used_idx := used_idx d + 1\<rparr>) y) \<and>
     wk (set_buf b (\<lambda>u. u\<lparr>bdisk := False\<rparr>) x) y \<and>
     (\<forall>i < NPROC. cproc (mycpu (kmach x)) \<noteq> Some i \<longrightarrow> pstate (procs x ! i) = SLEEPING \<longrightarrow>
        pchan (procs x ! i) = Some (ChDisk b) \<longrightarrow> pstate (procs y ! i) = RUNNABLE)"
proof -
  let ?m = "taken VdiskLock (kmach x)"
  let ?x = "set_mach ?m (set_buf b (\<lambda>u. u\<lparr>bdisk := False\<rparr>) x)"
  have irq: "irq_ok (kmach x)" using ready by (simp add: kready_def)
  have "kready ?x" using kready_taken [OF ready, of VdiskLock ?x] by simp
  then obtain y where y: "wakeup (Some (ChDisk b)) ?x = Ok y" "wk ?x y"
    "\<forall>i < NPROC. cproc (mycpu (kmach x)) \<noteq> Some i \<longrightarrow> pstate (procs x ! i) = SLEEPING \<longrightarrow>
        pchan (procs x ! i) = Some (ChDisk b) \<longrightarrow> pstate (procs y ! i) = RUNNABLE"
    using wakeup_wk [of ?x "Some (ChDisk b)"] irq by (auto simp: mycpu_taken)
  let ?g = "\<lambda>d. d\<lparr>used_idx := used_idx d + 1\<rparr>"
  have ne: "used_idx (vd x) \<noteq> used_dev_idx (vd x)" using one by auto
  have "virtio_intr_loop (Suc n) (set_mach ?m x) = virtio_intr_loop n (set_vd ?g y)" for n
    using ne st b y(1) by (simp add: i [symmetric] set_mach_commutes Let_def)
  moreover have "virtio_intr_loop n (set_vd ?g y) = Ok (set_vd ?g y)" for n
    using wk_simps(3) [OF y(2)] one by (cases n) simp_all
  ultimately have "virtio_intr_loop (Suc 65535) (set_mach ?m x) = Ok (set_vd ?g y)" by metis
  then have loop: "virtio_intr_loop 65536 (set_mach ?m x) = Ok (set_vd ?g y)" by simp
  have "krelease VdiskLock (set_vd ?g y) = Ok (set_mach (kmach x) (set_vd ?g y))"
    using krelease_view [OF free irq, of "set_vd ?g y"] wk_simps(2) [OF y(2)] t by simp
  then have run: "virtio_disk_intr x = Ok (set_vd ?g (set_mach (kmach x) y))"
    using kacquire_free [OF free] loop by (simp add: virtio_disk_intr_def set_mach_commutes)
  have "wk (set_buf b (\<lambda>u. u\<lparr>bdisk := False\<rparr>) x) (set_mach (kmach x) y)"
  proof -
    obtain f where f: "y = ?x\<lparr>procs := f\<rparr>" "length f = length (procs ?x)"
      "\<forall>i < NPROC. woke (cproc (mycpu (kmach ?x))) (min_accumulator ?x) (procs ?x ! i) (f ! i) i"
      using y(2) unfolding wk_def by blast
    have "set_mach (kmach x) y = (set_buf b (\<lambda>u. u\<lparr>bdisk := False\<rparr>) x)\<lparr>procs := f\<rparr>"
      unfolding f(1) by (cases x) (simp add: set_mach_def set_buf_def fs_upd_def)
    with f(2,3) show ?thesis unfolding wk_def by (auto simp: mycpu_taken)
  qed
  with run y(3) show ?thesis by (intro exI [of _ "set_mach (kmach x) y"]) simp
qed

section \<open>A whole request\<close>

fun desc_chain :: "virtq_desc list \<Rightarrow> nat list \<Rightarrow> bool" where
  "desc_chain ds [] \<longleftrightarrow> False"
| "desc_chain ds [i] \<longleftrightarrow> desc_flags (ds ! i) AND VRING_DESC_F_NEXT = 0"
| "desc_chain ds (i # j # js) \<longleftrightarrow> desc_flags (ds ! i) AND VRING_DESC_F_NEXT \<noteq> 0 \<and>
     unat (desc_next (ds ! i)) = j \<and> desc_chain ds (j # js)"

lemma desc_chain_update:
  "desc_chain ds js \<Longrightarrow> i \<notin> set js \<Longrightarrow> desc_chain (ds[i := z]) js"
  by (induction ds js rule: desc_chain.induct) auto

lemma free_descs_Nil [simp]: "free_descs [] = Ok"
  by (rule ext) simp

lemma free_chain_is_free_descs:
  assumes "desc_chain (desc (vd s)) (i # js)" and "distinct (i # js)" and "length (i # js) \<le> fuel"
    and "kready s" and "touch (kmach s) = kmach s" and "length (dfree (vd s)) = NUM"
    and "\<forall>j \<in> set (i # js). j < NUM \<and> \<not> dfree (vd s) ! j"
  shows "free_chain_loop fuel i s = free_descs (i # js) s"
  using assms
proof (induction js arbitrary: i s fuel)
  case Nil
  then show ?case by (cases fuel) auto
next
  case (Cons j js)
  obtain n where n: "fuel = Suc n" "length (j # js) \<le> n" using Cons.prems(3) by (cases fuel) auto
  obtain s1 where s1: "free_descs [i] s = Ok s1" "wk (set_vd (descs_freed [i]) s) s1"
    using free_descs_frees [OF Cons.prems(4,5), of "[i]"] Cons.prems(6,7) by auto
  then have one: "free_desc i s = Ok s1" by simp
  note w = wk_simps [OF s1(2)]
  have d1: "desc (vd s1) = (desc (vd s))[i := zero_desc]" "dfree (vd s1) = (dfree (vd s))[i := True]"
    using w(3) by (simp_all add: descs_freed_def)
  have "free_chain_loop n j s1 = free_descs (j # js) s1"
  proof (rule Cons.IH [OF _ _ n(2)])
    show "desc_chain (desc (vd s1)) (j # js)"
      using Cons.prems(1,2) desc_chain_update by (simp add: d1)
    show "kready s1" "touch (kmach s1) = kmach s1" "length (dfree (vd s1)) = NUM"
      using Cons.prems(4-6) w by (simp_all add: descs_freed_def)
    show "\<forall>k \<in> set (j # js). k < NUM \<and> \<not> dfree (vd s1) ! k"
    proof
      fix k assume "k \<in> set (j # js)"
      then show "k < NUM \<and> \<not> dfree (vd s1) ! k" using Cons.prems(2,7) by (cases "k = i") (auto simp: d1)
    qed
  qed (use Cons.prems(2) in simp)
  moreover have "desc_flags (desc (vd s) ! i) AND VRING_DESC_F_NEXT \<noteq> 0"
    "unat (desc_next (desc (vd s) ! i)) = j" using Cons.prems(1) by auto
  ultimately show ?case using one by (simp add: n(1) Let_def)
qed

lemma alloc3_idle:
  assumes "vd_idle (vd s)"
  shows "alloc3_desc s = Ok (Some [0, 1, 2], set_vd (descs_taken [0, 1, 2]) s)"
proof -
  have "dfree (vd s) = [True, True, True, True, True, True, True, True]"
    using assms by (simp add: vd_idle_def NUM_def numeral_eq_Suc)
  moreover have "[0..<NUM] = [0, 1, 2, 3, 4, 5, 6, 7]" by (simp add: NUM_def upt_rec)
  ultimately show ?thesis
    by (simp add: alloc3_desc_def numeral_3_eq_3 alloc_desc_def descs_taken_def set_vd_def)
qed

definition rw_effect :: "nat \<Rightarrow> bool \<Rightarrow> fsstate \<Rightarrow> fsstate" where
  "rw_effect b write v =
     (let k = unat (bblockno (bufs v ! b)) in
      if write then v\<lparr>platter := (platter v)(k := bdata (bufs v ! b)),
             bufs := (bufs v)[b := (bufs v ! b)\<lparr>bdisk := False\<rparr>]\<rparr>
      else v\<lparr>bufs := (bufs v)[b := (bufs v ! b)\<lparr>bdata := platter v k, bdisk := False\<rparr>]\<rparr>)"

text \<open>The driver's state with one request in the ring, from an idle driver.\<close>

definition posted :: "nat \<Rightarrow> bool \<Rightarrow> uint64 \<Rightarrow> vdisk \<Rightarrow> vdisk" where
  "posted b write sector d = format_request b write sector 0 1 2 (descs_taken [0, 1, 2] d)"

lemma posted_facts:
  assumes "vd_idle d"
  shows "avail_ring (posted b write sector d) ! (unat (used_dev_idx (posted b write sector d)) mod NUM) = 0"
    and "used_dev_idx (posted b write sector d) + 1 = avail_idx (posted b write sector d)"
    and "used_idx (posted b write sector d) = used_dev_idx (posted b write sector d)"
    and "ops (posted b write sector d) ! 0 =
      \<lparr>req_type = (if write then VIRTIO_BLK_T_OUT else VIRTIO_BLK_T_IN), req_reserved = 0, req_sector = sector\<rparr>"
    and "info_b (posted b write sector d) ! 0 = Some b"
    and "length (info_status (posted b write sector d)) = NUM" "length (used_ring (posted b write sector d)) = NUM"
  using assms
  by (simp_all add: posted_def format_request_def Let_def descs_taken_def vd_idle_def NUM_def)

lemma posted_desc:
  assumes "vd_idle d"
  shows "desc (posted b write sector d) =
    [\<lparr>desc_addr = AtOps 0, desc_len = 16, desc_flags = VRING_DESC_F_NEXT, desc_next = 1\<rparr>,
     \<lparr>desc_addr = AtData b, desc_len = of_nat BSIZE,
      desc_flags = (if write then 0 else VRING_DESC_F_WRITE) OR VRING_DESC_F_NEXT, desc_next = 2\<rparr>,
     \<lparr>desc_addr = AtStatus 0, desc_len = 1, desc_flags = VRING_DESC_F_WRITE, desc_next = 0\<rparr>,
     zero_desc, zero_desc, zero_desc, zero_desc, zero_desc]"
    and "dfree (posted b write sector d) = [False, False, False, True, True, True, True, True]"
proof -
  have "desc d = replicate 8 zero_desc" "dfree d = replicate 8 True"
    using assms by (simp_all add: vd_idle_def NUM_def)
  then show "desc (posted b write sector d) =
    [\<lparr>desc_addr = AtOps 0, desc_len = 16, desc_flags = VRING_DESC_F_NEXT, desc_next = 1\<rparr>,
     \<lparr>desc_addr = AtData b, desc_len = of_nat BSIZE,
      desc_flags = (if write then 0 else VRING_DESC_F_WRITE) OR VRING_DESC_F_NEXT, desc_next = 2\<rparr>,
     \<lparr>desc_addr = AtStatus 0, desc_len = 1, desc_flags = VRING_DESC_F_WRITE, desc_next = 0\<rparr>,
     zero_desc, zero_desc, zero_desc, zero_desc, zero_desc]"
    and "dfree (posted b write sector d) = [False, False, False, True, True, True, True, True]"
    by (simp_all add: posted_def format_request_def Let_def descs_taken_def numeral_eq_Suc)
qed

text \<open>After the device and the interrupt: what is left is to free the three descriptors.\<close>

definition served :: "vdisk \<Rightarrow> vdisk" where
  "served d = d\<lparr>info_status := (info_status d)[0 := 0],
     used_ring := (used_ring d)[unat (used_dev_idx d) mod NUM := 0], used_dev_idx := used_dev_idx d + 1\<rparr>"

lemma serve_posted:
  assumes "vd_idle d" and "vd s = posted b write sector d" and "sector = ucast (k :: uint32)"
  shows "serve s = set_vd served (fs_upd (\<lambda>v. if write
     then v\<lparr>platter := (platter v)(unat k div 2 := bdata (bufs v ! b))\<rparr>
     else v\<lparr>bufs := (bufs v)[b := (bufs v ! b)\<lparr>bdata := platter v (unat k div 2)\<rparr>]\<rparr>) s)"
proof -
  have "unat k < 2 ^ 32" using unsigned_less [of k] by simp
  then have "unat sector = unat k" using assms(3) by (simp add: unsigned_ucast_eq take_bit_nat_eq_self)
  then show ?thesis
    using posted_facts [OF assms(1), of b "write" sector] assms(2)
    by (simp add: serve_def Let_def posted_desc [OF assms(1)] served_def [abs_def] VIRTIO_BLK_T_OUT_def
        VIRTIO_BLK_T_IN_def)
qed

lemma idle_again:
  assumes "vd_idle d"
  shows "vd_idle (descs_freed [0, 1, 2] ((\<lambda>d. d\<lparr>info_b := (info_b d)[0 := None]\<rparr>)
     ((\<lambda>d. d\<lparr>used_idx := used_idx d + 1\<rparr>) (served (posted b write sector d)))))"
proof -
  have rep: "replicate NUM x = [x, x, x, x, x, x, x, x]" for x :: 'b by (simp add: NUM_def numeral_eq_Suc)
  have two: "[x0, x1, x2, x3, x4, x5, x6, x7][2 := y] = [x0, x1, y, x3, x4, x5, x6, x7]"
    for x0 x1 x2 x3 x4 x5 x6 x7 y :: 'c by (simp add: numeral_2_eq_2)
  have "length (avail_ring (posted b write sector d)) = NUM" "length (info_b (posted b write sector d)) = NUM"
    "length (ops (posted b write sector d)) = NUM"
    using assms by (simp_all add: posted_def format_request_def Let_def descs_taken_def vd_idle_def)
  then show ?thesis
    using posted_facts(2,3,6,7) [OF assms, of b "write" sector]
    unfolding vd_idle_def descs_freed_def served_def rep by (simp add: posted_desc [OF assms] two)
qed

lemma chain_posted:
  assumes "vd_idle d" and "desc e = desc (posted b write sector d)"
  shows "desc_chain (desc e) [0, 1, 2]"
  unfolding assms(2) posted_desc(1) [OF assms(1)]
  by (simp add: VRING_DESC_F_NEXT_def VRING_DESC_F_WRITE_def)

lemma free_posted:
  assumes "vd_idle d" and "vd s = (\<lambda>d. d\<lparr>info_b := (info_b d)[0 := None]\<rparr>)
      ((\<lambda>d. d\<lparr>used_idx := used_idx d + 1\<rparr>) (served (posted b write sector d)))"
    and "kready s" and "touch (kmach s) = kmach s"
  shows "\<exists>s'. free_desc_chain 0 s = Ok s' \<and> wk (set_vd (descs_freed [0, 1, 2]) s) s'"
proof -
  have d: "desc (vd s) = desc (posted b write sector d)" "dfree (vd s) = dfree (posted b write sector d)"
    by (simp_all add: assms(2) served_def)
  have len: "length (dfree (vd s)) = NUM" and nf: "\<forall>j \<in> set [0, 1, 2]. j < NUM \<and> \<not> dfree (vd s) ! j"
    unfolding d(2) posted_desc(2) [OF assms(1)] by (simp_all add: NUM_def numeral_2_eq_2)
  have dist: "distinct [0, 1, 2 :: nat]" by simp
  have "free_desc_chain 0 s = free_descs [0, 1, 2] s"
    unfolding free_desc_chain_def
    using chain_posted [OF assms(1) d(1)] dist assms(3,4) len nf
    by (intro free_chain_is_free_descs) (simp_all add: NUM_def)
  then show ?thesis using free_descs_frees [OF assms(3,4) dist len nf] by simp
qed

text \<open>The sleep in \<^verbatim>\<open>virtio_disk_rw\<close>: \<open>q\<close> is the state without the driver's lock.\<close>

lemma sleep_on_request:
  fixes q :: "'a fskernel_scheme"
  assumes dev: "device_ok dev" and run: "running p q" and free: "\<forall>lk. lock_free lk (kmach q)"
    and d: "vd_idle d" "vd q = posted b write sector d" "sector = ucast (k :: uint32)"
    and h: "h = (\<lambda>v. if write then v\<lparr>platter := (platter v)(unat k div 2 := bdata (bufs v ! b))\<rparr>
      else v\<lparr>bufs := (bufs v)[b := (bufs v ! b)\<lparr>bdata := platter v (unat k div 2)\<rparr>]\<rparr>)"
  shows "\<exists>z. sleep (idle_turn (disk_work dev) p) (ChDisk b) VdiskLock (set_mach (taken VdiskLock (kmach q)) q) =
       Ok (set_mach (taken VdiskLock (kmach q)) z) \<and>
     vd z = (\<lambda>d. d\<lparr>used_idx := used_idx d + 1\<rparr>) (served (vd q)) \<and>
     fs z = (h (fs q))\<lparr>bufs := (bufs (h (fs q)))[b := (bufs (h (fs q)) ! b)\<lparr>bdisk := False\<rparr>]\<rparr> \<and>
     (pstate (procs q ! p) = RUNNING \<longrightarrow> quiet p q (set_mach (kmach q) (z\<lparr>vd := d\<rparr>)))"
proof -
  let ?f = "\<lambda>r. r\<lparr>pchan := Some (ChDisk b), pstate := SLEEPING\<rparr>"
  let ?u = "set_mach (cp None (touch (kmach q))) (set_proc p ?f q)"
  have r: "kready q" "p < NPROC" "length (procs q) = NPROC" "irq_ok (kmach q)" "cproc (mycpu (kmach q)) = Some p"
    using run by (auto simp: running_def kready_def)
  have "vd ?u = posted b write sector d" using d(2) by simp
  note sv = serve_posted [OF d(1) this d(3)]
  let ?x = "set_vd served (fs_upd h ?u)"
  have x: "dev ?u = Ok ?x"
    using dev sv posted_facts(2) [OF d(1)] d(2) by (simp add: device_ok_def h)
  have lens: "length (used_ring (posted b write sector d)) = NUM" "length (info_status (posted b write sector d)) = NUM"
    using posted_facts(6,7) [OF d(1)] by auto
  have "0 < NUM" by (simp add: NUM_def)
  then have bound: "unat (used_dev_idx (posted b write sector d)) mod NUM < NUM" by (rule mod_less_divisor)
  have "\<exists>y. virtio_disk_intr ?x = Ok (set_vd (\<lambda>d. d\<lparr>used_idx := used_idx d + 1\<rparr>) y) \<and>
      wk (set_buf b (\<lambda>u. u\<lparr>bdisk := False\<rparr>) ?x) y \<and>
      (\<forall>i < NPROC. cproc (mycpu (kmach ?x)) \<noteq> Some i \<longrightarrow> pstate (procs ?x ! i) = SLEEPING \<longrightarrow>
        pchan (procs ?x ! i) = Some (ChDisk b) \<longrightarrow> pstate (procs y ! i) = RUNNABLE)"
  proof (rule virtio_disk_intr_one [where i = 0])
    show "kready ?x" using r free by (simp add: kready_def)
    show "used_idx (vd ?x) + 1 = used_dev_idx (vd ?x)"
      using posted_facts(3) [OF d(1)] d(2) by (simp add: served_def)
    show "0 = unat (used_ring (vd ?x) ! (unat (used_idx (vd ?x)) mod NUM))"
      using posted_facts(3) [OF d(1)] d(2) bound lens by (simp add: served_def)
  qed (use free posted_facts(5) [OF d(1)] lens d(2) in \<open>simp_all add: touch_cp served_def NUM_def\<close>)
  then obtain y where y: "virtio_disk_intr ?x = Ok (set_vd (\<lambda>d. d\<lparr>used_idx := used_idx d + 1\<rparr>) y)"
    "wk (set_buf b (\<lambda>u. u\<lparr>bdisk := False\<rparr>) ?x) y" "pstate (procs y ! p) = RUNNABLE"
    using r by fastforce
  let ?w = "set_vd (\<lambda>d. d\<lparr>used_idx := used_idx d + 1\<rparr>) y"
  let ?z = "set_proc p (\<lambda>r. r\<lparr>pstate := RUNNING, pchan := None\<rparr>) ?w"
  note w = wk_simps [OF y(2)]
  have "sleep (idle_turn (disk_work dev) p) (ChDisk b) VdiskLock (set_mach (taken VdiskLock (kmach q)) q) =
      Ok (set_mach (taken VdiskLock (kmach q)) ?z)"
  proof (rule sleep_idle_turn [OF run free])
    show "disk_work dev ?u = Ok ?w" using x y(1) by (simp add: disk_work_def)
  qed (use w y(3) r in simp_all)
  moreover have "vd ?z = (\<lambda>d. d\<lparr>used_idx := used_idx d + 1\<rparr>) (served (vd q))" using w(3) by simp
  moreover have "fs ?z = (h (fs q))\<lparr>bufs := (bufs (h (fs q)))[b := (bufs (h (fs q)) ! b)\<lparr>bdisk := False\<rparr>]\<rparr>"
    using w(4) by simp
  moreover have "quiet p q (set_mach (kmach q) (?z\<lparr>vd := d\<rparr>))" if "pstate (procs q ! p) = RUNNING"
  proof -
    obtain f where f: "y = (set_buf b (\<lambda>u. u\<lparr>bdisk := False\<rparr>) ?x)\<lparr>procs := f\<rparr>" "length f = NPROC"
      "\<forall>i < NPROC. woke None (min_accumulator q) (procs ?x ! i) (f ! i) i"
      using y(2) r(3) unfolding wk_def by (auto simp: set_proc_simps)
    have "pview p i (procs ?z ! i) = pview p i (procs q ! i)" if "i < NPROC" for i
      using f that r(2,3) \<open>pstate (procs q ! p) = RUNNING\<close>
      by (cases "i = p") (auto simp: pview_def woke_def)
    moreover have "pstate (procs ?z ! p) = RUNNING" "length (procs ?z) = NPROC" using f r(2) by simp_all
    ultimately show ?thesis
      using r free run d(1) by (simp add: quiet_def sys_ok_def running_def kready_def f(1))
  qed
  ultimately show ?thesis by blast
qed

lemma sector_block: "unat b < 2 ^ 31 \<Longrightarrow> unat (b * (of_nat BSIZE div 512) :: uint32) div 2 = unat b"
proof -
  assume "unat b < 2 ^ 31"
  moreover have two: "of_nat BSIZE div 512 = (2 :: uint32)" by (simp add: BSIZE_def)
  ultimately show ?thesis unfolding two by (simp add: unat_word_ariths)
qed

lemma virtio_rw_does:
  assumes dev: "device_ok dev" and ok: "sys_ok p s" and b: "b < length (bufs (fs s))"
    and k: "unat (bblockno (bufs (fs s) ! b)) < 2 ^ 31"
  shows "does p s (virtio_disk_rw (Suc n) (idle_turn (disk_work dev) p) b write s) (rw_effect b write (fs s))"
proof -
  let ?sw = "idle_turn (disk_work dev) p" and ?V = VdiskLock and ?d = "vd s"
  let ?k = "bblockno (bufs (fs s) ! b) * (of_nat BSIZE div 512)"
  let ?q = "set_buf b (\<lambda>u. u\<lparr>bdisk := True\<rparr>) (set_vd (posted b write (ucast ?k)) s)"
  note sok = sys_okD [OF ok]
  have idle: "vd_idle ?d" and run: "running p s" and rp: "pstate (procs s ! p) = RUNNING" using ok by (auto simp: sys_ok_def)
  have q: "running p ?q" "\<forall>lk. lock_free lk (kmach ?q)" "vd ?q = posted b write (ucast ?k) ?d"
    using run sok(1) by (simp_all add: running_def)
  define h :: "fsstate \<Rightarrow> fsstate" where "h = (\<lambda>v. if write then v\<lparr>platter := (platter v)(unat ?k div 2 := bdata (bufs v ! b))\<rparr>
      else v\<lparr>bufs := (bufs v)[b := (bufs v ! b)\<lparr>bdata := platter v (unat ?k div 2)\<rparr>]\<rparr>)"
  obtain z where z: "sleep ?sw (ChDisk b) ?V (set_mach (taken ?V (kmach s)) ?q) = Ok (set_mach (taken ?V (kmach s)) z)"
    "vd z = (\<lambda>d. d\<lparr>used_idx := used_idx d + 1\<rparr>) (served (vd ?q))"
    "fs z = (h (fs ?q))\<lparr>bufs := (bufs (h (fs ?q)))[b := (bufs (h (fs ?q)) ! b)\<lparr>bdisk := False\<rparr>]\<rparr>"
    "quiet p ?q (set_mach (kmach s) (z\<lparr>vd := ?d\<rparr>))"
    using sleep_on_request [OF dev q(1,2) idle q(3) refl h_def] rp by auto
  have eff: "fs z = rw_effect b write (fs s)"
    using b unfolding z(3) h_def rw_effect_def Let_def sector_block [OF k] by (simp add: nth_list_update)
  have alloc: "virtio_alloc_wait (Suc n) ?sw (set_mach (taken ?V (kmach s)) s) =
      Ok ([0, 1, 2], set_mach (taken ?V (kmach s)) (set_vd (descs_taken [0, 1, 2]) s))"
    using alloc3_idle [of "set_mach (taken ?V (kmach s)) s"] idle
    by (simp add: virtio_alloc_wait.simps set_mach_commutes)
  have fmt: "set_buf b (\<lambda>u. u\<lparr>bdisk := True\<rparr>) (set_vd (format_request b write (ucast ?k) ([0, 1, 2] ! 0) ([0, 1, 2] ! 1) ([0, 1, 2] ! 2))
      (set_mach (taken ?V (kmach s)) (set_vd (descs_taken [0, 1, 2]) s))) = set_mach (taken ?V (kmach s)) ?q"
    by (simp add: set_mach_commutes posted_def [abs_def])
  have "bdisk (bufs (fs z) ! b) = False" using b by (simp add: eff rw_effect_def Let_def)
  then have stop: "virtio_done_wait n ?sw b (set_mach m z) = Ok (set_mach m z)" for m by (cases n) simp_all
  have wait: "virtio_done_wait (Suc n) ?sw b (set_mach (taken ?V (kmach s)) ?q) = Ok (set_mach (taken ?V (kmach s)) z)"
    using z(1) b stop by simp
  let ?z = "set_vd (\<lambda>d. d\<lparr>info_b := (info_b d)[0 := None]\<rparr>) (set_mach (taken ?V (kmach s)) z)"
  have zq: "kready (set_mach (kmach s) (z\<lparr>vd := ?d\<rparr>))" using z(4) sys_okD(3) quiet_ok by blast
  then have ready: "kready ?z"
    using kready_taken [OF zq, of ?V "set_mach (taken ?V (kmach s)) (z\<lparr>vd := ?d\<rparr>)"]
    by (simp add: kready_def)
  have vz: "vd ?z = (\<lambda>d. d\<lparr>info_b := (info_b d)[0 := None]\<rparr>) ((\<lambda>d. d\<lparr>used_idx := used_idx d + 1\<rparr>)
      (served (posted b write (ucast ?k) ?d)))" using z(2) q(3) by simp
  have "touch (kmach ?z) = kmach ?z" using sok(2) by simp
  with free_posted [OF idle vz ready] obtain t
    where t: "free_desc_chain 0 ?z = Ok t" "wk (set_vd (descs_freed [0, 1, 2]) ?z) t" by blast
  note w = wk_simps [OF t(2)]
  have "krelease ?V t = Ok (set_mach (touch (kmach s)) t)"
    using krelease_view [OF sok(1,2), of t ?V] w(2) by simp
  then have "virtio_disk_rw (Suc n) ?sw b write s = Ok (set_mach (touch (kmach s)) t)"
    using fs_section(1) [OF ok, of ?V] alloc fmt wait t(1)
    by (simp add: virtio_disk_rw_def Let_def del: virtio_done_wait.simps)
  moreover have "fs t = rw_effect b write (fs s)" using w(4) eff by simp
  moreover have "quiet p s (set_mach (touch (kmach s)) t)"
  proof -
    obtain f where f: "t = (set_vd (descs_freed [0, 1, 2]) ?z)\<lparr>procs := f\<rparr>" "length f = length (procs z)"
      "\<forall>i < NPROC. woke (Some p) (min_accumulator z) (procs z ! i) (f ! i) i"
      using t(2) sok(4) unfolding wk_def by (auto simp: mycpu_taken)
    have pv: "\<forall>i < NPROC. pview p i (f ! i) = pview p i (procs z ! i)"
      using f(3) by (auto simp: pview_def woke_def)
    have vt: "vd_idle (vd t)" using w(3) vz idle_again [OF idle] by simp
    have "p < NPROC" "pstate (procs z ! p) = RUNNING" using z(4) sok(5) by (auto simp: quiet_def sys_ok_def)
    then have "pstate (f ! p) = RUNNING" using f(3) by (auto simp: woke_def)
    then show ?thesis
      using z(4) pv vt f(2) unfolding quiet_def sys_ok_def running_def kready_def
      by (simp add: f(1))
  qed
  ultimately show ?thesis by (simp add: does_def)
qed

section \<open>The driver's contract\<close>

text \<open>
  What the buffer cache relies on: a request moves the block that the buffer names. \<open>I\<close> is a
  condition on the disk's contents that the client keeps with every write, so that it holds of the
  disk whenever the power may fail.
\<close>

locale disk_driver =
  fixes e :: "'a fskernel_scheme env" and p :: nat and I :: "(nat \<Rightarrow> uint8 list) \<Rightarrow> bool"
  assumes rw_does: "sys_ok p s \<Longrightarrow> b < length (bufs (fs s)) \<Longrightarrow> unat (bblockno (bufs (fs s) ! b)) < 2 ^ 31 \<Longrightarrow>
     wr \<longrightarrow> I (platter (rw_effect b wr (fs s))) \<Longrightarrow> does p s (env_rw e b wr s) (rw_effect b wr (fs s))"
begin

lemma write_then_read:
  assumes "sys_ok p s" and "b < length (bufs (fs s))" and "unat (bblockno (bufs (fs s) ! b)) < 2 ^ 31"
    and "True \<longrightarrow> I (platter (rw_effect b True (fs s)))"
  shows "does p s (andThen (env_rw e b True s) (env_rw e b False)) (rw_effect b True (fs s))"
proof (rule does_bind [OF rw_does [OF assms]])
  fix s' assume s': "quiet p s s'" "fs s' = rw_effect b True (fs s)"
  have "rw_effect b False (rw_effect b True (fs s)) = rw_effect b True (fs s)"
    using assms(2) by (simp add: rw_effect_def Let_def)
  then show "does p s' (env_rw e b False s') (rw_effect b True (fs s))"
    using rw_does [OF quiet_ok [OF s'(1)], of b False] assms(2,3) s'(2) by (simp add: rw_effect_def Let_def)
qed

end

lemma virtio_env_rw_does:
  assumes "sys_ok p s" and "b < length (bufs (fs s))" and "unat (bblockno (bufs (fs s) ! b)) < 2 ^ 31"
  shows "does p s (env_rw (virtio_env (\<lambda>s. Ok (serve s)) p) b wr s) (rw_effect b wr (fs s))"
proof -
  have "device_ok (\<lambda>s :: 'a fskernel_scheme. Ok (serve s))" by (simp add: device_ok_def)
  then show ?thesis using virtio_rw_does [of _ p s b 0 wr] assms by (simp add: virtio_env_def Let_def)
qed

text \<open>
  A run with the driver \<open>guarded I e\<close> stops before the first write that would leave the disk in a
  state that violates \<open>I\<close>. If it ends with \<^const>\<open>Ok\<close>, every state the disk went through satisfies \<open>I\<close>.
\<close>

definition guarded :: "((nat \<Rightarrow> uint8 list) \<Rightarrow> bool) \<Rightarrow> 'a fskernel_scheme env \<Rightarrow> 'a fskernel_scheme env" where
  "guarded I e = e\<lparr>env_rw := \<lambda>b wr s.
     if wr \<and> \<not> I (platter (rw_effect b wr (fs s))) then Panic ''disk state'' else env_rw e b wr s\<rparr>"

interpretation vdrv: disk_driver "virtio_env (\<lambda>s. Ok (serve s)) p" p "\<lambda>_. True" for p
  by unfold_locales (rule virtio_env_rw_does)

interpretation gdrv: disk_driver "guarded I (virtio_env (\<lambda>s. Ok (serve s)) p)" p I for p I
  by unfold_locales (auto simp: guarded_def intro!: virtio_env_rw_does)

section \<open>Properties\<close>


definition one_buf_fs :: fsstate where
  "one_buf_fs = boot_fs\<lparr>bufs := [\<lparr>bvalid = False, bdisk = False, bdev = 1, bblockno = 7, brefcnt = 1,
     bprev = 0, bnext = 0, bdata = replicate 1024 9\<rparr>]\<rparr>"


text \<open>
  \<^verbatim>\<open>alloc3_desc\<close> is all or nothing: it either takes three different free descriptors and leaves
  the others as they are, or, when fewer than three are free, leaves every descriptor exactly as
  free or taken as it was. It never panics.
\<close>

theorem alloc3_desc_all_or_nothing:
  assumes "kready s" and "touch (kmach s) = kmach s" and "length (dfree (vd s)) = NUM"
  shows "(\<exists>i j k s'. alloc3_desc s = Ok (Some [i, j, k], s') \<and> distinct [i, j, k] \<and>
       {i, j, k} \<subseteq> free_set (vd s) \<and> free_set (vd s') = free_set (vd s) - {i, j, k}) \<or>
     (\<exists>s'. alloc3_desc s = Ok (None, s') \<and> card (free_set (vd s)) < 3 \<and> free_set (vd s') = free_set (vd s))"
proof -
  have taken: "free_set (descs_taken js (vd s)) = free_set (vd s) - set js" for js
    using assms(3) by (auto simp: free_set_def descs_taken_def fold_set_nth split: if_splits)
  have both: "free_set (descs_freed js (descs_taken js (vd s))) = free_set (vd s)" if "set js = free_set (vd s)" for js
  proof -
    have "dfree (descs_freed js (descs_taken js (vd s))) ! i = (i \<in> set js \<or> dfree (vd s) ! i)" if "i < NUM" for i
      using assms(3) that by (simp add: descs_freed_def descs_taken_def fold_set_nth)
    then show ?thesis using that unfolding free_set_def by auto
  qed
  from alloc_descs_spec [OF assms, of "[]" 3] show ?thesis
  proof
    assume "\<exists>js. alloc_descs 3 [] s = Ok (Some ([] @ js), set_vd (descs_taken js) s) \<and> length js = 3 \<and>
       distinct js \<and> set js \<subseteq> free_set (vd s)"
    then obtain js where js: "alloc_descs 3 [] s = Ok (Some js, set_vd (descs_taken js) s)" "length js = 3"
      "distinct js" "set js \<subseteq> free_set (vd s)" by auto
    then obtain i j k where ijk: "js = [i, j, k]" by (auto simp: numeral_3_eq_3 length_Suc_conv)
    show ?thesis
      using js taken [of js] by (intro disjI1 exI [of _ i] exI [of _ j] exI [of _ k]) (simp add: alloc3_desc_def ijk)
  next
    assume "\<exists>js s'. alloc_descs 3 [] s = Ok (None, s') \<and> card (free_set (vd s)) < 3 \<and>
       wk (set_vd (\<lambda>d. descs_freed ([] @ js) (descs_taken js d)) s) s' \<and> set js = free_set (vd s) \<and> distinct js"
    then obtain js s' where s': "alloc_descs 3 [] s = Ok (None, s')" "card (free_set (vd s)) < 3"
      "wk (set_vd (\<lambda>d. descs_freed js (descs_taken js d)) s) s'" "set js = free_set (vd s)" by auto
    then show ?thesis
      using wk_simps(3) [OF s'(3)] both by (intro disjI2 exI [of _ s']) (simp add: alloc3_desc_def)
  qed simp_all
qed

theorem alloc3_desc_all_or_nothing_witness:
  "\<exists>s' :: fskernel. alloc3_desc (ktouch (with_fs one_running boot_fs)\<lparr>vd := idle_vd\<lparr>dfree := [True, False, False, False,
     False, True, False, False]\<rparr>\<rparr>) = Ok (None, s') \<and> free_set (vd s') = {0, 5}"
proof -
  let ?s = "ktouch (with_fs one_running boot_fs)\<lparr>vd := idle_vd\<lparr>dfree := [True, False, False, False,
     False, True, False, False]\<rparr>\<rparr>"
  have k: "kready ?s" using sys_okD(3) [OF one_running_sys_ok, of boot_fs] by (simp add: kready_def)
  have f: "free_set (vd ?s) = {0, 5}"
  proof -
    have "free_set d = set (filter (\<lambda>i. dfree d ! i) [0..<NUM])" for d by (auto simp: free_set_def)
    moreover have "[0..<NUM] = [0, 1, 2, 3, 4, 5, 6, 7]" by (simp add: NUM_def upt_rec)
    ultimately show ?thesis by simp
  qed
  have t: "touch (kmach ?s) = kmach ?s" and l: "length (dfree (vd ?s)) = NUM" by (simp_all add: NUM_def)
  have "card {i, j, k} \<le> 2" if "{i, j, k} \<subseteq> {0, 5 :: nat}" for i j k :: nat
    using card_mono [OF _ that] by simp
  then have "\<not> (distinct [i, j, k] \<and> {i, j, k} \<subseteq> {0, 5 :: nat})" for i j k :: nat
    by (force simp: card_insert_if)
  then have no: "\<not> (\<exists>i j k s'. alloc3_desc ?s = Ok (Some [i, j, k], s') \<and> distinct [i, j, k] \<and>
       {i, j, k} \<subseteq> {0, 5} \<and> free_set (vd s') = {0, 5} - {i, j, k})" by (metis (no_types, lifting))
  from alloc3_desc_all_or_nothing [OF k t l] have "(\<exists>i j k s'. alloc3_desc ?s = Ok (Some [i, j, k], s') \<and>
       distinct [i, j, k] \<and> {i, j, k} \<subseteq> {0, 5} \<and> free_set (vd s') = {0, 5} - {i, j, k}) \<or>
     (\<exists>s'. alloc3_desc ?s = Ok (None, s') \<and> card {0, 5 :: nat} < 3 \<and> free_set (vd s') = {0, 5})" unfolding f .
  with no show ?thesis by (elim disjE; simp only: not_False_eq_True) (elim exE conjE, rule exI, rule conjI)
qed

end
