(* ===== verification/Bio.thy ===== *)
theory Bio
  imports Virtio
begin

text \<open>
  The buffer cache (kernel/bio.c). Buffers are linked through \<open>bprev\<close> and \<open>bnext\<close> into a ring with the
  list head \<open>NBUF\<close>; \<open>ring v xs\<close> says that the ring runs through the buffers \<open>xs\<close>, most recently used
  first. The lemmas show that every operation keeps the ring, that a block has at most one buffer,
  and, on top of the driver's contract, that the cache is transparent: \<^verbatim>\<open>bread\<close> returns a locked
  buffer with the block's current contents.
\<close>

section \<open>kernel/bio.c\<close>

abbreviation HEAD :: nat where "HEAD \<equiv> NBUF"

definition binit_one :: "nat \<Rightarrow> 'a fskernel_scheme \<Rightarrow> 'a fskernel_scheme" where
  "binit_one b s =
     (let s1 = set_buf b (\<lambda>u. u\<lparr>bnext := bnext (bufs (fs s) ! HEAD), bprev := HEAD\<rparr>) s;
          s2 = initsleeplock (BufLock b) ''buffer'' s1;
          s3 = set_buf (bnext (bufs (fs s2) ! HEAD)) (\<lambda>u. u\<lparr>bprev := b\<rparr>) s2
      in set_buf HEAD (\<lambda>u. u\<lparr>bnext := b\<rparr>) s3)"

definition binit :: "'a fskernel_scheme \<Rightarrow> 'a fskernel_scheme" where
  "binit s = fold binit_one [0..<NBUF]
     (set_buf HEAD (\<lambda>u. u\<lparr>bprev := HEAD, bnext := HEAD\<rparr>)
       (set_mach (initlock BcacheLock ''bcache'' (kmach s)) s))"

text \<open>
  The two searches of \<^verbatim>\<open>bget\<close>; in a ring of NBUF buffers they reach the head after NBUF steps.
\<close>

datatype search = Found nat | NotFound | Endless

fun find_cached :: "nat \<Rightarrow> buf list \<Rightarrow> uint32 \<Rightarrow> uint32 \<Rightarrow> nat \<Rightarrow> search" where
  "find_cached fuel bs dev blockno b =
     (if b = HEAD then NotFound
      else if bdev (bs ! b) = dev \<and> bblockno (bs ! b) = blockno then Found b
      else (case fuel of 0 \<Rightarrow> Endless | Suc n \<Rightarrow> find_cached n bs dev blockno (bnext (bs ! b))))"

fun find_unused :: "nat \<Rightarrow> buf list \<Rightarrow> nat \<Rightarrow> search" where
  "find_unused fuel bs b =
     (if b = HEAD then NotFound
      else if brefcnt (bs ! b) = 0 then Found b
      else (case fuel of 0 \<Rightarrow> Endless | Suc n \<Rightarrow> find_unused n bs (bprev (bs ! b))))"

declare find_cached.simps [simp del] find_unused.simps [simp del]

definition bget_take ::
    "'a fskernel_scheme env \<Rightarrow> nat \<Rightarrow> (buf \<Rightarrow> buf) \<Rightarrow> 'a fskernel_scheme \<Rightarrow> (nat \<times> 'a fskernel_scheme) outcome" where
  "bget_take e b f s =
     andThen (krelease BcacheLock (set_buf b f s)) (\<lambda>s1.
     andThen (acquiresleep e (BufLock b) s1) (\<lambda>s2. Ok (b, s2)))"

definition bget ::
    "'a fskernel_scheme env \<Rightarrow> uint32 \<Rightarrow> uint32 \<Rightarrow> 'a fskernel_scheme \<Rightarrow> (nat \<times> 'a fskernel_scheme) outcome" where
  "bget e dev blockno s =
     andThen (kacquire BcacheLock s) (\<lambda>s1.
     let bs = bufs (fs s1) in
     case find_cached NBUF bs dev blockno (bnext (bs ! HEAD)) of
       Endless \<Rightarrow> Spin
     | Found b \<Rightarrow> bget_take e b (\<lambda>u. u\<lparr>brefcnt := brefcnt u + 1\<rparr>) s1
     | NotFound \<Rightarrow>
        (case find_unused NBUF bs (bprev (bs ! HEAD)) of
           Endless \<Rightarrow> Spin
         | Found b \<Rightarrow> bget_take e b (\<lambda>u. u\<lparr>bdev := dev, bblockno := blockno, bvalid := False, brefcnt := 1\<rparr>) s1
         | NotFound \<Rightarrow> Panic ''bget: no buffers''))"

definition bread ::
    "'a fskernel_scheme env \<Rightarrow> uint32 \<Rightarrow> uint32 \<Rightarrow> 'a fskernel_scheme \<Rightarrow> (nat \<times> 'a fskernel_scheme) outcome" where
  "bread e dev blockno s =
     andThen (bget e dev blockno s) (\<lambda>(b, s1).
     if \<not> bvalid (bufs (fs s1) ! b)
     then andThen (env_rw e b False s1) (\<lambda>s2. Ok (b, set_buf b (\<lambda>u. u\<lparr>bvalid := True\<rparr>) s2))
     else Ok (b, s1))"

definition bwrite :: "'a fskernel_scheme env \<Rightarrow> nat \<Rightarrow> 'a fskernel_scheme \<Rightarrow> 'a fskernel_scheme outcome" where
  "bwrite e b s =
     andThen (holdingsleep (BufLock b) s) (\<lambda>(r, s1).
     if \<not> r then Panic ''bwrite'' else env_rw e b True s1)"

text \<open>Moving a buffer to the front of the ring, as \<^verbatim>\<open>brelse\<close> does.\<close>

definition to_front :: "nat \<Rightarrow> 'a fskernel_scheme \<Rightarrow> 'a fskernel_scheme" where
  "to_front b s =
     (let u = bufs (fs s) ! b;
          s1 = set_buf (bnext u) (\<lambda>w. w\<lparr>bprev := bprev u\<rparr>) s;
          s2 = set_buf (bprev (bufs (fs s1) ! b)) (\<lambda>w. w\<lparr>bnext := bnext (bufs (fs s1) ! b)\<rparr>) s1;
          s3 = set_buf b (\<lambda>w. w\<lparr>bnext := bnext (bufs (fs s2) ! HEAD), bprev := HEAD\<rparr>) s2;
          s4 = set_buf (bnext (bufs (fs s3) ! HEAD)) (\<lambda>w. w\<lparr>bprev := b\<rparr>) s3
      in set_buf HEAD (\<lambda>w. w\<lparr>bnext := b\<rparr>) s4)"

definition brelse :: "nat \<Rightarrow> 'a fskernel_scheme \<Rightarrow> 'a fskernel_scheme outcome" where
  "brelse b s =
     andThen (holdingsleep (BufLock b) s) (\<lambda>(r, s1).
     if \<not> r then Panic ''brelse''
     else andThen (releasesleep (BufLock b) s1) (\<lambda>s2.
       andThen (kacquire BcacheLock s2) (\<lambda>s3.
       let s4 = set_buf b (\<lambda>u. u\<lparr>brefcnt := brefcnt u - 1\<rparr>) s3 in
       krelease BcacheLock (if brefcnt (bufs (fs s4) ! b) = 0 then to_front b s4 else s4))))"

definition bpin :: "nat \<Rightarrow> 'a fskernel_scheme \<Rightarrow> 'a fskernel_scheme outcome" where
  "bpin b s =
     andThen (kacquire BcacheLock s) (\<lambda>s1.
     krelease BcacheLock (set_buf b (\<lambda>u. u\<lparr>brefcnt := brefcnt u + 1\<rparr>) s1))"

definition bunpin :: "nat \<Rightarrow> 'a fskernel_scheme \<Rightarrow> 'a fskernel_scheme outcome" where
  "bunpin b s =
     andThen (kacquire BcacheLock s) (\<lambda>s1.
     krelease BcacheLock (set_buf b (\<lambda>u. u\<lparr>brefcnt := brefcnt u - 1\<rparr>) s1))"

section \<open>The ring of buffers\<close>

text \<open>\<open>dbl n p a xs z\<close>: from \<open>a\<close> the links lead through \<open>xs\<close> to \<open>z\<close>, and back.\<close>

fun dbl :: "(nat \<Rightarrow> nat) \<Rightarrow> (nat \<Rightarrow> nat) \<Rightarrow> nat \<Rightarrow> nat list \<Rightarrow> nat \<Rightarrow> bool" where
  "dbl n p a [] z \<longleftrightarrow> n a = z \<and> p z = a"
| "dbl n p a (x # xs) z \<longleftrightarrow> n a = x \<and> p x = a \<and> dbl n p x xs z"

lemma dbl_append: "dbl n p a (xs @ y # ys) z \<longleftrightarrow> dbl n p a xs y \<and> dbl n p y ys z"
  by (induction xs arbitrary: a) auto

lemma dbl_cong:
  "dbl n p a xs z \<Longrightarrow> (\<forall>x \<in> insert a (set xs). n' x = n x) \<Longrightarrow> (\<forall>x \<in> insert z (set xs). p' x = p x) \<Longrightarrow>
     dbl n' p' a xs z"
  by (induction xs arbitrary: a) auto

lemma dbl_last: "dbl n p a xs z \<Longrightarrow> p z = last (a # xs)"
  by (induction xs arbitrary: a) auto

lemma dbl_first: "dbl n p a xs z \<Longrightarrow> n a = hd (xs @ [z])"
  by (cases xs) auto

text \<open>Linking the end of a chain to another node.\<close>

lemma dbl_retarget:
  assumes "dbl n p a xs z" and "distinct (a # xs)" and "c \<notin> set xs"
  shows "dbl (n(last (a # xs) := c)) (p(c := last (a # xs))) a xs c"
  using assms
proof (induction xs arbitrary: a)
  case Nil
  then show ?case by simp
next
  case (Cons x xs)
  let ?l = "last (x # xs)"
  have IH: "dbl (n(?l := c)) (p(c := ?l)) x xs c"
    by (rule Cons.IH) (use Cons.prems in auto)
  have "a \<noteq> ?l" using Cons.prems(2) last_in_set [of "x # xs"] by auto
  with IH Cons.prems show ?case by (auto simp: fun_upd_def)
qed

lemma dbl_unlink:
  assumes "dbl n p h (us @ b # vs) h" and "distinct (h # us @ b # vs)"
  shows "dbl (n(p b := n b)) (p(n b := p b)) h (us @ vs) h"
proof -
  have u: "dbl n p h us b" and v: "dbl n p b vs h" using assms(1) by (auto simp: dbl_append)
  have pb: "p b = last (h # us)" and nb: "n b = hd (vs @ [h])" using dbl_last [OF u] dbl_first [OF v] by auto
  have lu: "last (h # us) \<in> insert h (set us)" using last_in_set [of "h # us"] by auto
  show ?thesis
  proof (cases vs)
    case Nil
    then show ?thesis using dbl_retarget [OF u, of h] assms(2) by (simp add: pb nb)
  next
    case (Cons c ws)
    then have c: "n b = c" "dbl n p c ws h" using v by auto
    have "dbl (n(p b := c)) (p(c := p b)) h us c"
      using dbl_retarget [OF u, of c] assms(2) Cons by (simp add: pb)
    moreover have "dbl (n(p b := c)) (p(c := p b)) c ws h"
      by (rule dbl_cong [OF c(2)]) (use lu assms(2) Cons in \<open>auto simp: pb\<close>)
    ultimately show ?thesis using Cons c(1) by (simp add: dbl_append)
  qed
qed

lemma dbl_push:
  assumes "dbl n p h xs h" and "b \<notin> set (h # xs)" and "distinct (h # xs)"
  shows "dbl (n(b := n h, h := b)) ((p(b := h))(n h := b)) h (b # xs) h"
proof (cases xs)
  case Nil
  then show ?thesis using assms by auto
next
  case (Cons c ws)
  then have c: "n h = c" "dbl n p c ws h" using assms(1) by auto
  have "dbl (n(b := n h, h := b)) ((p(b := h))(n h := b)) c ws h"
    by (rule dbl_cong [OF c(2)]) (use assms Cons c(1) in auto)
  then show ?thesis using Cons c(1) assms(2,3) by auto
qed

definition nx :: "fsstate \<Rightarrow> nat \<Rightarrow> nat" where "nx v i = bnext (bufs v ! i)"
definition pv :: "fsstate \<Rightarrow> nat \<Rightarrow> nat" where "pv v i = bprev (bufs v ! i)"

definition ring :: "fsstate \<Rightarrow> nat list \<Rightarrow> bool" where
  "ring v xs \<longleftrightarrow> length (bufs v) = Suc NBUF \<and> distinct xs \<and> set xs = {..<NBUF} \<and> dbl (nx v) (pv v) HEAD xs HEAD"

lemma ring_facts:
  assumes "ring v xs"
  shows "length xs = NBUF" "HEAD \<notin> set xs" "distinct (HEAD # xs)"
proof -
  have d: "distinct xs" "set xs = {..<NBUF}" using assms by (auto simp: ring_def)
  then show "length xs = NBUF" using distinct_card [of xs] by simp
  show "HEAD \<notin> set xs" "distinct (HEAD # xs)" using d by simp_all
qed

lemma find_cached_path:
  assumes "dbl (nx v) (pv v) a xs HEAD" and "HEAD \<notin> set xs" and "length xs \<le> fuel"
  shows "find_cached fuel (bufs v) dev bno (nx v a) =
     (case find (\<lambda>b. bdev (bufs v ! b) = dev \<and> bblockno (bufs v ! b) = bno) xs of
        None \<Rightarrow> NotFound | Some b \<Rightarrow> Found b)"
  using assms
proof (induction xs arbitrary: a fuel)
  case Nil
  then show ?case by (simp add: find_cached.simps)
next
  case (Cons x xs)
  then obtain n where n: "fuel = Suc n" by (cases fuel) auto
  have "find_cached fuel (bufs v) dev bno x =
      (if bdev (bufs v ! x) = dev \<and> bblockno (bufs v ! x) = bno then Found x
       else find_cached n (bufs v) dev bno (nx v x))"
    using Cons.prems by (subst find_cached.simps) (auto simp: n nx_def)
  then show ?case using Cons.IH [of x n] Cons.prems n by simp
qed

lemma find_unused_path:
  assumes "dbl (nx v) (pv v) HEAD xs z" and "HEAD \<notin> set xs" and "length xs \<le> fuel"
  shows "find_unused fuel (bufs v) (pv v z) =
     (case find (\<lambda>b. brefcnt (bufs v ! b) = 0) (rev xs) of None \<Rightarrow> NotFound | Some b \<Rightarrow> Found b)"
  using assms
proof (induction xs arbitrary: z fuel rule: rev_induct)
  case Nil
  then show ?case by (simp add: find_unused.simps)
next
  case (snoc x xs)
  then obtain n where n: "fuel = Suc n" by (cases fuel) auto
  have d: "dbl (nx v) (pv v) HEAD xs x" "pv v z = x"
    using snoc.prems(1) by (auto simp: dbl_append [of _ _ _ _ _ "[]", simplified])
  have "find_unused fuel (bufs v) x =
      (if brefcnt (bufs v ! x) = 0 then Found x else find_unused n (bufs v) (pv v x))"
    using snoc.prems by (subst find_unused.simps) (auto simp: n pv_def)
  then show ?case using snoc.IH [of x n] snoc.prems n d by simp
qed

definition buf_upd :: "nat \<Rightarrow> (buf \<Rightarrow> buf) \<Rightarrow> fsstate \<Rightarrow> fsstate" where
  "buf_upd b f v = v\<lparr>bufs := (bufs v)[b := f (bufs v ! b)]\<rparr>"

lemma set_buf_eq: "set_buf b f = fs_upd (buf_upd b f)"
  by (simp add: set_buf_def buf_upd_def [abs_def])

lemma buf_upd_simps [simp]:
  "slks (buf_upd b f v) = slks v" "platter (buf_upd b f v) = platter v" "lg (buf_upd b f v) = lg v"
  "sb (buf_upd b f v) = sb v" "itable (buf_upd b f v) = itable v" "ftable (buf_upd b f v) = ftable v"
  "length (bufs (buf_upd b f v)) = length (bufs v)"
  "b < length (bufs v) \<Longrightarrow> bufs (buf_upd b f v) ! i = (if i = b then f (bufs v ! b) else bufs v ! i)"
  by (simp_all add: buf_upd_def nth_list_update_if)

lemma nx_buf_upd: "b < length (bufs v) \<Longrightarrow> nx (buf_upd b f v) = (nx v)(b := bnext (f (bufs v ! b)))"
  and pv_buf_upd: "b < length (bufs v) \<Longrightarrow> pv (buf_upd b f v) = (pv v)(b := bprev (f (bufs v ! b)))"
  by (auto simp: nx_def pv_def fun_eq_iff)

lemma link_upd:
  assumes "b < length (bufs v)"
  shows "nx (buf_upd b (\<lambda>w. w\<lparr>bprev := x\<rparr>) v) = nx v" "pv (buf_upd b (\<lambda>w. w\<lparr>bprev := x\<rparr>) v) = (pv v)(b := x)"
    "nx (buf_upd b (\<lambda>w. w\<lparr>bnext := x\<rparr>) v) = (nx v)(b := x)" "pv (buf_upd b (\<lambda>w. w\<lparr>bnext := x\<rparr>) v) = pv v"
    "nx (buf_upd b (\<lambda>w. w\<lparr>bnext := x, bprev := y\<rparr>) v) = (nx v)(b := x)"
    "pv (buf_upd b (\<lambda>w. w\<lparr>bnext := x, bprev := y\<rparr>) v) = (pv v)(b := y)"
  using assms by (simp_all add: nx_buf_upd pv_buf_upd) (simp_all add: nx_def pv_def fun_eq_iff)

text \<open>The state change of \<^const>\<open>to_front\<close>.\<close>

definition front :: "nat \<Rightarrow> fsstate \<Rightarrow> fsstate" where
  "front b v =
     (let v1 = buf_upd (nx v b) (\<lambda>w. w\<lparr>bprev := pv v b\<rparr>) v;
          v2 = buf_upd (pv v1 b) (\<lambda>w. w\<lparr>bnext := nx v1 b\<rparr>) v1;
          v3 = buf_upd b (\<lambda>w. w\<lparr>bnext := nx v2 HEAD, bprev := HEAD\<rparr>) v2;
          v4 = buf_upd (nx v3 HEAD) (\<lambda>w. w\<lparr>bprev := b\<rparr>) v3
      in buf_upd HEAD (\<lambda>w. w\<lparr>bnext := b\<rparr>) v4)"

lemma to_front_eq: "to_front b s = fs_upd (front b) s"
  by (simp add: to_front_def front_def Let_def set_buf_eq nx_def pv_def fs_upd_def)

text \<open>Equality of states up to the links of the buffers and the flag of the driver.\<close>

definition links_only :: "fsstate \<Rightarrow> fsstate \<Rightarrow> bool" where
  "links_only v v' \<longleftrightarrow> slks v' = slks v \<and> platter v' = platter v \<and> lg v' = lg v \<and> sb v' = sb v \<and>
     itable v' = itable v \<and> ftable v' = ftable v \<and> length (bufs v') = length (bufs v) \<and>
     (\<forall>i < length (bufs v). (bufs v' ! i)\<lparr>bnext := 0, bprev := 0, bdisk := False\<rparr> = (bufs v ! i)\<lparr>bnext := 0, bprev := 0, bdisk := False\<rparr>)"

lemma links_only_trans: "links_only v v' \<Longrightarrow> links_only v' v'' \<Longrightarrow> links_only v v''"
  by (simp add: links_only_def)

lemma links_only_upd:
  assumes "b < length (bufs v)"
  shows "links_only v (buf_upd b (\<lambda>w. w\<lparr>bprev := x\<rparr>) v)" "links_only v (buf_upd b (\<lambda>w. w\<lparr>bnext := x\<rparr>) v)"
    "links_only v (buf_upd b (\<lambda>w. w\<lparr>bnext := x, bprev := y\<rparr>) v)"
  using assms by (auto simp: links_only_def)

lemma links_onlyD:
  assumes "links_only v v'" and "i < length (bufs v)"
  shows "bvalid (bufs v' ! i) = bvalid (bufs v ! i)" "bdev (bufs v' ! i) = bdev (bufs v ! i)"
    "bblockno (bufs v' ! i) = bblockno (bufs v ! i)" "brefcnt (bufs v' ! i) = brefcnt (bufs v ! i)"
    "bdata (bufs v' ! i) = bdata (bufs v ! i)"
proof -
  have eq: "(bufs v' ! i)\<lparr>bnext := 0, bprev := 0, bdisk := False\<rparr> = (bufs v ! i)\<lparr>bnext := 0, bprev := 0, bdisk := False\<rparr>"
    using assms by (simp add: links_only_def)
  show "bvalid (bufs v' ! i) = bvalid (bufs v ! i)" "bdev (bufs v' ! i) = bdev (bufs v ! i)"
    "bblockno (bufs v' ! i) = bblockno (bufs v ! i)" "brefcnt (bufs v' ! i) = brefcnt (bufs v ! i)"
    "bdata (bufs v' ! i) = bdata (bufs v ! i)"
    using arg_cong [OF eq, of bvalid] arg_cong [OF eq, of bdev] arg_cong [OF eq, of bblockno]
      arg_cong [OF eq, of brefcnt] arg_cong [OF eq, of bdata] by simp_all
qed

lemma ring_front:
  assumes "ring v (us @ b # vs)"
  shows "ring (front b v) (b # us @ vs)" and "links_only v (front b v)"
proof -
  have len: "length (bufs v) = Suc NBUF" and dist: "distinct (HEAD # us @ b # vs)"
    and set: "set (us @ b # vs) = {..<NBUF}" and d: "dbl (nx v) (pv v) HEAD (us @ b # vs) HEAD"
    using assms ring_facts [OF assms] by (auto simp: ring_def)
  have b: "b < NBUF" using set by auto
  have lt: "x < length (bufs v)" if "x \<in> insert HEAD (set (us @ b # vs))" for x
    using that unfolding set len by auto
  have uv: "dbl (nx v) (pv v) HEAD us b" "dbl (nx v) (pv v) b vs HEAD" using d by (auto simp: dbl_append)
  have "pv v b \<in> set (HEAD # us)" unfolding dbl_last [OF uv(1)] using last_in_set [of "HEAD # us"] by simp
  then have pb: "pv v b \<noteq> b" and pl: "pv v b < length (bufs v)" using dist lt [of "pv v b"] by auto
  have "nx v b \<in> set (vs @ [HEAD])" unfolding dbl_first [OF uv(2)] by (rule hd_in_set) simp
  then have nb: "nx v b \<noteq> b" and nl: "nx v b < length (bufs v)" using dist lt [of "nx v b"] by auto
  define v1 where "v1 = buf_upd (nx v b) (\<lambda>w. w\<lparr>bprev := pv v b\<rparr>) v"
  define v2 where "v2 = buf_upd (pv v1 b) (\<lambda>w. w\<lparr>bnext := nx v1 b\<rparr>) v1"
  define v3 where "v3 = buf_upd b (\<lambda>w. w\<lparr>bnext := nx v2 HEAD, bprev := HEAD\<rparr>) v2"
  define v4 where "v4 = buf_upd (nx v3 HEAD) (\<lambda>w. w\<lparr>bprev := b\<rparr>) v3"
  have l: "length (bufs v1) = length (bufs v)" "length (bufs v2) = length (bufs v)"
    "length (bufs v3) = length (bufs v)" "length (bufs v4) = length (bufs v)"
    by (simp_all add: v1_def v2_def v3_def v4_def)
  have n1: "nx v1 = nx v" "pv v1 = (pv v)(nx v b := pv v b)"
    using nl by (simp_all add: v1_def link_upd)
  have pb1: "pv v1 b = pv v b" using n1 nb by auto
  have n2: "nx v2 = (nx v)(pv v b := nx v b)" "pv v2 = (pv v)(nx v b := pv v b)"
    unfolding v2_def pb1 using pl l by (simp_all add: link_upd n1)
  have d2: "dbl (nx v2) (pv v2) HEAD (us @ vs) HEAD" unfolding n2 by (rule dbl_unlink [OF d dist])
  have d2': "distinct (HEAD # us @ vs)" "b \<notin> set (HEAD # us @ vs)" using dist by auto
  have "nx v2 HEAD \<in> set ((us @ vs) @ [HEAD])" unfolding dbl_first [OF d2] by (rule hd_in_set) simp
  then have hl: "nx v2 HEAD < length (bufs v)" using lt [of "nx v2 HEAD"] by auto
  have n3: "nx v3 = (nx v2)(b := nx v2 HEAD)" "pv v3 = (pv v2)(b := HEAD)"
    unfolding v3_def using b len l by (simp_all add: link_upd)
  have h3: "nx v3 HEAD = nx v2 HEAD" using n3 b by auto
  have n4: "nx v4 = nx v3" "pv v4 = (pv v3)(nx v2 HEAD := b)"
    unfolding v4_def h3 using hl l by (simp_all add: link_upd)
  have n5: "nx (front b v) = (nx v4)(HEAD := b)" "pv (front b v) = pv v4" "length (bufs (front b v)) = length (bufs v)"
    unfolding front_def Let_def v1_def [symmetric] v2_def [symmetric] v3_def [symmetric] v4_def [symmetric]
    using len l by (simp_all add: link_upd)
  have "dbl (nx (front b v)) (pv (front b v)) HEAD (b # us @ vs) HEAD"
    unfolding n5 n4 n3 by (rule dbl_push [OF d2 d2'(2,1)])
  then show "ring (front b v) (b # us @ vs)" using n5(3) len dist set by (auto simp: ring_def)
  have "links_only v v1" unfolding v1_def using nl by (rule links_only_upd)
  moreover have "links_only v1 v2" unfolding v2_def using pl l by (intro links_only_upd) (simp add: pb1)
  moreover have "links_only v2 v3" unfolding v3_def using b len l by (intro links_only_upd) simp
  moreover have "links_only v3 v4" unfolding v4_def using hl l by (intro links_only_upd) (simp add: h3)
  moreover have "links_only v4 (front b v)"
    unfolding front_def Let_def v1_def [symmetric] v2_def [symmetric] v3_def [symmetric] v4_def [symmetric]
    using len l by (simp add: links_only_upd)
  ultimately show "links_only v (front b v)" using links_only_trans by blast
qed

section \<open>The cache as a map from blocks\<close>

text \<open>
  What the layers above see: per block number, the current contents, the contents on the disk, the
  number of references and the process that holds the buffer's lock.
\<close>

record cstate =
  c_blk :: "nat \<Rightarrow> uint8 list"
  c_plat :: "nat \<Rightarrow> uint8 list"
  c_ref :: "nat \<Rightarrow> nat"
  c_lk :: "nat \<Rightarrow> int32 option"

definition key :: "fsstate \<Rightarrow> nat \<Rightarrow> nat option" where
  "key v i = (if bdev (bufs v ! i) = ROOTDEV then Some (unat (bblockno (bufs v ! i))) else None)"

definition slot :: "fsstate \<Rightarrow> nat \<Rightarrow> nat option" where
  "slot v n = find (\<lambda>i. key v i = Some n) [0..<NBUF]"

definition lk_owner :: "sleeplock \<Rightarrow> int32 option" where
  "lk_owner l = (if slocked l \<noteq> 0 then Some (spid l) else None)"

definition cview :: "fsstate \<Rightarrow> cstate" where
  "cview v = \<lparr>
     c_blk = (\<lambda>n. case slot v n of
        Some i \<Rightarrow> if bvalid (bufs v ! i) then bdata (bufs v ! i) else platter v n | None \<Rightarrow> platter v n),
     c_plat = platter v,
     c_ref = (\<lambda>n. case slot v n of Some i \<Rightarrow> unat (brefcnt (bufs v ! i)) | None \<Rightarrow> 0),
     c_lk = (\<lambda>n. case slot v n of Some i \<Rightarrow> lk_owner (slks v (BufLock i)) | None \<Rightarrow> None)\<rparr>"

definition bc_uniq :: "fsstate \<Rightarrow> bool" where
  "bc_uniq v \<longleftrightarrow> (\<forall>i < NBUF. \<forall>j < NBUF. key v i \<noteq> None \<longrightarrow> key v i = key v j \<longrightarrow> i = j)"

text \<open>
  The invariant: one buffer per block, only buffers of the root device hold data or are referenced,
  and an unreferenced buffer is unlocked and clean.
\<close>

definition bc_inv :: "fsstate \<Rightarrow> bool" where
  "bc_inv v \<longleftrightarrow> (\<exists>xs. ring v xs) \<and> bc_uniq v \<and>
     (\<forall>i < NBUF. (bvalid (bufs v ! i) \<longrightarrow> key v i \<noteq> None) \<and>
        (brefcnt (bufs v ! i) \<noteq> 0 \<longrightarrow> bvalid (bufs v ! i)) \<and>
        (brefcnt (bufs v ! i) = 0 \<longrightarrow> slocked (slks v (BufLock i)) = 0) \<and>
        (brefcnt (bufs v ! i) = 0 \<longrightarrow> bvalid (bufs v ! i) \<longrightarrow>
           bdata (bufs v ! i) = platter v (unat (bblockno (bufs v ! i)))))"

lemma slot_iff:
  assumes "bc_uniq v"
  shows "slot v n = Some i \<longleftrightarrow> i < NBUF \<and> key v i = Some n"
proof
  assume "slot v n = Some i"
  then show "i < NBUF \<and> key v i = Some n" by (auto simp: slot_def find_Some_iff)
next
  assume i: "i < NBUF \<and> key v i = Some n"
  then have "\<exists>j. slot v n = Some j"
    by (cases "slot v n") (auto simp: slot_def find_None_iff)
  then obtain j where j: "slot v n = Some j" by blast
  then have "j < NBUF" "key v j = Some n" by (auto simp: slot_def find_Some_iff)
  then have "i = j" using assms i by (auto simp: bc_uniq_def)
  with j show "slot v n = Some i" by simp
qed

lemma slot_None: "slot v n = None \<longleftrightarrow> (\<forall>i < NBUF. key v i \<noteq> Some n)"
  by (auto simp: slot_def find_None_iff)

text \<open>Changing one buffer and its lock affects only the blocks it held and holds.\<close>

definition one_changed :: "nat \<Rightarrow> fsstate \<Rightarrow> fsstate \<Rightarrow> bool" where
  "one_changed i v v' \<longleftrightarrow> (\<forall>j < NBUF. j \<noteq> i \<longrightarrow> key v' j = key v j \<and> bvalid (bufs v' ! j) = bvalid (bufs v ! j) \<and>
     bdata (bufs v' ! j) = bdata (bufs v ! j) \<and> brefcnt (bufs v' ! j) = brefcnt (bufs v ! j) \<and>
     slks v' (BufLock j) = slks v (BufLock j))"

lemma one_changed_slot:
  assumes "bc_uniq v" and "bc_uniq v'" and "one_changed i v v'" and "key v i \<noteq> Some n" and "key v' i \<noteq> Some n"
  shows "slot v' n = slot v n" and "slot v n = Some j \<Longrightarrow> j \<noteq> i"
proof -
  have iff: "slot v' n = Some j \<longleftrightarrow> slot v n = Some j" for j
    using assms by (cases "j = i") (auto simp: slot_iff one_changed_def)
  show "slot v' n = slot v n" by (metis iff not_None_eq)
  show "slot v n = Some j \<Longrightarrow> j \<noteq> i" using assms(1,4) by (auto simp: slot_iff)
qed

lemma cview_other:
  assumes "bc_uniq v" and "bc_uniq v'" and "one_changed i v v'" and "key v i \<noteq> Some n" and "key v' i \<noteq> Some n"
    and "platter v' n = platter v n"
  shows "c_blk (cview v') n = c_blk (cview v) n" "c_ref (cview v') n = c_ref (cview v) n"
    "c_lk (cview v') n = c_lk (cview v) n"
proof -
  note s = one_changed_slot [OF assms(1-5)]
  have j: "j < NBUF \<and> j \<noteq> i" if "slot v n = Some j" for j
    using that s(2) assms(1) by (simp add: slot_iff)
  show "c_blk (cview v') n = c_blk (cview v) n" "c_ref (cview v') n = c_ref (cview v) n"
    "c_lk (cview v') n = c_lk (cview v) n"
    using j assms(3,6) by (auto simp: cview_def s(1) one_changed_def split: option.split)
qed

lemma cview_at:
  assumes "bc_uniq v" and "i < NBUF" and "key v i = Some n"
  shows "c_blk (cview v) n = (if bvalid (bufs v ! i) then bdata (bufs v ! i) else platter v n)"
    "c_ref (cview v) n = unat (brefcnt (bufs v ! i))" "c_lk (cview v) n = lk_owner (slks v (BufLock i))"
proof -
  have "slot v n = Some i" using assms by (simp add: slot_iff)
  then show "c_blk (cview v) n = (if bvalid (bufs v ! i) then bdata (bufs v ! i) else platter v n)"
    "c_ref (cview v) n = unat (brefcnt (bufs v ! i))" "c_lk (cview v) n = lk_owner (slks v (BufLock i))"
    by (simp_all add: cview_def)
qed

lemma cview_none:
  assumes "\<forall>i < NBUF. key v i \<noteq> Some n"
  shows "c_blk (cview v) n = platter v n" "c_ref (cview v) n = 0" "c_lk (cview v) n = None"
  using assms by (simp_all add: cview_def slot_None [THEN iffD2])

lemma c_plat_cview [simp]: "c_plat (cview v) = platter v"
  by (simp add: cview_def)

definition buf_for :: "fsstate \<Rightarrow> nat \<Rightarrow> nat \<Rightarrow> bool" where
  "buf_for v b n \<longleftrightarrow> b < NBUF \<and> key v b = Some n \<and> bvalid (bufs v ! b)"

definition fsrest :: "fsstate \<Rightarrow> klog \<times> superblock \<times> inode list \<times> kfile list \<times> (nat \<Rightarrow> sleeplock)" where
  "fsrest v = (lg v, sb v, itable v, ftable v, \<lambda>i. slks v (InodeLock i))"

lemma bc_invD:
  assumes "bc_inv v" and "i < NBUF"
  shows "bvalid (bufs v ! i) \<Longrightarrow> key v i \<noteq> None" "brefcnt (bufs v ! i) \<noteq> 0 \<Longrightarrow> bvalid (bufs v ! i)"
    "brefcnt (bufs v ! i) = 0 \<Longrightarrow> slocked (slks v (BufLock i)) = 0"
    "brefcnt (bufs v ! i) = 0 \<Longrightarrow> bvalid (bufs v ! i) \<Longrightarrow>
       bdata (bufs v ! i) = platter v (unat (bblockno (bufs v ! i)))"
  using assms by (auto simp: bc_inv_def)

lemma bc_uniq_one_changed:
  assumes "bc_uniq v" and "one_changed i v v'" and "\<forall>j < NBUF. j \<noteq> i \<longrightarrow> key v' i \<noteq> None \<longrightarrow> key v j \<noteq> key v' i"
  shows "bc_uniq v'"
  unfolding bc_uniq_def
proof (intro allI impI)
  fix a b assume ab: "a < NBUF" "b < NBUF" "key v' a \<noteq> None" "key v' a = key v' b"
  show "a = b"
  proof (cases "a = i \<or> b = i")
    case True
    then show ?thesis using ab assms(2,3) unfolding one_changed_def by metis
  next
    case False
    then show ?thesis using ab assms(1,2) unfolding one_changed_def bc_uniq_def by metis
  qed
qed

text \<open>Taking buffer \<open>i\<close> for block \<open>n\<close>: it holds the block already, or is unreferenced and no buffer does.\<close>

lemma slot_taken:
  assumes inv: "bc_inv v" and i: "i < NBUF"
    and was: "key v i = Some n \<or> ((\<forall>j < NBUF. key v j \<noteq> Some n) \<and> brefcnt (bufs v ! i) = 0)"
    and ch: "one_changed i v v'" and ring': "\<exists>xs. ring v' xs" and plat: "platter v' = platter v"
    and i': "key v' i = Some n" "bvalid (bufs v' ! i)" "bdata (bufs v' ! i) = c_blk (cview v) n"
      "unat (brefcnt (bufs v' ! i)) = c_ref (cview v) n + 1" "lk_owner (slks v' (BufLock i)) = Some me"
  shows "bc_inv v'" and "cview v' = (cview v)\<lparr>c_ref := (c_ref (cview v))(n := c_ref (cview v) n + 1),
       c_lk := (c_lk (cview v))(n := Some me)\<rparr>"
    and "buf_for v' i n" and "buf_for v j m \<Longrightarrow> 0 < c_ref (cview v) m \<Longrightarrow> buf_for v' j m"
proof -
  have u: "bc_uniq v" using inv by (simp add: bc_inv_def)
  have fresh: "\<forall>j < NBUF. j \<noteq> i \<longrightarrow> key v j \<noteq> Some n"
    using was u i by (auto simp: bc_uniq_def)
  have u': "bc_uniq v'" using bc_uniq_one_changed [OF u ch] fresh i'(1) by simp
  have "brefcnt (bufs v' ! i) \<noteq> 0" using i'(4) by auto
  then show "bc_inv v'"
    using ring' u' ch i' plat inv i unfolding bc_inv_def one_changed_def
    by (smt (verit, best) key_def option.distinct(1) option.sel)
  show "buf_for v' i n" using i i' by (simp add: buf_for_def)
  have at_n: "c_blk (cview v') n = c_blk (cview v) n" "c_ref (cview v') n = c_ref (cview v) n + 1"
    "c_lk (cview v') n = Some me"
    using cview_at [OF u' i i'(1)] i' by simp_all
  have other: "c_blk (cview v') m = c_blk (cview v) m \<and> c_ref (cview v') m = c_ref (cview v) m \<and>
      c_lk (cview v') m = c_lk (cview v) m" if "m \<noteq> n" for m
  proof (cases "key v i = Some m")
    case False
    then show ?thesis using cview_other [OF u u' ch False] that i'(1) plat by simp
  next
    case True
    then have r: "brefcnt (bufs v ! i) = 0" using was that by auto
    have "\<forall>j < NBUF. key v' j \<noteq> Some m"
    proof (intro allI impI)
      fix j assume "j < NBUF"
      then show "key v' j \<noteq> Some m"
        using True that i'(1) ch u i by (cases "j = i") (auto simp: one_changed_def bc_uniq_def)
    qed
    note none = cview_none [OF this]
    have "m = unat (bblockno (bufs v ! i))" using True by (simp add: key_def split: if_splits)
    then show ?thesis
      using none cview_at [OF u i True] bc_invD [OF inv i] r plat by (auto simp: lk_owner_def)
  qed
  have "c_blk (cview v') m = c_blk (cview v) m"
    "c_ref (cview v') m = ((c_ref (cview v))(n := c_ref (cview v) n + 1)) m"
    "c_lk (cview v') m = ((c_lk (cview v))(n := Some me)) m" for m
    using at_n other [of m] by (cases "m = n"; simp)+
  then have "c_blk (cview v') = c_blk (cview v)"
    "c_ref (cview v') = (c_ref (cview v))(n := c_ref (cview v) n + 1)"
    "c_lk (cview v') = (c_lk (cview v))(n := Some me)" by blast+
  then show "cview v' = (cview v)\<lparr>c_ref := (c_ref (cview v))(n := c_ref (cview v) n + 1),
       c_lk := (c_lk (cview v))(n := Some me)\<rparr>"
    using plat by (simp add: cview_def)
  show "buf_for v' j m" if "buf_for v j m" "0 < c_ref (cview v) m"
  proof (cases "j = i")
    case False
    then show ?thesis using that(1) ch by (simp add: buf_for_def one_changed_def)
  next
    case True
    then have "key v i = Some m" using that(1) by (simp add: buf_for_def)
    then have "m = n" using cview_at(2) [OF u i] that(2) was by auto
    then show ?thesis using True i i' by (simp add: buf_for_def)
  qed
qed

lemma free_buffer_exists:
  assumes inv: "bc_inv v" and "card {m. 0 < c_ref (cview v) m} < NBUF"
  shows "\<exists>i < NBUF. brefcnt (bufs v ! i) = 0"
proof (rule ccontr)
  assume "\<not> ?thesis"
  then have all: "\<forall>i < NBUF. brefcnt (bufs v ! i) \<noteq> 0" by blast
  have u: "bc_uniq v" using inv by (simp add: bc_inv_def)
  have k: "key v i \<noteq> None" if "i < NBUF" for i using that all bc_invD [OF inv] by blast
  let ?f = "\<lambda>i. the (key v i)"
  have inj: "inj_on ?f {..<NBUF}"
  proof (rule inj_onI)
    fix a b assume "a \<in> {..<NBUF}" "b \<in> {..<NBUF}" "?f a = ?f b"
    then show "a = b" using u k by (metis bc_uniq_def lessThan_iff option.expand)
  qed
  have "{m. 0 < c_ref (cview v) m} = ?f ` {..<NBUF}"
  proof
    show "{m. 0 < c_ref (cview v) m} \<subseteq> ?f ` {..<NBUF}"
    proof
      fix m assume "m \<in> {m. 0 < c_ref (cview v) m}"
      then obtain i where "i < NBUF" "key v i = Some m" using cview_none(2) by fastforce
      then show "m \<in> ?f ` {..<NBUF}" by force
    qed
    show "?f ` {..<NBUF} \<subseteq> {m. 0 < c_ref (cview v) m}"
    proof
      fix m assume "m \<in> ?f ` {..<NBUF}"
      then obtain i where i: "i < NBUF" "m = ?f i" by auto
      then have "key v i = Some m" using k by auto
      then show "m \<in> {m. 0 < c_ref (cview v) m}"
        using cview_at(2) [OF u i(1)] all i(1) by (simp add: unat_gt_0)
    qed
  qed
  then have "card {m. 0 < c_ref (cview v) m} = NBUF" using card_image [OF inj] by simp
  with assms(2) show False by simp
qed

section \<open>Net effect of the operations\<close>

lemma bget_take_yields:
  assumes ok: "sys_ok p s" and free: "slocked (slks (fs s) (BufLock b)) = 0"
  shows "yields p s (bget_take e b f (set_mach (taken BcacheLock (kmach s)) s)) b
     (slk_set (BufLock b) 1 (pid (procs s ! p)) (buf_upd b f (fs s)))"
proof -
  let ?t = "ktouch (set_buf b f s)"
  have rel: "krelease BcacheLock (set_buf b f (set_mach (taken BcacheLock (kmach s)) s)) = Ok ?t"
    using fs_section(2) [OF ok] by (simp add: set_buf_eq)
  have q: "quiet p s ?t" using quiet_touch [OF ok, of ?t] by (simp add: set_buf_eq)
  have "does p ?t (acquiresleep e (BufLock b) ?t) (slk_set (BufLock b) 1 (pid (procs ?t ! p)) (fs ?t))"
    using acquiresleep_does [OF quiet_ok [OF q]] free by simp
  then show ?thesis
    using rel q quiet_trans [OF q] unfolding bget_take_def does_def yields_def
    by (auto simp: set_buf_eq)
qed

lemma find_unique:
  assumes "i \<in> set xs" and "\<forall>j \<in> set xs. P j \<longleftrightarrow> j = i"
  shows "find P xs = Some i"
  using assms by (induction xs) auto

lemma key_match: "bdev (bufs v ! b) = ROOTDEV \<and> bblockno (bufs v ! b) = bno \<longleftrightarrow> key v b = Some (unat bno)"
  by (auto simp: key_def word_unat_eq_iff)

definition bget_upd :: "uint32 \<Rightarrow> bool \<Rightarrow> buf \<Rightarrow> buf" where
  "bget_upd bno cached u = (if cached then u\<lparr>brefcnt := brefcnt u + 1\<rparr>
     else u\<lparr>bdev := ROOTDEV, bblockno := bno, bvalid := False, brefcnt := 1\<rparr>)"

lemma bget_yields:
  assumes ok: "sys_ok p s" and inv: "bc_inv (fs s)"
    and lk: "c_lk (cview (fs s)) (unat bno) = None"
    and room: "0 < c_ref (cview (fs s)) (unat bno) \<or> card {m. 0 < c_ref (cview (fs s)) m} < NBUF"
  shows "\<exists>i. i < NBUF \<and>
     (key (fs s) i = Some (unat bno) \<or>
      (\<forall>j < NBUF. key (fs s) j \<noteq> Some (unat bno)) \<and> brefcnt (bufs (fs s) ! i) = 0) \<and>
     yields p s (bget e ROOTDEV bno s) i (slk_set (BufLock i) 1 (pid (procs s ! p))
       (buf_upd i (bget_upd bno (key (fs s) i = Some (unat bno))) (fs s)))"
proof -
  let ?v = "fs s" and ?n = "unat bno" and ?t = "set_mach (taken BcacheLock (kmach s)) s"
  obtain xs where r: "ring ?v xs" using inv by (auto simp: bc_inv_def)
  have xs: "set xs = {..<NBUF}" "dbl (nx ?v) (pv ?v) HEAD xs HEAD" using r by (auto simp: ring_def)
  note rf = ring_facts [OF r]
  have u: "bc_uniq ?v" using inv by (simp add: bc_inv_def)
  have acq: "kacquire BcacheLock s = Ok ?t" by (rule fs_section(1) [OF ok])
  have cached: "find_cached NBUF (bufs ?v) ROOTDEV bno (bnext (bufs ?v ! HEAD)) =
      (case find (\<lambda>b. key ?v b = Some ?n) xs of None \<Rightarrow> NotFound | Some b \<Rightarrow> Found b)"
    using find_cached_path [OF xs(2) rf(2), of NBUF ROOTDEV bno] rf(1) by (simp add: key_match nx_def)
  have unused: "find_unused NBUF (bufs ?v) (bprev (bufs ?v ! HEAD)) =
      (case find (\<lambda>b. brefcnt (bufs ?v ! b) = 0) (rev xs) of None \<Rightarrow> NotFound | Some b \<Rightarrow> Found b)"
    using find_unused_path [OF xs(2) rf(2), of NBUF] rf(1) by (simp add: pv_def)
  show ?thesis
  proof (cases "\<exists>i < NBUF. key ?v i = Some ?n")
    case True
    then obtain i where i: "i < NBUF" "key ?v i = Some ?n" by blast
    have "find (\<lambda>b. key ?v b = Some ?n) xs = Some i"
      using i u xs(1) by (intro find_unique) (auto simp: bc_uniq_def)
    then have run: "bget e ROOTDEV bno s = bget_take e i (\<lambda>u. u\<lparr>brefcnt := brefcnt u + 1\<rparr>) ?t"
      using acq cached by (simp add: bget_def Let_def)
    have "slocked (slks ?v (BufLock i)) = 0"
      using lk cview_at(3) [OF u i] by (simp add: lk_owner_def split: if_splits)
    from bget_take_yields [OF ok this] show ?thesis
      using i run by (intro exI [of _ i]) (simp add: bget_upd_def [abs_def])
  next
    case False
    then have none: "find (\<lambda>b. key ?v b = Some ?n) xs = None" using xs(1) by (auto simp: find_None_iff)
    have "c_ref (cview ?v) ?n = 0" using False cview_none(2) by blast
    then obtain k where k: "k < NBUF" "brefcnt (bufs ?v ! k) = 0" using room free_buffer_exists [OF inv] by auto
    then have "find (\<lambda>b. brefcnt (bufs ?v ! b) = 0) (rev xs) \<noteq> None" using xs(1) by (auto simp: find_None_iff)
    then obtain i where i: "find (\<lambda>b. brefcnt (bufs ?v ! b) = 0) (rev xs) = Some i" by blast
    then have i': "i < NBUF" "brefcnt (bufs ?v ! i) = 0"
      using xs(1) nth_mem [of _ "rev xs"] by (auto simp: find_Some_iff)
    have run: "bget e ROOTDEV bno s =
        bget_take e i (\<lambda>u. u\<lparr>bdev := ROOTDEV, bblockno := bno, bvalid := False, brefcnt := 1\<rparr>) ?t"
      using acq cached unused none i by (simp add: bget_def Let_def)
    from bget_take_yields [OF ok bc_invD(3) [OF inv i']] show ?thesis
      using i' run False by (intro exI [of _ i]) (auto simp: bget_upd_def [abs_def])
  qed
qed

lemma slk_set_simps [simp]:
  "bufs (slk_set l a n v) = bufs v" "platter (slk_set l a n v) = platter v" "lg (slk_set l a n v) = lg v"
  "sb (slk_set l a n v) = sb v" "itable (slk_set l a n v) = itable v" "ftable (slk_set l a n v) = ftable v"
  "slks (slk_set l a n v) l' = (if l' = l then (slks v l)\<lparr>slocked := a, spid := n\<rparr> else slks v l')"
  by (simp_all add: slk_set_def)

lemma ring_cong: "ring v xs \<Longrightarrow> length (bufs v') = length (bufs v) \<Longrightarrow> nx v' = nx v \<Longrightarrow> pv v' = pv v \<Longrightarrow> ring v' xs"
  by (simp add: ring_def)

text \<open>What \<^verbatim>\<open>bread\<close> does after \<^verbatim>\<open>bget\<close>: fill the buffer \<open>i\<close> from the disk unless it is valid.\<close>

definition filled :: "nat \<Rightarrow> fsstate \<Rightarrow> fsstate" where
  "filled i v =
     (if bvalid (bufs v ! i) then v else buf_upd i (\<lambda>u. u\<lparr>bvalid := True\<rparr>) (rw_effect i False v))"

lemma bread_slot:
  assumes u: "bc_uniq v" and i: "i < NBUF" "i < length (bufs v)"
    and was: "key v i = Some (unat bno) \<or> (\<forall>j < NBUF. key v j \<noteq> Some (unat bno)) \<and> brefcnt (bufs v ! i) = 0"
    and few: "c_ref (cview v) (unat bno) < 2 ^ 32 - 1"
    and v': "v' = filled i (slk_set (BufLock i) 1 me (buf_upd i (bget_upd bno (key v i = Some (unat bno))) v))"
  shows "unat (brefcnt (bufs v' ! i)) = c_ref (cview v) (unat bno) + 1" and "bdata (bufs v' ! i) = c_blk (cview v) (unat bno)"
proof -
  have "unat (brefcnt (bufs v' ! i)) = c_ref (cview v) (unat bno) + 1 \<and> bdata (bufs v' ! i) = c_blk (cview v) (unat bno)"
  proof (cases "key v i = Some (unat bno)")
    case True
    note at = cview_at(1,2) [OF u i(1) True]
    have "unat (brefcnt (bufs v ! i)) < 2 ^ 32 - 1" using few at(2) by simp
    then have "unat (brefcnt (bufs v ! i) + 1) = unat (brefcnt (bufs v ! i)) + 1" by (simp add: unat_word_ariths)
    moreover have "bblockno (bufs v ! i) = bno" using True key_match [of v i bno] by simp
    ultimately show ?thesis using True at i(2) by (simp add: v' filled_def rw_effect_def Let_def bget_upd_def)
  next
    case False
    then have "c_ref (cview v) (unat bno) = 0" "c_blk (cview v) (unat bno) = platter v (unat bno)"
      using was cview_none(1,2) by blast+
    then show ?thesis using False i(2) by (simp add: v' filled_def rw_effect_def Let_def bget_upd_def)
  qed
  then show "unat (brefcnt (bufs v' ! i)) = c_ref (cview v) (unat bno) + 1" "bdata (bufs v' ! i) = c_blk (cview v) (unat bno)"
    by simp_all
qed

context disk_driver
begin

text \<open>\<^verbatim>\<open>bread\<close>: the returned buffer holds the block's contents and is locked by the caller.\<close>

lemma bread_fills:
  assumes get: "yields p s (bget e ROOTDEV bno s) i v" and i: "i < length (bufs v)"
    and b: "bblockno (bufs v ! i) = bno" and n: "unat bno < 2 ^ 31"
  shows "yields p s (bread e ROOTDEV bno s) i (filled i v)"
  unfolding bread_def
proof (rule yields_bind [OF get])
  fix s1 assume q: "quiet p s s1" and f: "fs s1 = v"
  show "yields p s1 (if \<not> bvalid (bufs (fs s1) ! i)
      then andThen (env_rw e i False s1) (\<lambda>s2. Ok (i, set_buf i (\<lambda>u. u\<lparr>bvalid := True\<rparr>) s2)) else Ok (i, s1)) i (filled i v)"
  proof (cases "bvalid (bufs v ! i)")
    case True
    then show ?thesis using quiet_ok [OF q] f by (simp add: filled_def yields_Ok)
  next
    case False
    have rw: "does p s1 (env_rw e i False s1) (rw_effect i False v)"
      using rw_does [OF quiet_ok [OF q], of i False] i b n f by simp
    have "yields p s1 (andThen (env_rw e i False s1) (\<lambda>s2. Ok (i, set_buf i (\<lambda>u. u\<lparr>bvalid := True\<rparr>) s2))) i (filled i v)"
    proof (rule does_yields_bind [OF rw])
      fix s2 assume q2: "quiet p s1 s2" and f2: "fs s2 = rw_effect i False v"
      have "quiet p s2 (set_buf i (\<lambda>u. u\<lparr>bvalid := True\<rparr>) s2)"
        using quiet_fs_upd [OF quiet_ok [OF q2]] by (simp add: set_buf_eq)
      moreover have "filled i v = buf_upd i (\<lambda>u. u\<lparr>bvalid := True\<rparr>) (rw_effect i False v)" using False by (simp add: filled_def)
      ultimately show "yields p s2 (Ok (i, set_buf i (\<lambda>u. u\<lparr>bvalid := True\<rparr>) s2)) i (filled i v)"
        by (auto simp: yields_def f2 set_buf_eq)
    qed
    then show ?thesis using False f by simp
  qed
qed

lemma bread_spec:
  assumes ok: "sys_ok p s" and inv: "bc_inv (fs s)" and n: "unat bno < 2 ^ 31"
    and lk: "c_lk (cview (fs s)) (unat bno) = None" and few: "c_ref (cview (fs s)) (unat bno) < 2 ^ 32 - 1"
    and room: "0 < c_ref (cview (fs s)) (unat bno) \<or> card {m. 0 < c_ref (cview (fs s)) m} < NBUF"
  shows "\<exists>b v'. yields p s (bread e ROOTDEV bno s) b v' \<and> bc_inv v' \<and> buf_for v' b (unat bno) \<and>
     cview v' = (cview (fs s))\<lparr>c_ref := (c_ref (cview (fs s)))(unat bno := c_ref (cview (fs s)) (unat bno) + 1),
       c_lk := (c_lk (cview (fs s)))(unat bno := Some (pid (procs s ! p)))\<rparr> \<and>
     fsrest v' = fsrest (fs s) \<and>
     (\<forall>j m. buf_for (fs s) j m \<longrightarrow> 0 < c_ref (cview (fs s)) m \<longrightarrow> buf_for v' j m)"
proof -
  let ?v = "fs s" and ?n = "unat bno" and ?me = "pid (procs s ! p)"
  obtain i where i: "i < NBUF" and was: "key ?v i = Some ?n \<or>
      (\<forall>j < NBUF. key ?v j \<noteq> Some ?n) \<and> brefcnt (bufs ?v ! i) = 0"
    and get: "yields p s (bget e ROOTDEV bno s) i (slk_set (BufLock i) 1 ?me
       (buf_upd i (bget_upd bno (key ?v i = Some ?n)) ?v))"
    using bget_yields [OF ok inv lk room] by blast
  define v1 where "v1 = slk_set (BufLock i) 1 ?me (buf_upd i (bget_upd bno (key ?v i = Some ?n)) ?v)"
  define v' where "v' = filled i v1"
  obtain xs where r: "ring ?v xs" using inv by (auto simp: bc_inv_def)
  have len: "length (bufs ?v) = Suc NBUF" using r by (simp add: ring_def)
  have il: "i < length (bufs ?v)" "i < length (bufs v1)" using i len by (simp_all add: v1_def)
  have u: "bc_uniq ?v" using inv by (simp add: bc_inv_def)
  have b1: "bblockno (bufs v1 ! i) = bno" "bdev (bufs v1 ! i) = ROOTDEV"
    using was il(1) key_match [of ?v i bno] by (auto simp: v1_def bget_upd_def)
  have y: "yields p s (bread e ROOTDEV bno s) i v'"
    unfolding v'_def by (rule bread_fills [OF get [folded v1_def] il(2) b1(1) n])
  have nxpv: "length (bufs v') = length (bufs ?v)" "nx v' = nx ?v" "pv v' = pv ?v"
    using il by (auto simp: v'_def filled_def v1_def rw_effect_def Let_def bget_upd_def nx_def pv_def fun_eq_iff nth_list_update)
  have ch: "one_changed i ?v v'"
    using il by (auto simp: one_changed_def v'_def filled_def v1_def rw_effect_def Let_def key_def nth_list_update)
  have plat: "platter v' = platter ?v" by (simp add: v'_def filled_def v1_def rw_effect_def Let_def)
  have k': "key v' i = Some ?n" using b1 il(2) by (auto simp: key_def v'_def filled_def rw_effect_def Let_def)
  have rd: "unat (brefcnt (bufs v' ! i)) = c_ref (cview ?v) ?n + 1" "bdata (bufs v' ! i) = c_blk (cview ?v) ?n"
    unfolding v'_def v1_def by (rule bread_slot [OF u i il(1) was few refl])+
  have valid: "bvalid (bufs v' ! i)" using il(2) by (simp add: v'_def filled_def rw_effect_def Let_def)
  have own: "lk_owner (slks v' (BufLock i)) = Some ?me"
    by (simp add: v'_def filled_def v1_def rw_effect_def Let_def lk_owner_def)
  have "ring v' xs" using r nxpv by (rule ring_cong)
  then have ex: "\<exists>xs. ring v' xs" by blast
  note t = slot_taken [OF inv i was ch ex plat k' valid rd(2,1) own]
  have "fsrest v' = fsrest ?v" by (simp add: fsrest_def v'_def filled_def v1_def rw_effect_def Let_def)
  then show ?thesis using y t by blast
qed

end

text \<open>Changing the buffer of block \<open>n\<close> in place.\<close>

lemma slot_modified:
  assumes inv: "bc_inv v" and i: "buf_for v i n"
    and ch: "one_changed i v v'" and ring': "\<exists>xs. ring v' xs" and plat: "\<forall>m. m \<noteq> n \<longrightarrow> platter v' m = platter v m"
    and i': "buf_for v' i n"
    and clean: "brefcnt (bufs v' ! i) = 0 \<longrightarrow> slocked (slks v' (BufLock i)) = 0 \<and> bdata (bufs v' ! i) = platter v' n"
  shows "bc_inv v'"
    and "cview v' = \<lparr>c_blk = (c_blk (cview v))(n := bdata (bufs v' ! i)), c_plat = platter v',
       c_ref = (c_ref (cview v))(n := unat (brefcnt (bufs v' ! i))),
       c_lk = (c_lk (cview v))(n := lk_owner (slks v' (BufLock i)))\<rparr>"
    and "buf_for v j m \<Longrightarrow> buf_for v' j m"
proof -
  have u: "bc_uniq v" using inv by (simp add: bc_inv_def)
  have k: "i < NBUF" "key v i = Some n" "key v' i = Some n" "bvalid (bufs v ! i)" "bvalid (bufs v' ! i)"
    using i i' by (auto simp: buf_for_def)
  have kn: "n = unat (bblockno (bufs v' ! i))" using k(3) by (simp add: key_def split: if_splits)
  have apart: "key v j \<noteq> Some n" if "j < NBUF" "j \<noteq> i" for j
    using that k(1,2) u unfolding bc_uniq_def by (metis option.distinct(1))
  have u': "bc_uniq v'" using bc_uniq_one_changed [OF u ch] apart k(3) by simp
  have pj: "platter v' (unat (bblockno (bufs v' ! j))) = platter v (unat (bblockno (bufs v ! j)))"
    if "j < NBUF" "j \<noteq> i" "bvalid (bufs v ! j)" for j
  proof -
    have kj: "key v' j = key v j" using ch that by (simp add: one_changed_def)
    have "key v j \<noteq> None" "key v j \<noteq> Some n" using bc_invD(1) [OF inv that(1,3)] apart [OF that(1,2)] by blast+
    then show ?thesis using kj plat by (auto simp: key_def split: if_splits)
  qed
  have "(bvalid (bufs v' ! j) \<longrightarrow> key v' j \<noteq> None) \<and> (brefcnt (bufs v' ! j) \<noteq> 0 \<longrightarrow> bvalid (bufs v' ! j)) \<and>
     (brefcnt (bufs v' ! j) = 0 \<longrightarrow> slocked (slks v' (BufLock j)) = 0) \<and>
     (brefcnt (bufs v' ! j) = 0 \<longrightarrow> bvalid (bufs v' ! j) \<longrightarrow>
       bdata (bufs v' ! j) = platter v' (unat (bblockno (bufs v' ! j))))" if j: "j < NBUF" for j
  proof (cases "j = i")
    case True
    then show ?thesis using k clean kn by auto
  next
    case False
    then show ?thesis using ch j bc_invD [OF inv j] pj [OF j False] by (simp add: one_changed_def)
  qed
  then show "bc_inv v'" using ring' u' unfolding bc_inv_def by blast
  have at_n: "c_blk (cview v') n = bdata (bufs v' ! i)" "c_ref (cview v') n = unat (brefcnt (bufs v' ! i))"
    "c_lk (cview v') n = lk_owner (slks v' (BufLock i))"
    using cview_at [OF u' k(1,3)] k(5) by simp_all
  have other: "c_blk (cview v') m = c_blk (cview v) m" "c_ref (cview v') m = c_ref (cview v) m"
    "c_lk (cview v') m = c_lk (cview v) m" if "m \<noteq> n" for m
    using cview_other [OF u u' ch, of m] k plat that by auto
  show "cview v' = \<lparr>c_blk = (c_blk (cview v))(n := bdata (bufs v' ! i)), c_plat = platter v',
       c_ref = (c_ref (cview v))(n := unat (brefcnt (bufs v' ! i))),
       c_lk = (c_lk (cview v))(n := lk_owner (slks v' (BufLock i)))\<rparr>"
    by (rule cstate.equality) (use at_n other in \<open>auto simp: fun_eq_iff\<close>)
  show "buf_for v' j m" if "buf_for v j m"
    using that ch i i' u by (cases "j = i") (auto simp: buf_for_def one_changed_def)
qed

lemma buf_for_len: "bc_inv v \<Longrightarrow> buf_for v b n \<Longrightarrow> b < length (bufs v)"
  by (auto simp: bc_inv_def buf_for_def ring_def)

text \<open>
  The states that the operations on a held buffer \<open>b\<close> of block \<open>n\<close> lead to: its data, reference count
  and lock, and the block on the disk.
\<close>

definition held_upd ::
    "nat \<Rightarrow> nat \<Rightarrow> uint8 list \<Rightarrow> uint32 \<Rightarrow> sleeplock \<Rightarrow> uint8 list \<Rightarrow> fsstate \<Rightarrow> fsstate" where
  "held_upd b n d r l x v = v\<lparr>bufs := (bufs v)[b := (bufs v ! b)\<lparr>bdata := d, brefcnt := r\<rparr>],
     slks := (slks v)(BufLock b := l), platter := (platter v)(n := x)\<rparr>"

lemma held_upd_spec:
  assumes inv: "bc_inv v" and bf: "buf_for v b n" and links: "links_only (held_upd b n d r l x v) v'"
    and ring': "\<exists>xs. ring v' xs" and clean: "r = 0 \<longrightarrow> slocked l = 0 \<and> d = x"
  shows "bc_inv v'"
    and "cview v' = \<lparr>c_blk = (c_blk (cview v))(n := d), c_plat = (platter v)(n := x),
       c_ref = (c_ref (cview v))(n := unat r), c_lk = (c_lk (cview v))(n := lk_owner l)\<rparr>"
    and "fsrest v' = fsrest v" and "buf_for v j m \<Longrightarrow> buf_for v' j m"
proof -
  let ?w = "held_upd b n d r l x v"
  have b: "b < length (bufs v)" "b < NBUF" "key v b = Some n" using inv bf buf_for_len by (auto simp: buf_for_def)
  have len: "length (bufs v) = Suc NBUF" using inv by (auto simp: bc_inv_def ring_def)
  have w: "length (bufs ?w) = length (bufs v)"
    "bufs ?w ! j = (if j = b then (bufs v ! b)\<lparr>bdata := d, brefcnt := r\<rparr> else bufs v ! j)" for j
    using b(1) by (simp_all add: held_upd_def nth_list_update_if)
  have lo: "slks v' = (slks v)(BufLock b := l)" "platter v' = (platter v)(n := x)" "lg v' = lg v" "sb v' = sb v"
    "itable v' = itable v" "ftable v' = ftable v"
    using links by (simp_all add: links_only_def held_upd_def)
  have at: "bvalid (bufs v' ! j) = bvalid (bufs v ! j)" "key v' j = key v j"
    "bdata (bufs v' ! j) = (if j = b then d else bdata (bufs v ! j))"
    "brefcnt (bufs v' ! j) = (if j = b then r else brefcnt (bufs v ! j))" if "j < NBUF" for j
    using links_onlyD [OF links, of j] that len by (simp_all add: w key_def)
  have ch: "one_changed b v v'" using at lo(1) by (simp add: one_changed_def)
  have bf': "buf_for v' b n" using bf at by (simp add: buf_for_def)
  have p: "\<forall>m. m \<noteq> n \<longrightarrow> platter v' m = platter v m" using lo(2) by simp
  have cl: "brefcnt (bufs v' ! b) = 0 \<longrightarrow> slocked (slks v' (BufLock b)) = 0 \<and> bdata (bufs v' ! b) = platter v' n"
    using at [OF b(2)] clean lo by simp
  note m = slot_modified [OF inv bf ch ring' p bf' cl]
  show "bc_inv v'" by (rule m(1))
  show "cview v' = \<lparr>c_blk = (c_blk (cview v))(n := d), c_plat = (platter v)(n := x),
       c_ref = (c_ref (cview v))(n := unat r), c_lk = (c_lk (cview v))(n := lk_owner l)\<rparr>"
    unfolding m(2) using at [OF b(2)] lo by simp
  show "buf_for v j m \<Longrightarrow> buf_for v' j m" by (rule m(3))
  show "fsrest v' = fsrest v" using lo by (simp add: fsrest_def)
qed

lemma links_only_refl: "links_only v v"
  by (simp add: links_only_def)

lemma held_upd_ring:
  assumes "bc_inv v" and "buf_for v b n"
  shows "ring v xs \<Longrightarrow> ring (held_upd b n d r l x v) xs"
proof -
  have "b < length (bufs v)" using assms by (rule buf_for_len)
  then show "ring v xs \<Longrightarrow> ring (held_upd b n d r l x v) xs"
    by (elim ring_cong) (auto simp: held_upd_def nx_def pv_def fun_eq_iff nth_list_update)
qed

lemma held_upd_ex_ring: "bc_inv v \<Longrightarrow> buf_for v b n \<Longrightarrow> \<exists>xs. ring (held_upd b n d r l x v) xs"
  using held_upd_ring by (metis bc_inv_def)

lemma held_facts:
  assumes "bc_inv v" and "buf_for v b n"
  shows "c_blk (cview v) n = bdata (bufs v ! b)" "c_ref (cview v) n = unat (brefcnt (bufs v ! b))"
    "c_lk (cview v) n = lk_owner (slks v (BufLock b))" "b < length (bufs v)" "b < NBUF"
    "unat (bblockno (bufs v ! b)) = n"
proof -
  have u: "bc_uniq v" using assms(1) by (simp add: bc_inv_def)
  have b: "b < NBUF" "key v b = Some n" "bvalid (bufs v ! b)" using assms(2) by (auto simp: buf_for_def)
  show "c_blk (cview v) n = bdata (bufs v ! b)" "c_ref (cview v) n = unat (brefcnt (bufs v ! b))"
    "c_lk (cview v) n = lk_owner (slks v (BufLock b))"
    using cview_at [OF u b(1,2)] b(3) by simp_all
  show "b < length (bufs v)" "b < NBUF" using buf_for_len [OF assms] b by simp_all
  show "unat (bblockno (bufs v ! b)) = n" using b(2) by (simp add: key_def split: if_splits)
qed

text \<open>The client's change of \<^verbatim>\<open>b->data\<close>.\<close>

lemma set_data_spec:
  assumes "bc_inv v" and "buf_for v b n" and "0 < c_ref (cview v) n"
  shows "bc_inv (buf_upd b (\<lambda>u. u\<lparr>bdata := d\<rparr>) v)"
    and "cview (buf_upd b (\<lambda>u. u\<lparr>bdata := d\<rparr>) v) = (cview v)\<lparr>c_blk := (c_blk (cview v))(n := d)\<rparr>"
    and "fsrest (buf_upd b (\<lambda>u. u\<lparr>bdata := d\<rparr>) v) = fsrest v"
    and "buf_for v j m \<Longrightarrow> buf_for (buf_upd b (\<lambda>u. u\<lparr>bdata := d\<rparr>) v) j m"
proof -
  let ?v = "buf_upd b (\<lambda>u. u\<lparr>bdata := d\<rparr>) v"
  let ?w = "held_upd b n d (brefcnt (bufs v ! b)) (slks v (BufLock b)) (platter v n) v"
  note h = held_facts [OF assms(1,2)]
  have u: "(bufs v ! b)\<lparr>bdata := d, brefcnt := brefcnt (bufs v ! b)\<rparr> = (bufs v ! b)\<lparr>bdata := d\<rparr>"
    by (cases "bufs v ! b") simp
  have eq: "?v = ?w" by (simp add: held_upd_def buf_upd_def u)
  have c: "brefcnt (bufs v ! b) = 0 \<longrightarrow> slocked (slks v (BufLock b)) = 0 \<and> d = platter v n"
    using h(2) assms(3) by auto
  note m = held_upd_spec [OF assms(1,2) links_only_refl held_upd_ex_ring [OF assms(1,2)] c, folded eq]
  show "bc_inv ?v" "fsrest ?v = fsrest v" by (rule m)+
  show "buf_for v j m \<Longrightarrow> buf_for ?v j m" by (rule m(4))
  show "cview ?v = (cview v)\<lparr>c_blk := (c_blk (cview v))(n := d)\<rparr>"
    unfolding m(2) using h by (intro cstate.equality) (simp_all add: fun_upd_idem)
qed

lemma pin_spec:
  assumes ok: "sys_ok p s" and inv: "bc_inv (fs s)" and bf: "buf_for (fs s) b n"
    and r: "r = f (brefcnt (bufs (fs s) ! b))"
    and clean: "r = 0 \<longrightarrow> c_lk (cview (fs s)) n = None \<and> c_blk (cview (fs s)) n = platter (fs s) n"
  shows "\<exists>v'. does p s (andThen (kacquire BcacheLock s) (\<lambda>s1.
       krelease BcacheLock (set_buf b (\<lambda>u. u\<lparr>brefcnt := f (brefcnt u)\<rparr>) s1))) v' \<and> bc_inv v' \<and>
     cview v' = (cview (fs s))\<lparr>c_ref := (c_ref (cview (fs s)))(n := unat r)\<rparr> \<and> fsrest v' = fsrest (fs s) \<and>
     (\<forall>j m. buf_for (fs s) j m \<longrightarrow> buf_for v' j m)"
proof -
  let ?v = "fs s"
  let ?w = "held_upd b n (bdata (bufs ?v ! b)) r (slks ?v (BufLock b)) (platter ?v n) ?v"
  note h = held_facts [OF inv bf]
  have u: "(bufs ?v ! b)\<lparr>bdata := bdata (bufs ?v ! b), brefcnt := r\<rparr> = (bufs ?v ! b)\<lparr>brefcnt := r\<rparr>"
    by (cases "bufs ?v ! b") simp
  have eq: "buf_upd b (\<lambda>u. u\<lparr>brefcnt := f (brefcnt u)\<rparr>) ?v = ?w" by (simp add: held_upd_def buf_upd_def u r)
  have c: "r = 0 \<longrightarrow> slocked (slks ?v (BufLock b)) = 0 \<and> bdata (bufs ?v ! b) = platter ?v n"
    using h clean by (simp add: lk_owner_def split: if_splits)
  note m = held_upd_spec [OF inv bf links_only_refl held_upd_ex_ring [OF inv bf] c]
  have "cview ?w = (cview ?v)\<lparr>c_ref := (c_ref (cview ?v))(n := unat r)\<rparr>"
    unfolding m(2) using h by (intro cstate.equality) (simp_all add: fun_upd_idem)
  moreover have "does p s (andThen (kacquire BcacheLock s) (\<lambda>s1.
       krelease BcacheLock (set_buf b (\<lambda>u. u\<lparr>brefcnt := f (brefcnt u)\<rparr>) s1))) ?w"
    unfolding set_buf_eq using does_section [OF ok, of BcacheLock "buf_upd b (\<lambda>u. u\<lparr>brefcnt := f (brefcnt u)\<rparr>)"]
    by (simp add: eq)
  ultimately show ?thesis using m(1,3,4) by blast
qed

lemma bpin_spec:
  assumes "sys_ok p s" and "bc_inv (fs s)" and "buf_for (fs s) b n" and "c_ref (cview (fs s)) n < 2 ^ 32 - 1"
  shows "\<exists>v'. does p s (bpin b s) v' \<and> bc_inv v' \<and>
     cview v' = (cview (fs s))\<lparr>c_ref := (c_ref (cview (fs s)))(n := c_ref (cview (fs s)) n + 1)\<rparr> \<and>
     fsrest v' = fsrest (fs s) \<and> (\<forall>j m. buf_for (fs s) j m \<longrightarrow> buf_for v' j m)"
proof -
  let ?r = "brefcnt (bufs (fs s) ! b)"
  have "unat (?r + 1) = unat ?r + 1" using assms(4) held_facts(2) [OF assms(2,3)] by (simp add: unat_word_ariths)
  moreover from this have "?r + 1 \<noteq> 0" by auto
  ultimately show ?thesis
    using pin_spec [OF assms(1-3), of "?r + 1" "\<lambda>r. r + 1"] held_facts(2) [OF assms(2,3)]
    by (simp add: bpin_def)
qed

lemma unat_minus_one: "0 < unat r \<Longrightarrow> unat (r - 1) = unat r - 1"
  by (metis One_nat_def unat_1 unat_minus_one unat_eq_zero less_irrefl)

lemma bunpin_spec:
  assumes "sys_ok p s" and "bc_inv (fs s)" and "buf_for (fs s) b n" and "1 < c_ref (cview (fs s)) n"
  shows "\<exists>v'. does p s (bunpin b s) v' \<and> bc_inv v' \<and>
     cview v' = (cview (fs s))\<lparr>c_ref := (c_ref (cview (fs s)))(n := c_ref (cview (fs s)) n - 1)\<rparr> \<and>
     fsrest v' = fsrest (fs s) \<and> (\<forall>j m. buf_for (fs s) j m \<longrightarrow> buf_for v' j m)"
proof -
  let ?r = "brefcnt (bufs (fs s) ! b)"
  have "unat (?r - 1) = unat ?r - 1" using assms(4) held_facts(2) [OF assms(2,3)] by (intro unat_minus_one) simp
  moreover from this have "?r - 1 \<noteq> 0" using assms(4) held_facts(2) [OF assms(2,3)] by auto
  ultimately show ?thesis
    using pin_spec [OF assms(1-3), of "?r - 1" "\<lambda>r. r - 1"] held_facts(2) [OF assms(2,3)]
    by (simp add: bunpin_def)
qed

text \<open>\<^verbatim>\<open>brelse\<close>: dropping the last reference needs a clean buffer.\<close>

lemma brelse_does:
  assumes ok: "sys_ok p s" and own: "slocked (slks (fs s) (BufLock b)) \<noteq> 0" "spid (slks (fs s) (BufLock b)) = pid (procs s ! p)"
    and b: "b < length (bufs (fs s))" and w: "buf_upd b (\<lambda>u. u\<lparr>brefcnt := brefcnt u - 1\<rparr>) (slk_set (BufLock b) 0 0 (fs s)) = w"
  shows "does p s (brelse b s) (if brefcnt (bufs (fs s) ! b) - 1 = 0 then front b w else w)"
proof -
  let ?l = "BufLock b" and ?f = "buf_upd b (\<lambda>u. u\<lparr>brefcnt := brefcnt u - 1\<rparr>)"
  let ?g = "\<lambda>v. if brefcnt (bufs (?f v) ! b) = 0 then front b (?f v) else ?f v"
  let ?drop = "\<lambda>s2. andThen (kacquire BcacheLock s2) (\<lambda>s3.
    let s4 = set_buf b (\<lambda>u. u\<lparr>brefcnt := brefcnt u - 1\<rparr>) s3 in
    krelease BcacheLock (if brefcnt (bufs (fs s4) ! b) = 0 then to_front b s4 else s4))"
  have hold: "yields p s (holdingsleep ?l s) True (fs s)" using holdingsleep_yields [OF ok, of ?l] own by simp
  have rel: "does p s1 (andThen (releasesleep ?l s1) ?drop) (if brefcnt (bufs (fs s) ! b) - 1 = 0 then front b w else w)"
    if q1: "quiet p s s1" and f1: "fs s1 = fs s" for s1
  proof (rule does_bind [OF releasesleep_does [OF quiet_ok [OF q1]]])
    fix s2 assume q2: "quiet p s1 s2" and f2: "fs s2 = slk_set ?l 0 0 (fs s1)"
    have "?g (fs s2) = (if brefcnt (bufs (fs s) ! b) - 1 = 0 then front b w else w)"
      unfolding f2 f1 using b by (simp add: w [symmetric])
    moreover have "?drop s2 = andThen (kacquire BcacheLock s2) (\<lambda>s3. krelease BcacheLock (fs_upd ?g s3))"
      by (rule arg_cong [where f = "andThen (kacquire BcacheLock s2)"]) (simp add: fun_eq_iff Let_def set_buf_eq to_front_eq fs_upd_def)
    ultimately show "does p s2 (?drop s2) (if brefcnt (bufs (fs s) ! b) - 1 = 0 then front b w else w)"
      using does_section [OF quiet_ok [OF q2], of BcacheLock ?g] by simp
  qed
  show ?thesis unfolding brelse_def by (rule yields_does_bind [OF hold]) (use rel in simp)
qed

lemma brelse_spec:
  assumes ok: "sys_ok p s" and inv: "bc_inv (fs s)" and bf: "buf_for (fs s) b n"
    and lk: "c_lk (cview (fs s)) n = Some (pid (procs s ! p))" and ref: "0 < c_ref (cview (fs s)) n"
    and clean: "c_ref (cview (fs s)) n = 1 \<Longrightarrow> c_blk (cview (fs s)) n = platter (fs s) n"
  shows "\<exists>v'. does p s (brelse b s) v' \<and> bc_inv v' \<and>
     cview v' = (cview (fs s))\<lparr>c_ref := (c_ref (cview (fs s)))(n := c_ref (cview (fs s)) n - 1),
       c_lk := (c_lk (cview (fs s)))(n := None)\<rparr> \<and>
     fsrest v' = fsrest (fs s) \<and> (\<forall>j m. buf_for (fs s) j m \<longrightarrow> buf_for v' j m) \<and>
     (\<forall>us vs. ring (fs s) (us @ b # vs) \<longrightarrow>
        ring v' (if c_ref (cview (fs s)) n = 1 then b # us @ vs else us @ b # vs))"
proof -
  let ?v = "fs s" and ?r = "brefcnt (bufs (fs s) ! b)" and ?l = "BufLock b"
  note h = held_facts [OF inv bf]
  let ?lk = "(slks ?v ?l)\<lparr>slocked := 0, spid := 0\<rparr>"
  let ?w = "held_upd b n (bdata (bufs ?v ! b)) (?r - 1) ?lk (platter ?v n) ?v"
  define v' where "v' = (if ?r - 1 = 0 then front b ?w else ?w)"
  have u: "(bufs ?v ! b)\<lparr>bdata := bdata (bufs ?v ! b), brefcnt := ?r - 1\<rparr> = (bufs ?v ! b)\<lparr>brefcnt := ?r - 1\<rparr>"
    by (cases "bufs ?v ! b") simp
  have eq: "buf_upd b (\<lambda>u. u\<lparr>brefcnt := brefcnt u - 1\<rparr>) (slk_set ?l 0 0 ?v) = ?w" by (simp add: held_upd_def buf_upd_def slk_set_def u)
  have own: "slocked (slks ?v ?l) \<noteq> 0" "spid (slks ?v ?l) = pid (procs s ! p)"
    using lk h(3) by (auto simp: lk_owner_def split: if_splits)
  have "does p s (brelse b s) v'" unfolding v'_def by (rule brelse_does [OF ok own h(4) eq])
  moreover
  obtain xs where r: "ring ?v xs" using inv by (auto simp: bc_inv_def)
  have rw: "ring ?w xs" by (rule held_upd_ring [OF inv bf r])
  have "b \<in> set xs" using r h(5) by (simp add: ring_def)
  then obtain us vs where xs: "xs = us @ b # vs" by (auto simp: in_set_conv_decomp)
  have links: "links_only ?w v'" and ring': "\<exists>xs. ring v' xs"
    using rw ring_front [OF rw [unfolded xs]] links_only_refl by (auto simp: v'_def)
  have un: "unat (?r - 1) = unat ?r - 1" using ref h(2) by (intro unat_minus_one) simp
  have "?r - 1 = 0 \<longrightarrow> slocked ?lk = 0 \<and> bdata (bufs ?v ! b) = platter ?v n"
  proof
    assume "?r - 1 = 0"
    then have "c_ref (cview ?v) n = 1" using un ref h(2) by simp
    then show "slocked ?lk = 0 \<and> bdata (bufs ?v ! b) = platter ?v n" using clean h(1) by simp
  qed
  note m = held_upd_spec [OF inv bf links ring' this]
  have "cview v' = (cview ?v)\<lparr>c_ref := (c_ref (cview ?v))(n := c_ref (cview ?v) n - 1),
       c_lk := (c_lk (cview ?v))(n := None)\<rparr>"
    unfolding m(2) using h un by (intro cstate.equality) (simp_all add: fun_upd_idem lk_owner_def)
  moreover have "ring v' (if c_ref (cview ?v) n = 1 then b # us @ vs else us @ b # vs)" if "ring ?v (us @ b # vs)" for us vs
  proof -
    have "?r - 1 = 0 \<longleftrightarrow> unat (?r - 1) = 0" by (simp add: unat_eq_0)
    then have "?r - 1 = 0 \<longleftrightarrow> c_ref (cview ?v) n = 1" unfolding un using ref h(2) by arith
    then show ?thesis using held_upd_ring [OF inv bf that] ring_front(1) [OF held_upd_ring [OF inv bf that]]
      by (simp add: v'_def)
  qed
  ultimately show ?thesis using m(1,3,4) by blast
qed

context disk_driver
begin

text \<open>\<^verbatim>\<open>bwrite\<close>: the disk block gets the contents of the buffer.\<close>

lemma bwrite_spec:
  assumes ok: "sys_ok p s" and inv: "bc_inv (fs s)" and bf: "buf_for (fs s) b n" and n: "n < 2 ^ 31"
    and lk: "c_lk (cview (fs s)) n = Some (pid (procs s ! p))" and ref: "0 < c_ref (cview (fs s)) n"
    and guard: "I ((platter (fs s))(n := c_blk (cview (fs s)) n))"
  shows "\<exists>v'. does p s (bwrite e b s) v' \<and> bc_inv v' \<and>
     cview v' = (cview (fs s))\<lparr>c_plat := (platter (fs s))(n := c_blk (cview (fs s)) n)\<rparr> \<and>
     fsrest v' = fsrest (fs s) \<and> (\<forall>j m. buf_for (fs s) j m \<longrightarrow> buf_for v' j m)"
proof -
  let ?v = "fs s" and ?l = "BufLock b"
  note h = held_facts [OF inv bf]
  let ?w = "held_upd b n (bdata (bufs ?v ! b)) (brefcnt (bufs ?v ! b)) (slks ?v ?l) (bdata (bufs ?v ! b)) ?v"
  have own: "slocked (slks ?v ?l) \<noteq> 0" "spid (slks ?v ?l) = pid (procs s ! p)"
    using lk h(3) by (auto simp: lk_owner_def split: if_splits)
  have hold: "yields p s (holdingsleep ?l s) True ?v"
    using holdingsleep_yields [OF ok, of ?l] own by simp
  have d: "does p s (bwrite e b s) (rw_effect b True ?v)"
    unfolding bwrite_def
  proof (rule yields_does_bind [OF hold])
    fix s1 assume "quiet p s s1" "fs s1 = ?v"
    then show "does p s1 (if \<not> True then Panic ''bwrite'' else env_rw e b True s1) (rw_effect b True ?v)"
      using rw_does [of s1 b True] quiet_ok h(1,4,6) n guard by (auto simp: rw_effect_def Let_def)
  qed
  have u: "(bufs ?v ! b)\<lparr>bdata := bdata (bufs ?v ! b), brefcnt := brefcnt (bufs ?v ! b)\<rparr> = bufs ?v ! b"
    by (cases "bufs ?v ! b") simp
  have links: "links_only ?w (rw_effect b True ?v)"
    using h(4,6) by (auto simp: links_only_def held_upd_def rw_effect_def Let_def u nth_list_update)
  have "nx (rw_effect b True ?v) = nx ?w" "pv (rw_effect b True ?v) = pv ?w"
    using h(4) by (auto simp: nx_def pv_def fun_eq_iff held_upd_def rw_effect_def Let_def nth_list_update)
  moreover obtain xs where "ring ?w xs" using held_upd_ex_ring [OF inv bf] by blast
  ultimately have ring': "\<exists>xs. ring (rw_effect b True ?v) xs"
    using ring_cong [of ?w xs "rw_effect b True ?v"] links by (auto simp: links_only_def)
  have "brefcnt (bufs ?v ! b) = 0 \<longrightarrow> slocked (slks ?v ?l) = 0 \<and> bdata (bufs ?v ! b) = bdata (bufs ?v ! b)"
    using ref h(2) by auto
  note m = held_upd_spec [OF inv bf links ring' this]
  have "cview (rw_effect b True ?v) = (cview ?v)\<lparr>c_plat := (platter ?v)(n := c_blk (cview ?v) n)\<rparr>"
    unfolding m(2) using h by (intro cstate.equality) (simp_all add: fun_upd_idem)
  then show ?thesis using d m(1,3,4) by blast
qed

end

section \<open>Initialisation\<close>

text \<open>The state change of \<^const>\<open>binit_one\<close>.\<close>

definition push_buf :: "nat \<Rightarrow> fsstate \<Rightarrow> fsstate" where
  "push_buf b v =
     (let v1 = buf_upd b (\<lambda>u. u\<lparr>bnext := nx v HEAD, bprev := HEAD\<rparr>) v;
          v2 = v1\<lparr>slks := (slks v1)(BufLock b := \<lparr>slocked = 0, sname = ''buffer'', spid = 0\<rparr>)\<rparr>;
          v3 = buf_upd (nx v2 HEAD) (\<lambda>u. u\<lparr>bprev := b\<rparr>) v2
      in buf_upd HEAD (\<lambda>u. u\<lparr>bnext := b\<rparr>) v3)"

lemma fs_binit_one: "fs (binit_one b s) = push_buf b (fs s)"
  by (simp add: binit_one_def push_buf_def Let_def set_buf_eq initsleeplock_def set_slk_def fs_upd_def set_mach_def
      nx_def)

definition built :: "nat \<Rightarrow> fsstate \<Rightarrow> fsstate \<Rightarrow> bool" where
  "built k v w \<longleftrightarrow> dbl (nx w) (pv w) HEAD (rev [0..<k]) HEAD \<and> platter w = platter v \<and> length (bufs w) = Suc NBUF \<and>
     (\<forall>i < k. slocked (slks w (BufLock i)) = 0) \<and>
     (\<forall>i \<le> NBUF. (bufs w ! i)\<lparr>bnext := 0, bprev := 0\<rparr> = (bufs v ! i)\<lparr>bnext := 0, bprev := 0\<rparr>)"

lemma push_buf_built:
  assumes "built k v w" and k: "k < NBUF"
  shows "built (Suc k) v (push_buf k w)"
proof -
  have d: "dbl (nx w) (pv w) HEAD (rev [0..<k]) HEAD" and len: "length (bufs w) = Suc NBUF"
    using assms(1) by (auto simp: built_def)
  define v1 where "v1 = buf_upd k (\<lambda>u. u\<lparr>bnext := nx w HEAD, bprev := HEAD\<rparr>) w"
  define v2 where "v2 = v1\<lparr>slks := (slks v1)(BufLock k := \<lparr>slocked = 0, sname = ''buffer'', spid = 0\<rparr>)\<rparr>"
  define v3 where "v3 = buf_upd (nx v2 HEAD) (\<lambda>u. u\<lparr>bprev := k\<rparr>) v2"
  note defs = push_buf_def Let_def v1_def [symmetric] v2_def [symmetric] v3_def [symmetric]
  have "nx w HEAD \<in> set (rev [0..<k] @ [HEAD])" unfolding dbl_first [OF d] by (rule hd_in_set) simp
  then have hl: "nx w HEAD < length (bufs w)" using k len by auto
  have v2: "bufs v2 = bufs v1" by (simp add: v2_def)
  then have e2: "nx v2 = nx v1" "pv v2 = pv v1" by (simp_all add: nx_def pv_def fun_eq_iff)
  have n1: "nx v1 = (nx w)(k := nx w HEAD)" "pv v1 = (pv w)(k := HEAD)"
    unfolding v1_def using k len by (simp_all add: link_upd)
  have h: "nx v2 HEAD = nx w HEAD" using n1 e2 k by auto
  have l: "length (bufs v1) = Suc NBUF" "length (bufs v2) = Suc NBUF" "length (bufs v3) = Suc NBUF"
    using len by (simp_all add: v1_def v2_def v3_def)
  have n3: "nx v3 = nx v1" "pv v3 = (pv v1)(nx w HEAD := k)"
    unfolding v3_def h using hl l len by (simp_all add: link_upd e2)
  have n4: "nx (push_buf k w) = (nx w)(k := nx w HEAD, HEAD := k)"
    "pv (push_buf k w) = ((pv w)(k := HEAD))(nx w HEAD := k)"
    unfolding defs using l by (simp_all add: link_upd n3 n1)
  have "dbl (nx (push_buf k w)) (pv (push_buf k w)) HEAD (k # rev [0..<k]) HEAD"
    unfolding n4 using k by (intro dbl_push [OF d]) auto
  moreover have "(bufs (push_buf k w) ! i)\<lparr>bnext := 0, bprev := 0\<rparr> = (bufs v ! i)\<lparr>bnext := 0, bprev := 0\<rparr>" if "i \<le> NBUF" for i
  proof -
    have "(bufs (push_buf k w) ! i)\<lparr>bnext := 0, bprev := 0\<rparr> = (bufs w ! i)\<lparr>bnext := 0, bprev := 0\<rparr>"
      unfolding defs using l hl h len k that by (simp add: v3_def v2 v1_def)
    then show ?thesis using assms(1) that by (simp add: built_def)
  qed
  moreover have "slocked (slks (push_buf k w) (BufLock i)) = 0" if "i < Suc k" for i
    unfolding defs using assms(1) that by (auto simp: v3_def v2_def v1_def built_def less_Suc_eq)
  moreover have "platter (push_buf k w) = platter v" "length (bufs (push_buf k w)) = Suc NBUF"
    unfolding defs using assms(1) l by (simp_all add: v3_def v2_def v1_def built_def)
  ultimately show ?thesis by (simp add: built_def)
qed

lemma fs_fold_binit: "fs (fold binit_one xs s) = fold push_buf xs (fs s)"
  by (induction xs arbitrary: s) (simp_all add: fs_binit_one)

lemma fold_push_built: "built 0 v w \<Longrightarrow> k \<le> NBUF \<Longrightarrow> built k v (fold push_buf [0..<k] w)"
  by (induction k) (simp_all add: push_buf_built)

definition blank_buf :: buf where
  "blank_buf = \<lparr>bvalid = False, bdisk = False, bdev = 0, bblockno = 0, brefcnt = 0, bprev = 0, bnext = 0,
     bdata = replicate BSIZE 0\<rparr>"

lemma binit_built:
  assumes "bufs (fs s) = replicate (Suc NBUF) blank_buf"
  shows "built NBUF (fs s) (fs (binit s))"
proof -
  have "built 0 (fs s) (buf_upd HEAD (\<lambda>u. u\<lparr>bprev := HEAD, bnext := HEAD\<rparr>) (fs s))"
    using assms by (auto simp: built_def nx_def pv_def nth_append)
  from fold_push_built [OF this, of NBUF] show ?thesis
    by (simp add: binit_def fs_fold_binit set_buf_eq fs_upd_def set_mach_def)
qed

lemma binit_bc_inv:
  assumes "bufs (fs s) = replicate (Suc NBUF) blank_buf"
  shows "ring (fs (binit s)) (rev [0..<NBUF])" "bc_inv (fs (binit s))" "platter (fs (binit s)) = platter (fs s)"
    "i < NBUF \<Longrightarrow> key (fs (binit s)) i = None"
proof -
  let ?w = "fs (binit s)"
  note b = binit_built [OF assms]
  have blank: "brefcnt (bufs ?w ! i) = 0" "\<not> bvalid (bufs ?w ! i)" "bdev (bufs ?w ! i) = 0" if "i < NBUF" for i
  proof -
    have eq: "(bufs ?w ! i)\<lparr>bnext := 0, bprev := 0\<rparr> = blank_buf\<lparr>bnext := 0, bprev := 0\<rparr>"
      using b that assms by (simp add: built_def del: replicate_Suc)
    show "brefcnt (bufs ?w ! i) = 0" "\<not> bvalid (bufs ?w ! i)" "bdev (bufs ?w ! i) = 0"
      using arg_cong [OF eq, of brefcnt] arg_cong [OF eq, of bvalid] arg_cong [OF eq, of bdev]
      by (simp_all add: blank_buf_def)
  qed
  have k: "key ?w i = None" if "i < NBUF" for i using blank(3) [OF that] by (simp add: key_def ROOTDEV_def)
  show r: "ring ?w (rev [0..<NBUF])" using b by (auto simp: ring_def built_def)
  show "platter ?w = platter (fs s)" using b by (simp add: built_def)
  show "i < NBUF \<Longrightarrow> key ?w i = None" by (rule k)
  have "bc_uniq ?w" using k by (simp add: bc_uniq_def)
  then show "bc_inv ?w" using r b blank k by (auto simp: bc_inv_def built_def)
qed

definition boot_cache :: fsstate where
  "boot_cache = fs (binit (with_fs one_running (boot_fs\<lparr>bufs := replicate (Suc NBUF) blank_buf\<rparr>)))"

lemma cview_unused:
  assumes "\<And>i. i < NBUF \<Longrightarrow> key v i = None"
  shows "cview v = \<lparr>c_blk = platter v, c_plat = platter v, c_ref = \<lambda>_. 0, c_lk = \<lambda>_. None\<rparr>"
proof -
  have "slot v n = None" for n using assms by (auto simp: slot_def find_None_iff)
  then show ?thesis by (simp add: cview_def)
qed

lemma boot_cache:
  "bc_inv boot_cache" "cview boot_cache = \<lparr>c_blk = \<lambda>_. replicate 1024 0, c_plat = \<lambda>_. replicate 1024 0, c_ref = \<lambda>_. 0,
     c_lk = \<lambda>_. None\<rparr>"
proof -
  let ?s = "with_fs one_running (boot_fs\<lparr>bufs := replicate (Suc NBUF) blank_buf\<rparr>)"
  have "bufs (fs ?s) = replicate (Suc NBUF) blank_buf" by (simp del: replicate_Suc)
  note b = binit_bc_inv [OF this]
  show "bc_inv boot_cache" using b(2) by (simp add: boot_cache_def)
  show "cview boot_cache = \<lparr>c_blk = \<lambda>_. replicate 1024 0, c_plat = \<lambda>_. replicate 1024 0, c_ref = \<lambda>_. 0,
     c_lk = \<lambda>_. None\<rparr>"
    using cview_unused [OF b(4)] b(3) by (simp add: boot_cache_def boot_fs_def)
qed

section \<open>Properties\<close>

text \<open>
  C33. Initialisation establishes the cache's invariant. From zeroed memory \<^verbatim>\<open>binit\<close> links all buffers
  into one ring, buffer NBUF-1 first, in which every block has at most one buffer and nothing is
  referenced or locked.
\<close>

theorem binit_establishes_invariant:
  assumes "bufs (fs s) = replicate (Suc NBUF) blank_buf"
  shows "ring (fs (binit s)) (rev [0..<NBUF]) \<and> bc_inv (fs (binit s)) \<and>
    cview (fs (binit s)) = \<lparr>c_blk = platter (fs s), c_plat = platter (fs s), c_ref = \<lambda>_. 0, c_lk = \<lambda>_. None\<rparr>"
  using binit_bc_inv [OF assms] cview_unused [of "fs (binit s)"] by simp

theorem binit_establishes_invariant_witness:
  "ring boot_cache (rev [0..<NBUF])"
  unfolding boot_cache_def
  by (rule binit_establishes_invariant [THEN conjunct1]) (simp del: replicate_Suc)

text \<open>
  C6. The buffer cache is transparent. With the virtio driver below it, \<^verbatim>\<open>bread\<close> of a block nobody has
  locked returns, whenever a buffer can be had, a buffer of that block, locked by the caller, whose
  data is the block's current content (the cached one if there is one, the disk's otherwise). Nothing
  else a client can see changes, except that the block has one more reference.
\<close>

theorem bread_returns_current_block:
  assumes "sys_ok p s" and "bc_inv (fs s)" and "unat bno < 2 ^ 31"
    and "c_lk (cview (fs s)) (unat bno) = None" and "c_ref (cview (fs s)) (unat bno) < 2 ^ 32 - 1"
    and "0 < c_ref (cview (fs s)) (unat bno) \<or> card {m. 0 < c_ref (cview (fs s)) m} < NBUF"
  shows "\<exists>b s'. bread (virtio_env (\<lambda>s. Ok (serve s)) p) ROOTDEV bno s = Ok (b, s') \<and> quiet p s s' \<and> bc_inv (fs s') \<and>
    bdata (bufs (fs s') ! b) = c_blk (cview (fs s)) (unat bno) \<and> buf_for (fs s') b (unat bno) \<and>
    cview (fs s') = (cview (fs s))\<lparr>c_ref := (c_ref (cview (fs s)))(unat bno := c_ref (cview (fs s)) (unat bno) + 1),
       c_lk := (c_lk (cview (fs s)))(unat bno := Some (pid (procs s ! p)))\<rparr>"
proof -
  obtain b v' where y: "yields p s (bread (virtio_env (\<lambda>s. Ok (serve s)) p) ROOTDEV bno s) b v'" and
    i: "bc_inv v'" "buf_for v' b (unat bno)" and
    c: "cview v' = (cview (fs s))\<lparr>c_ref := (c_ref (cview (fs s)))(unat bno := c_ref (cview (fs s)) (unat bno) + 1),
       c_lk := (c_lk (cview (fs s)))(unat bno := Some (pid (procs s ! p)))\<rparr>"
    using vdrv.bread_spec [OF assms] by blast
  moreover have "bdata (bufs v' ! b) = c_blk (cview (fs s)) (unat bno)"
    using held_facts(1) [OF i] by (simp add: c)
  ultimately show ?thesis by (auto simp: yields_def)
qed

theorem bread_returns_current_block_witness:
  "\<exists>b s'. bread (virtio_env (\<lambda>s. Ok (serve s)) 0) ROOTDEV 33 (with_fs one_running boot_cache) = Ok (b, s') \<and>
     bdata (bufs (fs s') ! b) = replicate 1024 0"
proof -
  have "\<exists>b s'. bread (virtio_env (\<lambda>s. Ok (serve s)) 0) ROOTDEV 33 (with_fs one_running boot_cache) = Ok (b, s') \<and>
     bdata (bufs (fs s') ! b) = c_blk (cview (fs (with_fs one_running boot_cache))) (unat (33 :: uint32))"
    using bread_returns_current_block [OF one_running_sys_ok, of boot_cache 33] by (auto simp: boot_cache NBUF_def MAXOPBLOCKS_def)
  then show ?thesis by (simp add: boot_cache)
qed

text \<open>
  Released buffers are recycled in least-recently-used order, and a block written is on the disk.
  \<^verbatim>\<open>bwrite\<close> then \<^verbatim>\<open>brelse\<close> by the lock's holder succeed: the disk holds the buffer's data, the lock is
  free, the block has one reference less, and if that was the last one the buffer is moved to the
  front of the ring, every other buffer keeping its place.
\<close>

theorem bwrite_brelse:
  assumes "sys_ok p s" and "bc_inv (fs s)" and "buf_for (fs s) b n" and "n < 2 ^ 31"
    and "c_lk (cview (fs s)) n = Some (pid (procs s ! p))" and "0 < c_ref (cview (fs s)) n"
  shows "\<exists>s1 s2. bwrite (virtio_env (\<lambda>s. Ok (serve s)) p) b s = Ok s1 \<and> brelse b s1 = Ok s2 \<and> quiet p s s2 \<and> bc_inv (fs s2) \<and>
    cview (fs s2) = (cview (fs s))\<lparr>c_plat := (platter (fs s))(n := bdata (bufs (fs s) ! b)),
       c_ref := (c_ref (cview (fs s)))(n := c_ref (cview (fs s)) n - 1), c_lk := (c_lk (cview (fs s)))(n := None)\<rparr> \<and>
    (\<forall>us vs. ring (fs s1) (us @ b # vs) \<longrightarrow>
       ring (fs s2) (if c_ref (cview (fs s)) n = 1 then b # us @ vs else us @ b # vs))"
proof -
  obtain s1 where s1: "bwrite (virtio_env (\<lambda>s. Ok (serve s)) p) b s = Ok s1" "quiet p s s1" "bc_inv (fs s1)"
    "cview (fs s1) = (cview (fs s))\<lparr>c_plat := (platter (fs s))(n := c_blk (cview (fs s)) n)\<rparr>" "buf_for (fs s1) b n"
    using vdrv.bwrite_spec [OF assms TrueI] assms(3) by (fastforce simp: does_def)
  have pl: "platter (fs s1) n = c_blk (cview (fs s)) n" using arg_cong [OF s1(4), of c_plat] by (simp add: cview_def)
  have "c_lk (cview (fs s1)) n = Some (pid (procs s1 ! p))" using assms(5) quiet_proc(1) [OF s1(2) sys_okD(5) [OF assms(1)]]
    by (simp add: s1(4))
  with brelse_spec [OF quiet_ok [OF s1(2)] s1(3,5)] assms(6) pl
  obtain s2 where "brelse b s1 = Ok s2" "quiet p s1 s2" "bc_inv (fs s2)"
    "cview (fs s2) = (cview (fs s1))\<lparr>c_ref := (c_ref (cview (fs s1)))(n := c_ref (cview (fs s1)) n - 1),
       c_lk := (c_lk (cview (fs s1)))(n := None)\<rparr>"
    "\<forall>us vs. ring (fs s1) (us @ b # vs) \<longrightarrow>
       ring (fs s2) (if c_ref (cview (fs s1)) n = 1 then b # us @ vs else us @ b # vs)"
    by (auto simp: does_def s1(4))
  then show ?thesis using s1 held_facts(1) [OF assms(2,3)] quiet_trans by (auto simp: s1(4))
qed

theorem bwrite_brelse_witness:
  "\<exists>b s1 s2 s3. bread (virtio_env (\<lambda>s. Ok (serve s)) 0) ROOTDEV 33 (with_fs one_running boot_cache) = Ok (b, s1) \<and>
     bwrite (virtio_env (\<lambda>s. Ok (serve s)) 0) b s1 = Ok s2 \<and> brelse b s2 = Ok s3 \<and> c_ref (cview (fs s3)) 33 = 0"
proof -
  let ?s = "with_fs one_running boot_cache"
  obtain b s1 where s1: "bread (virtio_env (\<lambda>s. Ok (serve s)) 0) ROOTDEV 33 ?s = Ok (b, s1)" "quiet 0 ?s s1"
    "bc_inv (fs s1)" "buf_for (fs s1) b 33" "c_ref (cview (fs s1)) 33 = 1"
    "c_lk (cview (fs s1)) 33 = Some (pid (procs ?s ! 0))"
    using vdrv.bread_spec [OF one_running_sys_ok, of boot_cache 33]
    by (auto simp: boot_cache yields_def NBUF_def MAXOPBLOCKS_def)
  have "c_lk (cview (fs s1)) 33 = Some (pid (procs s1 ! 0))" using s1(6) quiet_proc(1) [OF s1(2)] by (simp add: NPROC_def)
  with bwrite_brelse [OF quiet_ok [OF s1(2)] s1(3,4)] s1(1,5) show ?thesis by fastforce
qed

end
