(* ===== verification/Log.thy ===== *)
theory Log
  imports Bio
begin

text \<open>
  The write-ahead log (kernel/log.c). The in-memory log is the field \<^const>\<open>lg\<close>; a header on disk is the
  block \<open>log_start\<close>, the count in its first word and then the block numbers. What a
  commit and a recovery do to the disk is the subject of theory Journal.
\<close>

section \<open>kernel/log.c\<close>

text \<open>\<^verbatim>\<open>memmove(dst->data, src->data, BSIZE)\<close> for two buffers.\<close>

definition copy_data :: "nat \<Rightarrow> nat \<Rightarrow> 'a fskernel_scheme \<Rightarrow> 'a fskernel_scheme" where
  "copy_data dst src s =
     set_buf dst (\<lambda>u. u\<lparr>bdata := blit (bdata u) 0 (slice (bdata (bufs (fs s) ! src)) 0 BSIZE)\<rparr>) s"

definition install_one ::
    "'a fskernel_scheme env \<Rightarrow> bool \<Rightarrow> nat \<Rightarrow> 'a fskernel_scheme \<Rightarrow> 'a fskernel_scheme outcome" where
  "install_one e recovering tail s =
     andThen (bread e (log_dev (lg (fs s))) (log_start (lg (fs s)) + of_nat tail + 1) s) (\<lambda>(lbuf, s1).
     andThen (bread e (log_dev (lg (fs s1))) (lh_block (lg (fs s1)) ! tail) s1) (\<lambda>(dbuf, s2).
     andThen (bwrite e dbuf (copy_data dbuf lbuf s2)) (\<lambda>s3.
     andThen (if \<not> recovering then bunpin dbuf s3 else Ok s3) (\<lambda>s4.
     andThen (brelse lbuf s4) (brelse dbuf)))))"

text \<open>
  The loops over the log's entries look at \<^verbatim>\<open>log.lh.n\<close> in every round. \<^verbatim>\<open>tail\<close> is an int, so \<open>2 ^ 31\<close>
  rounds are enough for every value of it.
\<close>

fun log_loop :: "nat \<Rightarrow> (nat \<Rightarrow> 'a fskernel_scheme \<Rightarrow> 'a fskernel_scheme outcome) \<Rightarrow> nat \<Rightarrow> 'a fskernel_scheme
     \<Rightarrow> 'a fskernel_scheme outcome" where
  "log_loop 0 f tail s = (if int tail < sint (lh_n (lg (fs s))) then Spin else Ok s)"
| "log_loop (Suc k) f tail s =
     (if int tail < sint (lh_n (lg (fs s))) then andThen (f tail s) (log_loop k f (Suc tail)) else Ok s)"

definition install_trans ::
    "'a fskernel_scheme env \<Rightarrow> bool \<Rightarrow> 'a fskernel_scheme \<Rightarrow> 'a fskernel_scheme outcome" where
  "install_trans e recovering = log_loop (2 ^ 31) (install_one e recovering) 0"

definition read_head :: "'a fskernel_scheme env \<Rightarrow> 'a fskernel_scheme \<Rightarrow> 'a fskernel_scheme outcome" where
  "read_head e s =
     andThen (bread e (log_dev (lg (fs s))) (log_start (lg (fs s))) s) (\<lambda>(b, s1).
     let d = bdata (bufs (fs s1) ! b); n = rd32 d 0 in
     brelse b (set_log (\<lambda>l. l\<lparr>lh_n := n,
       lh_block := fold (\<lambda>i bl. bl[i := rd32 d (4 + 4 * i)]) [0..<nat (sint n)] (lh_block l)\<rparr>) s1))"

text \<open>The bytes of a header with count \<open>n\<close> and blocks \<open>bl\<close>, written over \<open>d\<close>.\<close>

definition head_data :: "int32 \<Rightarrow> int32 list \<Rightarrow> uint8 list \<Rightarrow> uint8 list" where
  "head_data n bl d = fold (\<lambda>i d. wr32 d (4 + 4 * i) (bl ! i)) [0..<nat (sint n)] (wr32 d 0 n)"

definition write_head :: "'a fskernel_scheme env \<Rightarrow> 'a fskernel_scheme \<Rightarrow> 'a fskernel_scheme outcome" where
  "write_head e s =
     andThen (bread e (log_dev (lg (fs s))) (log_start (lg (fs s))) s) (\<lambda>(b, s1).
     andThen (bwrite e b (set_buf b (\<lambda>u. u\<lparr>bdata := head_data (lh_n (lg (fs s1))) (lh_block (lg (fs s1))) (bdata u)\<rparr>) s1))
       (brelse b))"

definition recover_from_log :: "'a fskernel_scheme env \<Rightarrow> 'a fskernel_scheme \<Rightarrow> 'a fskernel_scheme outcome" where
  "recover_from_log e s =
     andThen (read_head e s) (\<lambda>s1.
     andThen (install_trans e True s1) (\<lambda>s2.
     write_head e (set_log (\<lambda>l. l\<lparr>lh_n := 0\<rparr>) s2)))"

text \<open>\<^verbatim>\<open>sizeof(struct logheader)\<close> is \<open>4 + 4 * LOGSIZE\<close>.\<close>

definition initlog ::
    "'a fskernel_scheme env \<Rightarrow> uint32 \<Rightarrow> superblock \<Rightarrow> 'a fskernel_scheme \<Rightarrow> 'a fskernel_scheme outcome" where
  "initlog e dev sblk s =
     (if 4 + 4 * LOGSIZE \<ge> int BSIZE then Panic ''initlog: too big logheader''
      else recover_from_log e (set_log (\<lambda>l. l\<lparr>log_start := sb_logstart sblk, log_size := sb_nlog sblk, log_dev := dev\<rparr>)
             (set_mach (initlock LogLock ''log'' (kmach s)) s)))"

text \<open>The loop of \<^verbatim>\<open>begin_op\<close>, with at most \<open>fuel\<close> sleeps.\<close>

definition log_full :: "klog \<Rightarrow> bool" where
  "log_full l \<longleftrightarrow> sint (lh_n l + (outstanding l + 1) * word_of_int MAXOPBLOCKS) > LOGSIZE"

fun begin_op_wait ::
    "nat \<Rightarrow> ('a fskernel_scheme \<Rightarrow> 'a fskernel_scheme outcome) \<Rightarrow> 'a fskernel_scheme \<Rightarrow> 'a fskernel_scheme outcome" where
  "begin_op_wait fuel sw s =
     (if committing (lg (fs s)) \<or> log_full (lg (fs s)) then
        (case fuel of 0 \<Rightarrow> Spin | Suc k \<Rightarrow> andThen (sleep sw ChLog LogLock s) (begin_op_wait k sw))
      else krelease LogLock (set_log (\<lambda>l. l\<lparr>outstanding := outstanding l + 1\<rparr>) s))"

declare begin_op_wait.simps [simp del]

definition begin_op :: "'a fskernel_scheme env \<Rightarrow> 'a fskernel_scheme \<Rightarrow> 'a fskernel_scheme outcome" where
  "begin_op e s = andThen (kacquire LogLock s) (begin_op_wait (env_fuel e) (env_sw e))"

definition write_log_one ::
    "'a fskernel_scheme env \<Rightarrow> nat \<Rightarrow> 'a fskernel_scheme \<Rightarrow> 'a fskernel_scheme outcome" where
  "write_log_one e tail s =
     andThen (bread e (log_dev (lg (fs s))) (log_start (lg (fs s)) + of_nat tail + 1) s) (\<lambda>(to, s1).
     andThen (bread e (log_dev (lg (fs s1))) (lh_block (lg (fs s1)) ! tail) s1) (\<lambda>(from, s2).
     andThen (bwrite e to (copy_data to from s2)) (\<lambda>s3.
     andThen (brelse from s3) (brelse to))))"

definition write_log :: "'a fskernel_scheme env \<Rightarrow> 'a fskernel_scheme \<Rightarrow> 'a fskernel_scheme outcome" where
  "write_log e = log_loop (2 ^ 31) (write_log_one e) 0"

definition commit :: "'a fskernel_scheme env \<Rightarrow> 'a fskernel_scheme \<Rightarrow> 'a fskernel_scheme outcome" where
  "commit e s =
     (if sint (lh_n (lg (fs s))) > 0 then
        andThen (write_log e s) (\<lambda>s1.
        andThen (write_head e s1) (\<lambda>s2.
        andThen (install_trans e False s2) (\<lambda>s3.
        write_head e (set_log (\<lambda>l. l\<lparr>lh_n := 0\<rparr>) s3))))
      else Ok s)"

definition end_op :: "'a fskernel_scheme env \<Rightarrow> 'a fskernel_scheme \<Rightarrow> 'a fskernel_scheme outcome" where
  "end_op e s =
     andThen (kacquire LogLock s) (\<lambda>s1.
     let s2 = set_log (\<lambda>l. l\<lparr>outstanding := outstanding l - 1\<rparr>) s1 in
     if committing (lg (fs s2)) then Panic ''log.committing''
     else if outstanding (lg (fs s2)) = 0 then
       andThen (krelease LogLock (set_log (\<lambda>l. l\<lparr>committing := True\<rparr>) s2)) (\<lambda>s3.
       andThen (commit e s3) (\<lambda>s4.
       andThen (kacquire LogLock s4) (\<lambda>s5.
       andThen (wakeup (Some ChLog) (set_log (\<lambda>l. l\<lparr>committing := False\<rparr>) s5)) (krelease LogLock))))
     else andThen (wakeup (Some ChLog) s2) (krelease LogLock))"

text \<open>The index at which \<^verbatim>\<open>log_write\<close> stops its search: the entry of the block, or \<open>n\<close>.\<close>

definition absorb :: "nat \<Rightarrow> int32 list \<Rightarrow> uint32 \<Rightarrow> nat" where
  "absorb n bl bno = length (takeWhile (\<lambda>x. x \<noteq> bno) (take n bl))"

definition log_write :: "nat \<Rightarrow> 'a fskernel_scheme \<Rightarrow> 'a fskernel_scheme outcome" where
  "log_write b s =
     andThen (kacquire LogLock s) (\<lambda>s1.
     let l = lg (fs s1); bno = bblockno (bufs (fs s1) ! b); i = absorb (nat (sint (lh_n l))) (lh_block l) bno in
     if sint (lh_n l) \<ge> LOGSIZE \<or> sint (lh_n l) \<ge> sint (log_size l - 1) then Panic ''too big a transaction''
     else if sint (outstanding l) < 1 then Panic ''log_write outside of trans''
     else
       let s2 = set_log (\<lambda>l. l\<lparr>lh_block := (lh_block l)[i := bno]\<rparr>) s1 in
       if int i = sint (lh_n l) then
         andThen (bpin b s2) (\<lambda>s3. krelease LogLock (set_log (\<lambda>l. l\<lparr>lh_n := lh_n l + 1\<rparr>) s3))
       else krelease LogLock s2)"

end
