(* ===== verification/Fs.thy ===== *)
theory Fs
  imports Log
begin

text \<open>
  The file system proper (kernel/fs.c): superblock, block allocator, inodes, their contents,
  directories and path names. An inode pointer is an index into \<^const>\<open>itable\<close>, a null pointer is
  \<^const>\<open>None\<close>; a path is the list of its bytes without the final NUL. Messages that \<^verbatim>\<open>printf\<close> puts on
  the console are not part of the state.
\<close>

section \<open>Superblock and blocks\<close>

definition sb_of :: "uint8 list \<Rightarrow> superblock" where
  "sb_of d = \<lparr>sb_magic = rd32 d 0, sb_size = rd32 d 4, sb_nblocks = rd32 d 8, sb_ninodes = rd32 d 12,
     sb_nlog = rd32 d 16, sb_logstart = rd32 d 20, sb_inodestart = rd32 d 24, sb_bmapstart = rd32 d 28\<rparr>"

definition readsb :: "'a fskernel_scheme env \<Rightarrow> uint32 \<Rightarrow> 'a fskernel_scheme \<Rightarrow> 'a fskernel_scheme outcome" where
  "readsb e dev s =
     andThen (bread e dev 1 s) (\<lambda>(bp, s1).
     brelse bp (fs_upd (\<lambda>v. v\<lparr>sb := sb_of (bdata (bufs v ! bp))\<rparr>) s1))"

definition fsinit :: "'a fskernel_scheme env \<Rightarrow> uint32 \<Rightarrow> 'a fskernel_scheme \<Rightarrow> 'a fskernel_scheme outcome" where
  "fsinit e dev s =
     andThen (readsb e dev s) (\<lambda>s1.
     if sb_magic (sb (fs s1)) \<noteq> FSMAGIC then Panic ''invalid file system''
     else initlog e dev (sb (fs s1)) s1)"

text \<open>The data of the buffer \<open>b\<close>, and a change of it.\<close>

definition buf_data :: "nat \<Rightarrow> 'a fskernel_scheme \<Rightarrow> uint8 list" where
  "buf_data b s = bdata (bufs (fs s) ! b)"

definition set_data :: "nat \<Rightarrow> (uint8 list \<Rightarrow> uint8 list) \<Rightarrow> 'a fskernel_scheme \<Rightarrow> 'a fskernel_scheme" where
  "set_data b f = set_buf b (\<lambda>u. u\<lparr>bdata := f (bdata u)\<rparr>)"

definition bzero :: "'a fskernel_scheme env \<Rightarrow> uint32 \<Rightarrow> uint32 \<Rightarrow> 'a fskernel_scheme \<Rightarrow> 'a fskernel_scheme outcome" where
  "bzero e dev bno s =
     andThen (bread e dev bno s) (\<lambda>(bp, s1).
     andThen (log_write bp (set_data bp (\<lambda>d. blit d 0 (replicate BSIZE 0)) s1)) (brelse bp))"

definition BBLOCK :: "nat \<Rightarrow> superblock \<Rightarrow> uint32" where
  "BBLOCK b v = of_nat (b div BPB) + sb_bmapstart v"

definition IBLOCK :: "uint32 \<Rightarrow> superblock \<Rightarrow> uint32" where
  "IBLOCK i v = i div of_nat IPB + sb_inodestart v"

text \<open>Bit \<open>bi\<close> of a bitmap block, and the first clear one among the bits of blocks below \<open>size\<close>.\<close>

definition bit_mask :: "nat \<Rightarrow> uint8" where
  "bit_mask bi = push_bit (bi mod 8) 1"

definition bit_used :: "uint8 list \<Rightarrow> nat \<Rightarrow> bool" where
  "bit_used d bi \<longleftrightarrow> (d ! (bi div 8)) AND bit_mask bi \<noteq> 0"

definition bit_mark :: "nat \<Rightarrow> uint8 list \<Rightarrow> uint8 list" where
  "bit_mark bi d = d[bi div 8 := (d ! (bi div 8)) OR bit_mask bi]"

definition bit_clear :: "nat \<Rightarrow> uint8 list \<Rightarrow> uint8 list" where
  "bit_clear bi d = d[bi div 8 := (d ! (bi div 8)) AND NOT (bit_mask bi)]"

fun find_clear :: "nat \<Rightarrow> uint8 list \<Rightarrow> nat \<Rightarrow> nat \<Rightarrow> nat \<Rightarrow> nat option" where
  "find_clear 0 d b sz bi = None"
| "find_clear (Suc k) d b sz bi =
     (if bi < BPB \<and> b + bi < sz
      then if \<not> bit_used d bi then Some bi else find_clear k d b sz (Suc bi)
      else None)"

text \<open>The outer loop of \<^verbatim>\<open>balloc\<close>; \<open>b\<close> grows in every round, so \<open>sb.size\<close> rounds are enough.\<close>

fun balloc_loop ::
    "nat \<Rightarrow> 'a fskernel_scheme env \<Rightarrow> uint32 \<Rightarrow> nat \<Rightarrow> 'a fskernel_scheme \<Rightarrow> (uint32 \<times> 'a fskernel_scheme) outcome" where
  "balloc_loop fuel e dev b s =
     (if b < unat (sb_size (sb (fs s))) then
        (case fuel of 0 \<Rightarrow> Spin | Suc k \<Rightarrow>
          andThen (bread e dev (BBLOCK b (sb (fs s))) s) (\<lambda>(bp, s1).
          case find_clear BPB (buf_data bp s1) b (unat (sb_size (sb (fs s1)))) 0 of
            Some bi \<Rightarrow>
              andThen (log_write bp (set_data bp (bit_mark bi) s1)) (\<lambda>s2.
              andThen (brelse bp s2) (\<lambda>s3.
              andThen (bzero e dev (of_nat (b + bi)) s3) (\<lambda>s4. Ok (of_nat (b + bi), s4))))
          | None \<Rightarrow> andThen (brelse bp s1) (balloc_loop k e dev (b + BPB))))
      else Ok (0, s))"

declare balloc_loop.simps [simp del]

definition balloc :: "'a fskernel_scheme env \<Rightarrow> uint32 \<Rightarrow> 'a fskernel_scheme \<Rightarrow> (uint32 \<times> 'a fskernel_scheme) outcome" where
  "balloc e dev s = balloc_loop (unat (sb_size (sb (fs s)))) e dev 0 s"

definition bfree :: "'a fskernel_scheme env \<Rightarrow> uint32 \<Rightarrow> uint32 \<Rightarrow> 'a fskernel_scheme \<Rightarrow> 'a fskernel_scheme outcome" where
  "bfree e dev b s =
     andThen (bread e dev (BBLOCK (unat b) (sb (fs s))) s) (\<lambda>(bp, s1).
     let bi = unat b mod BPB in
     if \<not> bit_used (buf_data bp s1) bi then Panic ''freeing free block''
     else andThen (log_write bp (set_data bp (bit_clear bi) s1)) (brelse bp))"

section \<open>Inodes\<close>

definition iinit :: "'a fskernel_scheme \<Rightarrow> 'a fskernel_scheme" where
  "iinit s = fold (\<lambda>i. initsleeplock (InodeLock i) ''inode'') [0..<NINODE]
     (set_mach (initlock ItableLock ''itable'' (kmach s)) s)"

text \<open>The loop of \<^verbatim>\<open>iget\<close>: the entry that matches, or the first unused one.\<close>

fun iget_scan :: "inode list \<Rightarrow> uint32 \<Rightarrow> uint32 \<Rightarrow> nat option \<Rightarrow> nat list \<Rightarrow> nat option \<times> nat option" where
  "iget_scan t dev i emp [] = (None, emp)"
| "iget_scan t dev i emp (ip # ips) =
     (if sint (iref (t ! ip)) > 0 \<and> idev (t ! ip) = dev \<and> inum (t ! ip) = i then (Some ip, emp)
      else iget_scan t dev i (if emp = None \<and> iref (t ! ip) = 0 then Some ip else emp) ips)"

definition iget :: "uint32 \<Rightarrow> uint32 \<Rightarrow> 'a fskernel_scheme \<Rightarrow> (nat \<times> 'a fskernel_scheme) outcome" where
  "iget dev i s =
     andThen (kacquire ItableLock s) (\<lambda>s1.
     case iget_scan (itable (fs s1)) dev i None [0..<NINODE] of
       (Some ip, _) \<Rightarrow>
         andThen (krelease ItableLock (set_inode ip (\<lambda>x. x\<lparr>iref := iref x + 1\<rparr>) s1)) (\<lambda>s2. Ok (ip, s2))
     | (None, None) \<Rightarrow> Panic ''iget: no inodes''
     | (None, Some ip) \<Rightarrow>
         andThen (krelease ItableLock
           (set_inode ip (\<lambda>x. x\<lparr>idev := dev, inum := i, iref := 1, ivalid := False\<rparr>) s1)) (\<lambda>s2. Ok (ip, s2)))"

text \<open>The byte offset of inode \<open>i\<close> in its block.\<close>

definition dinode_at :: "uint32 \<Rightarrow> nat" where
  "dinode_at i = 64 * (unat i mod IPB)"

text \<open>
  The loop of \<^verbatim>\<open>ialloc\<close>; the comparison with the unsigned \<^verbatim>\<open>sb.ninodes\<close> is unsigned.
\<close>

fun ialloc_loop ::
    "nat \<Rightarrow> 'a fskernel_scheme env \<Rightarrow> uint32 \<Rightarrow> uint16 \<Rightarrow> nat \<Rightarrow> 'a fskernel_scheme
     \<Rightarrow> (nat option \<times> 'a fskernel_scheme) outcome" where
  "ialloc_loop fuel e dev type i s =
     (if i < unat (sb_ninodes (sb (fs s))) then
        (case fuel of 0 \<Rightarrow> Spin | Suc k \<Rightarrow>
          andThen (bread e dev (IBLOCK (of_nat i) (sb (fs s))) s) (\<lambda>(bp, s1).
          let off = dinode_at (of_nat i) in
          if rd16 (buf_data bp s1) off = 0 then
            andThen (log_write bp (set_data bp (\<lambda>d. wr16 (blit d off (replicate 64 0)) off type) s1)) (\<lambda>s2.
            andThen (brelse bp s2) (\<lambda>s3.
            andThen (iget dev (of_nat i) s3) (\<lambda>(ip, s4). Ok (Some ip, s4))))
          else andThen (brelse bp s1) (ialloc_loop k e dev type (Suc i))))
      else Ok (None, s))"

declare ialloc_loop.simps [simp del]

definition ialloc ::
    "'a fskernel_scheme env \<Rightarrow> uint32 \<Rightarrow> uint16 \<Rightarrow> 'a fskernel_scheme \<Rightarrow> (nat option \<times> 'a fskernel_scheme) outcome" where
  "ialloc e dev type s = ialloc_loop (unat (sb_ninodes (sb (fs s)))) e dev type 1 s"

text \<open>The inode \<open>ip\<close> written to the block data \<open>d\<close>, and read from it.\<close>

definition dinode_write :: "inode \<Rightarrow> uint8 list \<Rightarrow> uint8 list" where
  "dinode_write ip d =
     (let off = dinode_at (inum ip);
          d1 = wr16 d off (itype ip);
          d2 = wr16 d1 (off + 2) (imajor ip);
          d3 = wr16 d2 (off + 4) (iminor ip);
          d4 = wr16 d3 (off + 6) (nlink ip);
          d5 = wr32 d4 (off + 8) (isize ip)
      in blit d5 (off + 12) (concat (map bytes32 (addrs ip))))"

definition dinode_read :: "uint8 list \<Rightarrow> inode \<Rightarrow> inode" where
  "dinode_read d ip =
     (let off = dinode_at (inum ip) in
      ip\<lparr>itype := rd16 d off, imajor := rd16 d (off + 2), iminor := rd16 d (off + 4), nlink := rd16 d (off + 6),
        isize := rd32 d (off + 8), addrs := map (\<lambda>i. rd32 d (off + 12 + 4 * i)) [0..<NDIRECT + 1]\<rparr>)"

definition iupdate :: "'a fskernel_scheme env \<Rightarrow> nat \<Rightarrow> 'a fskernel_scheme \<Rightarrow> 'a fskernel_scheme outcome" where
  "iupdate e ip s =
     (let i = itable (fs s) ! ip in
      andThen (bread e (idev i) (IBLOCK (inum i) (sb (fs s))) s) (\<lambda>(bp, s1).
      andThen (log_write bp (set_data bp (dinode_write (itable (fs s1) ! ip)) s1)) (brelse bp)))"

definition idup :: "nat \<Rightarrow> 'a fskernel_scheme \<Rightarrow> (nat \<times> 'a fskernel_scheme) outcome" where
  "idup ip s =
     andThen (kacquire ItableLock s) (\<lambda>s1.
     andThen (krelease ItableLock (set_inode ip (\<lambda>x. x\<lparr>iref := iref x + 1\<rparr>) s1)) (\<lambda>s2. Ok (ip, s2)))"

definition ilock :: "'a fskernel_scheme env \<Rightarrow> nat option \<Rightarrow> 'a fskernel_scheme \<Rightarrow> 'a fskernel_scheme outcome" where
  "ilock e ip s =
     (case ip of None \<Rightarrow> Panic ''ilock'' | Some ip \<Rightarrow>
      if sint (iref (itable (fs s) ! ip)) < 1 then Panic ''ilock''
      else
        andThen (acquiresleep e (InodeLock ip) s) (\<lambda>s1.
        let i = itable (fs s1) ! ip in
        if \<not> ivalid i then
          andThen (bread e (idev i) (IBLOCK (inum i) (sb (fs s1))) s1) (\<lambda>(bp, s2).
          andThen (brelse bp (set_inode ip (dinode_read (buf_data bp s2)) s2)) (\<lambda>s3.
          let s4 = set_inode ip (\<lambda>x. x\<lparr>ivalid := True\<rparr>) s3 in
          if itype (itable (fs s4) ! ip) = 0 then Panic ''ilock: no type'' else Ok s4))
        else Ok s1))"

definition iunlock :: "nat option \<Rightarrow> 'a fskernel_scheme \<Rightarrow> 'a fskernel_scheme outcome" where
  "iunlock ip s =
     (case ip of None \<Rightarrow> Panic ''iunlock'' | Some ip \<Rightarrow>
      andThen (holdingsleep (InodeLock ip) s) (\<lambda>(h, s1).
      if \<not> h \<or> sint (iref (itable (fs s1) ! ip)) < 1 then Panic ''iunlock''
      else releasesleep (InodeLock ip) s1))"

section \<open>Inode content\<close>

definition set_addr :: "nat \<Rightarrow> nat \<Rightarrow> uint32 \<Rightarrow> 'a fskernel_scheme \<Rightarrow> 'a fskernel_scheme" where
  "set_addr ip k a = set_inode ip (\<lambda>x. x\<lparr>addrs := (addrs x)[k := a]\<rparr>)"

text \<open>The address in \<^verbatim>\<open>ip->addrs[k]\<close>, allocated if it is 0.\<close>

definition bmap_slot ::
    "'a fskernel_scheme env \<Rightarrow> nat \<Rightarrow> nat \<Rightarrow> 'a fskernel_scheme \<Rightarrow> (uint32 \<times> 'a fskernel_scheme) outcome" where
  "bmap_slot e ip k s =
     (let a = addrs (itable (fs s) ! ip) ! k in
      if a = 0 then
        andThen (balloc e (idev (itable (fs s) ! ip)) s) (\<lambda>(a', s1).
        if a' = 0 then Ok (0, s1) else Ok (a', set_addr ip k a' s1))
      else Ok (a, s))"

definition bmap ::
    "'a fskernel_scheme env \<Rightarrow> nat \<Rightarrow> uint32 \<Rightarrow> 'a fskernel_scheme \<Rightarrow> (uint32 \<times> 'a fskernel_scheme) outcome" where
  "bmap e ip bn s =
     (if unat bn < NDIRECT then bmap_slot e ip (unat bn) s
      else
        let k = unat bn - NDIRECT in
        if k < NINDIRECT then
          andThen (bmap_slot e ip NDIRECT s) (\<lambda>(a, s1).
          if a = 0 then Ok (0, s1)
          else
            andThen (bread e (idev (itable (fs s1) ! ip)) a s1) (\<lambda>(bp, s2).
            let x = rd32 (buf_data bp s2) (4 * k) in
            andThen
              (if x = 0 then
                 andThen (balloc e (idev (itable (fs s2) ! ip)) s2) (\<lambda>(y, s3).
                 if y \<noteq> 0 then andThen (log_write bp (set_data bp (\<lambda>d. wr32 d (4 * k) y) s3)) (\<lambda>s4. Ok (y, s4))
                 else Ok (y, s3))
               else Ok (x, s2)) (\<lambda>(y, s3).
            andThen (brelse bp s3) (\<lambda>s4. Ok (y, s4)))))
        else Panic ''bmap: out of range'')"

definition itrunc_direct :: "'a fskernel_scheme env \<Rightarrow> nat \<Rightarrow> nat \<Rightarrow> 'a fskernel_scheme \<Rightarrow> 'a fskernel_scheme outcome" where
  "itrunc_direct e ip i s =
     (let x = itable (fs s) ! ip in
      if addrs x ! i \<noteq> 0 then andThen (bfree e (idev x) (addrs x ! i) s) (\<lambda>s1. Ok (set_addr ip i 0 s1)) else Ok s)"

definition itrunc_indirect ::
    "'a fskernel_scheme env \<Rightarrow> nat \<Rightarrow> nat \<Rightarrow> nat \<Rightarrow> 'a fskernel_scheme \<Rightarrow> 'a fskernel_scheme outcome" where
  "itrunc_indirect e ip bp j s =
     (let a = rd32 (buf_data bp s) (4 * j) in if a \<noteq> 0 then bfree e (idev (itable (fs s) ! ip)) a s else Ok s)"

definition itrunc :: "'a fskernel_scheme env \<Rightarrow> nat \<Rightarrow> 'a fskernel_scheme \<Rightarrow> 'a fskernel_scheme outcome" where
  "itrunc e ip s =
     andThen (for_procs (itrunc_direct e ip) [0..<NDIRECT] s) (\<lambda>s1.
     let x = itable (fs s1) ! ip in
     andThen
       (if addrs x ! NDIRECT \<noteq> 0 then
          andThen (bread e (idev x) (addrs x ! NDIRECT) s1) (\<lambda>(bp, s2).
          andThen (for_procs (itrunc_indirect e ip bp) [0..<NINDIRECT] s2) (\<lambda>s3.
          andThen (brelse bp s3) (\<lambda>s4.
          andThen (bfree e (idev (itable (fs s4) ! ip)) (addrs (itable (fs s4) ! ip) ! NDIRECT) s4) (\<lambda>s5.
          Ok (set_addr ip NDIRECT 0 s5)))))
        else Ok s1) (\<lambda>s6.
     iupdate e ip (set_inode ip (\<lambda>x. x\<lparr>isize := 0\<rparr>) s6)))"

definition iput :: "'a fskernel_scheme env \<Rightarrow> nat \<Rightarrow> 'a fskernel_scheme \<Rightarrow> 'a fskernel_scheme outcome" where
  "iput e ip s =
     andThen (kacquire ItableLock s) (\<lambda>s1.
     let i = itable (fs s1) ! ip in
     andThen
       (if iref i = 1 \<and> ivalid i \<and> nlink i = 0 then
          andThen (acquiresleep e (InodeLock ip) s1) (\<lambda>s2.
          andThen (krelease ItableLock s2) (\<lambda>s3.
          andThen (itrunc e ip s3) (\<lambda>s4.
          andThen (iupdate e ip (set_inode ip (\<lambda>x. x\<lparr>itype := 0\<rparr>) s4)) (\<lambda>s5.
          andThen (releasesleep (InodeLock ip) (set_inode ip (\<lambda>x. x\<lparr>ivalid := False\<rparr>) s5)) (kacquire ItableLock)))))
        else Ok s1) (\<lambda>s6.
     krelease ItableLock (set_inode ip (\<lambda>x. x\<lparr>iref := iref x - 1\<rparr>) s6)))"

definition iunlockput :: "'a fskernel_scheme env \<Rightarrow> nat \<Rightarrow> 'a fskernel_scheme \<Rightarrow> 'a fskernel_scheme outcome" where
  "iunlockput e ip s = andThen (iunlock (Some ip) s) (iput e ip)"

record stat =
  st_dev :: int32
  st_ino :: uint32
  st_type :: uint16
  st_nlink :: uint16
  st_size :: uint64

definition stati :: "nat \<Rightarrow> 'a fskernel_scheme \<Rightarrow> stat" where
  "stati ip s =
     (let i = itable (fs s) ! ip in
      \<lparr>st_dev = idev i, st_ino = inum i, st_type = itype i, st_nlink = nlink i, st_size = ucast (isize i)\<rparr>)"

text \<open>
  The destination of \<^verbatim>\<open>readi\<close> and the source of \<^verbatim>\<open>writei\<close>: an address, of user or kernel memory, or a
  variable on the kernel's stack, which is a byte array of its own.
\<close>

datatype iobuf = AtAddr bool uint64 | AtLocal "uint8 list"

text \<open>\<^verbatim>\<open>either_copyout\<close> to such a destination at offset \<open>tot\<close>, and \<^verbatim>\<open>either_copyin\<close> from such a source.\<close>

fun io_out :: "iobuf \<Rightarrow> nat \<Rightarrow> uint8 list \<Rightarrow> 'a kernel_scheme \<Rightarrow> (int32 \<times> iobuf \<times> 'a kernel_scheme) outcome" where
  "io_out (AtAddr user dst) tot bs s =
     andThen (either_copyout user (dst + of_nat tot) bs s) (\<lambda>(r, s1). Ok (r, AtAddr user dst, s1))"
| "io_out (AtLocal loc) tot bs s = andThen (myproc s) (\<lambda>(_, s1). Ok (0, AtLocal (blit loc tot bs), s1))"

fun io_in :: "iobuf \<Rightarrow> nat \<Rightarrow> nat \<Rightarrow> 'a kernel_scheme \<Rightarrow> (int32 \<times> uint8 list \<times> 'a kernel_scheme) outcome" where
  "io_in (AtAddr user src) tot n s = either_copyin user (src + of_nat tot) n s"
| "io_in (AtLocal loc) tot n s = andThen (myproc s) (\<lambda>(_, s1). Ok (0, slice loc tot n, s1))"

text \<open>
  The loop of \<^verbatim>\<open>readi\<close>. The bytes of one round; every round moves at least one byte, so \<open>n\<close> rounds
  are enough. The result is \<^verbatim>\<open>tot\<close>.
\<close>

definition io_chunk :: "uint32 \<Rightarrow> uint32 \<Rightarrow> uint32 \<Rightarrow> uint32" where
  "io_chunk n tot off = min (n - tot) (of_nat BSIZE - off mod of_nat BSIZE)"

fun readi_loop ::
    "nat \<Rightarrow> 'a fskernel_scheme env \<Rightarrow> nat \<Rightarrow> uint32 \<Rightarrow> uint32 \<Rightarrow> uint32 \<Rightarrow> iobuf \<Rightarrow> 'a fskernel_scheme
     \<Rightarrow> (uint32 \<times> iobuf \<times> 'a fskernel_scheme) outcome" where
  "readi_loop fuel e ip n tot off dst s =
     (if tot < n then
        (case fuel of 0 \<Rightarrow> Spin | Suc k \<Rightarrow>
          andThen (bmap e ip (off div of_nat BSIZE) s) (\<lambda>(addr, s1).
          if addr = 0 then Ok (tot, dst, s1)
          else
            andThen (bread e (idev (itable (fs s1) ! ip)) addr s1) (\<lambda>(bp, s2).
            let m = io_chunk n tot off in
            andThen (io_out dst (unat tot) (slice (buf_data bp s2) (unat (off mod of_nat BSIZE)) (unat m)) s2)
              (\<lambda>(r, dst', s3).
            andThen (brelse bp s3) (\<lambda>s4.
            if r = -1 then Ok (-1, dst', s4)
            else readi_loop k e ip n (tot + m) (off + m) dst' s4)))))
      else Ok (tot, dst, s))"

declare readi_loop.simps [simp del]

definition readi ::
    "'a fskernel_scheme env \<Rightarrow> nat \<Rightarrow> iobuf \<Rightarrow> uint32 \<Rightarrow> uint32 \<Rightarrow> 'a fskernel_scheme
     \<Rightarrow> (int32 \<times> iobuf \<times> 'a fskernel_scheme) outcome" where
  "readi e ip dst off n s =
     (let sz = isize (itable (fs s) ! ip) in
      if off > sz \<or> off + n < off then Ok (0, dst, s)
      else
        let n' = (if off + n > sz then sz - off else n) in
        readi_loop (unat n') e ip n' 0 off dst s)"

text \<open>The loop of \<^verbatim>\<open>writei\<close> ends with \<^verbatim>\<open>tot\<close> and \<^verbatim>\<open>off\<close>.\<close>

fun writei_loop ::
    "nat \<Rightarrow> 'a fskernel_scheme env \<Rightarrow> nat \<Rightarrow> iobuf \<Rightarrow> uint32 \<Rightarrow> uint32 \<Rightarrow> uint32 \<Rightarrow> 'a fskernel_scheme
     \<Rightarrow> (uint32 \<times> uint32 \<times> 'a fskernel_scheme) outcome" where
  "writei_loop fuel e ip src n tot off s =
     (if tot < n then
        (case fuel of 0 \<Rightarrow> Spin | Suc k \<Rightarrow>
          andThen (bmap e ip (off div of_nat BSIZE) s) (\<lambda>(addr, s1).
          if addr = 0 then Ok (tot, off, s1)
          else
            andThen (bread e (idev (itable (fs s1) ! ip)) addr s1) (\<lambda>(bp, s2).
            let m = io_chunk n tot off in
            andThen (io_in src (unat tot) (unat m) s2) (\<lambda>(r, bs, s3).
            let s4 = set_data bp (\<lambda>d. blit d (unat (off mod of_nat BSIZE)) bs) s3 in
            if r = -1 then andThen (brelse bp s4) (\<lambda>s5. Ok (tot, off, s5))
            else
              andThen (log_write bp s4) (\<lambda>s5.
              andThen (brelse bp s5) (writei_loop k e ip src n (tot + m) (off + m)))))))
      else Ok (tot, off, s))"

declare writei_loop.simps [simp del]

definition writei ::
    "'a fskernel_scheme env \<Rightarrow> nat \<Rightarrow> iobuf \<Rightarrow> uint32 \<Rightarrow> uint32 \<Rightarrow> 'a fskernel_scheme
     \<Rightarrow> (int32 \<times> 'a fskernel_scheme) outcome" where
  "writei e ip src off n s =
     (if off > isize (itable (fs s) ! ip) \<or> off + n < off then Ok (-1, s)
      else if unat (off + n) > MAXFILE * BSIZE then Ok (-1, s)
      else
        andThen (writei_loop (unat n) e ip src n 0 off s) (\<lambda>(tot, off', s1).
        andThen (iupdate e ip
          (if off' > isize (itable (fs s1) ! ip) then set_inode ip (\<lambda>x. x\<lparr>isize := off'\<rparr>) s1 else s1)) (\<lambda>s2.
        Ok (tot, s2))))"

section \<open>Directories\<close>

definition namecmp :: "uint8 list \<Rightarrow> uint8 list \<Rightarrow> int" where
  "namecmp a b = strncmp (arr a) (arr b) DIRSIZ"

text \<open>A directory entry is 16 bytes, the inode number and the name. Its two parts:\<close>

definition de_inum :: "uint8 list \<Rightarrow> uint16" where
  "de_inum de = rd16 de 0"

definition de_name :: "uint8 list \<Rightarrow> uint8 list" where
  "de_name de = slice de 2 DIRSIZ"

text \<open>
  One \<^verbatim>\<open>readi\<close> of a \<^verbatim>\<open>struct dirent\<close>, which must be complete.
\<close>

definition read_de ::
    "'a fskernel_scheme env \<Rightarrow> string \<Rightarrow> nat \<Rightarrow> uint32 \<Rightarrow> uint8 list \<Rightarrow> 'a fskernel_scheme
     \<Rightarrow> (uint8 list \<times> 'a fskernel_scheme) outcome" where
  "read_de e msg dp off de s =
     andThen (readi e dp (AtLocal de) off 16 s) (\<lambda>(r, dst, s1).
     if r \<noteq> 16 then Panic msg
     else (case dst of AtLocal de' \<Rightarrow> Ok (de', s1) | AtAddr _ _ \<Rightarrow> Panic msg))"

text \<open>
  The loop of \<^verbatim>\<open>dirlookup\<close>. \<^verbatim>\<open>off\<close> is a uint that grows by 16, so it repeats after \<open>2 ^ 28\<close> rounds.
  The result is the inode and the entry's offset.
\<close>

fun dirlookup_loop ::
    "nat \<Rightarrow> 'a fskernel_scheme env \<Rightarrow> nat \<Rightarrow> uint8 list \<Rightarrow> uint32 \<Rightarrow> uint8 list \<Rightarrow> 'a fskernel_scheme
     \<Rightarrow> ((nat \<times> uint32) option \<times> 'a fskernel_scheme) outcome" where
  "dirlookup_loop fuel e dp name off de s =
     (if off < isize (itable (fs s) ! dp) then
        (case fuel of 0 \<Rightarrow> Spin | Suc k \<Rightarrow>
          andThen (read_de e ''dirlookup read'' dp off de s) (\<lambda>(de', s1).
          if de_inum de' \<noteq> 0 \<and> namecmp name (de_name de') = 0 then
            andThen (iget (idev (itable (fs s1) ! dp)) (ucast (de_inum de')) s1) (\<lambda>(ip, s2). Ok (Some (ip, off), s2))
          else dirlookup_loop k e dp name (off + 16) de' s1))
      else Ok (None, s))"

declare dirlookup_loop.simps [simp del]

definition zero_de :: "uint8 list" where
  "zero_de = replicate 16 0"

definition dirlookup ::
    "'a fskernel_scheme env \<Rightarrow> nat \<Rightarrow> uint8 list \<Rightarrow> 'a fskernel_scheme
     \<Rightarrow> ((nat \<times> uint32) option \<times> 'a fskernel_scheme) outcome" where
  "dirlookup e dp name s =
     (if itype (itable (fs s) ! dp) \<noteq> T_DIR then Panic ''dirlookup not DIR''
      else dirlookup_loop (2 ^ 28) e dp name 0 zero_de s)"

text \<open>The search of \<^verbatim>\<open>dirlink\<close> for an unused entry, with the offset it ends at.\<close>

fun dirlink_loop ::
    "nat \<Rightarrow> 'a fskernel_scheme env \<Rightarrow> nat \<Rightarrow> uint32 \<Rightarrow> uint8 list \<Rightarrow> 'a fskernel_scheme
     \<Rightarrow> (uint32 \<times> uint8 list \<times> 'a fskernel_scheme) outcome" where
  "dirlink_loop fuel e dp off de s =
     (if off < isize (itable (fs s) ! dp) then
        (case fuel of 0 \<Rightarrow> Spin | Suc k \<Rightarrow>
          andThen (read_de e ''dirlink read'' dp off de s) (\<lambda>(de', s1).
          if de_inum de' = 0 then Ok (off, de', s1) else dirlink_loop k e dp (off + 16) de' s1))
      else Ok (off, de, s))"

declare dirlink_loop.simps [simp del]

definition dirlink ::
    "'a fskernel_scheme env \<Rightarrow> nat \<Rightarrow> uint8 list \<Rightarrow> uint32 \<Rightarrow> 'a fskernel_scheme \<Rightarrow> (int32 \<times> 'a fskernel_scheme) outcome" where
  "dirlink e dp name i s =
     andThen (dirlookup e dp name s) (\<lambda>(r, s1).
     case r of
       Some (ip, _) \<Rightarrow> andThen (iput e ip s1) (\<lambda>s2. Ok (-1, s2))
     | None \<Rightarrow>
         andThen (dirlink_loop (2 ^ 28) e dp 0 zero_de s1) (\<lambda>(off, de, s2).
         let de' = bytes16 (ucast i) @ strncpy (de_name de) (arr name) DIRSIZ in
         andThen (writei e dp (AtLocal de') off 16 s2) (\<lambda>(r, s3).
         Ok (if r \<noteq> 16 then -1 else 0, s3))))"

section \<open>Paths\<close>

definition SLASH :: uint8 where "SLASH = 47"

definition skip_slashes :: "uint8 list \<Rightarrow> uint8 list" where
  "skip_slashes = dropWhile (\<lambda>c. c = SLASH)"

text \<open>\<open>skipelem path name\<close>: the rest of the path and the buffer \<^verbatim>\<open>name\<close>.\<close>

definition skipelem :: "uint8 list \<Rightarrow> uint8 list \<Rightarrow> (uint8 list \<times> uint8 list) option" where
  "skipelem path name =
     (case skip_slashes path of
        [] \<Rightarrow> None
      | s \<Rightarrow>
         let el = takeWhile (\<lambda>c. c \<noteq> SLASH) s;
             name' = (if length el \<ge> DIRSIZ then blit name 0 (take DIRSIZ el) else blit name 0 (el @ [0]))
         in Some (skip_slashes (dropWhile (\<lambda>c. c \<noteq> SLASH) s), name'))"

lemma skip_slashes_le: "length (skip_slashes p) \<le> length p"
  by (simp add: skip_slashes_def length_dropWhile_le)

lemma skipelem_shorter: "skipelem path name = Some (path', name') \<Longrightarrow> length path' < length path"
proof -
  assume a: "skipelem path name = Some (path', name')"
  then obtain c cs where s: "skip_slashes path = c # cs" by (auto simp: skipelem_def split: list.splits)
  then have "c \<noteq> SLASH" by (simp add: skip_slashes_def dropWhile_eq_Cons_conv)
  then have "path' = skip_slashes (dropWhile (\<lambda>c. c \<noteq> SLASH) cs)" using a s by (auto simp: skipelem_def Let_def)
  then have "length path' \<le> length cs" using le_trans [OF skip_slashes_le length_dropWhile_le] by simp
  then show ?thesis using skip_slashes_le [of path] s by simp
qed

function namex_loop ::
    "'a fskernel_scheme env \<Rightarrow> uint8 list \<Rightarrow> bool \<Rightarrow> uint8 list \<Rightarrow> nat \<Rightarrow> 'a fskernel_scheme
     \<Rightarrow> (nat option \<times> uint8 list \<times> 'a fskernel_scheme) outcome" where
  "namex_loop e path nameiparent name ip s =
     (case skipelem path name of
        None \<Rightarrow>
          if nameiparent then andThen (iput e ip s) (\<lambda>s1. Ok (None, name, s1)) else Ok (Some ip, name, s)
      | Some (path', name') \<Rightarrow>
          andThen (ilock e (Some ip) s) (\<lambda>s1.
          if itype (itable (fs s1) ! ip) \<noteq> T_DIR then andThen (iunlockput e ip s1) (\<lambda>s2. Ok (None, name', s2))
          else if nameiparent \<and> path' = [] then andThen (iunlock (Some ip) s1) (\<lambda>s2. Ok (Some ip, name', s2))
          else
            andThen (dirlookup e ip name' s1) (\<lambda>(r, s2).
            case r of
              None \<Rightarrow> andThen (iunlockput e ip s2) (\<lambda>s3. Ok (None, name', s3))
            | Some (nxt, _) \<Rightarrow> andThen (iunlockput e ip s2) (\<lambda>s3. namex_loop e path' nameiparent name' nxt s3))))"
  by pat_completeness auto
termination
  by (relation "measure (\<lambda>(e, path, _). length path)") (auto simp: skipelem_shorter)

declare namex_loop.simps [simp del]

definition namex ::
    "'a fskernel_scheme env \<Rightarrow> uint8 list \<Rightarrow> bool \<Rightarrow> uint8 list \<Rightarrow> 'a fskernel_scheme
     \<Rightarrow> (nat option \<times> uint8 list \<times> 'a fskernel_scheme) outcome" where
  "namex e path nameiparent name s =
     andThen
       (if path \<noteq> [] \<and> hd path = SLASH then iget ROOTDEV ROOTINO s
        else andThen (curproc s) (\<lambda>(p, s1).
          case cwd (procs s1 ! p) of None \<Rightarrow> Panic ''kerneltrap'' | Some d \<Rightarrow> idup d s1)) (\<lambda>(ip, s1).
     namex_loop e path nameiparent name ip s1)"

definition namei ::
    "'a fskernel_scheme env \<Rightarrow> uint8 list \<Rightarrow> 'a fskernel_scheme \<Rightarrow> (nat option \<times> 'a fskernel_scheme) outcome" where
  "namei e path s =
     andThen (namex e path False (replicate DIRSIZ 0) s) (\<lambda>(ip, _, s1). Ok (ip, s1))"

definition nameiparent ::
    "'a fskernel_scheme env \<Rightarrow> uint8 list \<Rightarrow> uint8 list \<Rightarrow> 'a fskernel_scheme
     \<Rightarrow> (nat option \<times> uint8 list \<times> 'a fskernel_scheme) outcome" where
  "nameiparent e path name = namex e path True name"

end
