(* ===== verification/Ring.thy ===== *)
theory Ring
  imports Prelude "HOL-Library.Word"
begin

text \<open>
  Circular buffers with counters that only grow and wrap around at the width of their type, as in
  kernel/pipe.c, kernel/uart.c and kernel/console.c: slot \<open>k mod N\<close> holds the item with number \<open>k\<close>, and
  the size \<open>N\<close> of the buffer divides the range of the counters. The locale is the contract of a bounded
  queue that the buffers offer to their clients.
\<close>

section \<open>Ring buffers as lists\<close>

definition ring_ok :: "nat \<Rightarrow> 'b list \<Rightarrow> 'w::len word \<Rightarrow> 'w word \<Rightarrow> bool" where
  "ring_ok N buf r w \<longleftrightarrow> length buf = N \<and> unat (w - r) \<le> N"

definition ring_items :: "nat \<Rightarrow> 'b list \<Rightarrow> 'w::len word \<Rightarrow> 'w word \<Rightarrow> 'b list" where
  "ring_items N buf r w = map (\<lambda>i. buf ! ((unat r + i) mod N)) [0..<unat (w - r)]"

lemma length_ring_items [simp]: "length (ring_items N buf r w) = unat (w - r)"
  by (simp add: ring_items_def)

lemma unat_mod_ring:
  fixes r :: "'w::len word"
  assumes "N dvd 2 ^ LENGTH('w)"
  shows "unat (r + of_nat k) mod N = (unat r + k) mod N"
proof -
  have "unat (r + of_nat k) mod N = ((unat r + k mod 2 ^ LENGTH('w)) mod 2 ^ LENGTH('w)) mod N"
    by (simp add: unat_word_ariths unat_of_nat take_bit_eq_mod)
  also have "\<dots> = (unat r + k) mod N" using assms by (simp add: mod_mod_cancel mod_add_right_eq)
  finally show ?thesis .
qed

lemma Suc_unat_eq:
  fixes x :: "'w::len word"
  assumes "Suc (unat x) < 2 ^ LENGTH('w)"
  shows "unat (x + 1) = Suc (unat x)"
  using assms by (simp add: unat_word_ariths)

lemma unat_dist_Suc:
  fixes r w :: "'w::len word"
  assumes "unat (w - r) < N" and "N < 2 ^ LENGTH('w)"
  shows "unat (w + 1 - r) = Suc (unat (w - r))"
proof -
  have "w + 1 - r = (w - r) + 1" by (rule diff_add_eq [symmetric])
  moreover have "unat ((w - r) + 1) = Suc (unat (w - r))" by (rule Suc_unat_eq) (use assms in linarith)
  ultimately show ?thesis by metis
qed

lemma ring_slot_inj:
  fixes i j :: nat
  assumes "i < N" "j < N" and eq: "(a + i) mod N = (a + j) mod N"
  shows "i = j"
proof -
  have "x = y" if "x \<le> y" "y < N" "(a + y) mod N = (a + x) mod N" for x y :: nat
  proof -
    have "N dvd (a + y) - (a + x)" using that(1,3) by (subst (asm) mod_eq_dvd_iff_nat) simp_all
    moreover have "(a + y) - (a + x) < N" using that by linarith
    ultimately have "(a + y) - (a + x) = 0" using dvd_imp_le by fastforce
    then show ?thesis using that(1) by linarith
  qed
  from this [of i j] this [of j i] show ?thesis using assms by (cases "i \<le> j") auto
qed

lemma ring_put:
  fixes r w :: "'w::len word"
  assumes ok: "ring_ok N buf r w" and room: "unat (w - r) < N"
    and dv: "N dvd 2 ^ LENGTH('w)" and lt: "N < 2 ^ LENGTH('w)"
  shows "ring_ok N (buf[unat w mod N := c]) r (w + 1)"
    and "ring_items N (buf[unat w mod N := c]) r (w + 1) = ring_items N buf r w @ [c]"
proof -
  let ?k = "unat (w - r)"
  note len = unat_dist_Suc [OF room lt]
  have N: "length buf = N" using ok by (simp add: ring_ok_def)
  show "ring_ok N (buf[unat w mod N := c]) r (w + 1)" using N len room by (simp add: ring_ok_def)
  have at: "unat w mod N = (unat r + ?k) mod N" using unat_mod_ring [OF dv, of r ?k] by simp
  have pos: "(unat r + i) mod N < N" for i using room by simp
  have other: "(unat r + i) mod N \<noteq> (unat r + ?k) mod N" if "i < ?k" for i
    using ring_slot_inj [of i N ?k "unat r"] that room by auto
  have keep: "buf[(unat r + ?k) mod N := c] ! ((unat r + i) mod N) = buf ! ((unat r + i) mod N)"
    if "i < ?k" for i
    using other [OF that] by (simp add: nth_list_update_neq not_sym)
  show "ring_items N (buf[unat w mod N := c]) r (w + 1) = ring_items N buf r w @ [c]"
    unfolding ring_items_def len at using N pos [of ?k] by (simp add: keep)
qed

lemma ring_get:
  fixes r w :: "'w::len word"
  assumes ok: "ring_ok N buf r w" and some: "r \<noteq> w" and dv: "N dvd 2 ^ LENGTH('w)"
  shows "ring_ok N buf (r + 1) w"
    and "ring_items N buf r w = buf ! (unat r mod N) # ring_items N buf (r + 1) w"
proof -
  have nz: "w - r \<noteq> 0" "unat (w - r) \<noteq> 0" using some by (simp_all add: unat_eq_0)
  have len: "unat (w - r) = Suc (unat (w - (r + 1)))"
    using nz unat_minus_one [of "w - r"] by (simp add: diff_diff_eq [symmetric])
  show "ring_ok N buf (r + 1) w" using ok len by (simp add: ring_ok_def)
  have slot: "(unat (r + 1) + i) mod N = (unat r + Suc i) mod N" for i
    using unat_mod_ring [OF dv, of "r + 1" i] unat_mod_ring [OF dv, of r "Suc i"]
    by (simp add: add.assoc)
  show "ring_items N buf r w = buf ! (unat r mod N) # ring_items N buf (r + 1) w"
    unfolding ring_items_def len slot by (simp add: upt_conv_Cons map_Suc_upt [symmetric] comp_def del: upt_Suc)
qed

lemma ring_unput:
  fixes r w :: "'w::len word"
  assumes "ring_ok N buf r w" and "r \<noteq> w"
  shows "ring_ok N buf r (w - 1)" and "ring_items N buf r (w - 1) = butlast (ring_items N buf r w)"
proof -
  have nz: "w - r \<noteq> 0" "unat (w - r) \<noteq> 0" using assms(2) by (simp_all add: unat_eq_0)
  have len: "unat (w - r) = Suc (unat (w - 1 - r))"
    using nz unat_minus_one [of "w - r"] by (simp add: algebra_simps)
  then show "ring_ok N buf r (w - 1)" using assms(1) by (simp add: ring_ok_def)
  show "ring_items N buf r (w - 1) = butlast (ring_items N buf r w)"
    unfolding ring_items_def len by (simp add: butlast_append)
qed

section \<open>The contract of a bounded queue\<close>

locale bounded_queue =
  fixes inv :: "'q \<Rightarrow> bool" and items :: "'q \<Rightarrow> 'b list" and cap :: nat
    and is_full :: "'q \<Rightarrow> bool" and is_empty :: "'q \<Rightarrow> bool"
    and put :: "'b \<Rightarrow> 'q \<Rightarrow> 'q" and head :: "'q \<Rightarrow> 'b" and get :: "'q \<Rightarrow> 'q"
  assumes within: "inv q \<Longrightarrow> length (items q) \<le> cap"
    and full: "inv q \<Longrightarrow> is_full q \<longleftrightarrow> length (items q) = cap"
    and emp: "inv q \<Longrightarrow> is_empty q \<longleftrightarrow> items q = []"
    and put: "inv q \<Longrightarrow> \<not> is_full q \<Longrightarrow> inv (put c q) \<and> items (put c q) = items q @ [c]"
    and get: "inv q \<Longrightarrow> \<not> is_empty q \<Longrightarrow> inv (get q) \<and> items q = head q # items (get q)"
begin

lemma put_all:
  "inv q \<Longrightarrow> length (items q) + length cs \<le> cap \<Longrightarrow>
     inv (fold put cs q) \<and> items (fold put cs q) = items q @ cs"
proof (induction cs arbitrary: q)
  case (Cons c cs)
  then have "\<not> is_full q" by (simp add: full)
  with Cons.prems(1) have "inv (put c q)" "items (put c q) = items q @ [c]" by (simp_all add: put)
  then show ?case using Cons.IH [of "put c q"] Cons.prems(2) by simp
qed simp

lemma get_many:
  "inv q \<Longrightarrow> k \<le> length (items q) \<Longrightarrow> inv ((get ^^ k) q) \<and> items ((get ^^ k) q) = drop k (items q)"
proof (induction k)
  case (Suc k)
  let ?q = "(get ^^ k) q"
  from Suc have IH: "inv ?q" "items ?q = drop k (items q)" by simp_all
  then have "\<not> is_empty ?q" using Suc.prems(2) by (simp add: emp)
  with get [OF IH(1)] IH have "inv (get ?q)" "items (get ?q) = tl (drop k (items q))"
    by (metis list.sel(3))+
  then show ?case by (simp add: drop_Suc tl_drop)
qed simp

lemma head_nth: "inv q \<Longrightarrow> k < length (items q) \<Longrightarrow> head ((get ^^ k) q) = items q ! k"
proof -
  assume a: "inv q" "k < length (items q)"
  then have q: "inv ((get ^^ k) q)" "items ((get ^^ k) q) = drop k (items q)" by (simp_all add: get_many)
  with a have "\<not> is_empty ((get ^^ k) q)" by (simp add: emp)
  with get [OF q(1)] q(2) have "drop k (items q) = head ((get ^^ k) q) # items (get ((get ^^ k) q))" by simp
  then show ?thesis using a(2) by (metis Cons_nth_drop_Suc list.inject)
qed

end

end
