(* ===== verification/Uart.thy ===== *)
theory Uart
  imports Fs Ring
begin

text \<open>
  The UART driver and kernel \<^verbatim>\<open>printf\<close> (kernel/uart.c, kernel/printf.c), and the part of the kernel
  state that the file system does not use: pipes, UART, console and the device switch.

  The device is seen through its registers: \<open>u_idle k\<close> is what the transmitter answers when the line
  status is read for the \<open>k\<close>-th time, \<open>u_rx\<close> the received bytes, and \<open>u_writes\<close> the register writes so
  far, oldest first. A polling loop is run with the fuel of the environment.
\<close>

section \<open>State\<close>

record uart =
  u_idle :: "nat \<Rightarrow> bool"
  u_polls :: nat
  u_rx :: "uint8 list"
  u_writes :: "(nat \<times> uint8) list"
  tx_buf :: "uint8 list"
  tx_w :: uint64
  tx_r :: uint64

record console =
  cbuf :: "uint8 list"
  cons_r :: uint32
  cons_w :: uint32
  cons_e :: uint32

record pipe =
  pdata :: "uint8 list"
  nread :: uint32
  nwrite :: uint32
  readopen :: bool
  writeopen :: bool

datatype devfn = ConsoleRead | ConsoleWrite

record iokernel = fskernel +
  pipes :: "uint64 \<Rightarrow> pipe"
  uart_st :: uart
  cons :: console
  panicked :: bool
  pr_locking :: bool
  devsw_read :: "devfn option list"
  devsw_write :: "devfn option list"

definition set_uart :: "(uart \<Rightarrow> uart) \<Rightarrow> 'a iokernel_scheme \<Rightarrow> 'a iokernel_scheme" where
  "set_uart f s = s\<lparr>uart_st := f (uart_st s)\<rparr>"

definition set_cons :: "(console \<Rightarrow> console) \<Rightarrow> 'a iokernel_scheme \<Rightarrow> 'a iokernel_scheme" where
  "set_cons f s = s\<lparr>cons := f (cons s)\<rparr>"

section \<open>kernel/uart.c\<close>

definition RHR :: nat where "RHR = 0"
definition THR :: nat where "THR = 0"
definition IER :: nat where "IER = 1"
definition IER_RX_ENABLE :: uint8 where "IER_RX_ENABLE = 1"
definition IER_TX_ENABLE :: uint8 where "IER_TX_ENABLE = 2"
definition FCR :: nat where "FCR = 2"
definition FCR_FIFO_ENABLE :: uint8 where "FCR_FIFO_ENABLE = 1"
definition FCR_FIFO_CLEAR :: uint8 where "FCR_FIFO_CLEAR = 6"
definition LCR :: nat where "LCR = 3"
definition LCR_EIGHT_BITS :: uint8 where "LCR_EIGHT_BITS = 3"
definition LCR_BAUD_LATCH :: uint8 where "LCR_BAUD_LATCH = 128"
definition UART_TX_BUF_SIZE :: nat where "UART_TX_BUF_SIZE = 32"

definition WriteReg :: "nat \<Rightarrow> uint8 \<Rightarrow> 'a iokernel_scheme \<Rightarrow> 'a iokernel_scheme" where
  "WriteReg reg x = set_uart (\<lambda>u. u\<lparr>u_writes := u_writes u @ [(reg, x)]\<rparr>)"

text \<open>A read of the line status register, for one of its two bits.\<close>

definition lsr_tx_idle :: "'a iokernel_scheme \<Rightarrow> bool \<times> 'a iokernel_scheme" where
  "lsr_tx_idle s = (u_idle (uart_st s) (u_polls (uart_st s)), set_uart (\<lambda>u. u\<lparr>u_polls := Suc (u_polls u)\<rparr>) s)"

definition lsr_rx_ready :: "'a iokernel_scheme \<Rightarrow> bool \<times> 'a iokernel_scheme" where
  "lsr_rx_ready s = (u_rx (uart_st s) \<noteq> [], set_uart (\<lambda>u. u\<lparr>u_polls := Suc (u_polls u)\<rparr>) s)"

definition uartinit :: "'a iokernel_scheme \<Rightarrow> 'a iokernel_scheme" where
  "uartinit s =
     (let s1 = WriteReg IER 0 s;
          s2 = WriteReg LCR LCR_BAUD_LATCH s1;
          s3 = WriteReg 0 3 s2;
          s4 = WriteReg 1 0 s3;
          s5 = WriteReg LCR LCR_EIGHT_BITS s4;
          s6 = WriteReg FCR (FCR_FIFO_ENABLE OR FCR_FIFO_CLEAR) s5;
          s7 = WriteReg IER (IER_TX_ENABLE OR IER_RX_ENABLE) s6
      in set_mach (initlock UartTxLock ''uart'' (kmach s7)) s7)"

text \<open>
  \<^verbatim>\<open>uartstart\<close>: every round sends one byte of the buffer, which holds fewer than \<open>2 ^ 64\<close> of them.
\<close>

fun uartstart_loop :: "nat \<Rightarrow> 'a iokernel_scheme \<Rightarrow> 'a iokernel_scheme outcome" where
  "uartstart_loop fuel s =
     (if tx_w (uart_st s) = tx_r (uart_st s) then Ok s
      else
        let (idle, s1) = lsr_tx_idle s in
        if \<not> idle then Ok s1
        else
          (case fuel of 0 \<Rightarrow> Spin | Suc k \<Rightarrow>
            let c = tx_buf (uart_st s1) ! (unat (tx_r (uart_st s1)) mod UART_TX_BUF_SIZE) in
            andThen (wakeup (Some ChUartTx) (set_uart (\<lambda>u. u\<lparr>tx_r := tx_r u + 1\<rparr>) s1)) (\<lambda>s2.
            uartstart_loop k (WriteReg THR c s2))))"

declare uartstart_loop.simps [simp del]

definition uartstart :: "'a iokernel_scheme \<Rightarrow> 'a iokernel_scheme outcome" where
  "uartstart = uartstart_loop (2 ^ 64)"

fun uartputc_wait ::
    "nat \<Rightarrow> ('a iokernel_scheme \<Rightarrow> 'a iokernel_scheme outcome) \<Rightarrow> 'a iokernel_scheme \<Rightarrow> 'a iokernel_scheme outcome" where
  "uartputc_wait fuel sw s =
     (if tx_w (uart_st s) = tx_r (uart_st s) + of_nat UART_TX_BUF_SIZE then
        (case fuel of 0 \<Rightarrow> Spin | Suc k \<Rightarrow> andThen (sleep sw ChUartTx UartTxLock s) (uartputc_wait k sw))
      else Ok s)"

declare uartputc_wait.simps [simp del]

definition uart_put :: "uint8 \<Rightarrow> uart \<Rightarrow> uart" where
  "uart_put c u = u\<lparr>tx_buf := (tx_buf u)[unat (tx_w u) mod UART_TX_BUF_SIZE := c], tx_w := tx_w u + 1\<rparr>"

definition uartputc :: "'a iokernel_scheme env \<Rightarrow> uint8 \<Rightarrow> 'a iokernel_scheme \<Rightarrow> 'a iokernel_scheme outcome" where
  "uartputc e c s =
     andThen (kacquire UartTxLock s) (\<lambda>s1.
     if panicked s1 then Spin
     else
       andThen (uartputc_wait (env_fuel e) (env_sw e) s1) (\<lambda>s2.
       andThen (uartstart (set_uart (uart_put c) s2)) (krelease UartTxLock)))"

fun wait_tx_idle :: "nat \<Rightarrow> 'a iokernel_scheme \<Rightarrow> 'a iokernel_scheme outcome" where
  "wait_tx_idle fuel s =
     (let (idle, s1) = lsr_tx_idle s in
      if idle then Ok s1 else (case fuel of 0 \<Rightarrow> Spin | Suc k \<Rightarrow> wait_tx_idle k s1))"

declare wait_tx_idle.simps [simp del]

definition uartputc_sync :: "'a iokernel_scheme env \<Rightarrow> uint8 \<Rightarrow> 'a iokernel_scheme \<Rightarrow> 'a iokernel_scheme outcome" where
  "uartputc_sync e c s =
     (let s1 = set_mach (push_off (kmach s)) s in
      if panicked s1 then Spin
      else
        andThen (wait_tx_idle (env_fuel e) s1) (\<lambda>s2.
        let s3 = WriteReg THR c s2 in
        andThen (pop_off (kmach s3)) (\<lambda>m. Ok (set_mach m s3))))"

text \<open>\<^verbatim>\<open>uartgetc\<close> returns \<^const>\<open>None\<close> for -1.\<close>

definition uartgetc :: "'a iokernel_scheme \<Rightarrow> uint8 option \<times> 'a iokernel_scheme" where
  "uartgetc s =
     (let (ready, s1) = lsr_rx_ready s in
      if ready then (Some (hd (u_rx (uart_st s1))), set_uart (\<lambda>u. u\<lparr>u_rx := tl (u_rx u)\<rparr>) s1) else (None, s1))"

section \<open>kernel/printf.c\<close>

text \<open>\<^verbatim>\<open>consputc\<close> of kernel/console.c; \<^verbatim>\<open>BACKSPACE\<close> is not a character.\<close>

datatype ochar = Backspace | Char8 uint8

fun consputc :: "'a iokernel_scheme env \<Rightarrow> ochar \<Rightarrow> 'a iokernel_scheme \<Rightarrow> 'a iokernel_scheme outcome" where
  "consputc e Backspace s =
     andThen (uartputc_sync e 8 s) (\<lambda>s1. andThen (uartputc_sync e 32 s1) (uartputc_sync e 8))"
| "consputc e (Char8 c) s = uartputc_sync e c s"

fun consputs :: "'a iokernel_scheme env \<Rightarrow> uint8 list \<Rightarrow> 'a iokernel_scheme \<Rightarrow> 'a iokernel_scheme outcome" where
  "consputs e [] s = Ok s"
| "consputs e (c # cs) s = andThen (consputc e (Char8 c) s) (consputs e cs)"

text \<open>The characters of a C string literal.\<close>

definition lit :: "string \<Rightarrow> uint8 list" where
  "lit str = map of_char str"

definition digits :: "uint8 list" where
  "digits = lit ''0123456789abcdef''"

text \<open>
  The digits that \<^verbatim>\<open>printint\<close> puts into \<^verbatim>\<open>buf\<close>, least significant first, and what it prints. The
  base is 10 or 16.
\<close>

function int_digits :: "uint32 \<Rightarrow> uint32 \<Rightarrow> uint8 list" where
  "int_digits x base =
     digits ! unat (x mod base) #
     (if x div base = 0 \<or> base < 2 then [] else int_digits (x div base) base)"
  by pat_completeness auto
termination
proof (relation "measure (\<lambda>(x, base). unat x)")
  fix x base :: uint32
  assume "\<not> (x div base = 0 \<or> base < 2)"
  then have "unat x \<noteq> 0" "2 \<le> unat base" by (auto simp: word_less_nat_alt unat_eq_0)
  then show "((x div base, base), (x, base)) \<in> measure (\<lambda>(x, base). unat x)"
    by (simp add: unat_div)
qed simp

declare int_digits.simps [simp del]

definition printint_chars :: "int32 \<Rightarrow> uint32 \<Rightarrow> bool \<Rightarrow> uint8 list" where
  "printint_chars xx base sign =
     (let neg = sign \<and> xx <s 0; x = (if neg then - xx else xx) in
      rev (int_digits x base @ (if neg then [45] else [])))"

definition printint ::
    "'a iokernel_scheme env \<Rightarrow> int32 \<Rightarrow> uint32 \<Rightarrow> bool \<Rightarrow> 'a iokernel_scheme \<Rightarrow> 'a iokernel_scheme outcome" where
  "printint e xx base sign = consputs e (printint_chars xx base sign)"

definition printptr_chars :: "uint64 \<Rightarrow> uint8 list" where
  "printptr_chars x = [48, 120] @ map (\<lambda>i. digits ! unat (drop_bit 60 (push_bit (4 * i) x))) [0..<16]"

definition printptr :: "'a iokernel_scheme env \<Rightarrow> uint64 \<Rightarrow> 'a iokernel_scheme \<Rightarrow> 'a iokernel_scheme outcome" where
  "printptr e x = consputs e (printptr_chars x)"

text \<open>
  The variable arguments of \<^verbatim>\<open>printf\<close>. A directive takes the next one; a string is a byte list, or a
  null pointer. A call with too few arguments, or one of another type, is undefined in C.
\<close>

datatype parg = PInt int32 | PPtr uint64 | PStr "uint8 list option"

fun printf_chars :: "uint8 list \<Rightarrow> parg list \<Rightarrow> uint8 list option" where
  "printf_chars [] args = Some []"
| "printf_chars [c] args = (if c \<noteq> 37 then Some [c] else Some [])"
| "printf_chars (c # d # fmt) args =
     (if c \<noteq> 37 then map_option (\<lambda>r. c # r) (printf_chars (d # fmt) args)
      else if d = 100 then
        (case args of PInt x # as \<Rightarrow> map_option (\<lambda>r. printint_chars x 10 True @ r) (printf_chars fmt as) | _ \<Rightarrow> None)
      else if d = 120 then
        (case args of PInt x # as \<Rightarrow> map_option (\<lambda>r. printint_chars x 16 True @ r) (printf_chars fmt as) | _ \<Rightarrow> None)
      else if d = 112 then
        (case args of PPtr x # as \<Rightarrow> map_option (\<lambda>r. printptr_chars x @ r) (printf_chars fmt as) | _ \<Rightarrow> None)
      else if d = 115 then
        (case args of PStr x # as \<Rightarrow>
           map_option (\<lambda>r. (case x of None \<Rightarrow> lit ''(null)'' | Some t \<Rightarrow> t) @ r) (printf_chars fmt as) | _ \<Rightarrow> None)
      else if d = 37 then map_option (\<lambda>r. 37 # r) (printf_chars fmt args)
      else map_option (\<lambda>r. 37 # d # r) (printf_chars fmt args))"

definition printf ::
    "'a iokernel_scheme env \<Rightarrow> uint8 list option \<Rightarrow> parg list \<Rightarrow> 'a iokernel_scheme \<Rightarrow> 'a iokernel_scheme outcome" where
  "printf e fmt args s =
     (let locking = pr_locking s in
      andThen (if locking then kacquire PrLock s else Ok s) (\<lambda>s1.
      case fmt of None \<Rightarrow> Panic ''null fmt''
      | Some f \<Rightarrow>
         (case printf_chars f args of None \<Rightarrow> Panic ''undefined''
          | Some cs \<Rightarrow>
             andThen (consputs e cs s1) (\<lambda>s2. if locking then krelease PrLock s2 else Ok s2))))"

definition printfinit :: "'a iokernel_scheme \<Rightarrow> 'a iokernel_scheme" where
  "printfinit s = (set_mach (initlock PrLock ''pr'' (kmach s)) s)\<lparr>pr_locking := True\<rparr>"

text \<open>What the console shows when the kernel panics; then the machine stands still.\<close>

definition panic_output :: "'a iokernel_scheme env \<Rightarrow> uint8 list \<Rightarrow> 'a iokernel_scheme \<Rightarrow> 'a iokernel_scheme outcome" where
  "panic_output e msg s =
     andThen (printf e (Some (lit ''panic: '')) [] (s\<lparr>pr_locking := False\<rparr>)) (\<lambda>s1.
     andThen (printf e (Some msg) [] s1) (\<lambda>s2.
     andThen (printf e (Some [10]) [] s2) (\<lambda>s3. Ok (s3\<lparr>panicked := True\<rparr>))))"

section \<open>The transmit buffer is a bounded queue\<close>

definition uart_ok :: "uart \<Rightarrow> bool" where
  "uart_ok u \<longleftrightarrow> ring_ok UART_TX_BUF_SIZE (tx_buf u) (tx_r u) (tx_w u)"

definition uart_items :: "uart \<Rightarrow> uint8 list" where
  "uart_items u = ring_items UART_TX_BUF_SIZE (tx_buf u) (tx_r u) (tx_w u)"

definition uart_full :: "uart \<Rightarrow> bool" where
  "uart_full u \<longleftrightarrow> tx_w u = tx_r u + of_nat UART_TX_BUF_SIZE"

definition uart_head :: "uart \<Rightarrow> uint8" where
  "uart_head u = tx_buf u ! (unat (tx_r u) mod UART_TX_BUF_SIZE)"

lemma uart_full_iff: "uart_full u \<longleftrightarrow> length (uart_items u) = UART_TX_BUF_SIZE"
proof -
  have "tx_w u = tx_r u + of_nat UART_TX_BUF_SIZE \<longleftrightarrow> tx_w u - tx_r u = of_nat UART_TX_BUF_SIZE"
    by (simp add: diff_eq_eq add.commute)
  also have "\<dots> \<longleftrightarrow> unat (tx_w u - tx_r u) = UART_TX_BUF_SIZE" by (simp add: word_unat_eq_iff UART_TX_BUF_SIZE_def)
  finally show ?thesis by (simp add: uart_full_def uart_items_def)
qed

lemma uart_empty_iff: "tx_w u = tx_r u \<longleftrightarrow> uart_items u = []"
proof -
  have "uart_items u = [] \<longleftrightarrow> unat (tx_w u - tx_r u) = 0" by (simp add: uart_items_def ring_items_def)
  then show ?thesis by (auto simp: unat_eq_0)
qed

interpretation uq: bounded_queue uart_ok uart_items UART_TX_BUF_SIZE uart_full "\<lambda>u. tx_w u = tx_r u"
  uart_put uart_head "\<lambda>u. u\<lparr>tx_r := tx_r u + 1\<rparr>"
proof unfold_locales
  fix u :: uart and c
  assume ok: "uart_ok u"
  show "length (uart_items u) \<le> UART_TX_BUF_SIZE" using ok by (simp add: uart_ok_def uart_items_def ring_ok_def)
  then show "uart_ok (uart_put c u) \<and> uart_items (uart_put c u) = uart_items u @ [c]" if "\<not> uart_full u"
    using ring_put [of UART_TX_BUF_SIZE "tx_buf u" "tx_r u" "tx_w u" c] ok that uart_full_iff [of u]
    by (simp add: uart_ok_def uart_items_def uart_put_def UART_TX_BUF_SIZE_def)
  show "uart_ok (u\<lparr>tx_r := tx_r u + 1\<rparr>) \<and> uart_items u = uart_head u # uart_items (u\<lparr>tx_r := tx_r u + 1\<rparr>)"
    if "tx_w u \<noteq> tx_r u"
    using ring_get [of UART_TX_BUF_SIZE "tx_buf u" "tx_r u" "tx_w u"] ok that
    by (simp add: uart_ok_def uart_items_def uart_head_def UART_TX_BUF_SIZE_def)
qed (simp_all add: uart_full_iff uart_empty_iff)

text \<open>Everything that was or will be sent: the register writes so far, then the buffered bytes.\<close>

definition uart_stream :: "uart \<Rightarrow> (nat \<times> uint8) list" where
  "uart_stream u = u_writes u @ map (Pair THR) (uart_items u)"

lemma wakeup_nested:
  assumes "kready s" and "touch (kmach s) = kmach s"
  shows "\<exists>ps. wakeup ch s = Ok (s\<lparr>procs := ps\<rparr>) \<and> length ps = NPROC"
proof -
  have id: "ktouch (s\<lparr>procs := ps\<rparr>) = s\<lparr>procs := ps\<rparr>" for ps
    using assms(2) by (simp add: ktouch_def set_mach_def)
  show ?thesis unfolding wakeup_eq [OF assms(1)] id by (intro exI conjI) (rule refl, simp)
qed

lemma uart_items_cong:
  "tx_buf u' = tx_buf u \<Longrightarrow> tx_r u' = tx_r u \<Longrightarrow> tx_w u' = tx_w u \<Longrightarrow> uart_items u' = uart_items u \<and> uart_ok u' = uart_ok u"
  by (simp add: uart_items_def uart_ok_def)

lemma uartstart_loop_stream:
  assumes "kready s" and "touch (kmach s) = kmach s" and "uart_ok (uart_st s)" and "length (uart_items (uart_st s)) \<le> fuel"
  shows "\<exists>s'. uartstart_loop fuel s = Ok s' \<and> kmach s' = kmach s \<and> pm s' = pm s \<and> length (procs s') = length (procs s) \<and>
     uart_ok (uart_st s') \<and> uart_stream (uart_st s') = uart_stream (uart_st s) \<and>
     (uart_items (uart_st s') = [] \<or> \<not> u_idle (uart_st s) (u_polls (uart_st s') - 1))"
  using assms
proof (induction fuel arbitrary: s)
  case 0
  then have "tx_w (uart_st s) = tx_r (uart_st s)" by (simp add: uart_empty_iff)
  then show ?case using 0 by (simp add: uartstart_loop.simps)
next
  case (Suc n)
  let ?u = "(uart_st s)\<lparr>u_polls := Suc (u_polls (uart_st s))\<rparr>"
  have same: "uart_items ?u = uart_items (uart_st s)" "uart_ok ?u" "uart_stream ?u = uart_stream (uart_st s)"
    using uart_items_cong [of ?u "uart_st s"] Suc.prems(3) by (simp_all add: uart_stream_def)
  consider (empty) "tx_w (uart_st s) = tx_r (uart_st s)"
    | (busy) "tx_w (uart_st s) \<noteq> tx_r (uart_st s)" "\<not> u_idle (uart_st s) (u_polls (uart_st s))"
    | (send) "tx_w (uart_st s) \<noteq> tx_r (uart_st s)" "u_idle (uart_st s) (u_polls (uart_st s))" by blast
  then show ?case
  proof cases
    case empty
    then show ?thesis using Suc.prems by (subst uartstart_loop.simps) (simp add: uart_empty_iff)
  next
    case busy
    then have "uartstart_loop (Suc n) s = Ok (s\<lparr>uart_st := ?u\<rparr>)"
      by (subst uartstart_loop.simps) (simp add: lsr_tx_idle_def set_uart_def)
    then show ?thesis using same busy by simp
  next
    case send
    let ?v = "?u\<lparr>tx_r := tx_r ?u + 1\<rparr>"
    let ?t = "s\<lparr>uart_st := ?v\<rparr>"
    have get: "uart_ok ?v" "uart_items (uart_st s) = uart_head ?u # uart_items ?v"
      using uq.get [OF same(2)] send(1) same(1) by simp_all
    have rd: "kready ?t" "touch (kmach ?t) = kmach ?t" using Suc.prems(1,2) by (simp_all add: kready_def)
    obtain ps where ps: "wakeup (Some ChUartTx) ?t = Ok (?t\<lparr>procs := ps\<rparr>)" "length ps = NPROC"
      using wakeup_nested [OF rd] by blast
    let ?w = "?v\<lparr>u_writes := u_writes ?v @ [(THR, uart_head ?u)]\<rparr>"
    let ?r = "s\<lparr>procs := ps, uart_st := ?w\<rparr>"
    have step: "uartstart_loop (Suc n) s = uartstart_loop n ?r"
      using send ps(1) by (subst uartstart_loop.simps)
        (simp add: lsr_tx_idle_def set_uart_def Let_def WriteReg_def uart_head_def)
    have w: "uart_items ?w = uart_items ?v" "uart_ok ?w" using uart_items_cong [of ?w ?v] get(1) by simp_all
    have st: "uart_stream ?w = uart_stream (uart_st s)" using w(1) get(2) by (simp add: uart_stream_def)
    have "\<exists>s'. uartstart_loop n ?r = Ok s' \<and> kmach s' = kmach ?r \<and> pm s' = pm ?r \<and> length (procs s') = length (procs ?r) \<and>
       uart_ok (uart_st s') \<and> uart_stream (uart_st s') = uart_stream (uart_st ?r) \<and>
       (uart_items (uart_st s') = [] \<or> \<not> u_idle (uart_st ?r) (u_polls (uart_st s') - 1))"
      using Suc.prems w get(2) ps(2) by (intro Suc.IH) (simp_all add: kready_def)
    then show ?thesis unfolding step using st ps(2) Suc.prems(1) by (simp add: kready_def)
  qed
qed

section \<open>Printed numbers\<close>

text \<open>Reading digits: the value of a character, and of a sequence of digits, most significant first.\<close>

definition digit_value :: "uint8 \<Rightarrow> nat" where
  "digit_value c = (if c \<le> 57 then unat c - 48 else unat c - 87)"

definition read_digits :: "nat \<Rightarrow> uint8 list \<Rightarrow> nat" where
  "read_digits base cs = fold (\<lambda>c v. v * base + digit_value c) cs 0"

definition read_int :: "nat \<Rightarrow> uint8 list \<Rightarrow> int" where
  "read_int base cs =
     (case cs of [] \<Rightarrow> 0 | c # r \<Rightarrow> if c = 45 then - int (read_digits base r) else int (read_digits base cs))"

lemma digits_value: "\<forall>d \<in> set [0..<16]. digit_value (digits ! d) = d \<and> digits ! d \<noteq> 45"
  by (simp add: upt_rec digits_def lit_def digit_value_def)

lemma int_digits_spec:
  assumes "2 \<le> unat base" "unat base \<le> 16"
  shows "read_digits (unat base) (rev (int_digits x base)) = unat x \<and> 45 \<notin> set (int_digits x base) \<and>
     (0 < k \<and> unat x < unat base ^ k \<longrightarrow> length (int_digits x base) \<le> k)"
  using assms
proof (induction x base arbitrary: k rule: int_digits.induct)
  case (1 x base)
  let ?d = "digits ! unat (x mod base)"
  have "unat x mod unat base < unat base" using 1(2) by (intro mod_less_divisor) linarith
  then have lt: "unat (x mod base) < 16" using 1(3) unfolding unat_mod by linarith
  then have d: "digit_value ?d = unat x mod unat base" "?d \<noteq> 45"
    using digits_value by (auto simp: unat_mod)
  have b: "\<not> base < 2" using 1(2) by (simp add: word_less_nat_alt)
  show ?case
  proof (cases "x div base = 0")
    case True
    then have "unat x div unat base = 0" by (metis unat_div unat_eq_0)
    then have "unat x < unat base" using 1(2) by (simp add: div_eq_0_iff)
    then show ?thesis using True d by (subst (1 2 3) int_digits.simps) (auto simp: read_digits_def)
  next
    case False
    then have go: "\<not> (x div base = 0 \<or> base < 2)" using b by simp
    have eq: "int_digits x base = ?d # int_digits (x div base) base"
      by (subst int_digits.simps) (use go in auto)
    have val: "unat x div unat base * unat base + unat x mod unat base = unat x" by simp
    have small: "unat (x div base) < unat base ^ (k - 1) \<and> 0 < k - 1" if k: "0 < k" "unat x < unat base ^ k"
    proof -
      have q: "unat (x div base) \<noteq> 0" using False by (simp add: unat_eq_0)
      have "unat x < unat base * unat base ^ (k - 1)" using k by (metis power_eq_if less_numeral_extra(3))
      then have "unat (x div base) < unat base ^ (k - 1)"
        by (simp add: unat_div less_mult_imp_div_less mult.commute)
      moreover have "k \<noteq> 1" using calculation q by auto
      ultimately show ?thesis using k(1) by linarith
    qed
    show ?thesis
      using 1(1) [OF go 1(2,3), of "k - 1"] d val small unfolding eq
      by (auto simp: read_digits_def unat_div)
  qed
qed

section \<open>Properties\<close>

text \<open>
  \<^verbatim>\<open>uartputc\<close> with room in the transmit buffer returns whatever the transmitter does, and loses,
  repeats and reorders nothing: the bytes handed to the device followed by the bytes still buffered are
  what they were before, followed by the new byte. Bytes stay in the buffer only if the device was busy
  at the last poll.
\<close>

theorem uartputc_keeps_order:
  assumes ready: "kready s" and free: "lock_free UartTxLock (kmach s)" and run: "\<not> panicked s"
    and ok: "uart_ok (uart_st s)" and room: "\<not> uart_full (uart_st s)"
  shows "\<exists>s'. uartputc e c s = Ok s' \<and> uart_ok (uart_st s') \<and>
     uart_stream (uart_st s') = uart_stream (uart_st s) @ [(THR, c)] \<and>
     (uart_items (uart_st s') = [] \<or> \<not> u_idle (uart_st s) (u_polls (uart_st s') - 1)) \<and>
     kmach s' = touch (kmach s) \<and> mem (pm s') = mem (pm s)"
proof -
  let ?t = "set_mach (taken UartTxLock (kmach s)) s"
  have irq: "irq_ok (kmach s)" using ready by (simp add: kready_def)
  have t: "uart_st ?t = uart_st s" "panicked ?t = panicked s" "procs ?t = procs s" by (simp_all add: set_mach_def)
  have wait: "uartputc_wait (env_fuel e) (env_sw e) ?t = Ok ?t"
    using room by (subst uartputc_wait.simps) (simp add: t uart_full_def)
  let ?u = "set_uart (uart_put c) ?t"
  have put: "uart_ok (uart_st ?u)" "uart_items (uart_st ?u) = uart_items (uart_st s) @ [c]"
    using uq.put [OF ok room, of c] by (simp_all add: set_uart_def t)
  have "kready ?t" by (rule kready_taken [OF ready]) simp_all
  then have rd: "kready ?u" "touch (kmach ?u) = kmach ?u"
    using irq by (simp_all add: kready_def set_uart_def)
  have "length (uart_items (uart_st ?u)) \<le> 2 ^ 64"
    using uq.within [OF put(1)] by (simp add: UART_TX_BUF_SIZE_def)
  from uartstart_loop_stream [OF rd put(1) this] obtain s2 where
    s2: "uartstart ?u = Ok s2" "kmach s2 = taken UartTxLock (kmach s)" "pm s2 = pm ?t" "uart_ok (uart_st s2)"
      "uart_stream (uart_st s2) = uart_stream (uart_st ?u)"
      "uart_items (uart_st s2) = [] \<or> \<not> u_idle (uart_st ?u) (u_polls (uart_st s2) - 1)"
    by (auto simp: uartstart_def set_uart_def)
  have "uart_stream (uart_st ?u) = uart_stream (uart_st s) @ [(THR, c)]" "u_idle (uart_st ?u) = u_idle (uart_st s)"
    unfolding uart_stream_def put(2) by (simp_all add: set_uart_def uart_put_def t)
  moreover have "uartputc e c s = Ok (set_mach (touch (kmach s)) s2)"
    using run krelease_view [OF free irq s2(2)]
    by (simp add: uartputc_def kacquire_free [OF free] t wait s2(1))
  ultimately show ?thesis using s2(3-6) by (auto simp: set_mach_def)
qed

text \<open>A running process with one page of user memory, and a pipe about to wrap around.\<close>

definition io_demo :: "memory \<Rightarrow> iokernel" where
  "io_demo m = \<lparr>pm = (pm one_running)\<lparr>mem := m\<rparr>, procs = (procs one_running)[0 := (procs one_running ! 0)\<lparr>pagetable := 0x80024000\<rparr>],
     nextpid = 2, initproc = Some 0, sched_policy = 0, min_accumulator = 0, ticks = 0, trampoline = 0, forkret_addr = 0,
     vd = idle_vd, fs = boot_fs,
     pipes = (\<lambda>_. \<lparr>pdata = replicate 512 0, nread = -2, nwrite = -2, readopen = True, writeopen = True\<rparr>),
     uart_st = \<lparr>u_idle = \<lambda>_. True, u_polls = 0, u_rx = [], u_writes = [], tx_buf = replicate 32 0, tx_w = 0, tx_r = 0\<rparr>,
     cons = \<lparr>cbuf = replicate 128 0, cons_r = 0, cons_w = 0, cons_e = 0\<rparr>,
     panicked = False, pr_locking = True, devsw_read = [], devsw_write = []\<rparr>"

lemma io_demo_simps [simp]:
  "kmach (io_demo m) = kmach one_running" "mem (pm (io_demo m)) = m" "vd (io_demo m) = idle_vd"
  "pipes (io_demo m) pi = \<lparr>pdata = replicate 512 0, nread = -2, nwrite = -2, readopen = True, writeopen = True\<rparr>"
  by (simp_all add: io_demo_def)

lemma io_demo_ok: "sys_ok 0 (io_demo m)"
  and io_demo_proc: "pagetable (procs (io_demo m) ! 0) = 0x80024000" "pkilled (procs (io_demo m) ! 0) = 0"
proof -
  have len: "0 < length (procs one_running)"
    using one_running_running by (simp add: running_def kready_def NPROC_def)
  have p: "procs (io_demo m) = (procs one_running)[0 := (procs one_running ! 0)\<lparr>pagetable := 0x80024000\<rparr>]"
    by (simp add: io_demo_def)
  show "pagetable (procs (io_demo m) ! 0) = 0x80024000" using len by (simp add: p)
  have "pkilled (procs one_running ! 0) = 0"
    by (simp add: one_running_def set_cproc_def boot_kernel_def blank_proc_def)
  then show "pkilled (procs (io_demo m) ! 0) = 0" using len by (simp add: p)
  show "sys_ok 0 (io_demo m)"
    using one_running_sys_ok [of boot_fs] len by (simp add: sys_ok_def running_def kready_def p)
qed

theorem uartputc_keeps_order_witness:
  "\<exists>s'. uartputc \<lparr>env_sw = Ok, env_fuel = 0, env_rw = \<lambda>b w. Ok\<rparr> 65 (io_demo (\<lambda>_. 0)) = Ok s' \<and>
     uart_stream (uart_st s') = [(THR, 65)]"
proof -
  let ?s = "io_demo (\<lambda>_. 0)"
  note ok = sys_okD [OF io_demo_ok [of "\<lambda>_. 0"]]
  have u: "\<not> panicked ?s" "uart_ok (uart_st ?s)" "\<not> uart_full (uart_st ?s)" "uart_stream (uart_st ?s) = []"
    by (simp_all add: io_demo_def uart_ok_def ring_ok_def uart_full_def UART_TX_BUF_SIZE_def uart_stream_def
        uart_items_def ring_items_def)
  from uartputc_keeps_order [OF ok(3,1) u(1,2,3), of "\<lparr>env_sw = Ok, env_fuel = 0, env_rw = \<lambda>b w. Ok\<rparr>" 65] u(4)
  show ?thesis by auto
qed

lemma unat_sint_nonneg: "0 \<le> sint (x :: int32) \<Longrightarrow> int (unat x) = sint x"
  and unat_sint_neg: "sint (x :: int32) < 0 \<Longrightarrow> int (unat (- x)) = - sint x"
proof -
  have r: "- (2 ^ 31) \<le> sint x" "sint x < 2 ^ 31" using sint_ge [of x] sint_lt [of x] by simp_all
  have u: "uint (of_int i :: int32) = i" if "0 \<le> i" "i < 2 ^ 32" for i
    using that by (simp add: unsigned_of_int take_bit_int_eq_self)
  have x: "x = of_int (sint x)" by simp
  then have n: "- x = of_int (- sint x)" by (metis of_int_minus)
  show "int (unat x) = sint x" if "0 \<le> sint x"
    using u [of "sint x"] r that by simp
  show "int (unat (- x)) = - sint x" if "sint x < 0"
    unfolding uint_nat [symmetric] n by (rule u) (use r that in simp_all)
qed



end
