(* ===== verification/Console.thy ===== *)
theory Console
  imports Uart
begin

text \<open>
  The console (kernel/console.c), with the interrupt handler of the UART that feeds it. \<open>cbuf\<close> is
  a circular buffer of INPUT_BUF_SIZE bytes; \<open>cons_r\<close>, \<open>cons_w\<close> and \<open>cons_e\<close> only grow, as unsigned ints
  that wrap around.
\<close>

section \<open>kernel/console.c\<close>

definition INPUT_BUF_SIZE :: nat where "INPUT_BUF_SIZE = 128"
definition CONSOLE :: nat where "CONSOLE = 1"

text \<open>\<^verbatim>\<open>C('D')\<close> and the like, newline and carriage return.\<close>

definition ctrl_D :: uint8 where "ctrl_D = 4"
definition ctrl_H :: uint8 where "ctrl_H = 8"
definition ctrl_P :: uint8 where "ctrl_P = 16"
definition ctrl_U :: uint8 where "ctrl_U = 21"
definition DEL :: uint8 where "DEL = 127"
definition LF :: uint8 where "LF = 10"
definition CR :: uint8 where "CR = 13"

text \<open>\<open>consolewrite\<close>: the loop from byte \<open>i\<close> on; the result is \<^verbatim>\<open>i\<close>.\<close>

fun consolewrite_loop ::
    "nat \<Rightarrow> 'a iokernel_scheme env \<Rightarrow> bool \<Rightarrow> uint64 \<Rightarrow> nat \<Rightarrow> 'a iokernel_scheme \<Rightarrow> (int32 \<times> 'a iokernel_scheme) outcome" where
  "consolewrite_loop 0 e user src i s = Ok (of_nat i, s)"
| "consolewrite_loop (Suc k) e user src i s =
     andThen (either_copyin user (src + of_nat i) 1 s) (\<lambda>(r, bs, s1).
     if r = -1 then Ok (of_nat i, s1)
     else andThen (uartputc e (arr bs 0) s1) (consolewrite_loop k e user src (Suc i)))"

definition consolewrite ::
    "'a iokernel_scheme env \<Rightarrow> bool \<Rightarrow> uint64 \<Rightarrow> int32 \<Rightarrow> 'a iokernel_scheme \<Rightarrow> (int32 \<times> 'a iokernel_scheme) outcome" where
  "consolewrite e user src n s = consolewrite_loop (nat (sint n)) e user src 0 s"

text \<open>The inner loop of \<^verbatim>\<open>consoleread\<close>: \<open>False\<close> if the process was killed.\<close>

fun cons_wait ::
    "nat \<Rightarrow> ('a iokernel_scheme \<Rightarrow> 'a iokernel_scheme outcome) \<Rightarrow> 'a iokernel_scheme
     \<Rightarrow> (bool \<times> 'a iokernel_scheme) outcome" where
  "cons_wait fuel sw s =
     (if cons_r (cons s) = cons_w (cons s) then
        andThen (curproc s) (\<lambda>(p, s1).
        andThen (killed p s1) (\<lambda>(k, s2).
        if k \<noteq> 0 then Ok (False, s2)
        else (case fuel of 0 \<Rightarrow> Spin | Suc m \<Rightarrow> andThen (sleep sw ChConsR ConsLock s2) (cons_wait m sw))))
      else Ok (True, s))"

declare cons_wait.simps [simp del]

definition cons_peek :: "console \<Rightarrow> uint8" where
  "cons_peek c = cbuf c ! (unat (cons_r c) mod INPUT_BUF_SIZE)"

text \<open>The outer loop, with \<open>m\<close> bytes to go out of \<open>target\<close>. The result is what the loop leaves of \<open>m\<close>.\<close>

fun consoleread_loop ::
    "nat \<Rightarrow> 'a iokernel_scheme env \<Rightarrow> bool \<Rightarrow> uint64 \<Rightarrow> nat \<Rightarrow> 'a iokernel_scheme
     \<Rightarrow> (nat option \<times> 'a iokernel_scheme) outcome" where
  "consoleread_loop 0 e user dst target s = Ok (Some 0, s)"
| "consoleread_loop (Suc m) e user dst target s =
     andThen (cons_wait (env_fuel e) (env_sw e) s) (\<lambda>(ok, s1).
     if \<not> ok then Ok (None, s1)
     else
       let c = cons_peek (cons s1); s2 = set_cons (\<lambda>x. x\<lparr>cons_r := cons_r x + 1\<rparr>) s1 in
       if c = ctrl_D then
         Ok (Some (Suc m), if Suc m < target then set_cons (\<lambda>x. x\<lparr>cons_r := cons_r x - 1\<rparr>) s2 else s2)
       else
         andThen (either_copyout user dst [c] s2) (\<lambda>(r, s3).
         if r = -1 then Ok (Some (Suc m), s3)
         else if c = LF then Ok (Some m, s3)
         else consoleread_loop m e user (dst + 1) target s3))"

text \<open>
  A negative \<^verbatim>\<open>n\<close> returns 0 at once: \<^verbatim>\<open>target - n\<close> is 0.
\<close>

definition consoleread ::
    "'a iokernel_scheme env \<Rightarrow> bool \<Rightarrow> uint64 \<Rightarrow> int32 \<Rightarrow> 'a iokernel_scheme \<Rightarrow> (int32 \<times> 'a iokernel_scheme) outcome" where
  "consoleread e user dst n s =
     andThen (kacquire ConsLock s) (\<lambda>s1.
     andThen (consoleread_loop (nat (sint n)) e user dst (nat (sint n)) s1) (\<lambda>(r, s2).
     andThen (krelease ConsLock s2) (\<lambda>s3.
     Ok (case r of None \<Rightarrow> -1 | Some m \<Rightarrow> of_nat (nat (sint n) - m), s3))))"

text \<open>\<^verbatim>\<open>procdump\<close> (kernel/proc.c) as printed on the console.\<close>

fun print_procs ::
    "'a iokernel_scheme env \<Rightarrow> (int32 \<times> string \<times> uint8 list) list \<Rightarrow> 'a iokernel_scheme \<Rightarrow> 'a iokernel_scheme outcome" where
  "print_procs e [] s = Ok s"
| "print_procs e ((i, st, nm) # ps) s =
     andThen (printf e (Some (lit ''%d %s %s'')) [PInt i, PStr (Some (lit st)), PStr (Some (takeWhile (\<lambda>c. c \<noteq> 0) nm))] s) (\<lambda>s1.
     andThen (printf e (Some [LF]) [] s1) (print_procs e ps))"

definition print_procdump :: "'a iokernel_scheme env \<Rightarrow> 'a iokernel_scheme \<Rightarrow> 'a iokernel_scheme outcome" where
  "print_procdump e s = andThen (printf e (Some [LF]) [] s) (\<lambda>s1. print_procs e (procdump s1) s1)"

text \<open>The loop that erases the current line: \<^verbatim>\<open>cons.e\<close> comes down to \<^verbatim>\<open>cons.w\<close> in less than \<open>2 ^ 32\<close> steps.\<close>

fun kill_line :: "nat \<Rightarrow> 'a iokernel_scheme env \<Rightarrow> 'a iokernel_scheme \<Rightarrow> 'a iokernel_scheme outcome" where
  "kill_line fuel e s =
     (if cons_e (cons s) \<noteq> cons_w (cons s) \<and>
         cbuf (cons s) ! (unat (cons_e (cons s) - 1) mod INPUT_BUF_SIZE) \<noteq> LF
      then (case fuel of 0 \<Rightarrow> Spin | Suc k \<Rightarrow>
        andThen (consputc e Backspace (set_cons (\<lambda>x. x\<lparr>cons_e := cons_e x - 1\<rparr>) s)) (kill_line k e))
      else Ok s)"

declare kill_line.simps [simp del]

definition cons_store :: "uint8 \<Rightarrow> console \<Rightarrow> console" where
  "cons_store c x = x\<lparr>cbuf := (cbuf x)[unat (cons_e x) mod INPUT_BUF_SIZE := c], cons_e := cons_e x + 1\<rparr>"

definition cons_input :: "'a iokernel_scheme env \<Rightarrow> uint8 \<Rightarrow> 'a iokernel_scheme \<Rightarrow> 'a iokernel_scheme outcome" where
  "cons_input e c s =
     (if c \<noteq> 0 \<and> cons_e (cons s) - cons_r (cons s) < of_nat INPUT_BUF_SIZE then
        let c' = (if c = CR then LF else c) in
        andThen (consputc e (Char8 c') s) (\<lambda>s1.
        let s2 = set_cons (cons_store c') s1 in
        if c' = LF \<or> c' = ctrl_D \<or> cons_e (cons s2) - cons_r (cons s2) = of_nat INPUT_BUF_SIZE
        then wakeup (Some ChConsR) (set_cons (\<lambda>x. x\<lparr>cons_w := cons_e x\<rparr>) s2)
        else Ok s2)
      else Ok s)"

definition consoleintr :: "'a iokernel_scheme env \<Rightarrow> uint8 \<Rightarrow> 'a iokernel_scheme \<Rightarrow> 'a iokernel_scheme outcome" where
  "consoleintr e c s =
     andThen (kacquire ConsLock s) (\<lambda>s1.
     andThen
       (if c = ctrl_P then print_procdump e s1
        else if c = ctrl_U then kill_line (2 ^ 32) e s1
        else if c = ctrl_H \<or> c = DEL then
          (if cons_e (cons s1) \<noteq> cons_w (cons s1)
           then consputc e Backspace (set_cons (\<lambda>x. x\<lparr>cons_e := cons_e x - 1\<rparr>) s1) else Ok s1)
        else cons_input e c s1)
       (krelease ConsLock))"

definition consoleinit :: "'a iokernel_scheme \<Rightarrow> 'a iokernel_scheme" where
  "consoleinit s =
     (let s1 = uartinit (set_mach (initlock ConsLock ''cons'' (kmach s)) s)
      in s1\<lparr>devsw_read := (devsw_read s1)[CONSOLE := Some ConsoleRead],
            devsw_write := (devsw_write s1)[CONSOLE := Some ConsoleWrite]\<rparr>)"

section \<open>The interrupt handler of kernel/uart.c\<close>

text \<open>Every round takes one received byte.\<close>

fun uartintr_loop :: "nat \<Rightarrow> 'a iokernel_scheme env \<Rightarrow> 'a iokernel_scheme \<Rightarrow> 'a iokernel_scheme outcome" where
  "uartintr_loop fuel e s =
     (case uartgetc s of
        (None, s1) \<Rightarrow> Ok s1
      | (Some c, s1) \<Rightarrow>
         (case fuel of 0 \<Rightarrow> Spin | Suc k \<Rightarrow> andThen (consoleintr e c s1) (uartintr_loop k e)))"

declare uartintr_loop.simps [simp del]

definition uartintr :: "'a iokernel_scheme env \<Rightarrow> 'a iokernel_scheme \<Rightarrow> 'a iokernel_scheme outcome" where
  "uartintr e s =
     andThen (uartintr_loop (length (u_rx (uart_st s))) e s) (\<lambda>s1.
     andThen (kacquire UartTxLock s1) (\<lambda>s2.
     andThen (uartstart s2) (krelease UartTxLock)))"

section \<open>Output from a critical section\<close>

text \<open>
  \<open>transmits e u\<close>: whenever the driver starts to poll, the transmitter is idle within the fuel of the
  environment. Then output returns and changes nothing but the record of the device.
\<close>

definition transmits :: "'k env \<Rightarrow> uart \<Rightarrow> bool" where
  "transmits e u \<longleftrightarrow> (\<forall>k. \<exists>j \<le> env_fuel e. u_idle u (k + j))"

definition sent :: "uart \<Rightarrow> uart \<Rightarrow> bool" where
  "sent u u' \<longleftrightarrow> u_idle u' = u_idle u \<and> u_rx u' = u_rx u \<and> tx_buf u' = tx_buf u \<and> tx_w u' = tx_w u \<and> tx_r u' = tx_r u"

lemma sent_refl [simp]: "sent u u"
  by (simp add: sent_def)

lemma sent_trans: "sent u v \<Longrightarrow> sent v w \<Longrightarrow> sent u w"
  by (simp add: sent_def)

lemma transmits_sent: "sent u u' \<Longrightarrow> transmits e u' = transmits e u"
  by (simp add: sent_def transmits_def)

text \<open>\<open>prints e s m\<close>: the operation returns with only the device changed.\<close>

definition prints :: "'a iokernel_scheme \<Rightarrow> 'a iokernel_scheme outcome \<Rightarrow> bool" where
  "prints s m \<longleftrightarrow> (\<exists>u. m = Ok (s\<lparr>uart_st := u\<rparr>) \<and> sent (uart_st s) u)"

definition out_ok :: "'a iokernel_scheme env \<Rightarrow> 'a iokernel_scheme \<Rightarrow> bool" where
  "out_ok e s \<longleftrightarrow> transmits e (uart_st s) \<and> \<not> panicked s \<and> irq_ok (kmach s) \<and> touch (kmach s) = kmach s"

lemma out_ok_sent [simp]: "sent (uart_st s) u \<Longrightarrow> out_ok e (s\<lparr>uart_st := u\<rparr>) = out_ok e s"
  by (simp add: out_ok_def transmits_sent)

lemma prints_Ok: "prints s (Ok s)"
  unfolding prints_def by (rule exI [of _ "uart_st s"]) simp

lemma prints_bind:
  assumes "prints s m" and "\<And>u. sent (uart_st s) u \<Longrightarrow> prints (s\<lparr>uart_st := u\<rparr>) (g (s\<lparr>uart_st := u\<rparr>))"
  shows "prints s (andThen m g)"
proof -
  obtain u where u: "m = Ok (s\<lparr>uart_st := u\<rparr>)" "sent (uart_st s) u" using assms(1) by (auto simp: prints_def)
  then obtain v where "g (s\<lparr>uart_st := u\<rparr>) = Ok (s\<lparr>uart_st := v\<rparr>)" "sent u v"
    using assms(2) [OF u(2)] by (auto simp: prints_def)
  then show ?thesis using u sent_trans by (auto simp: prints_def)
qed

lemma prints_poll: "prints s (Ok (set_uart (\<lambda>u. u\<lparr>u_polls := Suc (u_polls u)\<rparr>) s))"
  unfolding prints_def set_uart_def
  by (rule exI [of _ "(uart_st s)\<lparr>u_polls := Suc (u_polls (uart_st s))\<rparr>"]) (simp add: sent_def)

lemma wait_tx_idle_returns:
  assumes "\<exists>j \<le> fuel. u_idle (uart_st s) (u_polls (uart_st s) + j)"
  shows "prints s (wait_tx_idle fuel s)"
  using assms
proof (induction fuel arbitrary: s)
  case 0
  then show ?case
    by (subst wait_tx_idle.simps) (simp add: lsr_tx_idle_def prints_poll)
next
  case (Suc n)
  show ?case
  proof (cases "u_idle (uart_st s) (u_polls (uart_st s))")
    case True
    then show ?thesis
      by (subst wait_tx_idle.simps) (simp add: lsr_tx_idle_def prints_poll)
  next
    case False
    let ?t = "set_uart (\<lambda>u. u\<lparr>u_polls := Suc (u_polls u)\<rparr>) s"
    obtain j where j: "j \<le> Suc n" "u_idle (uart_st s) (u_polls (uart_st s) + j)" using Suc.prems by auto
    with False have "j \<noteq> 0" by (cases j) auto
    with j have "\<exists>j \<le> n. u_idle (uart_st ?t) (u_polls (uart_st ?t) + j)"
      by (intro exI [of _ "j - 1"]) (simp add: set_uart_def)
    from Suc.IH [OF this] obtain u where "wait_tx_idle n ?t = Ok (?t\<lparr>uart_st := u\<rparr>)" "sent (uart_st ?t) u"
      by (auto simp: prints_def)
    moreover have "wait_tx_idle (Suc n) s = wait_tx_idle n ?t"
      using False by (subst wait_tx_idle.simps) (simp add: lsr_tx_idle_def)
    ultimately show ?thesis by (auto simp: prints_def set_uart_def sent_def)
  qed
qed

lemma uartputc_sync_prints:
  assumes "out_ok e s"
  shows "prints s (uartputc_sync e c s)"
proof -
  let ?s1 = "set_mach (push_off (kmach s)) s"
  have same: "uart_st ?s1 = uart_st s" "panicked ?s1 = panicked s" by (simp_all add: set_mach_def)
  have "prints ?s1 (wait_tx_idle (env_fuel e) ?s1)"
    using assms by (intro wait_tx_idle_returns) (simp add: same out_ok_def transmits_def)
  then obtain u where u: "wait_tx_idle (env_fuel e) ?s1 = Ok (?s1\<lparr>uart_st := u\<rparr>)" "sent (uart_st s) u"
    by (auto simp: prints_def same)
  have restored: "set_mach (kmach s) (WriteReg THR c (?s1\<lparr>uart_st := u\<rparr>)) =
      s\<lparr>uart_st := u\<lparr>u_writes := u_writes u @ [(THR, c)]\<rparr>\<rparr>"
    by (simp add: WriteReg_def set_uart_def set_mach_def)
  have m: "kmach (WriteReg THR c (?s1\<lparr>uart_st := u\<rparr>)) = push_off (kmach s)"
    by (simp add: WriteReg_def set_uart_def)
  have "uartputc_sync e c s = Ok (s\<lparr>uart_st := u\<lparr>u_writes := u_writes u @ [(THR, c)]\<rparr>\<rparr>)"
    using assms u(1) restored m by (simp add: uartputc_sync_def Let_def same out_ok_def push_pop_touch)
  then show ?thesis using u(2) unfolding prints_def by (intro exI) (auto simp: sent_def)
qed

lemma consputc_prints: "out_ok e s \<Longrightarrow> prints s (consputc e c s)"
proof (cases c)
  case Backspace
  assume ok: "out_ok e s"
  show ?thesis unfolding Backspace consputc.simps
    by (intro prints_bind uartputc_sync_prints) (simp_all add: ok sent_def)
qed (simp add: uartputc_sync_prints)

lemma consputs_prints: "out_ok e s \<Longrightarrow> prints s (consputs e cs s)"
proof (induction cs arbitrary: s)
  case (Cons c cs)
  show ?case unfolding consputs.simps
    by (intro prints_bind consputc_prints Cons.IH) (simp_all add: Cons.prems)
qed (simp add: prints_Ok)

lemma printf_prints:
  assumes ok: "out_ok e s" and free: "lock_free PrLock (kmach s)" and cs: "printf_chars f args = Some cs"
  shows "prints s (printf e (Some f) args s)"
proof (cases "pr_locking s")
  case True
  let ?s1 = "set_mach (taken PrLock (kmach s)) s"
  have irq: "irq_ok (kmach s)" "touch (kmach s) = kmach s" using ok by (simp_all add: out_ok_def)
  have "out_ok e ?s1" using ok irq by (simp add: out_ok_def set_mach_def)
  from consputs_prints [OF this, of cs] obtain u where
    u: "consputs e cs ?s1 = Ok (?s1\<lparr>uart_st := u\<rparr>)" "sent (uart_st s) u"
    by (auto simp: prints_def set_mach_def)
  have "krelease PrLock (?s1\<lparr>uart_st := u\<rparr>) = Ok (s\<lparr>uart_st := u\<rparr>)"
    using krelease_view [OF free irq(1), of "?s1\<lparr>uart_st := u\<rparr>"] irq(2) by (simp add: set_mach_def)
  then show ?thesis
    using True cs u kacquire_free [OF free] by (auto simp: printf_def prints_def)
next
  case False
  then show ?thesis using consputs_prints [OF ok, of cs] cs by (auto simp: printf_def prints_def)
qed

lemma print_procs_prints:
  "out_ok e s \<Longrightarrow> lock_free PrLock (kmach s) \<Longrightarrow> prints s (print_procs e ps s)"
proof (induction ps arbitrary: s)
  case (Cons x ps)
  obtain i st nm where x: "x = (i, st, nm)" by (metis prod_cases3)
  show ?case unfolding x print_procs.simps
    by (intro prints_bind printf_prints Cons.IH)
       (use Cons.prems in \<open>auto simp: lit_def LF_def dest: sent_trans\<close>)
qed (simp add: prints_Ok)

lemma print_procdump_prints:
  "out_ok e s \<Longrightarrow> lock_free PrLock (kmach s) \<Longrightarrow> prints s (print_procdump e s)"
  unfolding print_procdump_def
  by (intro prints_bind printf_prints print_procs_prints) (auto simp: LF_def)

section \<open>The line discipline\<close>

text \<open>
  The buffer as the reader sees it: the bytes of finished lines, between \<^verbatim>\<open>cons.r\<close> and \<^verbatim>\<open>cons.w\<close>, and the
  line being edited, between \<^verbatim>\<open>cons.w\<close> and \<^verbatim>\<open>cons.e\<close>, which has no newline.
\<close>

definition cons_done :: "console \<Rightarrow> uint8 list" where
  "cons_done c = ring_items INPUT_BUF_SIZE (cbuf c) (cons_r c) (cons_w c)"

definition cons_line :: "console \<Rightarrow> uint8 list" where
  "cons_line c = ring_items INPUT_BUF_SIZE (cbuf c) (cons_w c) (cons_e c)"

definition cons_wf :: "console \<Rightarrow> bool" where
  "cons_wf c \<longleftrightarrow> ring_ok INPUT_BUF_SIZE (cbuf c) (cons_r c) (cons_e c) \<and>
     unat (cons_w c - cons_r c) \<le> unat (cons_e c - cons_r c)"

definition cons_ok :: "console \<Rightarrow> bool" where
  "cons_ok c \<longleftrightarrow> cons_wf c \<and> LF \<notin> set (cons_line c)"

text \<open>What one input byte does to the finished bytes and the line.\<close>

definition line_input :: "uint8 \<Rightarrow> uint8 list \<times> uint8 list \<Rightarrow> uint8 list \<times> uint8 list" where
  "line_input c = (\<lambda>(done, line).
     if c = ctrl_P then (done, line)
     else if c = ctrl_U then (done, [])
     else if c = ctrl_H \<or> c = DEL then (done, butlast line)
     else if c = 0 \<or> length done + length line \<ge> INPUT_BUF_SIZE then (done, line)
     else
       let c' = (if c = CR then LF else c) in
       if c' = LF \<or> c' = ctrl_D \<or> length done + length line + 1 = INPUT_BUF_SIZE then (done @ line @ [c'], [])
       else (done, line @ [c']))"

lemma input_size: "INPUT_BUF_SIZE dvd 2 ^ LENGTH(32)" "INPUT_BUF_SIZE < 2 ^ LENGTH(32)"
  by (simp_all add: INPUT_BUF_SIZE_def)

lemma cons_split:
  assumes "cons_wf c"
  shows "unat (cons_e c - cons_r c) = unat (cons_w c - cons_r c) + unat (cons_e c - cons_w c)"
    and "ring_items INPUT_BUF_SIZE (cbuf c) (cons_r c) (cons_e c) = cons_done c @ cons_line c"
proof -
  show len: "unat (cons_e c - cons_r c) = unat (cons_w c - cons_r c) + unat (cons_e c - cons_w c)"
  proof -
    have "cons_e c - cons_w c = (cons_e c - cons_r c) - (cons_w c - cons_r c)" by simp
    then have "unat (cons_e c - cons_w c) = unat (cons_e c - cons_r c) - unat (cons_w c - cons_r c)"
      using assms unat_sub [of "cons_w c - cons_r c" "cons_e c - cons_r c"]
      by (simp add: cons_wf_def word_le_nat_alt)
    then show ?thesis using assms by (simp add: cons_wf_def)
  qed
  let ?n = "unat (cons_w c - cons_r c)"
  have "cons_w c = cons_r c + of_nat ?n" by simp
  then have slot: "(unat (cons_w c) + i) mod INPUT_BUF_SIZE = (unat (cons_r c) + (?n + i)) mod INPUT_BUF_SIZE" for i
    using unat_mod_ring [OF input_size(1), of "cons_r c" ?n] by (metis add.assoc mod_add_left_eq)
  have "[0..<?n + k] = [0..<?n] @ map (\<lambda>i. ?n + i) [0..<k]" for k
    by (induction k) simp_all
  then show "ring_items INPUT_BUF_SIZE (cbuf c) (cons_r c) (cons_e c) = cons_done c @ cons_line c"
    unfolding cons_done_def cons_line_def ring_items_def len by (simp add: slot comp_def)
qed

lemma cons_view_eq:
  assumes "cons_wf c" and "ring_items INPUT_BUF_SIZE (cbuf c) (cons_r c) (cons_e c) = xs @ ys"
    and "length xs = unat (cons_w c - cons_r c)"
  shows "cons_done c = xs" and "cons_line c = ys"
  using cons_split(2) [OF assms(1)] assms(2,3) by (simp_all add: cons_done_def)

lemma cons_store_view:
  assumes wf: "cons_wf c" and room: "length (cons_done c) + length (cons_line c) < INPUT_BUF_SIZE"
  shows "cons_wf (cons_store ch c)" "cons_done (cons_store ch c) = cons_done c"
    "cons_line (cons_store ch c) = cons_line c @ [ch]"
proof -
  have r: "ring_ok INPUT_BUF_SIZE (cbuf c) (cons_r c) (cons_e c)" and le: "unat (cons_w c - cons_r c) \<le> unat (cons_e c - cons_r c)"
    using wf by (simp_all add: cons_wf_def)
  have lt: "unat (cons_e c - cons_r c) < INPUT_BUF_SIZE"
    using room cons_split(1) [OF wf] by (simp add: cons_done_def cons_line_def)
  note put = ring_put [OF r lt input_size, of ch]
  have same: "cons_r (cons_store ch c) = cons_r c" "cons_w (cons_store ch c) = cons_w c"
    "cons_e (cons_store ch c) = cons_e c + 1"
    "cbuf (cons_store ch c) = (cbuf c)[unat (cons_e c) mod INPUT_BUF_SIZE := ch]"
    by (simp_all add: cons_store_def)
  show w: "cons_wf (cons_store ch c)"
    using put(1) le unat_dist_Suc [OF lt input_size(2)] by (simp add: cons_wf_def same)
  have "ring_items INPUT_BUF_SIZE (cbuf (cons_store ch c)) (cons_r (cons_store ch c)) (cons_e (cons_store ch c)) =
      cons_done c @ (cons_line c @ [ch])"
    unfolding same put(2) cons_split(2) [OF wf] by simp
  from cons_view_eq [OF w this] show "cons_done (cons_store ch c) = cons_done c"
    "cons_line (cons_store ch c) = cons_line c @ [ch]" by (simp_all add: same cons_done_def)
qed

lemma cons_erase_view:
  fixes c :: console
  assumes wf: "cons_wf c" and ne: "cons_e c \<noteq> cons_w c"
  defines "c1 \<equiv> c\<lparr>cons_e := cons_e c - 1\<rparr>"
  shows "cons_wf c1" "cons_done c1 = cons_done c" "cons_line c1 = butlast (cons_line c)"
    "last (cons_line c) = cbuf c ! (unat (cons_e c - 1) mod INPUT_BUF_SIZE)" "cons_line c \<noteq> []"
proof -
  have r: "ring_ok INPUT_BUF_SIZE (cbuf c) (cons_r c) (cons_e c)" using wf by (simp add: cons_wf_def)
  have pos: "unat (cons_e c - cons_w c) \<noteq> 0" using ne by (simp add: unat_eq_0)
  then show some: "cons_line c \<noteq> []" by (metis cons_line_def length_ring_items list.size(3))
  have re: "cons_r c \<noteq> cons_e c" using pos cons_split(1) [OF wf] by auto
  note un = ring_unput [OF r re]
  have len: "Suc (unat (cons_e c - 1 - cons_r c)) = unat (cons_e c - cons_r c)"
    using arg_cong [OF un(2), of length] pos cons_split(1) [OF wf] by simp
  show w: "cons_wf c1" unfolding cons_wf_def c1_def using un(1) len cons_split(1) [OF wf] pos by simp
  have "ring_items INPUT_BUF_SIZE (cbuf c1) (cons_r c1) (cons_e c1) = cons_done c @ butlast (cons_line c)"
    unfolding c1_def using un(2) cons_split(2) [OF wf] some by (simp add: butlast_append)
  from cons_view_eq [OF w this] show "cons_done c1 = cons_done c" "cons_line c1 = butlast (cons_line c)"
    by (simp_all add: c1_def cons_done_def)
  have e1: "cons_e c - 1 = cons_w c + of_nat (unat (cons_e c - cons_w c) - 1)"
    using pos by (simp add: of_nat_diff)
  show "last (cons_line c) = cbuf c ! (unat (cons_e c - 1) mod INPUT_BUF_SIZE)"
    unfolding e1 unat_mod_ring [OF input_size(1)]
    using some pos by (simp add: cons_line_def ring_items_def last_map)
qed

lemma cons_commit_view:
  assumes wf: "cons_wf c"
  shows "cons_wf (c\<lparr>cons_w := cons_e c\<rparr>)" "cons_done (c\<lparr>cons_w := cons_e c\<rparr>) = cons_done c @ cons_line c"
    "cons_line (c\<lparr>cons_w := cons_e c\<rparr>) = []"
proof -
  show w: "cons_wf (c\<lparr>cons_w := cons_e c\<rparr>)" using wf by (simp add: cons_wf_def)
  show "cons_line (c\<lparr>cons_w := cons_e c\<rparr>) = []" by (simp add: cons_line_def ring_items_def)
  show "cons_done (c\<lparr>cons_w := cons_e c\<rparr>) = cons_done c @ cons_line c"
    using cons_split(2) [OF wf] by (simp add: cons_done_def)
qed

lemma set_cons_simps [simp]:
  "cons (set_cons f s) = f (cons s)" "uart_st (set_cons f s) = uart_st s" "kmach (set_cons f s) = kmach s"
  "panicked (set_cons f s) = panicked s" "kready (set_cons f s) = kready s"
  "out_ok e (set_cons f s) = out_ok e s" "procs (set_cons f s) = procs s" "pm (set_cons f s) = pm s"
  "pipes (set_cons f s) = pipes s" "devsw_read (set_cons f s) = devsw_read s"
  by (simp_all add: set_cons_def kready_def out_ok_def)

text \<open>\<open>edits s m c'\<close>: the operation returns and leaves the console as \<open>c'\<close>, the rest but the device alone.\<close>

definition edits :: "'a iokernel_scheme \<Rightarrow> 'a iokernel_scheme outcome \<Rightarrow> (console \<Rightarrow> bool) \<Rightarrow> bool" where
  "edits s m Q \<longleftrightarrow> (\<exists>u c. m = Ok (s\<lparr>cons := c, uart_st := u\<rparr>) \<and> sent (uart_st s) u \<and> Q c)"

lemma edits_Ok: "Q (cons s) \<Longrightarrow> edits s (Ok s) Q"
  unfolding edits_def by (intro exI [of _ "uart_st s"] exI [of _ "cons s"]) simp

lemma prints_edits: "prints (set_cons f s) m \<Longrightarrow> Q (f (cons s)) \<Longrightarrow> edits s m Q"
  by (auto simp: prints_def edits_def set_cons_def)

lemma prints_edits_same: "prints s m \<Longrightarrow> Q (cons s) \<Longrightarrow> edits s m Q"
  using prints_edits [of "\<lambda>x. x" s m Q] by (simp add: set_cons_def)

lemma kill_line_edits:
  assumes "out_ok e s" and "cons_ok (cons s)" and "length (cons_line (cons s)) \<le> fuel"
  shows "edits s (kill_line fuel e s) (\<lambda>c. cons_wf c \<and> cons_done c = cons_done (cons s) \<and> cons_line c = [])"
  using assms
proof (induction fuel arbitrary: s)
  case 0
  then have "cons_line (cons s) = []" by simp
  then have "cons_e (cons s) = cons_w (cons s)" using cons_erase_view(5) 0 by (auto simp: cons_ok_def)
  then have "kill_line 0 e s = Ok s" by (simp add: kill_line.simps)
  then show ?case using 0 by (simp add: edits_Ok cons_ok_def)
next
  case (Suc n)
  show ?case
  proof (cases "cons_e (cons s) = cons_w (cons s)")
    case True
    then have "kill_line (Suc n) e s = Ok s" by (simp add: kill_line.simps)
    moreover have "cons_line (cons s) = []" using True by (simp add: cons_line_def ring_items_def)
    ultimately show ?thesis using Suc.prems by (simp add: edits_Ok cons_ok_def)
  next
    case False
    have wf: "cons_wf (cons s)" and nolf: "LF \<notin> set (cons_line (cons s))" using Suc.prems(2) by (simp_all add: cons_ok_def)
    note er = cons_erase_view [OF wf False]
    let ?t = "set_cons (\<lambda>x. x\<lparr>cons_e := cons_e x - 1\<rparr>) s"
    have "cbuf (cons s) ! (unat (cons_e (cons s) - 1) mod INPUT_BUF_SIZE) \<noteq> LF"
      using er(4,5) nolf last_in_set by metis
    then have step: "kill_line (Suc n) e s = andThen (consputc e Backspace ?t) (kill_line n e)"
      using False by (subst kill_line.simps) simp
    obtain u where u: "consputc e Backspace ?t = Ok (?t\<lparr>uart_st := u\<rparr>)" "sent (uart_st s) u"
      using consputc_prints [of e ?t Backspace] Suc.prems(1) by (auto simp: prints_def)
    have "out_ok e (?t\<lparr>uart_st := u\<rparr>)" using out_ok_sent [of ?t u e] u(2) Suc.prems(1) by simp
    moreover have "cons_ok (cons (?t\<lparr>uart_st := u\<rparr>))"
      using er(1,3) nolf by (auto simp: cons_ok_def dest: in_set_butlastD)
    moreover have "length (cons_line (cons (?t\<lparr>uart_st := u\<rparr>))) \<le> n" using er(3) Suc.prems(3) by simp
    ultimately have "edits (?t\<lparr>uart_st := u\<rparr>) (kill_line n e (?t\<lparr>uart_st := u\<rparr>))
        (\<lambda>c. cons_wf c \<and> cons_done c = cons_done (cons (?t\<lparr>uart_st := u\<rparr>)) \<and> cons_line c = [])"
      by (rule Suc.IH)
    then obtain v c where run: "kill_line n e (?t\<lparr>uart_st := u\<rparr>) = Ok (s\<lparr>cons := c, uart_st := v\<rparr>)" "sent u v"
      and c: "cons_wf c" "cons_done c = cons_done (cons s)" "cons_line c = []"
      using er(2) by (auto simp: edits_def set_cons_def)
    then show ?thesis using step u sent_trans [OF u(2) run(2)] unfolding edits_def by auto
  qed
qed

text \<open>The body of \<^verbatim>\<open>consoleintr\<close> inside its critical section.\<close>

lemma cons_input_room:
  assumes "cons_wf c"
  shows "cons_e c - cons_r c < of_nat INPUT_BUF_SIZE \<longleftrightarrow> length (cons_done c) + length (cons_line c) < INPUT_BUF_SIZE"
    and "cons_e c - cons_r c = of_nat INPUT_BUF_SIZE \<longleftrightarrow> length (cons_done c) + length (cons_line c) = INPUT_BUF_SIZE"
  using cons_split(1) [OF assms]
  by (simp_all add: word_less_nat_alt word_unat_eq_iff cons_done_def cons_line_def INPUT_BUF_SIZE_def)

definition lines_to :: "'a iokernel_scheme \<Rightarrow> 'a iokernel_scheme outcome \<Rightarrow> uint8 list \<times> uint8 list \<Rightarrow> bool" where
  "lines_to s m dl \<longleftrightarrow> (\<exists>s'. m = Ok s' \<and> kmach s' = kmach s \<and> pm s' = pm s \<and> length (procs s') = length (procs s) \<and>
     sent (uart_st s) (uart_st s') \<and> panicked s' = panicked s \<and> cons_ok (cons s') \<and> (cons_done (cons s'), cons_line (cons s')) = dl)"

lemma edits_lines:
  assumes "edits s m (\<lambda>c. cons_wf c \<and> cons_done c = d \<and> cons_line c = l)" and "LF \<notin> set l"
  shows "lines_to s m (d, l)"
  using assms unfolding edits_def lines_to_def by (auto simp: cons_ok_def)

lemma cons_input_lines:
  assumes ok: "out_ok e s" and ready: "kready s" and c: "cons_ok (cons s)" and norm: "ch \<notin> {ctrl_P, ctrl_U, ctrl_H, DEL}"
  shows "lines_to s (cons_input e ch s) (line_input ch (cons_done (cons s), cons_line (cons s)))"
proof (cases "ch \<noteq> 0 \<and> length (cons_done (cons s)) + length (cons_line (cons s)) < INPUT_BUF_SIZE")
  case False
  have wf: "cons_wf (cons s)" using c by (simp add: cons_ok_def)
  then have "cons_input e ch s = Ok s" using False by (auto simp: cons_input_def cons_input_room(1))
  moreover have "line_input ch (cons_done (cons s), cons_line (cons s)) = (cons_done (cons s), cons_line (cons s))"
    using False norm by (auto simp: line_input_def)
  ultimately show ?thesis using c by (simp add: lines_to_def)
next
  case True
  have wf: "cons_wf (cons s)" and nolf: "LF \<notin> set (cons_line (cons s))" using c by (simp_all add: cons_ok_def)
  define c' where "c' = (if ch = CR then LF else ch)"
  obtain u where u: "consputc e (Char8 c') s = Ok (s\<lparr>uart_st := u\<rparr>)" and su: "sent (uart_st s) u" 
    using consputc_prints [OF ok] unfolding prints_def by blast
  let ?s2 = "set_cons (cons_store c') (s\<lparr>uart_st := u\<rparr>)"
  have room: "length (cons_done (cons s)) + length (cons_line (cons s)) < INPUT_BUF_SIZE" using True by simp
  note st = cons_store_view [OF wf room, of c']
  let ?commit = "c' = LF \<or> c' = ctrl_D \<or> length (cons_done (cons s)) + length (cons_line (cons s)) + 1 = INPUT_BUF_SIZE"
  have cm: "(c' = LF \<or> c' = ctrl_D \<or> cons_e (cons ?s2) - cons_r (cons ?s2) = of_nat INPUT_BUF_SIZE) = ?commit"
    using cons_input_room(2) [OF st(1)] st(2,3) by simp
  have run: "cons_input e ch s =
      (if ?commit then wakeup (Some ChConsR) (set_cons (\<lambda>x. x\<lparr>cons_w := cons_e x\<rparr>) ?s2) else Ok ?s2)"
    unfolding cons_input_def cons_input_room(1) [OF wf] Let_def c'_def [symmetric] u andThen.simps cm
    using True by simp
  have li: "line_input ch (cons_done (cons s), cons_line (cons s)) =
      (if ?commit then (cons_done (cons s) @ cons_line (cons s) @ [c'], []) else (cons_done (cons s), cons_line (cons s) @ [c']))"
    using True norm by (auto simp: line_input_def Let_def c'_def)
  show ?thesis
  proof (cases ?commit)
    case False
    then show ?thesis using st nolf su unfolding run li by (auto simp: lines_to_def cons_ok_def)
  next
    case True
    let ?s3 = "set_cons (\<lambda>x. x\<lparr>cons_w := cons_e x\<rparr>) ?s2"
    note com = cons_commit_view [OF st(1)]
    have rd: "kready ?s3" and k: "touch (kmach ?s3) = kmach ?s3"
      using ready ok by (simp_all add: kready_def out_ok_def)
    obtain ps where ps: "wakeup (Some ChConsR) ?s3 = Ok (?s3\<lparr>procs := ps\<rparr>)" "length ps = NPROC"
      using wakeup_nested [OF rd k] by blast
    show ?thesis
      using True ps com st ready su unfolding run li by (auto simp: lines_to_def cons_ok_def kready_def)
  qed
qed

lemma line_input_nolf: "LF \<notin> set l \<Longrightarrow> LF \<notin> set (butlast l)"
  by (auto dest: in_set_butlastD)

lemma consoleintr_lines:
  assumes ready: "kready s" and free: "lock_free ConsLock (kmach s)" "lock_free PrLock (kmach s)"
    and dev: "transmits e (uart_st s)" "\<not> panicked s" and c: "cons_ok (cons s)"
  shows "\<exists>s'. consoleintr e ch s = Ok s' \<and> kmach s' = touch (kmach s) \<and> mem (pm s') = mem (pm s) \<and>
     length (procs s') = length (procs s) \<and> sent (uart_st s) (uart_st s') \<and> panicked s' = panicked s \<and> cons_ok (cons s') \<and>
     (cons_done (cons s'), cons_line (cons s')) = line_input ch (cons_done (cons s), cons_line (cons s))"
proof -
  let ?t = "set_mach (taken ConsLock (kmach s)) s"
  have irq: "irq_ok (kmach s)" using ready by (simp add: kready_def)
  have same: "cons ?t = cons s" "uart_st ?t = uart_st s" "panicked ?t = panicked s" by (simp_all add: set_mach_def)
  have ok: "out_ok e ?t" using dev irq by (simp add: out_ok_def same)
  have rt: "kready ?t" by (rule kready_taken [OF ready]) simp_all
  have pr: "lock_free PrLock (kmach ?t)" using free(2) by (simp add: lock_free_taken)
  have wf: "cons_wf (cons s)" and nolf: "LF \<notin> set (cons_line (cons s))" using c by (simp_all add: cons_ok_def)
  note ctrl = ctrl_P_def ctrl_U_def ctrl_H_def DEL_def
  let ?m = "if ch = ctrl_P then print_procdump e ?t
      else if ch = ctrl_U then kill_line (2 ^ 32) e ?t
      else if ch = ctrl_H \<or> ch = DEL then
        (if cons_e (cons ?t) \<noteq> cons_w (cons ?t) then
           consputc e Backspace (set_cons (\<lambda>x. x\<lparr>cons_e := cons_e x - 1\<rparr>) ?t) else Ok ?t)
      else cons_input e ch ?t"
  have body: "lines_to ?t ?m (line_input ch (cons_done (cons s), cons_line (cons s)))"
  proof -
    consider "ch = ctrl_P" | "ch = ctrl_U" | "ch = ctrl_H \<or> ch = DEL" | "ch \<notin> {ctrl_P, ctrl_U, ctrl_H, DEL}" by blast
    then show ?thesis
    proof cases
      case 1
      have "edits ?t (print_procdump e ?t) (\<lambda>x. cons_wf x \<and> cons_done x = cons_done (cons s) \<and> cons_line x = cons_line (cons s))"
        by (rule prints_edits_same [OF print_procdump_prints [OF ok pr]]) (simp add: wf same)
      from edits_lines [OF this nolf] show ?thesis using 1 by (simp add: line_input_def)
    next
      case 2
      have "length (cons_line (cons ?t)) \<le> 2 ^ 32" 
        using unsigned_less [of "cons_e (cons ?t) - cons_w (cons ?t)", where 'a = nat] by (simp add: cons_line_def)
      from edits_lines [OF kill_line_edits [OF ok _ this]] show ?thesis
        using 2 c same by (simp add: line_input_def ctrl)
    next
      case 3
      then have li: "line_input ch (cons_done (cons s), cons_line (cons s)) = (cons_done (cons s), butlast (cons_line (cons s)))"
        and m: "?m = (if cons_e (cons s) \<noteq> cons_w (cons s) then
           consputc e Backspace (set_cons (\<lambda>x. x\<lparr>cons_e := cons_e x - 1\<rparr>) ?t) else Ok ?t)"
        by (auto simp: line_input_def ctrl same)
      show ?thesis
      proof (cases "cons_e (cons s) = cons_w (cons s)")
        case True
        then have "cons_line (cons s) = []" by (simp add: cons_line_def ring_items_def)
        then show ?thesis unfolding li m using True c same(1) by (simp add: lines_to_def)
      next
        case False
        note er = cons_erase_view [OF wf False]
        have "edits ?t (consputc e Backspace (set_cons (\<lambda>x. x\<lparr>cons_e := cons_e x - 1\<rparr>) ?t))
            (\<lambda>x. cons_wf x \<and> cons_done x = cons_done (cons s) \<and> cons_line x = butlast (cons_line (cons s)))"
          by (rule prints_edits [OF consputc_prints]) (use ok er same in simp_all)
        from edits_lines [OF this line_input_nolf [OF nolf]] show ?thesis unfolding li m using False by simp
      qed
    next
      case 4
      have "cons_ok (cons ?t)" using c by (simp add: same)
      from cons_input_lines [OF ok rt this 4] show ?thesis unfolding same(1) using 4 by simp
    qed
  qed
  then obtain s' where s': "?m = Ok s'" "kmach s' = taken ConsLock (kmach s)" "pm s' = pm ?t" "cons_ok (cons s')"
    "length (procs s') = length (procs s)" "sent (uart_st s) (uart_st s')" "panicked s' = panicked s"
    "(cons_done (cons s'), cons_line (cons s')) = line_input ch (cons_done (cons s), cons_line (cons s))"
    using same by (auto simp: lines_to_def)
  have "consoleintr e ch s = krelease ConsLock s'"
    unfolding consoleintr_def kacquire_free [OF free(1)] andThen.simps s'(1) by (rule refl)
  then have "consoleintr e ch s = Ok (set_mach (touch (kmach s)) s')"
    using krelease_view [OF free(1) irq s'(2)] by simp
  then show ?thesis using s'(3-8) by (auto simp: set_mach_def)
qed

lemma uartintr_loop_lines:
  assumes "kready s" and "lock_free ConsLock (kmach s)" "lock_free PrLock (kmach s)"
    and "transmits e (uart_st s)" "\<not> panicked s" and "cons_ok (cons s)" and "length (u_rx (uart_st s)) \<le> fuel"
  shows "\<exists>s'. uartintr_loop fuel e s = Ok s' \<and> u_rx (uart_st s') = [] \<and> mem (pm s') = mem (pm s) \<and> cons_ok (cons s') \<and>
     (cons_done (cons s'), cons_line (cons s')) = fold line_input (u_rx (uart_st s)) (cons_done (cons s), cons_line (cons s))"
  using assms
proof (induction fuel arbitrary: s)
  case 0
  then show ?case
    by (subst uartintr_loop.simps) (simp add: uartgetc_def lsr_rx_ready_def set_uart_def)
next
  case (Suc n)
  show ?case
  proof (cases "u_rx (uart_st s)")
    case Nil
    then show ?thesis using Suc.prems
      by (subst uartintr_loop.simps) (simp add: uartgetc_def lsr_rx_ready_def set_uart_def)
  next
    case (Cons c cs)
    let ?t = "s\<lparr>uart_st := (uart_st s)\<lparr>u_polls := Suc (u_polls (uart_st s)), u_rx := cs\<rparr>\<rparr>"
    have get: "uartgetc s = (Some c, ?t)" using Cons by (simp add: uartgetc_def lsr_rx_ready_def set_uart_def Let_def)
    have "kready ?t" "transmits e (uart_st ?t)" using Suc.prems by (simp_all add: kready_def transmits_def)
    from consoleintr_lines [OF this(1) _ _ this(2), of c] Suc.prems obtain s1 where
      s1: "consoleintr e c ?t = Ok s1" "kmach s1 = touch (kmach s)" "mem (pm s1) = mem (pm s)"
        "length (procs s1) = length (procs s)" "sent (uart_st ?t) (uart_st s1)" "\<not> panicked s1" "cons_ok (cons s1)"
        "(cons_done (cons s1), cons_line (cons s1)) = line_input c (cons_done (cons s), cons_line (cons s))" by auto
    have "kready s1" using Suc.prems(1) s1(2,4) by (simp add: kready_def)
    moreover have "transmits e (uart_st s1)" "u_rx (uart_st s1) = cs"
      using transmits_sent [OF s1(5), where e = e] \<open>transmits e (uart_st ?t)\<close> s1(5) by (simp_all add: sent_def)
    ultimately have "\<exists>s'. uartintr_loop n e s1 = Ok s' \<and> u_rx (uart_st s') = [] \<and> mem (pm s') = mem (pm s1) \<and> cons_ok (cons s') \<and>
       (cons_done (cons s'), cons_line (cons s')) = fold line_input (u_rx (uart_st s1)) (cons_done (cons s1), cons_line (cons s1))"
      using Suc.prems s1 Cons by (intro Suc.IH) simp_all
    moreover have "uartintr_loop (Suc n) e s = uartintr_loop n e s1"
      by (subst uartintr_loop.simps) (simp add: get s1(1))
    ultimately show ?thesis using s1 Cons \<open>u_rx (uart_st s1) = cs\<close> by simp
  qed
qed

section \<open>Properties\<close>

text \<open>
  C17. The interrupt handler feeds every received byte to the line discipline: it returns with the
  receiver empty; newline, end-of-file and a full buffer hand the line to readers; backspace and kill
  erase within the current line only, never in a finished one; a full buffer drops input; and the three
  indices stay in order within the 128 bytes of the buffer, also where they wrap around.
\<close>

theorem uartintr_feeds_lines:
  assumes "kready s" and "lock_free ConsLock (kmach s)" and "lock_free PrLock (kmach s)"
    and "transmits e (uart_st s)" and "\<not> panicked s" and "cons_ok (cons s)"
  shows "\<exists>s'. uartintr_loop (length (u_rx (uart_st s))) e s = Ok s' \<and> u_rx (uart_st s') = [] \<and> cons_ok (cons s') \<and>
     mem (pm s') = mem (pm s) \<and>
     (cons_done (cons s'), cons_line (cons s')) = fold line_input (u_rx (uart_st s)) (cons_done (cons s), cons_line (cons s))"
  using uartintr_loop_lines [OF assms order_refl] by blast

definition typing :: "uint8 list \<Rightarrow> iokernel" where
  "typing bs = (io_demo (\<lambda>_. 0))\<lparr>
     uart_st := \<lparr>u_idle = \<lambda>k. k mod 3 = 0, u_polls = 0, u_rx = bs, u_writes = [], tx_buf = replicate 32 0, tx_w = 0, tx_r = 0\<rparr>,
     cons := \<lparr>cbuf = replicate 128 0, cons_r = -1, cons_w = -1, cons_e = -1\<rparr>\<rparr>"

theorem uartintr_feeds_lines_witness:
  "(\<exists>s'. uartintr_loop 4 \<lparr>env_sw = Ok, env_fuel = 2, env_rw = \<lambda>b w. Ok\<rparr> (typing [104, 120, 127, 105]) = Ok s' \<and>
     cons_done (cons s') = [] \<and> cons_line (cons s') = [104, 105]) \<and>
   (\<exists>s'. uartintr_loop 3 \<lparr>env_sw = Ok, env_fuel = 2, env_rw = \<lambda>b w. Ok\<rparr> (typing [104, 13, 127]) = Ok s' \<and>
     cons_done (cons s') = [104, 10] \<and> cons_line (cons s') = [])"
proof -
  let ?e = "\<lparr>env_sw = Ok, env_fuel = 2, env_rw = \<lambda>b w. Ok\<rparr> :: iokernel env"
  note k = sys_okD [OF io_demo_ok [of "\<lambda>_. 0"]]
  have s: "kready (typing bs)" "lock_free lk (kmach (typing bs))" "\<not> panicked (typing bs)"
    "u_rx (uart_st (typing bs)) = bs" for bs lk
    using k(1,3) by (simp_all add: typing_def kready_def) (simp add: io_demo_def)
  have idle: "\<exists>j \<le> 2. (n + j) mod 3 = 0" for n :: nat
    by presburger
  have t: "transmits ?e (uart_st (typing bs))" for bs using idle by (simp add: transmits_def typing_def)
  have v: "cons_done (cons (typing bs)) = []" "cons_line (cons (typing bs)) = []" for bs
    by (simp_all add: typing_def cons_done_def cons_line_def ring_items_def)
  have c: "cons_ok (cons (typing bs))" for bs
    using v(2) [of bs] by (simp add: cons_ok_def cons_wf_def ring_ok_def typing_def INPUT_BUF_SIZE_def)
  note keys = line_input_def ctrl_P_def ctrl_U_def ctrl_H_def DEL_def CR_def LF_def ctrl_D_def INPUT_BUF_SIZE_def
  note run = uartintr_feeds_lines [OF s(1,2,2) t s(3) c]
  have len: "length [104, 120, 127, 105 :: uint8] = 4" "length [104, 13, 127 :: uint8] = 3" by simp_all
  show ?thesis
    using run [of "[104, 120, 127, 105]", unfolded s(4) len] run [of "[104, 13, 127]", unfolded s(4) len]
    by (intro conjI) (auto simp: v keys)
qed

end
