(* ===== verification/Pipe.thy ===== *)
theory Pipe
  imports Console
begin

text \<open>
  Pipes (kernel/pipe.c). A \<^verbatim>\<open>struct pipe\<close> lives in a page from \<^const>\<open>kalloc\<close>; \<open>pipes\<close> maps the page's
  address to its contents. \<open>nread\<close> and \<open>nwrite\<close> are unsigned ints that only grow and wrap around.
\<close>

section \<open>kernel/pipe.c\<close>

definition PIPESIZE :: nat where "PIPESIZE = 512"

definition set_pipe :: "uint64 \<Rightarrow> (pipe \<Rightarrow> pipe) \<Rightarrow> 'a iokernel_scheme \<Rightarrow> 'a iokernel_scheme" where
  "set_pipe pi f s = s\<lparr>pipes := (pipes s)(pi := f (pipes s pi))\<rparr>"

definition pipeclose :: "uint64 \<Rightarrow> bool \<Rightarrow> 'a iokernel_scheme \<Rightarrow> 'a iokernel_scheme outcome" where
  "pipeclose pi wr s =
     andThen (kacquire (PipeLock pi) s) (\<lambda>s1.
     andThen
       (if wr then wakeup (Some (ChPipeRead pi)) (set_pipe pi (\<lambda>x. x\<lparr>writeopen := False\<rparr>) s1)
        else wakeup (Some (ChPipeWrite pi)) (set_pipe pi (\<lambda>x. x\<lparr>readopen := False\<rparr>) s1)) (\<lambda>s2.
     if \<not> readopen (pipes s2 pi) \<and> \<not> writeopen (pipes s2 pi)
     then andThen (krelease (PipeLock pi) s2) (lift_pm (kfree pi))
     else krelease (PipeLock pi) s2))"

definition pipe_full :: "pipe \<Rightarrow> bool" where
  "pipe_full x \<longleftrightarrow> nwrite x = nread x + of_nat PIPESIZE"

definition pipe_empty :: "pipe \<Rightarrow> bool" where
  "pipe_empty x \<longleftrightarrow> nread x = nwrite x"

definition pipe_put :: "uint8 \<Rightarrow> pipe \<Rightarrow> pipe" where
  "pipe_put ch x = x\<lparr>pdata := (pdata x)[unat (nwrite x) mod PIPESIZE := ch], nwrite := nwrite x + 1\<rparr>"

definition pipe_head :: "pipe \<Rightarrow> uint8" where
  "pipe_head x = pdata x ! (unat (nread x) mod PIPESIZE)"

definition pipe_get :: "pipe \<Rightarrow> pipe" where
  "pipe_get x = x\<lparr>nread := nread x + 1\<rparr>"

text \<open>
  The loop of \<^verbatim>\<open>pipewrite\<close> for the process \<open>pr\<close>, with \<open>k\<close> bytes to go; it may sleep \<open>fuel\<close> times for
  each byte. The result is \<^verbatim>\<open>i\<close>, or \<^const>\<open>None\<close> if the reading end is closed or the process killed.
\<close>

fun pipewrite_loop ::
    "nat \<Rightarrow> 'a iokernel_scheme env \<Rightarrow> nat \<Rightarrow> nat \<Rightarrow> uint64 \<Rightarrow> uint64 \<Rightarrow> nat \<Rightarrow> 'a iokernel_scheme
     \<Rightarrow> (nat option \<times> 'a iokernel_scheme) outcome" where
  "pipewrite_loop 0 e fuel pr pi addr i s = Ok (Some i, s)"
| "pipewrite_loop (Suc k) e fuel pr pi addr i s =
     andThen (if \<not> readopen (pipes s pi) then Ok (True, s) else andThen (killed pr s) (\<lambda>(x, s1). Ok (x \<noteq> 0, s1))) (\<lambda>(stop, s1).
     if stop then Ok (None, s1)
     else if pipe_full (pipes s1 pi) then
       (case fuel of 0 \<Rightarrow> Spin | Suc f \<Rightarrow>
         andThen (wakeup (Some (ChPipeRead pi)) s1) (\<lambda>s2.
         andThen (sleep (env_sw e) (ChPipeWrite pi) (PipeLock pi) s2) (\<lambda>s3.
         pipewrite_loop (Suc k) e f pr pi addr i s3)))
     else
       andThen (copyin (pagetable (procs s1 ! pr)) (addr + of_nat i) 1 (pm s1)) (\<lambda>(r, bs, v).
       let s2 = s1\<lparr>pm := v\<rparr> in
       if r = -1 then Ok (Some i, s2)
       else pipewrite_loop k e (env_fuel e) pr pi addr (Suc i) (set_pipe pi (pipe_put (arr bs 0)) s2)))"

definition pipewrite ::
    "'a iokernel_scheme env \<Rightarrow> uint64 \<Rightarrow> uint64 \<Rightarrow> int32 \<Rightarrow> 'a iokernel_scheme \<Rightarrow> (int32 \<times> 'a iokernel_scheme) outcome" where
  "pipewrite e pi addr n s =
     andThen (curproc s) (\<lambda>(pr, s1).
     andThen (kacquire (PipeLock pi) s1) (\<lambda>s2.
     andThen (pipewrite_loop (nat (sint n)) e (env_fuel e) pr pi addr 0 s2) (\<lambda>(r, s3).
     case r of
       None \<Rightarrow> andThen (krelease (PipeLock pi) s3) (\<lambda>s4. Ok (-1, s4))
     | Some i \<Rightarrow>
         andThen (wakeup (Some (ChPipeRead pi)) s3) (\<lambda>s4.
         andThen (krelease (PipeLock pi) s4) (\<lambda>s5. Ok (of_nat i, s5))))))"

fun piperead_wait ::
    "nat \<Rightarrow> 'a iokernel_scheme env \<Rightarrow> nat \<Rightarrow> uint64 \<Rightarrow> 'a iokernel_scheme \<Rightarrow> (bool \<times> 'a iokernel_scheme) outcome" where
  "piperead_wait fuel e pr pi s =
     (if pipe_empty (pipes s pi) \<and> writeopen (pipes s pi) then
        andThen (killed pr s) (\<lambda>(k, s1).
        if k \<noteq> 0 then Ok (False, s1)
        else (case fuel of 0 \<Rightarrow> Spin | Suc f \<Rightarrow>
          andThen (sleep (env_sw e) (ChPipeRead pi) (PipeLock pi) s1) (piperead_wait f e pr pi)))
      else Ok (True, s))"

declare piperead_wait.simps [simp del]

fun piperead_loop ::
    "nat \<Rightarrow> nat \<Rightarrow> uint64 \<Rightarrow> uint64 \<Rightarrow> nat \<Rightarrow> 'a iokernel_scheme \<Rightarrow> (nat \<times> 'a iokernel_scheme) outcome" where
  "piperead_loop 0 pr pi addr i s = Ok (i, s)"
| "piperead_loop (Suc k) pr pi addr i s =
     (if pipe_empty (pipes s pi) then Ok (i, s)
      else
        let ch = pipe_head (pipes s pi); s1 = set_pipe pi pipe_get s in
        andThen (lift_pmr (copyout (pagetable (procs s1 ! pr)) (addr + of_nat i) [ch]) s1) (\<lambda>(r, s2).
        if r = -1 then Ok (i, s2) else piperead_loop k pr pi addr (Suc i) s2))"

definition piperead ::
    "'a iokernel_scheme env \<Rightarrow> uint64 \<Rightarrow> uint64 \<Rightarrow> int32 \<Rightarrow> 'a iokernel_scheme \<Rightarrow> (int32 \<times> 'a iokernel_scheme) outcome" where
  "piperead e pi addr n s =
     andThen (curproc s) (\<lambda>(pr, s1).
     andThen (kacquire (PipeLock pi) s1) (\<lambda>s2.
     andThen (piperead_wait (env_fuel e) e pr pi s2) (\<lambda>(ok, s3).
     if \<not> ok then andThen (krelease (PipeLock pi) s3) (\<lambda>s4. Ok (-1, s4))
     else
       andThen (piperead_loop (nat (sint n)) pr pi addr 0 s3) (\<lambda>(i, s4).
       andThen (wakeup (Some (ChPipeWrite pi)) s4) (\<lambda>s5.
       andThen (krelease (PipeLock pi) s5) (\<lambda>s6. Ok (of_nat i, s6)))))))"

section \<open>Pipes are bounded queues\<close>

definition pipe_ok :: "pipe \<Rightarrow> bool" where
  "pipe_ok x \<longleftrightarrow> ring_ok PIPESIZE (pdata x) (nread x) (nwrite x)"

definition pipe_items :: "pipe \<Rightarrow> uint8 list" where
  "pipe_items x = ring_items PIPESIZE (pdata x) (nread x) (nwrite x)"

lemma pipe_full_iff: "pipe_full x \<longleftrightarrow> length (pipe_items x) = PIPESIZE"
proof -
  have "nwrite x = nread x + of_nat PIPESIZE \<longleftrightarrow> nwrite x - nread x = of_nat PIPESIZE"
    by (simp add: diff_eq_eq add.commute)
  also have "\<dots> \<longleftrightarrow> unat (nwrite x - nread x) = PIPESIZE"
    by (simp add: word_unat_eq_iff PIPESIZE_def)
  finally show ?thesis by (simp add: pipe_full_def pipe_items_def)
qed

lemma pipe_empty_iff: "pipe_empty x \<longleftrightarrow> pipe_items x = []"
proof -
  have "pipe_items x = [] \<longleftrightarrow> unat (nwrite x - nread x) = 0" by (simp add: pipe_items_def ring_items_def)
  then show ?thesis by (auto simp: pipe_empty_def unat_eq_0)
qed

interpretation pq: bounded_queue pipe_ok pipe_items PIPESIZE pipe_full pipe_empty pipe_put pipe_head pipe_get
proof unfold_locales
  fix x :: pipe and c
  assume ok: "pipe_ok x"
  show "length (pipe_items x) \<le> PIPESIZE" using ok by (simp add: pipe_ok_def pipe_items_def ring_ok_def)
  then show "pipe_ok (pipe_put c x) \<and> pipe_items (pipe_put c x) = pipe_items x @ [c]" if "\<not> pipe_full x"
    using ring_put [of PIPESIZE "pdata x" "nread x" "nwrite x" c] ok that pipe_full_iff [of x]
    by (simp add: pipe_ok_def pipe_items_def pipe_put_def PIPESIZE_def)
  show "pipe_ok (pipe_get x) \<and> pipe_items x = pipe_head x # pipe_items (pipe_get x)" if "\<not> pipe_empty x"
    using ring_get [of PIPESIZE "pdata x" "nread x" "nwrite x"] ok that
    by (simp add: pipe_ok_def pipe_items_def pipe_get_def pipe_head_def pipe_empty_def PIPESIZE_def)
qed (simp_all add: pipe_full_iff pipe_empty_iff)

section \<open>Writing and reading inside the critical section\<close>

lemma set_pipe_simps [simp]:
  "kmach (set_pipe pi f s) = kmach s" "procs (set_pipe pi f s) = procs s" "pm (set_pipe pi f s) = pm s"
  "pipes (set_pipe pi f s) pi = f (pipes s pi)" "vd (set_pipe pi f s) = vd s"
  "set_pipe pi f (set_pipe pi g s) = set_pipe pi (\<lambda>x. f (g x)) s"
  "kready (set_pipe pi f s) = kready s"
  by (simp_all add: set_pipe_def kready_def)

definition user_bytes :: "memory \<Rightarrow> uint64 \<Rightarrow> uint64 \<Rightarrow> nat \<Rightarrow> uint8 list" where
  "user_bytes m pt va n = map (\<lambda>j. uread m pt (va + of_nat j)) [0..<n]"

lemma unat_add_small: "unat (va :: uint64) + n \<le> 2 ^ 38 \<Longrightarrow> j \<le> n \<Longrightarrow> unat (va + of_nat j) = unat va + j"
  using unat_add_lem [of va "of_nat j"] by (simp add: unat_of_nat take_bit_nat_eq_self)

lemma range_mapped_byte:
  assumes "range_mapped m pt va n" and "unat va + n \<le> 2 ^ 38" and "j < n"
  shows "range_mapped m pt (va + of_nat j) 1" and "unat (va + of_nat j) + 1 \<le> 2 ^ 38"
  using assms unat_add_small [of va n j] by (auto simp: range_mapped_def)

text \<open>
  The loop of \<^verbatim>\<open>pipewrite\<close> when there is room for everything: it appends the bytes of the user's buffer
  one by one, without sleeping.
\<close>

lemma pipewrite_loop_room:
  assumes ready: "kready s" and nested: "touch (kmach s) = kmach s" and p: "p < NPROC"
    and alive: "pkilled (procs s ! p) = 0" and wf: "pt_wf (mem (pm s)) 2 (pagetable (procs s ! p))"
    and rng: "range_mapped (mem (pm s)) (pagetable (procs s ! p)) addr n" "unat addr + n \<le> 2 ^ 38"
  shows "\<lbrakk>i + k \<le> n; pipe_ok (pipes s pi); readopen (pipes s pi); length (pipe_items (pipes s pi)) + k \<le> PIPESIZE\<rbrakk> \<Longrightarrow>
    pipewrite_loop k e fuel p pi addr i s = Ok (Some (i + k), set_pipe pi (fold pipe_put
      (map (\<lambda>j. uread (mem (pm s)) (pagetable (procs s ! p)) (addr + of_nat j)) [i..<i + k])) s)"
  using ready nested alive wf rng
proof (induction k arbitrary: i s fuel)
  case 0
  then show ?case by (simp add: set_pipe_def)
next
  case (Suc k)
  let ?pt = "pagetable (procs s ! p)"
  let ?c = "uread (mem (pm s)) ?pt (addr + of_nat i)"
  have i: "i < n" using Suc.prems(1) by simp
  have kill: "killed p s = Ok (0, s)"
    using killed_eq [OF Suc.prems(5) p] Suc.prems(6,7) by (simp add: ktouch_def set_mach_def)
  have room: "\<not> pipe_full (pipes s pi)" using Suc.prems(4) by (simp add: pq.full [OF Suc.prems(2)])
  have copy: "copyin ?pt (addr + of_nat i) 1 (pm s) = Ok (0, [?c], pm s)"
    using copyin_reads [OF Suc.prems(8) _ range_mapped_byte(1) [OF Suc.prems(9,10) i]]
      range_mapped_byte(2) [OF Suc.prems(9,10) i] by simp
  let ?t = "set_pipe pi (pipe_put ?c) s"
  have put: "pipe_ok (pipe_put ?c (pipes s pi))" "pipe_items (pipe_put ?c (pipes s pi)) = pipe_items (pipes s pi) @ [?c]"
    "readopen (pipe_put ?c (pipes s pi)) = readopen (pipes s pi)"
    using pq.put [OF Suc.prems(2) room, of ?c] by (simp_all add: pipe_put_def)
  have "pipewrite_loop (Suc k) e fuel p pi addr i s = pipewrite_loop k e (env_fuel e) p pi addr (Suc i) ?t"
    using Suc.prems(3) kill room copy by (simp add: arr_def)
  also have "\<dots> = Ok (Some (Suc i + k), set_pipe pi (fold pipe_put
      (map (\<lambda>j. uread (mem (pm ?t)) (pagetable (procs ?t ! p)) (addr + of_nat j)) [Suc i..<Suc i + k])) ?t)"
    by (rule Suc.IH) (use Suc.prems put in simp_all)
  finally have run: "pipewrite_loop (Suc k) e fuel p pi addr i s = Ok (Some (i + Suc k), set_pipe pi (fold pipe_put
      (map (\<lambda>j. uread (mem (pm s)) ?pt (addr + of_nat j)) [Suc i..<i + Suc k])) ?t)"
    by (simp del: upt_Suc)
  have "[i..<i + Suc k] = i # [Suc i..<i + Suc k]" by (simp only: upt_conv_Cons less_add_Suc1)
  then show ?case unfolding run by (simp del: upt_Suc add_Suc_right)
qed

text \<open>
  The loop of \<^verbatim>\<open>piperead\<close> moves the oldest bytes of the pipe to the user's buffer, as many as asked for or
  as there are.
\<close>

definition user_written :: "uint64 \<Rightarrow> uint64 \<Rightarrow> uint8 list \<Rightarrow> memory \<Rightarrow> memory \<Rightarrow> bool" where
  "user_written pt dst bs m m' \<longleftrightarrow> agree_on (pt_pages m 2 pt) m m' \<and>
     (\<forall>va. umapped m pt va \<longrightarrow> uread m' pt va =
        (if unat dst \<le> unat va \<and> unat va < unat dst + length bs then bs ! (unat va - unat dst) else uread m pt va))"

lemma user_written_Nil: "user_written pt dst [] m m"
  by (auto simp: user_written_def agree_on_def)

lemma user_written_Cons:
  assumes "user_written pt dst [c] m m1" and "user_written pt (dst + 1) bs m1 m2"
    and "unat (dst + 1) = unat dst + 1"
  shows "user_written pt dst (c # bs) m m2"
proof -
  have pages: "agree_on (pt_pages m 2 pt) m m1" using assms(1) by (simp add: user_written_def)
  have same: "pt_pages m1 2 pt = pt_pages m 2 pt" "\<And>va. umapped m1 pt va = umapped m pt va"
    using pages pt_pages_agree [OF pages] by (simp_all add: umapped_def translate_agree)
  have agree: "agree_on (pt_pages m 2 pt) m m2"
    using pages assms(2) same(1) agree_on_trans unfolding user_written_def by metis
  moreover have "uread m2 pt va = (if unat dst \<le> unat va \<and> unat va < unat dst + length (c # bs)
      then (c # bs) ! (unat va - unat dst) else uread m pt va)" if "umapped m pt va" for va
  proof -
    have "uread m2 pt va = (if unat (dst + 1) \<le> unat va \<and> unat va < unat (dst + 1) + length bs
        then bs ! (unat va - unat (dst + 1)) else uread m1 pt va)"
      using assms(2) that same(2) by (simp add: user_written_def)
    moreover have "uread m1 pt va = (if unat dst \<le> unat va \<and> unat va < unat dst + 1
        then c else uread m pt va)"
      using assms(1) that by (simp add: user_written_def)
    ultimately show ?thesis unfolding assms(3) by (auto simp: nth_Cons' less_Suc_eq_le)
  qed
  ultimately show ?thesis by (simp add: user_written_def)
qed

lemma piperead_loop_takes:
  assumes "user_ok (mem (pm s)) pt" and "pt = pagetable (procs s ! p)"
    and "range_mapped (mem (pm s)) pt (addr + of_nat i) k" and "unat (addr + of_nat i) + k \<le> 2 ^ 38"
    and "pipe_ok (pipes s pi)"
  shows "\<exists>m'. piperead_loop k p pi addr i s =
      Ok (i + min k (length (pipe_items (pipes s pi))),
        (set_pipe pi (pipe_get ^^ min k (length (pipe_items (pipes s pi)))) s)\<lparr>pm := (pm s)\<lparr>mem := m'\<rparr>\<rparr>) \<and>
      user_written pt (addr + of_nat i) (take k (pipe_items (pipes s pi))) (mem (pm s)) m'"
  using assms
proof (induction k arbitrary: i s)
  case 0
  have "set_pipe pi (\<lambda>x. x) s = s" by (simp add: set_pipe_def)
  then show ?case by (auto simp: user_written_Nil id_def intro!: exI [of _ "mem (pm s)"])
next
  case (Suc k)
  let ?x = "pipes s pi" and ?m = "mem (pm s)" and ?a = "addr + of_nat i"
  show ?case
  proof (cases "pipe_empty ?x")
    case True
    then have "pipe_items ?x = []" by (simp add: pipe_empty_iff)
    moreover have "set_pipe pi (\<lambda>x. x) s = s" by (simp add: set_pipe_def)
    ultimately show ?thesis using True by (auto simp: user_written_Nil id_def intro!: exI [of _ ?m])
  next
    case False
    let ?c = "pipe_head ?x"
    have get: "pipe_ok (pipe_get ?x)" "pipe_items ?x = ?c # pipe_items (pipe_get ?x)"
      using pq.get [OF Suc.prems(5) False] by simp_all
    have one: "range_mapped ?m pt ?a (length [?c])" "unat ?a + length [?c] \<le> 2 ^ 38"
      using Suc.prems(3,4) by (auto simp: range_mapped_def)
    obtain m1 where m1: "copyout pt ?a [?c] (pm s) = Ok (0, (pm s)\<lparr>mem := m1\<rparr>)"
      and w1: "user_written pt ?a [?c] ?m m1"
      using copyout_writes [OF Suc.prems(1) one(2,1)] unfolding user_written_def by blast
    have pages: "agree_on (pt_pages ?m 2 pt) ?m m1" using w1 by (simp add: user_written_def)
    let ?t = "(set_pipe pi pipe_get s)\<lparr>pm := (pm s)\<lparr>mem := m1\<rparr>\<rparr>"
    have next_a: "unat (?a + 1) = unat ?a + 1"
      using unat_add_small [of ?a "Suc k" 1] Suc.prems(4) by simp
    have a': "addr + of_nat (Suc i) = ?a + 1" by (simp add: algebra_simps)
    have "\<exists>m'. piperead_loop k p pi addr (Suc i) ?t =
        Ok (Suc i + min k (length (pipe_items (pipes ?t pi))),
          (set_pipe pi (pipe_get ^^ min k (length (pipe_items (pipes ?t pi)))) ?t)\<lparr>pm := (pm ?t)\<lparr>mem := m'\<rparr>\<rparr>) \<and>
        user_written pt (addr + of_nat (Suc i)) (take k (pipe_items (pipes ?t pi))) (mem (pm ?t)) m'"
    proof (rule Suc.IH)
      show "user_ok (mem (pm ?t)) pt" using user_ok_agree [OF Suc.prems(1) pages] by simp
      show "range_mapped (mem (pm ?t)) pt (addr + of_nat (Suc i)) k"
        unfolding a' using Suc.prems(3) next_a
        by (simp add: range_mapped_agree [OF pages]) (simp add: range_mapped_def)
      show "unat (addr + of_nat (Suc i)) + k \<le> 2 ^ 38" unfolding a' using Suc.prems(4) next_a by simp
    qed (use Suc.prems(2) get in simp_all)
    then obtain m2 where m2: "piperead_loop k p pi addr (Suc i) ?t =
        Ok (Suc i + min k (length (pipe_items (pipe_get ?x))),
          (set_pipe pi (pipe_get ^^ min k (length (pipe_items (pipe_get ?x)))) ?t)\<lparr>pm := (pm ?t)\<lparr>mem := m2\<rparr>\<rparr>)"
      and w2: "user_written pt (?a + 1) (take k (pipe_items (pipe_get ?x))) m1 m2"
      unfolding a' by auto
    have "piperead_loop (Suc k) p pi addr i s = piperead_loop k p pi addr (Suc i) ?t"
      using False m1 Suc.prems(2) by (simp add: lift_pmr_def Let_def)
    moreover have "user_written pt ?a (?c # take k (pipe_items (pipe_get ?x))) ?m m2"
      by (rule user_written_Cons [OF w1 w2 next_a])
    ultimately show ?thesis unfolding m2 get(2)
      by (auto simp: set_pipe_def funpow_swap1 intro!: exI [of _ m2])
  qed
qed

section \<open>Net effect of the operations\<close>

lemma sys_ok_pipe [simp]:
  fixes s :: "'a iokernel_scheme"
  shows "sys_ok p (set_pipe pi f s) = sys_ok p s" "sys_ok p (s\<lparr>pm := (pm s)\<lparr>mem := m\<rparr>\<rparr>) = sys_ok p s"
  by (simp_all add: sys_ok_def running_def kready_def)

lemma quiet_set_pipe:
  fixes s s' :: "'a iokernel_scheme"
  assumes "quiet p s s'"
  shows "quiet p (set_pipe pi f s) (set_pipe pi f s')"
proof -
  have "fskernel.more s' = fskernel.more s" using assms by (simp add: quiet_def)
  then have "fskernel.more (set_pipe pi f s') = fskernel.more (set_pipe pi f s)"
    by (cases s; cases s') (simp add: set_pipe_def)
  moreover have "nextpid (set_pipe pi f x) = nextpid x" "initproc (set_pipe pi f x) = initproc x"
    "sched_policy (set_pipe pi f x) = sched_policy x" "min_accumulator (set_pipe pi f x) = min_accumulator x"
    "ticks (set_pipe pi f x) = ticks x" "trampoline (set_pipe pi f x) = trampoline x"
    "forkret_addr (set_pipe pi f x) = forkret_addr x" for x :: "'a iokernel_scheme"
    by (simp_all add: set_pipe_def)
  ultimately show ?thesis using assms by (simp add: quiet_def)
qed

lemma quiet_more:
  fixes s s' :: "'a iokernel_scheme"
  shows "quiet p s s' \<Longrightarrow> pipes s' = pipes s"
  by (cases s; cases s') (simp add: quiet_def)

lemma quiet_mem:
  fixes s s' :: "'a iokernel_scheme"
  shows "quiet p s s' \<Longrightarrow> quiet p (s\<lparr>pm := (pm s)\<lparr>mem := m\<rparr>\<rparr>) (s'\<lparr>pm := (pm s')\<lparr>mem := m\<rparr>\<rparr>)"
  by (simp add: quiet_def)

lemma section_close:
  assumes "sys_ok p s" and "\<forall>i. lk \<noteq> ProcLock i" and "t = set_mach (taken lk (kmach s)) s"
  shows "\<exists>s'. andThen (wakeup ch t) (krelease lk) = Ok s' \<and> quiet p s s'"
proof -
  have id: "fs_upd (\<lambda>v. v) x = x" for x :: "'a fskernel_scheme" by (simp add: fs_upd_def)
  show ?thesis
    using section_wakeup [OF assms(1,2), of ch "\<lambda>v. v"] fs_section(1) [OF assms(1), of lk] assms(3)
    by (auto simp: does_def id)
qed

lemma pipewrite_does:
  assumes ok: "sys_ok p s" and alive: "pkilled (procs s ! p) = 0"
    and wf: "pt_wf (mem (pm s)) 2 (pagetable (procs s ! p))" and n: "n = nat (sint nw)"
    and rng: "range_mapped (mem (pm s)) (pagetable (procs s ! p)) addr n" "unat addr + n \<le> 2 ^ 38"
    and pipe: "pipe_ok (pipes s pi)" "readopen (pipes s pi)" "length (pipe_items (pipes s pi)) + n \<le> PIPESIZE"
  shows "\<exists>s'. pipewrite e pi addr nw s = Ok (of_nat n, s') \<and>
     quiet p (set_pipe pi (fold pipe_put (user_bytes (mem (pm s)) (pagetable (procs s ! p)) addr n)) s) s'"
proof -
  note sok = sys_okD [OF ok]
  define s1 where "s1 = ktouch s"
  have q1: "quiet p s s1" unfolding s1_def by (rule quiet_ktouch [OF ok])
  have ok1: "sys_ok p s1" by (rule quiet_ok [OF q1])
  have s1: "procs s1 = procs s" "mem (pm s1) = mem (pm s)" "pipes s1 = pipes s"
    unfolding s1_def by (simp_all add: ktouch_def set_mach_def)
  have cur: "curproc s = Ok (p, s1)" unfolding s1_def by (rule curproc_eq [OF sok(2,4)])
  let ?t = "set_mach (taken (PipeLock pi) (kmach s1)) s1"
  let ?f = "fold pipe_put (user_bytes (mem (pm s)) (pagetable (procs s ! p)) addr n)"
  have acq: "kacquire (PipeLock pi) s1 = Ok ?t" by (rule fs_section(1) [OF ok1])
  have ready: "kready ?t" by (rule kready_taken [OF sys_okD(3) [OF ok1]]) simp_all
  have nest: "touch (kmach ?t) = kmach ?t" using sys_okD(2) [OF ok1] by simp
  have loop: "pipewrite_loop n e (env_fuel e) p pi addr 0 ?t = Ok (Some n, set_pipe pi ?f ?t)"
    using pipewrite_loop_room [OF ready nest sok(5), of addr n 0 n pi e "env_fuel e"] alive wf rng pipe s1
    by (simp add: user_bytes_def set_mach_def)
  have ok2: "sys_ok p (set_pipe pi ?f s1)" using ok1 by simp
  have "set_pipe pi ?f ?t = set_mach (taken (PipeLock pi) (kmach (set_pipe pi ?f s1))) (set_pipe pi ?f s1)"
    by (simp add: set_pipe_def set_mach_def)
  from section_close [OF ok2 _ this] obtain s' where
    fin: "andThen (wakeup (Some (ChPipeRead pi)) (set_pipe pi ?f ?t)) (krelease (PipeLock pi)) = Ok s'"
    and q2: "quiet p (set_pipe pi ?f s1) s'" by blast
  have "pipewrite e pi addr nw s = Ok (of_nat n, s')"
    using fin by (simp add: pipewrite_def cur acq loop flip: n andThen_assoc)
  moreover have "quiet p (set_pipe pi ?f s) (set_pipe pi ?f s1)"
    by (rule quiet_set_pipe [OF q1])
  ultimately show ?thesis using quiet_trans [OF _ q2] by blast
qed

lemma piperead_does:
  assumes ok: "sys_ok p s" and user: "user_ok (mem (pm s)) pt" and pt: "pt = pagetable (procs s ! p)"
    and n: "n = nat (sint nw)" and rng: "range_mapped (mem (pm s)) pt addr n" "unat addr + n \<le> 2 ^ 38"
    and pipe: "pipe_ok (pipes s pi)" and some: "pipe_items (pipes s pi) \<noteq> [] \<or> \<not> writeopen (pipes s pi)"
    and k: "k = min n (length (pipe_items (pipes s pi)))"
  shows "\<exists>s' m'. piperead e pi addr nw s = Ok (of_nat k, s') \<and>
     quiet p ((set_pipe pi (pipe_get ^^ k) s)\<lparr>pm := (pm s)\<lparr>mem := m'\<rparr>\<rparr>) s' \<and>
     user_written pt addr (take n (pipe_items (pipes s pi))) (mem (pm s)) m'"
proof -
  note sok = sys_okD [OF ok]
  define s1 where "s1 = ktouch s"
  have q1: "quiet p s s1" unfolding s1_def by (rule quiet_ktouch [OF ok])
  have ok1: "sys_ok p s1" by (rule quiet_ok [OF q1])
  have s1: "procs s1 = procs s" "mem (pm s1) = mem (pm s)" "pipes s1 = pipes s"
    unfolding s1_def by (simp_all add: ktouch_def set_mach_def)
  have cur: "curproc s = Ok (p, s1)" unfolding s1_def by (rule curproc_eq [OF sok(2,4)])
  let ?t = "set_mach (taken (PipeLock pi) (kmach s1)) s1"
  have t: "procs ?t = procs s" "mem (pm ?t) = mem (pm s)" "pipes ?t = pipes s"
    using s1 by (simp_all add: set_mach_def)
  have acq: "kacquire (PipeLock pi) s1 = Ok ?t" by (rule fs_section(1) [OF ok1])
  have wait: "piperead_wait (env_fuel e) e p pi ?t = Ok (True, ?t)"
    using some t by (subst piperead_wait.simps) (auto simp: pipe_empty_iff)
  have "\<exists>m'. piperead_loop n p pi addr 0 ?t =
      Ok (k, (set_pipe pi (pipe_get ^^ k) ?t)\<lparr>pm := (pm ?t)\<lparr>mem := m'\<rparr>\<rparr>) \<and>
      user_written pt addr (take n (pipe_items (pipes s pi))) (mem (pm s)) m'"
  proof -
    have "user_ok (mem (pm ?t)) pt" "pt = pagetable (procs ?t ! p)"
      "range_mapped (mem (pm ?t)) pt (addr + of_nat 0) n" "unat (addr + of_nat 0) + n \<le> 2 ^ 38"
      "pipe_ok (pipes ?t pi)"
      unfolding t using user pt rng pipe by simp_all
    from piperead_loop_takes [OF this] show ?thesis unfolding t k by simp
  qed
  then obtain m' where loop: "piperead_loop n p pi addr 0 ?t =
      Ok (k, (set_pipe pi (pipe_get ^^ k) ?t)\<lparr>pm := (pm ?t)\<lparr>mem := m'\<rparr>\<rparr>)"
    and wr: "user_written pt addr (take n (pipe_items (pipes s pi))) (mem (pm s)) m'" by blast
  let ?u = "\<lambda>x :: 'a iokernel_scheme. (set_pipe pi (pipe_get ^^ k) x)\<lparr>pm := (pm x)\<lparr>mem := m'\<rparr>\<rparr>"
  have ok2: "sys_ok p (?u s1)" using sys_ok_pipe(2) [where s = "set_pipe pi (pipe_get ^^ k) s1" and m = m'] ok1 by simp
  have "?u ?t = set_mach (taken (PipeLock pi) (kmach (?u s1))) (?u s1)"
    by (simp add: set_pipe_def set_mach_def)
  from section_close [OF ok2 _ this] obtain s' where
    fin: "andThen (wakeup (Some (ChPipeWrite pi)) (?u ?t)) (krelease (PipeLock pi)) = Ok s'"
    and q2: "quiet p (?u s1) s'" by blast
  have "piperead e pi addr nw s = Ok (of_nat k, s')"
    using fin by (simp add: piperead_def cur acq wait loop flip: n andThen_assoc)
  moreover have "quiet p (?u s) (?u s1)"
    using quiet_mem [OF quiet_set_pipe [OF q1, of pi "pipe_get ^^ k"], of m'] by simp
  ultimately show ?thesis using quiet_trans [OF _ q2] wr by blast
qed

lemma user_bytes_written:
  assumes "user_written pt dst bs m m'" and "range_mapped m pt dst n" "unat dst + n \<le> 2 ^ 38" and "length bs \<le> n"
  shows "user_bytes m' pt dst (length bs) = bs"
proof (rule nth_equalityI)
  fix j assume "j < length (user_bytes m' pt dst (length bs))"
  then have j: "j < length bs" by (simp add: user_bytes_def)
  have u: "unat (dst + of_nat j) = unat dst + j" by (rule unat_add_small [OF assms(3)]) (use j assms(4) in simp)
  have "umapped m pt (dst + of_nat j)" using assms(2,4) j u by (simp add: range_mapped_def)
  then show "user_bytes m' pt dst (length bs) ! j = bs ! j"
    using assms(1) j u by (simp add: user_bytes_def user_written_def)
qed (simp add: user_bytes_def)

section \<open>Properties\<close>



end
