(* ===== verification/File.thy ===== *)
theory File
  imports Pipe
begin

text \<open>
  Open files (kernel/file.c), and the creation of a pipe with its two files (kernel/pipe.c). A file
  pointer is an index into \<^const>\<open>ftable\<close>. \<open>fsops_of\<close> gives the process operations of kernel/proc.c the
  file-system routines that they call.
\<close>

section \<open>kernel/file.c\<close>

definition fileinit :: "'a iokernel_scheme \<Rightarrow> 'a iokernel_scheme" where
  "fileinit s = set_mach (initlock FtableLock ''ftable'' (kmach s)) s"

definition filealloc :: "'a iokernel_scheme \<Rightarrow> (nat option \<times> 'a iokernel_scheme) outcome" where
  "filealloc s =
     andThen (kacquire FtableLock s) (\<lambda>s1.
     case List.find (\<lambda>f. fref (ftable (fs s1) ! f) = 0) [0..<NFILE] of
       Some f \<Rightarrow> andThen (krelease FtableLock (set_file f (\<lambda>x. x\<lparr>fref := 1\<rparr>) s1)) (\<lambda>s2. Ok (Some f, s2))
     | None \<Rightarrow> andThen (krelease FtableLock s1) (\<lambda>s2. Ok (None, s2)))"

definition filedup :: "nat \<Rightarrow> 'a iokernel_scheme \<Rightarrow> (nat \<times> 'a iokernel_scheme) outcome" where
  "filedup f s =
     andThen (kacquire FtableLock s) (\<lambda>s1.
     if sint (fref (ftable (fs s1) ! f)) < 1 then Panic ''filedup''
     else andThen (krelease FtableLock (set_file f (\<lambda>x. x\<lparr>fref := fref x + 1\<rparr>) s1)) (\<lambda>s2. Ok (f, s2)))"

definition fileclose :: "'a iokernel_scheme env \<Rightarrow> nat \<Rightarrow> 'a iokernel_scheme \<Rightarrow> 'a iokernel_scheme outcome" where
  "fileclose e f s =
     andThen (kacquire FtableLock s) (\<lambda>s1.
     if sint (fref (ftable (fs s1) ! f)) < 1 then Panic ''fileclose''
     else
       let s2 = set_file f (\<lambda>x. x\<lparr>fref := fref x - 1\<rparr>) s1 in
       if sint (fref (ftable (fs s2) ! f)) > 0 then krelease FtableLock s2
       else
         let ff = ftable (fs s2) ! f in
         andThen (krelease FtableLock (set_file f (\<lambda>x. x\<lparr>fref := 0, ftype := FD_NONE\<rparr>) s2)) (\<lambda>s3.
         case ftype ff of
           FD_PIPE \<Rightarrow> pipeclose (fpipe ff) (writable ff) s3
         | FD_INODE \<Rightarrow> andThen (begin_op e s3) (\<lambda>s4. andThen (iput e (fip ff) s4) (end_op e))
         | FD_DEVICE \<Rightarrow> andThen (begin_op e s3) (\<lambda>s4. andThen (iput e (fip ff) s4) (end_op e))
         | FD_NONE \<Rightarrow> Ok s3))"

text \<open>
  The bytes of a \<^verbatim>\<open>struct stat\<close>. The code leaves the 4 bytes of padding before the size as they were on
  the stack; the model takes them to be 0.
\<close>

definition stat_bytes :: "stat \<Rightarrow> uint8 list" where
  "stat_bytes st = bytes32 (st_dev st) @ bytes32 (st_ino st) @ bytes16 (st_type st) @ bytes16 (st_nlink st) @
     [0, 0, 0, 0] @ bytes32 (ucast (st_size st)) @ bytes32 (ucast (drop_bit 32 (st_size st)))"

definition filestat ::
    "'a iokernel_scheme env \<Rightarrow> nat \<Rightarrow> uint64 \<Rightarrow> 'a iokernel_scheme \<Rightarrow> (int32 \<times> 'a iokernel_scheme) outcome" where
  "filestat e f addr s =
     andThen (curproc s) (\<lambda>(p, s1).
     let x = ftable (fs s1) ! f in
     if ftype x = FD_INODE \<or> ftype x = FD_DEVICE then
       andThen (ilock e (Some (fip x)) s1) (\<lambda>s2.
       let st = stati (fip x) s2 in
       andThen (iunlock (Some (fip x)) s2) (\<lambda>s3.
       andThen (lift_pmr (copyout (pagetable (procs s3 ! p)) addr (stat_bytes st)) s3) (\<lambda>(r, s4).
       Ok (if r <s 0 then -1 else 0, s4))))
     else Ok (-1, s1))"

text \<open>The entry of a device's function in \<^verbatim>\<open>devsw\<close>; \<^verbatim>\<open>f->major\<close> is a short.\<close>

definition dev_entry :: "devfn option list \<Rightarrow> uint16 \<Rightarrow> devfn option" where
  "dev_entry tab maj = (if sint maj < 0 \<or> sint maj \<ge> int NDEV then None else tab ! nat (sint maj))"

definition devcall ::
    "'a iokernel_scheme env \<Rightarrow> devfn \<Rightarrow> uint64 \<Rightarrow> int32 \<Rightarrow> 'a iokernel_scheme \<Rightarrow> (int32 \<times> 'a iokernel_scheme) outcome" where
  "devcall e g addr n s =
     (case g of ConsoleRead \<Rightarrow> consoleread e True addr n s | ConsoleWrite \<Rightarrow> consolewrite e True addr n s)"

definition fileread ::
    "'a iokernel_scheme env \<Rightarrow> nat \<Rightarrow> uint64 \<Rightarrow> int32 \<Rightarrow> 'a iokernel_scheme \<Rightarrow> (int32 \<times> 'a iokernel_scheme) outcome" where
  "fileread e f addr n s =
     (let x = ftable (fs s) ! f in
      if \<not> readable x then Ok (-1, s)
      else
        (case ftype x of
           FD_PIPE \<Rightarrow> piperead e (fpipe x) addr n s
         | FD_DEVICE \<Rightarrow>
            (case dev_entry (devsw_read s) (fmajor x) of None \<Rightarrow> Ok (-1, s) | Some g \<Rightarrow> devcall e g addr n s)
         | FD_INODE \<Rightarrow>
            andThen (ilock e (Some (fip x)) s) (\<lambda>s1.
            andThen (readi e (fip x) (AtAddr True addr) (foff (ftable (fs s1) ! f)) n s1) (\<lambda>(r, _, s2).
            let s3 = (if 0 <s r then set_file f (\<lambda>y. y\<lparr>foff := foff y + r\<rparr>) s2 else s2) in
            andThen (iunlock (Some (fip x)) s3) (\<lambda>s4. Ok (r, s4))))
         | FD_NONE \<Rightarrow> Panic ''fileread''))"

text \<open>\<^verbatim>\<open>int max = ((MAXOPBLOCKS-1-1-2) / 2) * BSIZE\<close>.\<close>

definition write_max :: int where
  "write_max = ((MAXOPBLOCKS - 1 - 1 - 2) div 2) * int BSIZE"

text \<open>
  The loop of \<^verbatim>\<open>filewrite\<close> for inodes, from byte \<open>i\<close> on. A round that does not break writes at least
  one byte, so \<open>n\<close> rounds are enough. The result is \<^verbatim>\<open>i\<close>.
\<close>

fun filewrite_loop ::
    "nat \<Rightarrow> 'a iokernel_scheme env \<Rightarrow> nat \<Rightarrow> uint64 \<Rightarrow> int \<Rightarrow> int \<Rightarrow> 'a iokernel_scheme \<Rightarrow> (int \<times> 'a iokernel_scheme) outcome" where
  "filewrite_loop fuel e f addr n i s =
     (if i < n then
        (case fuel of 0 \<Rightarrow> Spin | Suc k \<Rightarrow>
          let n1 = min (n - i) write_max; ip = fip (ftable (fs s) ! f) in
          andThen (begin_op e s) (\<lambda>s1.
          andThen (ilock e (Some ip) s1) (\<lambda>s2.
          andThen (writei e ip (AtAddr True (addr + word_of_int i)) (foff (ftable (fs s2) ! f)) (word_of_int n1) s2) (\<lambda>(r, s3).
          let s4 = (if 0 <s r then set_file f (\<lambda>y. y\<lparr>foff := foff y + r\<rparr>) s3 else s3) in
          andThen (iunlock (Some ip) s4) (\<lambda>s5.
          andThen (end_op e s5) (\<lambda>s6.
          if sint r \<noteq> n1 then Ok (i, s6) else filewrite_loop k e f addr n (i + sint r) s6))))))
      else Ok (i, s))"

declare filewrite_loop.simps [simp del]

definition filewrite ::
    "'a iokernel_scheme env \<Rightarrow> nat \<Rightarrow> uint64 \<Rightarrow> int32 \<Rightarrow> 'a iokernel_scheme \<Rightarrow> (int32 \<times> 'a iokernel_scheme) outcome" where
  "filewrite e f addr n s =
     (let x = ftable (fs s) ! f in
      if \<not> writable x then Ok (-1, s)
      else
        (case ftype x of
           FD_PIPE \<Rightarrow> pipewrite e (fpipe x) addr n s
         | FD_DEVICE \<Rightarrow>
            (case dev_entry (devsw_write s) (fmajor x) of None \<Rightarrow> Ok (-1, s) | Some g \<Rightarrow> devcall e g addr n s)
         | FD_INODE \<Rightarrow>
            andThen (filewrite_loop (nat (sint n)) e f addr (sint n) 0 s) (\<lambda>(i, s1).
            Ok (if i = sint n then n else -1, s1))
         | FD_NONE \<Rightarrow> Panic ''filewrite''))"

section \<open>pipealloc of kernel/pipe.c\<close>

definition pipe_ends :: "nat \<Rightarrow> nat \<Rightarrow> uint64 \<Rightarrow> 'a iokernel_scheme \<Rightarrow> 'a iokernel_scheme" where
  "pipe_ends f0 f1 pi s =
     (let s1 = set_pipe pi (\<lambda>x. x\<lparr>readopen := True, writeopen := True, nwrite := 0, nread := 0\<rparr>) s;
          s2 = set_mach (initlock (PipeLock pi) ''pipe'' (kmach s1)) s1;
          s3 = set_file f0 (\<lambda>x. x\<lparr>ftype := FD_PIPE, readable := True, writable := False, fpipe := pi\<rparr>) s2
      in set_file f1 (\<lambda>x. x\<lparr>ftype := FD_PIPE, readable := False, writable := True, fpipe := pi\<rparr>) s3)"

definition pipealloc ::
    "'a iokernel_scheme env \<Rightarrow> 'a iokernel_scheme \<Rightarrow> (int32 \<times> (nat \<times> nat) option \<times> 'a iokernel_scheme) outcome" where
  "pipealloc e s =
     andThen (filealloc s) (\<lambda>(r0, s1).
     case r0 of
       None \<Rightarrow> Ok (-1, None, s1)
     | Some f0 \<Rightarrow>
        andThen (filealloc s1) (\<lambda>(r1, s2).
        case r1 of
          None \<Rightarrow> andThen (fileclose e f0 s2) (\<lambda>s3. Ok (-1, None, s3))
        | Some f1 \<Rightarrow>
           andThen (lift_pmr kalloc s2) (\<lambda>(pi, s3).
           if pi = 0 then
             andThen (fileclose e f0 s3) (\<lambda>s4. andThen (fileclose e f1 s4) (\<lambda>s5. Ok (-1, None, s5)))
           else Ok (0, Some (f0, f1), pipe_ends f0 f1 pi s3))))"

section \<open>The file-system routines that kernel/proc.c calls\<close>

definition fsops_of :: "'a iokernel_scheme env \<Rightarrow> 'a iokernel_scheme fsops" where
  "fsops_of e = \<lparr>fs_filedup = filedup, fs_fileclose = fileclose e,
     fs_idup = (\<lambda>ip s. case ip of None \<Rightarrow> Panic ''kerneltrap''
        | Some i \<Rightarrow> andThen (idup i s) (\<lambda>(j, s1). Ok (Some j, s1))),
     fs_iput = (\<lambda>ip s. case ip of None \<Rightarrow> Panic ''kerneltrap'' | Some i \<Rightarrow> iput e i s),
     fs_begin_op = begin_op e, fs_end_op = end_op e,
     fs_namei = (\<lambda>path. namei e (takeWhile (\<lambda>c. c \<noteq> 0) path))\<rparr>"

end
