(* ===== verification/Sysproc.thy ===== *)
theory Sysproc
  imports File
begin

text \<open>
  System-call arguments (kernel/syscall.c) and the process system calls (kernel/sysproc.c). Every
  call returns the 64-bit value that ends up in the caller's register a0. A local array that C leaves
  uninitialised is a parameter of the call.
\<close>

section \<open>Arguments (kernel/syscall.c)\<close>

definition fetchaddr :: "uint64 \<Rightarrow> 'a kernel_scheme \<Rightarrow> (int32 \<times> uint64 \<times> 'a kernel_scheme) outcome" where
  "fetchaddr addr s =
     andThen (curproc s) (\<lambda>(p, s1).
     let sz = psz (procs s1 ! p) in
     if addr \<ge> sz \<or> addr + 8 > sz then Ok (-1, 0, s1)
     else
       andThen (copyin (pagetable (procs s1 ! p)) addr 8 (pm s1)) (\<lambda>(r, bs, v).
       if r \<noteq> 0 then Ok (-1, 0, s1\<lparr>pm := v\<rparr>)
       else Ok (0, ucast (rd32 bs 0) OR push_bit 32 (ucast (rd32 bs 4)), s1\<lparr>pm := v\<rparr>)))"

text \<open>\<open>fetchstr addr buf max\<close>: the status, the buffer as it is left, and the state.\<close>

definition fetchstr ::
    "uint64 \<Rightarrow> uint8 list \<Rightarrow> nat \<Rightarrow> 'a kernel_scheme \<Rightarrow> (int32 \<times> uint8 list \<times> 'a kernel_scheme) outcome" where
  "fetchstr addr buf maxlen s =
     andThen (curproc s) (\<lambda>(p, s1).
     andThen (copyinstr (pagetable (procs s1 ! p)) addr maxlen (pm s1)) (\<lambda>(r, bs, v).
     let buf' = blit buf 0 bs in
     if r <s 0 then Ok (-1, buf', s1\<lparr>pm := v\<rparr>)
     else Ok (of_nat (length (takeWhile (\<lambda>c. c \<noteq> 0) buf')), buf', s1\<lparr>pm := v\<rparr>)))"

definition argraw :: "nat \<Rightarrow> 'a kernel_scheme \<Rightarrow> (uint64 \<times> 'a kernel_scheme) outcome" where
  "argraw n s =
     andThen (curproc s) (\<lambda>(p, s1).
     let tf = trapframe (procs s1 ! p); m = mem (pm s1) in
     if n = 0 then Ok (load64 m (tf + TF_a0), s1)
     else if n = 1 then Ok (load64 m (tf + TF_a1), s1)
     else if n = 2 then Ok (load64 m (tf + TF_a2), s1)
     else if n = 3 then Ok (load64 m (tf + TF_a3), s1)
     else if n = 4 then Ok (load64 m (tf + TF_a4), s1)
     else if n = 5 then Ok (load64 m (tf + TF_a5), s1)
     else Panic ''argraw'')"

definition argint :: "nat \<Rightarrow> 'a kernel_scheme \<Rightarrow> (int32 \<times> 'a kernel_scheme) outcome" where
  "argint n s = andThen (argraw n s) (\<lambda>(x, s1). Ok (ucast x, s1))"

definition argaddr :: "nat \<Rightarrow> 'a kernel_scheme \<Rightarrow> (uint64 \<times> 'a kernel_scheme) outcome" where
  "argaddr n s = argraw n s"

definition argstr ::
    "nat \<Rightarrow> uint8 list \<Rightarrow> nat \<Rightarrow> 'a kernel_scheme \<Rightarrow> (int32 \<times> uint8 list \<times> 'a kernel_scheme) outcome" where
  "argstr n buf maxlen s = andThen (argaddr n s) (\<lambda>(addr, s1). fetchstr addr buf maxlen s1)"

section \<open>kernel/sysproc.c\<close>

definition sys_memsize :: "'a kernel_scheme \<Rightarrow> (uint64 \<times> 'a kernel_scheme) outcome" where
  "sys_memsize s = andThen (curproc s) (\<lambda>(p, s1). Ok (psz (procs s1 ! p), s1))"

text \<open>\<open>msg\<close> is the uninitialised array; the status of \<^verbatim>\<open>argstr\<close> is not looked at.\<close>

definition sys_exit ::
    "'a iokernel_scheme env \<Rightarrow> uint8 list \<Rightarrow> 'a iokernel_scheme \<Rightarrow> (uint64 \<times> 'a iokernel_scheme) outcome" where
  "sys_exit e msg s =
     andThen (argint 0 s) (\<lambda>(n, s1).
     andThen (argstr 1 msg 32 s1) (\<lambda>(_, msg', s2).
     andThen (exit (fsops_of e) (env_sw e) n (arr msg') s2) (\<lambda>s3. Ok (0, s3))))"

definition sys_set_cfs_priority :: "'a kernel_scheme \<Rightarrow> (uint64 \<times> 'a kernel_scheme) outcome" where
  "sys_set_cfs_priority s =
     andThen (argint 0 s) (\<lambda>(priority, s1).
     if sint priority > 2 \<or> sint priority < 0 then Ok (-1, s1)
     else
       andThen (curproc s1) (\<lambda>(p, s2).
       andThen (kacquire (ProcLock p) s2) (\<lambda>s3.
       andThen (curproc s3) (\<lambda>(p, s4).
       andThen (curproc (set_proc p (\<lambda>q. q\<lparr>cfs_priority := priority\<rparr>) s4)) (\<lambda>(p, s5).
       andThen (krelease (ProcLock p) s5) (\<lambda>s6. Ok (0, s6)))))))"

definition sys_get_cfs_stats :: "'a kernel_scheme \<Rightarrow> (uint64 \<times> 'a kernel_scheme) outcome" where
  "sys_get_cfs_stats s =
     andThen (argaddr 0 s) (\<lambda>(add, s1).
     andThen (argint 1 s1) (\<lambda>(i, s2).
     andThen (get_cfs_stats add i s2) (\<lambda>(r, s3). Ok (scast r, s3))))"

definition sys_set_policy :: "'a kernel_scheme \<Rightarrow> (uint64 \<times> 'a kernel_scheme) outcome" where
  "sys_set_policy s =
     andThen (argint 0 s) (\<lambda>(policy, s1).
     if sint policy > 2 \<or> sint policy < 0 then Ok (-1, s1)
     else let (r, s2) = set_policy policy s1 in Ok (scast r, s2))"

definition sys_set_ps_priority :: "'a kernel_scheme \<Rightarrow> (uint64 \<times> 'a kernel_scheme) outcome" where
  "sys_set_ps_priority s =
     andThen (argint 0 s) (\<lambda>(priority, s1).
     if sint priority < 1 \<or> sint priority > 10 then Ok (-1, s1)
     else
       andThen (curproc s1) (\<lambda>(p, s2).
       andThen (kacquire (ProcLock p) s2) (\<lambda>s3.
       andThen (curproc s3) (\<lambda>(p, s4).
       andThen (curproc (set_proc p (\<lambda>q. q\<lparr>ps_priority := scast priority\<rparr>) s4)) (\<lambda>(p, s5).
       andThen (krelease (ProcLock p) s5) (\<lambda>s6. Ok (0, s6)))))))"

text \<open>\<^verbatim>\<open>sys_get_ps_priority\<close> returns an int, of the 64-bit priority the low half.\<close>

definition sys_get_ps_priority :: "'a kernel_scheme \<Rightarrow> (uint64 \<times> 'a kernel_scheme) outcome" where
  "sys_get_ps_priority s =
     andThen (argint 0 s) (\<lambda>(i, s1).
     andThen (get_ps_priority i s1) (\<lambda>(r, s2).
     Ok (case r of None \<Rightarrow> -1 | Some p \<Rightarrow> scast (ucast (ps_priority (procs s2 ! p)) :: int32), s2)))"

definition sys_getpid :: "'a kernel_scheme \<Rightarrow> (uint64 \<times> 'a kernel_scheme) outcome" where
  "sys_getpid s = andThen (curproc s) (\<lambda>(p, s1). Ok (scast (pid (procs s1 ! p)), s1))"

definition sys_fork :: "'a iokernel_scheme env \<Rightarrow> 'a iokernel_scheme \<Rightarrow> (uint64 \<times> 'a iokernel_scheme) outcome" where
  "sys_fork e s = andThen (fork (fsops_of e) s) (\<lambda>(r, s1). Ok (scast r, s1))"

definition sys_wait :: "'a kernel_scheme env \<Rightarrow> 'a kernel_scheme \<Rightarrow> (uint64 \<times> 'a kernel_scheme) outcome" where
  "sys_wait e s =
     andThen (argaddr 0 s) (\<lambda>(p, s1).
     andThen (argaddr 1 s1) (\<lambda>(p2, s2).
     andThen (wait (env_fuel e) (env_sw e) p p2 s2) (\<lambda>(r, s3). Ok (scast r, s3))))"

definition sys_sbrk :: "'a kernel_scheme \<Rightarrow> (uint64 \<times> 'a kernel_scheme) outcome" where
  "sys_sbrk s =
     andThen (argint 0 s) (\<lambda>(n, s1).
     andThen (curproc s1) (\<lambda>(p, s2).
     let addr = psz (procs s2 ! p) in
     andThen (growproc n s2) (\<lambda>(r, s3). Ok (if r <s 0 then -1 else addr, s3))))"

text \<open>
  The loop of \<^verbatim>\<open>sys_sleep\<close>. The comparison is unsigned, because \<^verbatim>\<open>ticks\<close> is. The result is \<open>False\<close> if
  the process was killed.
\<close>

fun sleep_ticks ::
    "nat \<Rightarrow> ('a kernel_scheme \<Rightarrow> 'a kernel_scheme outcome) \<Rightarrow> uint32 \<Rightarrow> uint32 \<Rightarrow> 'a kernel_scheme
     \<Rightarrow> (bool \<times> 'a kernel_scheme) outcome" where
  "sleep_ticks fuel sw ticks0 n s =
     (if ticks s - ticks0 < n then
        andThen (curproc s) (\<lambda>(p, s1).
        andThen (killed p s1) (\<lambda>(k, s2).
        if k \<noteq> 0 then Ok (False, s2)
        else (case fuel of 0 \<Rightarrow> Spin | Suc f \<Rightarrow> andThen (sleep sw ChTicks TicksLock s2) (sleep_ticks f sw ticks0 n))))
      else Ok (True, s))"

declare sleep_ticks.simps [simp del]

definition sys_sleep :: "'a kernel_scheme env \<Rightarrow> 'a kernel_scheme \<Rightarrow> (uint64 \<times> 'a kernel_scheme) outcome" where
  "sys_sleep e s =
     andThen (argint 0 s) (\<lambda>(n, s1).
     andThen (kacquire TicksLock s1) (\<lambda>s2.
     andThen (sleep_ticks (env_fuel e) (env_sw e) (ticks s2) n s2) (\<lambda>(ok, s3).
     andThen (krelease TicksLock s3) (\<lambda>s4. Ok (if ok then 0 else -1, s4)))))"

definition sys_kill :: "'a kernel_scheme \<Rightarrow> (uint64 \<times> 'a kernel_scheme) outcome" where
  "sys_kill s = andThen (argint 0 s) (\<lambda>(i, s1). andThen (kill i s1) (\<lambda>(r, s2). Ok (scast r, s2)))"

definition sys_uptime :: "'a kernel_scheme \<Rightarrow> (uint64 \<times> 'a kernel_scheme) outcome" where
  "sys_uptime s =
     andThen (kacquire TicksLock s) (\<lambda>s1.
     let xticks = ticks s1 in andThen (krelease TicksLock s1) (\<lambda>s2. Ok (ucast xticks, s2)))"

end
