(* ===== verification/Exec.thy ===== *)
theory Exec
  imports Sysproc
begin

text \<open>
  Program loading (kernel/exec.c, kernel/elf.h). The ELF headers are byte arrays read from the inode;
  \<open>argv\<close> is the list of kernel addresses of the argument strings, up to the null pointer that ends it.
\<close>

section \<open>ELF headers (kernel/elf.h)\<close>

definition ELF_MAGIC :: uint32 where "ELF_MAGIC = 0x464C457F"
definition ELF_PROG_LOAD :: uint32 where "ELF_PROG_LOAD = 1"

definition rd64 :: "uint8 list \<Rightarrow> nat \<Rightarrow> uint64" where
  "rd64 bs i = ucast (rd32 bs i) OR push_bit 32 (ucast (rd32 bs (i + 4)))"

definition bytes64 :: "uint64 \<Rightarrow> uint8 list" where
  "bytes64 w = bytes32 (ucast w) @ bytes32 (ucast (drop_bit 32 w))"

record elfhdr =
  elf_magic :: uint32
  elf_entry :: uint64
  elf_phoff :: uint64
  elf_phnum :: uint16

definition elfhdr_of :: "uint8 list \<Rightarrow> elfhdr" where
  "elfhdr_of d = \<lparr>elf_magic = rd32 d 0, elf_entry = rd64 d 24, elf_phoff = rd64 d 32, elf_phnum = rd16 d 56\<rparr>"

record proghdr =
  ph_type :: uint32
  ph_flags :: uint32
  ph_off :: uint64
  ph_vaddr :: uint64
  ph_filesz :: uint64
  ph_memsz :: uint64

definition proghdr_of :: "uint8 list \<Rightarrow> proghdr" where
  "proghdr_of d = \<lparr>ph_type = rd32 d 0, ph_flags = rd32 d 4, ph_off = rd64 d 8, ph_vaddr = rd64 d 16,
     ph_filesz = rd64 d 32, ph_memsz = rd64 d 40\<rparr>"

section \<open>kernel/exec.c\<close>

definition flags2perm :: "uint32 \<Rightarrow> uint64" where
  "flags2perm flags = (if flags AND 1 \<noteq> 0 then PTE_X else 0) OR (if flags AND 2 \<noteq> 0 then PTE_W else 0)"

text \<open>\<^verbatim>\<open>readi\<close> of \<open>n\<close> bytes at \<open>off\<close> into a local object; \<^const>\<open>None\<close> if it is not complete.\<close>

definition read_obj ::
    "'a fskernel_scheme env \<Rightarrow> nat \<Rightarrow> uint32 \<Rightarrow> nat \<Rightarrow> 'a fskernel_scheme
     \<Rightarrow> (uint8 list option \<times> 'a fskernel_scheme) outcome" where
  "read_obj e ip off n s =
     andThen (readi e ip (AtLocal (replicate n 0)) off (of_nat n) s) (\<lambda>(r, dst, s1).
     Ok (case dst of AtLocal d \<Rightarrow> if r = of_nat n then Some d else None | AtAddr _ _ \<Rightarrow> None, s1))"

text \<open>
  The loop of \<^verbatim>\<open>loadseg\<close>. \<^verbatim>\<open>i\<close> is a uint that grows by PGSIZE, so it repeats after \<open>2 ^ 20\<close> rounds.
\<close>

fun loadseg_loop ::
    "nat \<Rightarrow> 'a fskernel_scheme env \<Rightarrow> uint64 \<Rightarrow> uint64 \<Rightarrow> nat \<Rightarrow> uint32 \<Rightarrow> uint32 \<Rightarrow> uint32 \<Rightarrow> 'a fskernel_scheme
     \<Rightarrow> (int32 \<times> 'a fskernel_scheme) outcome" where
  "loadseg_loop fuel e pt va ip offset sz i s =
     (if i < sz then
        (case fuel of 0 \<Rightarrow> Spin | Suc k \<Rightarrow>
          andThen (lift_pmr (walkaddr pt (va + ucast i)) s) (\<lambda>(pa, s1).
          if pa = 0 then Panic ''loadseg: address should exist''
          else
            let n = (if sz - i < 4096 then sz - i else 4096) in
            andThen (readi e ip (AtAddr False pa) (offset + i) n s1) (\<lambda>(r, _, s2).
            if r \<noteq> n then Ok (-1, s2) else loadseg_loop k e pt va ip offset sz (i + 4096) s2)))
      else Ok (0, s))"

declare loadseg_loop.simps [simp del]

definition loadseg ::
    "'a fskernel_scheme env \<Rightarrow> uint64 \<Rightarrow> uint64 \<Rightarrow> nat \<Rightarrow> uint32 \<Rightarrow> uint32 \<Rightarrow> 'a fskernel_scheme
     \<Rightarrow> (int32 \<times> 'a fskernel_scheme) outcome" where
  "loadseg e pt va ip offset sz s = loadseg_loop (2 ^ 20) e pt va ip offset sz 0 s"

text \<open>
  The loop over the program headers, \<open>k\<close> of them to go. It returns whether it reached the end, and \<^verbatim>\<open>sz\<close>.
\<close>

fun exec_load ::
    "nat \<Rightarrow> 'a fskernel_scheme env \<Rightarrow> nat \<Rightarrow> uint64 \<Rightarrow> uint32 \<Rightarrow> uint64 \<Rightarrow> 'a fskernel_scheme
     \<Rightarrow> (bool \<times> uint64 \<times> 'a fskernel_scheme) outcome" where
  "exec_load 0 e ip pt off sz s = Ok (True, sz, s)"
| "exec_load (Suc k) e ip pt off sz s =
     andThen (read_obj e ip off 56 s) (\<lambda>(r, s1).
     case r of
       None \<Rightarrow> Ok (False, sz, s1)
     | Some d \<Rightarrow>
        let ph = proghdr_of d in
        if ph_type ph \<noteq> ELF_PROG_LOAD then exec_load k e ip pt (off + 56) sz s1
        else if ph_memsz ph < ph_filesz ph then Ok (False, sz, s1)
        else if ph_vaddr ph + ph_memsz ph < ph_vaddr ph then Ok (False, sz, s1)
        else if ph_vaddr ph mod PGSIZE \<noteq> 0 then Ok (False, sz, s1)
        else
          andThen (lift_pmr (uvmalloc pt sz (ph_vaddr ph + ph_memsz ph) (flags2perm (ph_flags ph))) s1) (\<lambda>(sz1, s2).
          if sz1 = 0 then Ok (False, sz, s2)
          else
            andThen (loadseg e pt (ph_vaddr ph) ip (ucast (ph_off ph)) (ucast (ph_filesz ph)) s2) (\<lambda>(r, s3).
            if r <s 0 then Ok (False, sz1, s3) else exec_load k e ip pt (off + 56) sz1 s3)))"

text \<open>The string at a kernel address: it ends within its page.\<close>

definition kstr :: "memory \<Rightarrow> uint64 \<Rightarrow> uint8 list" where
  "kstr m a = takeWhile (\<lambda>c. c \<noteq> 0) (read_bytes m a (unat PGSIZE))"

text \<open>The loop that pushes the argument strings. It returns whether it succeeded, \<^verbatim>\<open>sp\<close> and \<^verbatim>\<open>ustack\<close>.\<close>

fun push_args ::
    "uint64 list \<Rightarrow> uint64 \<Rightarrow> uint64 \<Rightarrow> uint64 \<Rightarrow> uint64 list \<Rightarrow> 'a kernel_scheme
     \<Rightarrow> (bool \<times> uint64 \<times> uint64 list \<times> 'a kernel_scheme) outcome" where
  "push_args [] pt stackbase sp ustack s = Ok (True, sp, ustack, s)"
| "push_args (a # as) pt stackbase sp ustack s =
     (if length ustack \<ge> MAXARG then Ok (False, sp, ustack, s)
      else
        let str = kstr (mem (pm s)) a;
            sp1 = sp - (of_nat (length str) + 1);
            sp2 = sp1 - sp1 mod 16
        in if sp2 < stackbase then Ok (False, sp2, ustack, s)
           else
             andThen (lift_pmr (copyout pt sp2 (str @ [0])) s) (\<lambda>(r, s1).
             if r <s 0 then Ok (False, sp2, ustack, s1) else push_args as pt stackbase sp2 (ustack @ [sp2]) s1))"

text \<open>The part of a path after the last slash.\<close>

fun last_elem :: "uint8 list \<Rightarrow> uint8 list \<Rightarrow> uint8 list" where
  "last_elem lst [] = lst"
| "last_elem lst (c # cs) = last_elem (if c = SLASH then cs else lst) cs"

text \<open>
  From the end of loading on: stack, arguments, and the switch to the new image. \<open>bad\<close> is the code after
  the label \<^verbatim>\<open>bad\<close>, where the inode has been put already.
\<close>

definition exec_bad :: "uint64 \<Rightarrow> uint64 \<Rightarrow> 'a kernel_scheme \<Rightarrow> (int32 \<times> 'a kernel_scheme) outcome" where
  "exec_bad pt sz s = andThen (lift_pm (proc_freepagetable pt sz) s) (\<lambda>s1. Ok (-1, s1))"

definition exec_commit ::
    "uint8 list \<Rightarrow> uint64 \<Rightarrow> uint64 \<Rightarrow> uint64 \<Rightarrow> uint64 \<Rightarrow> uint64 \<Rightarrow> nat \<Rightarrow> nat \<Rightarrow> 'a kernel_scheme
     \<Rightarrow> (int32 \<times> 'a kernel_scheme) outcome" where
  "exec_commit path entry pt sz oldsz sp argc p s =
     (let tf = trapframe (procs s ! p);
          s1 = kmem_upd (\<lambda>m. store64 m (tf + TF_a1) sp) s;
          s2 = set_proc p (\<lambda>q. q\<lparr>pname := safestrcpy (pname q) (arr (last_elem path path)) 16\<rparr>) s1;
          oldpt = pagetable (procs s2 ! p);
          s3 = set_proc p (\<lambda>q. q\<lparr>pagetable := pt, psz := sz\<rparr>) s2;
          s4 = kmem_upd (\<lambda>m. store64 (store64 m (tf + TF_epc) entry) (tf + TF_sp) sp) s3
      in andThen (lift_pm (proc_freepagetable oldpt oldsz) s4) (\<lambda>s5. Ok (of_nat argc, s5)))"

definition exec_stack ::
    "uint8 list \<Rightarrow> uint64 list \<Rightarrow> uint64 \<Rightarrow> uint64 \<Rightarrow> uint64 \<Rightarrow> 'a kernel_scheme \<Rightarrow> (int32 \<times> 'a kernel_scheme) outcome" where
  "exec_stack path argv entry pt sz s =
     andThen (curproc s) (\<lambda>(p, s1).
     let oldsz = psz (procs s1 ! p); sz1 = PGROUNDUP sz in
     andThen (lift_pmr (uvmalloc pt sz1 (sz1 + 2 * PGSIZE) PTE_W) s1) (\<lambda>(sz2, s2).
     if sz2 = 0 then exec_bad pt sz1 s2
     else
       andThen (lift_pm (uvmclear pt (sz2 - 2 * PGSIZE)) s2) (\<lambda>s3.
       let stackbase = sz2 - PGSIZE in
       andThen (push_args argv pt stackbase sz2 [] s3) (\<lambda>(ok, sp, ustack, s4).
       if \<not> ok then exec_bad pt sz2 s4
       else
         let argc = length ustack; sp1 = sp - (of_nat argc + 1) * 8; sp2 = sp1 - sp1 mod 16 in
         if sp2 < stackbase then exec_bad pt sz2 s4
         else
           andThen (lift_pmr (copyout pt sp2 (concat (map bytes64 (ustack @ [0])))) s4) (\<lambda>(r, s5).
           if r <s 0 then exec_bad pt sz2 s5
           else exec_commit path entry pt sz2 oldsz sp2 argc p s5)))))"

definition exec ::
    "'a fskernel_scheme env \<Rightarrow> uint8 list \<Rightarrow> uint64 list \<Rightarrow> 'a fskernel_scheme
     \<Rightarrow> (int32 \<times> 'a fskernel_scheme) outcome" where
  "exec e path argv s =
     andThen (curproc s) (\<lambda>(p, s1).
     andThen (begin_op e s1) (\<lambda>s2.
     andThen (namei e path s2) (\<lambda>(r, s3).
     case r of
       None \<Rightarrow> andThen (end_op e s3) (\<lambda>s4. Ok (-1, s4))
     | Some ip \<Rightarrow>
        let bad = (\<lambda>s. andThen (iunlockput e ip s) (\<lambda>s1. andThen (end_op e s1) (\<lambda>s2. Ok (-1, s2)))) in
        andThen (ilock e (Some ip) s3) (\<lambda>s4.
        andThen (read_obj e ip 0 64 s4) (\<lambda>(h, s5).
        case h of
          None \<Rightarrow> bad s5
        | Some d \<Rightarrow>
           let elf = elfhdr_of d in
           if elf_magic elf \<noteq> ELF_MAGIC then bad s5
           else
             andThen (lift_pmr (proc_pagetable (trampoline s5) (trapframe (procs s5 ! p))) s5) (\<lambda>(pt, s6).
             if pt = 0 then bad s6
             else
               andThen (exec_load (unat (elf_phnum elf)) e ip pt (ucast (elf_phoff elf)) 0 s6) (\<lambda>(ok, sz, s7).
               if \<not> ok then andThen (lift_pm (proc_freepagetable pt sz) s7) bad
               else
                 andThen (iunlockput e ip s7) (\<lambda>s8.
                 andThen (end_op e s8) (exec_stack path argv (elf_entry elf) pt sz)))))))))"

end
