(* ===== verification/Sysfile.thy ===== *)
theory Sysfile
  imports Exec
begin

text \<open>
  The file system calls (kernel/sysfile.c). Path buffers start with arbitrary contents, which the
  code never looks at; the model takes zeros. The code after a label \<^verbatim>\<open>bad\<close> or \<^verbatim>\<open>fail\<close> is a definition of
  its own.
\<close>

section \<open>File descriptors\<close>

definition O_RDONLY :: int32 where "O_RDONLY = 0"
definition O_WRONLY :: int32 where "O_WRONLY = 1"
definition O_RDWR :: int32 where "O_RDWR = 2"
definition O_CREATE :: int32 where "O_CREATE = 0x200"
definition O_TRUNC :: int32 where "O_TRUNC = 0x400"

text \<open>\<open>argfd n\<close>: the descriptor and its file, or \<^const>\<open>None\<close> for -1.\<close>

definition argfd :: "nat \<Rightarrow> 'a kernel_scheme \<Rightarrow> ((nat \<times> nat) option \<times> 'a kernel_scheme) outcome" where
  "argfd n s =
     andThen (argint n s) (\<lambda>(fd, s1).
     if sint fd < 0 \<or> sint fd \<ge> int NOFILE then Ok (None, s1)
     else
       andThen (curproc s1) (\<lambda>(p, s2).
       Ok (map_option (\<lambda>f. (nat (sint fd), f)) (ofile (procs s2 ! p) ! nat (sint fd)), s2)))"

text \<open>\<open>fdalloc f\<close>: the new descriptor, or \<^const>\<open>None\<close> for -1.\<close>

definition fdalloc :: "nat \<Rightarrow> 'a kernel_scheme \<Rightarrow> (nat option \<times> 'a kernel_scheme) outcome" where
  "fdalloc f s =
     andThen (curproc s) (\<lambda>(p, s1).
     case List.find (\<lambda>fd. ofile (procs s1 ! p) ! fd = None) [0..<NOFILE] of
       None \<Rightarrow> Ok (None, s1)
     | Some fd \<Rightarrow> Ok (Some fd, set_proc p (\<lambda>q. q\<lparr>ofile := (ofile q)[fd := Some f]\<rparr>) s1))"

definition clear_fd :: "nat \<Rightarrow> nat \<Rightarrow> 'a kernel_scheme \<Rightarrow> 'a kernel_scheme" where
  "clear_fd p fd = set_proc p (\<lambda>q. q\<lparr>ofile := (ofile q)[fd := None]\<rparr>)"

definition sys_dup :: "'a iokernel_scheme \<Rightarrow> (uint64 \<times> 'a iokernel_scheme) outcome" where
  "sys_dup s =
     andThen (argfd 0 s) (\<lambda>(r, s1).
     case r of None \<Rightarrow> Ok (-1, s1)
     | Some (_, f) \<Rightarrow>
        andThen (fdalloc f s1) (\<lambda>(r, s2).
        case r of None \<Rightarrow> Ok (-1, s2)
        | Some fd \<Rightarrow> andThen (filedup f s2) (\<lambda>(_, s3). Ok (of_nat fd, s3))))"

definition sys_read :: "'a iokernel_scheme env \<Rightarrow> 'a iokernel_scheme \<Rightarrow> (uint64 \<times> 'a iokernel_scheme) outcome" where
  "sys_read e s =
     andThen (argaddr 1 s) (\<lambda>(p, s1).
     andThen (argint 2 s1) (\<lambda>(n, s2).
     andThen (argfd 0 s2) (\<lambda>(r, s3).
     case r of None \<Rightarrow> Ok (-1, s3)
     | Some (_, f) \<Rightarrow> andThen (fileread e f p n s3) (\<lambda>(r, s4). Ok (scast r, s4)))))"

definition sys_write :: "'a iokernel_scheme env \<Rightarrow> 'a iokernel_scheme \<Rightarrow> (uint64 \<times> 'a iokernel_scheme) outcome" where
  "sys_write e s =
     andThen (argaddr 1 s) (\<lambda>(p, s1).
     andThen (argint 2 s1) (\<lambda>(n, s2).
     andThen (argfd 0 s2) (\<lambda>(r, s3).
     case r of None \<Rightarrow> Ok (-1, s3)
     | Some (_, f) \<Rightarrow> andThen (filewrite e f p n s3) (\<lambda>(r, s4). Ok (scast r, s4)))))"

definition sys_close :: "'a iokernel_scheme env \<Rightarrow> 'a iokernel_scheme \<Rightarrow> (uint64 \<times> 'a iokernel_scheme) outcome" where
  "sys_close e s =
     andThen (argfd 0 s) (\<lambda>(r, s1).
     case r of None \<Rightarrow> Ok (-1, s1)
     | Some (fd, f) \<Rightarrow>
        andThen (curproc s1) (\<lambda>(p, s2).
        andThen (fileclose e f (clear_fd p fd s2)) (\<lambda>s3. Ok (0, s3))))"

definition sys_fstat :: "'a iokernel_scheme env \<Rightarrow> 'a iokernel_scheme \<Rightarrow> (uint64 \<times> 'a iokernel_scheme) outcome" where
  "sys_fstat e s =
     andThen (argaddr 1 s) (\<lambda>(st, s1).
     andThen (argfd 0 s1) (\<lambda>(r, s2).
     case r of None \<Rightarrow> Ok (-1, s2)
     | Some (_, f) \<Rightarrow> andThen (filestat e f st s2) (\<lambda>(r, s3). Ok (scast r, s3))))"

section \<open>Links\<close>

text \<open>\<^verbatim>\<open>argstr(n, path, MAXPATH)\<close>: the path, or \<^const>\<open>None\<close> for an error.\<close>

definition argpath :: "nat \<Rightarrow> 'a kernel_scheme \<Rightarrow> (uint8 list option \<times> 'a kernel_scheme) outcome" where
  "argpath n s =
     andThen (argstr n (replicate MAXPATH 0) MAXPATH s) (\<lambda>(r, buf, s1).
     Ok (if r <s 0 then None else Some (takeWhile (\<lambda>c. c \<noteq> 0) buf), s1))"

definition end_fail :: "'a fskernel_scheme env \<Rightarrow> 'a fskernel_scheme \<Rightarrow> (uint64 \<times> 'a fskernel_scheme) outcome" where
  "end_fail e s = andThen (end_op e s) (\<lambda>s1. Ok (-1, s1))"

definition put_fail :: "'a fskernel_scheme env \<Rightarrow> nat \<Rightarrow> 'a fskernel_scheme \<Rightarrow> (uint64 \<times> 'a fskernel_scheme) outcome" where
  "put_fail e ip s = andThen (iunlockput e ip s) (end_fail e)"

definition add_nlink :: "nat \<Rightarrow> uint16 \<Rightarrow> 'a fskernel_scheme \<Rightarrow> 'a fskernel_scheme" where
  "add_nlink ip d = set_inode ip (\<lambda>x. x\<lparr>nlink := nlink x + d\<rparr>)"

definition link_bad :: "'a fskernel_scheme env \<Rightarrow> nat \<Rightarrow> 'a fskernel_scheme \<Rightarrow> (uint64 \<times> 'a fskernel_scheme) outcome" where
  "link_bad e ip s =
     andThen (ilock e (Some ip) s) (\<lambda>s1.
     andThen (iupdate e ip (add_nlink ip (-1) s1)) (put_fail e ip))"

definition sys_link :: "'a fskernel_scheme env \<Rightarrow> 'a fskernel_scheme \<Rightarrow> (uint64 \<times> 'a fskernel_scheme) outcome" where
  "sys_link e s =
     andThen (argpath 0 s) (\<lambda>(r, s1).
     case r of None \<Rightarrow> Ok (-1, s1) | Some old \<Rightarrow>
     andThen (argpath 1 s1) (\<lambda>(r, s2).
     case r of None \<Rightarrow> Ok (-1, s2) | Some new \<Rightarrow>
     andThen (begin_op e s2) (\<lambda>s3.
     andThen (namei e old s3) (\<lambda>(r, s4).
     case r of None \<Rightarrow> end_fail e s4 | Some ip \<Rightarrow>
     andThen (ilock e (Some ip) s4) (\<lambda>s5.
     if itype (itable (fs s5) ! ip) = T_DIR then put_fail e ip s5
     else
       andThen (iupdate e ip (add_nlink ip 1 s5)) (\<lambda>s6.
       andThen (iunlock (Some ip) s6) (\<lambda>s7.
       andThen (nameiparent e new (replicate DIRSIZ 0) s7) (\<lambda>(r, name, s8).
       case r of None \<Rightarrow> link_bad e ip s8 | Some dp \<Rightarrow>
       andThen (ilock e (Some dp) s8) (\<lambda>s9.
       andThen
         (if idev (itable (fs s9) ! dp) \<noteq> idev (itable (fs s9) ! ip) then Ok (True, s9)
          else andThen (dirlink e dp name (inum (itable (fs s9) ! ip)) s9) (\<lambda>(r, s). Ok (r <s 0, s))) (\<lambda>(bad, s10).
       if bad then andThen (iunlockput e dp s10) (link_bad e ip)
       else
         andThen (iunlockput e dp s10) (\<lambda>s11.
         andThen (iput e ip s11) (\<lambda>s12.
         andThen (end_op e s12) (\<lambda>s13. Ok (0, s13))))))))))))))"

text \<open>
  The loop of \<^verbatim>\<open>isdirempty\<close>. \<^verbatim>\<open>off\<close> starts behind the entries for . and .. and grows by 16; it is
  compared as an unsigned number.
\<close>

fun isdirempty_loop ::
    "nat \<Rightarrow> 'a fskernel_scheme env \<Rightarrow> nat \<Rightarrow> uint32 \<Rightarrow> uint8 list \<Rightarrow> 'a fskernel_scheme
     \<Rightarrow> (bool \<times> 'a fskernel_scheme) outcome" where
  "isdirempty_loop fuel e dp off de s =
     (if off < isize (itable (fs s) ! dp) then
        (case fuel of 0 \<Rightarrow> Spin | Suc k \<Rightarrow>
          andThen (read_de e ''isdirempty: readi'' dp off de s) (\<lambda>(de', s1).
          if de_inum de' \<noteq> 0 then Ok (False, s1) else isdirempty_loop k e dp (off + 16) de' s1))
      else Ok (True, s))"

declare isdirempty_loop.simps [simp del]

definition isdirempty :: "'a fskernel_scheme env \<Rightarrow> nat \<Rightarrow> 'a fskernel_scheme \<Rightarrow> (bool \<times> 'a fskernel_scheme) outcome" where
  "isdirempty e dp s = isdirempty_loop (2 ^ 28) e dp 32 zero_de s"

text \<open>The part of \<^verbatim>\<open>sys_unlink\<close> that removes the entry at \<open>off\<close> of \<open>dp\<close> for the locked inode \<open>ip\<close>.\<close>

definition unlink_entry ::
    "'a fskernel_scheme env \<Rightarrow> nat \<Rightarrow> nat \<Rightarrow> uint32 \<Rightarrow> 'a fskernel_scheme \<Rightarrow> (uint64 \<times> 'a fskernel_scheme) outcome" where
  "unlink_entry e dp ip off s =
     andThen (writei e dp (AtLocal zero_de) off 16 s) (\<lambda>(r, s1).
     if r \<noteq> 16 then Panic ''unlink: writei''
     else
       andThen (if itype (itable (fs s1) ! ip) = T_DIR then iupdate e dp (add_nlink dp (-1) s1) else Ok s1) (\<lambda>s2.
       andThen (iunlockput e dp s2) (\<lambda>s3.
       andThen (iupdate e ip (add_nlink ip (-1) s3)) (\<lambda>s4.
       andThen (iunlockput e ip s4) (\<lambda>s5.
       andThen (end_op e s5) (\<lambda>s6. Ok (0, s6)))))))"

definition sys_unlink :: "'a fskernel_scheme env \<Rightarrow> 'a fskernel_scheme \<Rightarrow> (uint64 \<times> 'a fskernel_scheme) outcome" where
  "sys_unlink e s =
     andThen (argpath 0 s) (\<lambda>(r, s1).
     case r of None \<Rightarrow> Ok (-1, s1) | Some path \<Rightarrow>
     andThen (begin_op e s1) (\<lambda>s2.
     andThen (nameiparent e path (replicate DIRSIZ 0) s2) (\<lambda>(r, name, s3).
     case r of None \<Rightarrow> end_fail e s3 | Some dp \<Rightarrow>
     andThen (ilock e (Some dp) s3) (\<lambda>s4.
     if namecmp name (lit ''.'') = 0 \<or> namecmp name (lit ''..'') = 0 then put_fail e dp s4
     else
       andThen (dirlookup e dp name s4) (\<lambda>(r, s5).
       case r of None \<Rightarrow> put_fail e dp s5 | Some (ip, off) \<Rightarrow>
       andThen (ilock e (Some ip) s5) (\<lambda>s6.
       if sint (nlink (itable (fs s6) ! ip)) < 1 then Panic ''unlink: nlink < 1''
       else
         andThen (if itype (itable (fs s6) ! ip) = T_DIR then isdirempty e ip s6 else Ok (True, s6)) (\<lambda>(emp, s7).
         if \<not> emp then andThen (iunlockput e ip s7) (put_fail e dp)
         else unlink_entry e dp ip off s7)))))))"

section \<open>Creating and opening files\<close>

definition create_fail ::
    "'a fskernel_scheme env \<Rightarrow> nat \<Rightarrow> nat \<Rightarrow> 'a fskernel_scheme \<Rightarrow> (nat option \<times> 'a fskernel_scheme) outcome" where
  "create_fail e dp ip s =
     andThen (iupdate e ip (set_inode ip (\<lambda>x. x\<lparr>nlink := 0\<rparr>) s)) (\<lambda>s1.
     andThen (iunlockput e ip s1) (\<lambda>s2.
     andThen (iunlockput e dp s2) (\<lambda>s3. Ok (None, s3))))"

text \<open>The entries . and .. of a new directory; \<open>False\<close> if one of them failed.\<close>

definition link_dots :: "'a fskernel_scheme env \<Rightarrow> nat \<Rightarrow> nat \<Rightarrow> 'a fskernel_scheme \<Rightarrow> (bool \<times> 'a fskernel_scheme) outcome" where
  "link_dots e dp ip s =
     andThen (dirlink e ip (lit ''.'') (inum (itable (fs s) ! ip)) s) (\<lambda>(r, s1).
     if r <s 0 then Ok (False, s1)
     else andThen (dirlink e ip (lit ''..'') (inum (itable (fs s1) ! dp)) s1) (\<lambda>(r, s2). Ok (\<not> r <s 0, s2)))"

text \<open>The new inode \<open>ip\<close> of type \<open>type\<close> made the entry \<open>name\<close> of \<open>dp\<close>.\<close>

definition create_new ::
    "'a fskernel_scheme env \<Rightarrow> nat \<Rightarrow> uint8 list \<Rightarrow> nat \<Rightarrow> uint16 \<Rightarrow> uint16 \<Rightarrow> uint16 \<Rightarrow> 'a fskernel_scheme
     \<Rightarrow> (nat option \<times> 'a fskernel_scheme) outcome" where
  "create_new e dp name ip type maj mnr s =
     andThen (ilock e (Some ip) s) (\<lambda>s1.
     andThen (iupdate e ip (set_inode ip (\<lambda>x. x\<lparr>imajor := maj, iminor := mnr, nlink := 1\<rparr>) s1)) (\<lambda>s2.
     andThen (if type = T_DIR then link_dots e dp ip s2 else Ok (True, s2)) (\<lambda>(ok, s3).
     if \<not> ok then create_fail e dp ip s3
     else
       andThen (dirlink e dp name (inum (itable (fs s3) ! ip)) s3) (\<lambda>(r, s4).
       if r <s 0 then create_fail e dp ip s4
       else
         andThen (if type = T_DIR then iupdate e dp (add_nlink dp 1 s4) else Ok s4) (\<lambda>s5.
         andThen (iunlockput e dp s5) (\<lambda>s6. Ok (Some ip, s6)))))))"

definition create ::
    "'a fskernel_scheme env \<Rightarrow> uint8 list \<Rightarrow> uint16 \<Rightarrow> uint16 \<Rightarrow> uint16 \<Rightarrow> 'a fskernel_scheme
     \<Rightarrow> (nat option \<times> 'a fskernel_scheme) outcome" where
  "create e path type maj mnr s =
     andThen (nameiparent e path (replicate DIRSIZ 0) s) (\<lambda>(r, name, s1).
     case r of None \<Rightarrow> Ok (None, s1) | Some dp \<Rightarrow>
     andThen (ilock e (Some dp) s1) (\<lambda>s2.
     andThen (dirlookup e dp name s2) (\<lambda>(r, s3).
     case r of
       Some (ip, _) \<Rightarrow>
         andThen (iunlockput e dp s3) (\<lambda>s4.
         andThen (ilock e (Some ip) s4) (\<lambda>s5.
         let t = itype (itable (fs s5) ! ip) in
         if type = T_FILE \<and> (t = T_FILE \<or> t = T_DEVICE) then Ok (Some ip, s5)
         else andThen (iunlockput e ip s5) (\<lambda>s6. Ok (None, s6))))
     | None \<Rightarrow>
         andThen (ialloc e (idev (itable (fs s3) ! dp)) type s3) (\<lambda>(r, s4).
         case r of None \<Rightarrow> andThen (iunlockput e dp s4) (\<lambda>s5. Ok (None, s5))
         | Some ip \<Rightarrow> create_new e dp name ip type maj mnr s4))))"

text \<open>The second half of \<^verbatim>\<open>sys_open\<close>, from the locked inode \<open>ip\<close> on.\<close>

definition open_file :: "nat \<Rightarrow> nat \<Rightarrow> int32 \<Rightarrow> 'a fskernel_scheme \<Rightarrow> 'a fskernel_scheme" where
  "open_file f ip omode s =
     (let i = itable (fs s) ! ip;
          s1 = (if itype i = T_DEVICE then set_file f (\<lambda>x. x\<lparr>ftype := FD_DEVICE, fmajor := imajor i\<rparr>) s
                else set_file f (\<lambda>x. x\<lparr>ftype := FD_INODE, foff := 0\<rparr>) s)
      in set_file f (\<lambda>x. x\<lparr>fip := ip, readable := omode AND O_WRONLY = 0,
           writable := omode AND O_WRONLY \<noteq> 0 \<or> omode AND O_RDWR \<noteq> 0\<rparr>) s1)"

definition open_inode ::
    "'a iokernel_scheme env \<Rightarrow> nat \<Rightarrow> int32 \<Rightarrow> 'a iokernel_scheme \<Rightarrow> (uint64 \<times> 'a iokernel_scheme) outcome" where
  "open_inode e ip omode s =
     (let i = itable (fs s) ! ip in
      if itype i = T_DEVICE \<and> (sint (imajor i) < 0 \<or> sint (imajor i) \<ge> int NDEV) then put_fail e ip s
      else
        andThen (filealloc s) (\<lambda>(r, s1).
        case r of None \<Rightarrow> put_fail e ip s1 | Some f \<Rightarrow>
        andThen (fdalloc f s1) (\<lambda>(r, s2).
        case r of None \<Rightarrow> andThen (fileclose e f s2) (put_fail e ip) | Some fd \<Rightarrow>
        let s3 = open_file f ip omode s2 in
        andThen (if omode AND O_TRUNC \<noteq> 0 \<and> itype (itable (fs s3) ! ip) = T_FILE then itrunc e ip s3 else Ok s3) (\<lambda>s4.
        andThen (iunlock (Some ip) s4) (\<lambda>s5.
        andThen (end_op e s5) (\<lambda>s6. Ok (of_nat fd, s6)))))))"

definition sys_open :: "'a iokernel_scheme env \<Rightarrow> 'a iokernel_scheme \<Rightarrow> (uint64 \<times> 'a iokernel_scheme) outcome" where
  "sys_open e s =
     andThen (argint 1 s) (\<lambda>(omode, s1).
     andThen (argpath 0 s1) (\<lambda>(r, s2).
     case r of None \<Rightarrow> Ok (-1, s2) | Some path \<Rightarrow>
     andThen (begin_op e s2) (\<lambda>s3.
     if omode AND O_CREATE \<noteq> 0 then
       andThen (create e path T_FILE 0 0 s3) (\<lambda>(r, s4).
       case r of None \<Rightarrow> end_fail e s4 | Some ip \<Rightarrow> open_inode e ip omode s4)
     else
       andThen (namei e path s3) (\<lambda>(r, s4).
       case r of None \<Rightarrow> end_fail e s4 | Some ip \<Rightarrow>
       andThen (ilock e (Some ip) s4) (\<lambda>s5.
       if itype (itable (fs s5) ! ip) = T_DIR \<and> omode \<noteq> O_RDONLY then put_fail e ip s5
       else open_inode e ip omode s5)))))"

definition sys_mkdir :: "'a fskernel_scheme env \<Rightarrow> 'a fskernel_scheme \<Rightarrow> (uint64 \<times> 'a fskernel_scheme) outcome" where
  "sys_mkdir e s =
     andThen (begin_op e s) (\<lambda>s1.
     andThen (argpath 0 s1) (\<lambda>(r, s2).
     case r of None \<Rightarrow> end_fail e s2 | Some path \<Rightarrow>
     andThen (create e path T_DIR 0 0 s2) (\<lambda>(r, s3).
     case r of None \<Rightarrow> end_fail e s3 | Some ip \<Rightarrow>
     andThen (iunlockput e ip s3) (\<lambda>s4. andThen (end_op e s4) (\<lambda>s5. Ok (0, s5))))))"

text \<open>The device numbers are cut to shorts in the call of \<^verbatim>\<open>create\<close>.\<close>

definition sys_mknod :: "'a fskernel_scheme env \<Rightarrow> 'a fskernel_scheme \<Rightarrow> (uint64 \<times> 'a fskernel_scheme) outcome" where
  "sys_mknod e s =
     andThen (begin_op e s) (\<lambda>s1.
     andThen (argint 1 s1) (\<lambda>(maj, s2).
     andThen (argint 2 s2) (\<lambda>(mnr, s3).
     andThen (argpath 0 s3) (\<lambda>(r, s4).
     case r of None \<Rightarrow> end_fail e s4 | Some path \<Rightarrow>
     andThen (create e path T_DEVICE (ucast maj) (ucast mnr) s4) (\<lambda>(r, s5).
     case r of None \<Rightarrow> end_fail e s5 | Some ip \<Rightarrow>
     andThen (iunlockput e ip s5) (\<lambda>s6. andThen (end_op e s6) (\<lambda>s7. Ok (0, s7))))))))"

definition sys_chdir :: "'a fskernel_scheme env \<Rightarrow> 'a fskernel_scheme \<Rightarrow> (uint64 \<times> 'a fskernel_scheme) outcome" where
  "sys_chdir e s =
     andThen (curproc s) (\<lambda>(p, s0).
     andThen (begin_op e s0) (\<lambda>s1.
     andThen (argpath 0 s1) (\<lambda>(r, s2).
     case r of None \<Rightarrow> end_fail e s2 | Some path \<Rightarrow>
     andThen (namei e path s2) (\<lambda>(r, s3).
     case r of None \<Rightarrow> end_fail e s3 | Some ip \<Rightarrow>
     andThen (ilock e (Some ip) s3) (\<lambda>s4.
     if itype (itable (fs s4) ! ip) \<noteq> T_DIR then put_fail e ip s4
     else
       andThen (iunlock (Some ip) s4) (\<lambda>s5.
       case cwd (procs s5 ! p) of None \<Rightarrow> Panic ''kerneltrap'' | Some d \<Rightarrow>
       andThen (iput e d s5) (\<lambda>s6.
       andThen (end_op e s6) (\<lambda>s7. Ok (0, set_proc p (\<lambda>q. q\<lparr>cwd := Some ip\<rparr>) s7)))))))))"

section \<open>exec and pipe\<close>

fun free_args :: "uint64 list \<Rightarrow> 'a kernel_scheme \<Rightarrow> 'a kernel_scheme outcome" where
  "free_args [] s = Ok s"
| "free_args (a # as) s = andThen (lift_pm (kfree a) s) (free_args as)"

text \<open>
  The loop of \<^verbatim>\<open>sys_exec\<close> that fetches the arguments; \<open>argv\<close> are those fetched so far and \<open>k\<close> how many
  may follow. It returns whether it met the end of the vector.
\<close>

fun fetch_args :: "nat \<Rightarrow> uint64 \<Rightarrow> uint64 list \<Rightarrow> 'a kernel_scheme \<Rightarrow> (bool \<times> uint64 list \<times> 'a kernel_scheme) outcome" where
  "fetch_args 0 uargv argv s = Ok (False, argv, s)"
| "fetch_args (Suc k) uargv argv s =
     andThen (fetchaddr (uargv + 8 * of_nat (length argv)) s) (\<lambda>(r, uarg, s1).
     if r <s 0 then Ok (False, argv, s1)
     else if uarg = 0 then Ok (True, argv, s1)
     else
       andThen (lift_pmr kalloc s1) (\<lambda>(pg, s2).
       if pg = 0 then Ok (False, argv, s2)
       else
         andThen (fetchstr uarg (read_bytes (mem (pm s2)) pg (unat PGSIZE)) (unat PGSIZE) s2) (\<lambda>(r, buf, s3).
         let s4 = kmem_upd (\<lambda>m. write_bytes m pg buf) s3 in
         if r <s 0 then Ok (False, argv @ [pg], s4) else fetch_args k uargv (argv @ [pg]) s4)))"

definition sys_exec :: "'a fskernel_scheme env \<Rightarrow> 'a fskernel_scheme \<Rightarrow> (uint64 \<times> 'a fskernel_scheme) outcome" where
  "sys_exec e s =
     andThen (argaddr 1 s) (\<lambda>(uargv, s1).
     andThen (argpath 0 s1) (\<lambda>(r, s2).
     case r of None \<Rightarrow> Ok (-1, s2) | Some path \<Rightarrow>
     andThen (fetch_args MAXARG uargv [] s2) (\<lambda>(ok, argv, s3).
     if ok then
       andThen (exec e path argv s3) (\<lambda>(ret, s4).
       andThen (free_args argv s4) (\<lambda>s5. Ok (scast ret, s5)))
     else andThen (free_args argv s3) (\<lambda>s4. Ok (-1, s4)))))"

definition close_both :: "'a iokernel_scheme env \<Rightarrow> nat \<Rightarrow> nat \<Rightarrow> 'a iokernel_scheme \<Rightarrow> (uint64 \<times> 'a iokernel_scheme) outcome" where
  "close_both e rfile wfile s =
     andThen (fileclose e rfile s) (\<lambda>s1. andThen (fileclose e wfile s1) (\<lambda>s2. Ok (-1, s2)))"

definition sys_pipe :: "'a iokernel_scheme env \<Rightarrow> 'a iokernel_scheme \<Rightarrow> (uint64 \<times> 'a iokernel_scheme) outcome" where
  "sys_pipe e s =
     andThen (curproc s) (\<lambda>(p, s1).
     andThen (argaddr 0 s1) (\<lambda>(fdarray, s2).
     andThen (pipealloc e s2) (\<lambda>(_, ends, s3).
     case ends of None \<Rightarrow> Ok (-1, s3) | Some (rfile, wfile) \<Rightarrow>
     andThen (fdalloc rfile s3) (\<lambda>(r, s4).
     case r of None \<Rightarrow> close_both e rfile wfile s4 | Some fd0 \<Rightarrow>
     andThen (fdalloc wfile s4) (\<lambda>(r, s5).
     case r of None \<Rightarrow> close_both e rfile wfile (clear_fd p fd0 s5) | Some fd1 \<Rightarrow>
     let bad = (\<lambda>s. close_both e rfile wfile (clear_fd p fd1 (clear_fd p fd0 s))) in
     andThen (lift_pmr (copyout (pagetable (procs s5 ! p)) fdarray (bytes32 (of_nat fd0))) s5) (\<lambda>(r, s6).
     if r <s 0 then bad s6
     else
       andThen (lift_pmr (copyout (pagetable (procs s6 ! p)) (fdarray + 4) (bytes32 (of_nat fd1))) s6) (\<lambda>(r, s7).
       if r <s 0 then bad s7 else Ok (0, s7))))))))"

end
