(* ===== verification/Trap.thy ===== *)
theory Trap
  imports Sysfile
begin

text \<open>
  The interrupt controller (kernel/plic.c), the dispatch of system calls (kernel/syscall.c) and traps
  (kernel/trap.c). The state gets the supervisor registers of every hart, the interrupt controller,
  and the addresses the linker gives to the trap code. \<open>plic_claims h\<close> are the interrupt numbers that
  reads of hart \<open>h\<close>'s claim register return, and \<open>plic_writes\<close> the writes to the controller, oldest
  first.
\<close>

section \<open>State\<close>

record hart =
  sepc :: uint64
  scause :: uint64
  stval :: uint64
  stvec :: uint64
  sip :: uint64
  satp :: uint64

record trapkernel = iokernel +
  harts :: "nat \<Rightarrow> hart"
  plic_claims :: "nat \<Rightarrow> uint32 list"
  plic_writes :: "(uint64 \<times> uint32) list"
  kernelvec :: uint64
  uservec :: uint64
  userret :: uint64
  usertrap_addr :: uint64

definition myhart :: "'a trapkernel_scheme \<Rightarrow> hart" where
  "myhart s = harts s (cpuid (kmach s))"

definition set_hart :: "(hart \<Rightarrow> hart) \<Rightarrow> 'a trapkernel_scheme \<Rightarrow> 'a trapkernel_scheme" where
  "set_hart f s = s\<lparr>harts := (harts s)(cpuid (kmach s) := f (harts s (cpuid (kmach s))))\<rparr>"

section \<open>kernel/plic.c\<close>

definition UART0_IRQ :: nat where "UART0_IRQ = 10"
definition VIRTIO0_IRQ :: nat where "VIRTIO0_IRQ = 1"

definition PLIC_SENABLE :: "nat \<Rightarrow> uint64" where
  "PLIC_SENABLE h = PLIC + 0x2080 + of_nat h * 0x100"

definition PLIC_SPRIORITY :: "nat \<Rightarrow> uint64" where
  "PLIC_SPRIORITY h = PLIC + 0x201000 + of_nat h * 0x2000"

definition PLIC_SCLAIM :: "nat \<Rightarrow> uint64" where
  "PLIC_SCLAIM h = PLIC + 0x201004 + of_nat h * 0x2000"

definition plic_write :: "uint64 \<Rightarrow> uint32 \<Rightarrow> 'a trapkernel_scheme \<Rightarrow> 'a trapkernel_scheme" where
  "plic_write a x s = s\<lparr>plic_writes := plic_writes s @ [(a, x)]\<rparr>"

definition plicinit :: "'a trapkernel_scheme \<Rightarrow> 'a trapkernel_scheme" where
  "plicinit s = plic_write (PLIC + of_nat (VIRTIO0_IRQ * 4)) 1 (plic_write (PLIC + of_nat (UART0_IRQ * 4)) 1 s)"

definition plicinithart :: "'a trapkernel_scheme \<Rightarrow> 'a trapkernel_scheme" where
  "plicinithart s =
     (let h = cpuid (kmach s) in
      plic_write (PLIC_SPRIORITY h) 0
        (plic_write (PLIC_SENABLE h) (push_bit UART0_IRQ 1 OR push_bit VIRTIO0_IRQ 1) s))"

text \<open>Without a pending interrupt the claim register reads 0.\<close>

definition plic_claim :: "'a trapkernel_scheme \<Rightarrow> uint32 \<times> 'a trapkernel_scheme" where
  "plic_claim s =
     (let h = cpuid (kmach s) in
      case plic_claims s h of [] \<Rightarrow> (0, s) | q # qs \<Rightarrow> (q, s\<lparr>plic_claims := (plic_claims s)(h := qs)\<rparr>))"

definition plic_complete :: "uint32 \<Rightarrow> 'a trapkernel_scheme \<Rightarrow> 'a trapkernel_scheme" where
  "plic_complete irq s = plic_write (PLIC_SCLAIM (cpuid (kmach s))) irq s"

section \<open>kernel/syscall.c\<close>

definition NSYSCALL :: nat where "NSYSCALL = 28"

text \<open>The table of system calls: entry 0 is empty.\<close>

definition syscalls ::
    "'a trapkernel_scheme env \<Rightarrow> uint8 list \<Rightarrow> ('a trapkernel_scheme \<Rightarrow> (uint64 \<times> 'a trapkernel_scheme) outcome) list" where
  "syscalls e junk =
     [\<lambda>s. Panic ''kerneltrap'', sys_fork e, sys_exit e junk, sys_wait e, sys_pipe e, sys_read e, sys_kill, sys_exec e, sys_fstat e,
      sys_chdir e, sys_dup, sys_getpid, sys_sbrk, sys_sleep e, sys_uptime, sys_open e, sys_write e, sys_mknod e,
      sys_unlink e, sys_link e, sys_mkdir e, sys_close e, sys_memsize, sys_set_ps_priority, sys_set_cfs_priority,
      sys_get_cfs_stats, sys_set_policy, sys_get_ps_priority]"

definition set_a0 :: "nat \<Rightarrow> uint64 \<Rightarrow> 'a kernel_scheme \<Rightarrow> 'a kernel_scheme" where
  "set_a0 p r s = kmem_upd (\<lambda>m. store64 m (trapframe (procs s ! p) + TF_a0) r) s"

definition syscall ::
    "'a trapkernel_scheme env \<Rightarrow> uint8 list \<Rightarrow> 'a trapkernel_scheme \<Rightarrow> 'a trapkernel_scheme outcome" where
  "syscall e junk s =
     andThen (curproc s) (\<lambda>(p, s1).
     let num = ucast (load64 (mem (pm s1)) (trapframe (procs s1 ! p) + TF_a7)) :: int32 in
     if 0 < sint num \<and> sint num < int NSYSCALL then
       andThen ((syscalls e junk ! nat (sint num)) s1) (\<lambda>(r, s2). Ok (set_a0 p r s2))
     else
       andThen (printf e (Some (lit ''%d %s: unknown sys call %d'' @ [LF]))
         [PInt (pid (procs s1 ! p)), PStr (Some (takeWhile (\<lambda>c. c \<noteq> 0) (pname (procs s1 ! p)))), PInt num] s1) (\<lambda>s2.
       Ok (set_a0 p (-1) s2)))"

section \<open>kernel/trap.c\<close>

definition trapinit :: "'a kernel_scheme \<Rightarrow> 'a kernel_scheme" where
  "trapinit s = set_mach (initlock TicksLock ''time'' (kmach s)) s"

definition trapinithart :: "'a trapkernel_scheme \<Rightarrow> 'a trapkernel_scheme" where
  "trapinithart s = set_hart (\<lambda>h. h\<lparr>stvec := kernelvec s\<rparr>) s"

definition clockintr :: "'a kernel_scheme \<Rightarrow> 'a kernel_scheme outcome" where
  "clockintr s =
     andThen (kacquire TicksLock s) (\<lambda>s1.
     andThen (wakeup (Some ChTicks) (s1\<lparr>ticks := ticks s1 + 1\<rparr>)) (krelease TicksLock))"

text \<open>The service of an interrupt from the controller.\<close>

definition extintr :: "'a trapkernel_scheme env \<Rightarrow> 'a trapkernel_scheme \<Rightarrow> 'a trapkernel_scheme outcome" where
  "extintr e s =
     (let (irq, s1) = plic_claim s in
      andThen
        (if irq = of_nat UART0_IRQ then uartintr e s1
         else if irq = of_nat VIRTIO0_IRQ then virtio_disk_intr s1
         else if irq \<noteq> 0 then printf e (Some (lit ''unexpected interrupt irq=%d'' @ [LF])) [PInt irq] s1
         else Ok s1) (\<lambda>s2.
      Ok (if irq \<noteq> 0 then plic_complete irq s2 else s2)))"

definition devintr :: "'a trapkernel_scheme env \<Rightarrow> 'a trapkernel_scheme \<Rightarrow> (nat \<times> 'a trapkernel_scheme) outcome" where
  "devintr e s =
     (let c = scause (myhart s) in
      if c AND 0x8000000000000000 \<noteq> 0 \<and> c AND 0xff = 9 then andThen (extintr e s) (\<lambda>s1. Ok (1, s1))
      else if c = 0x8000000000000001 then
        andThen (if cpuid (kmach s) = 0 then clockintr s else Ok s) (\<lambda>s1.
        Ok (2, set_hart (\<lambda>h. h\<lparr>sip := sip h AND NOT 2\<rparr>) s1))
      else Ok (0, s))"

text \<open>
  The accounting at a timer interrupt, in \<^verbatim>\<open>usertrap\<close> and \<^verbatim>\<open>kerneltrap\<close>; the accumulator is signed, the
  priority unsigned.
\<close>

definition charge :: "proc \<Rightarrow> proc" where
  "charge q = (if accumulator q <s 10 then q\<lparr>accumulator := accumulator q + ps_priority q\<rparr> else q)"

definition charge_cur :: "'a kernel_scheme \<Rightarrow> 'a kernel_scheme outcome" where
  "charge_cur s =
     andThen (curproc s) (\<lambda>(p, s1).
     andThen (kacquire (ProcLock p) s1) (\<lambda>s2.
     andThen (curproc s2) (\<lambda>(p, s3).
     andThen (curproc (set_proc p charge s3)) (\<lambda>(p, s4).
     krelease (ProcLock p) s4))))"

text \<open>
  \<^verbatim>\<open>usertrapret\<close>: the result is the \<^verbatim>\<open>satp\<close> value passed to \<^verbatim>\<open>userret\<close> and the address jumped to.
\<close>

definition usertrapret :: "'a trapkernel_scheme \<Rightarrow> ((uint64 \<times> uint64) \<times> 'a trapkernel_scheme) outcome" where
  "usertrapret s =
     andThen (curproc s) (\<lambda>(p, s1).
     let s2 = set_mach (intr_off (kmach s1)) s1;
         s3 = set_hart (\<lambda>h. h\<lparr>stvec := TRAMPOLINE + (uservec s2 - trampoline s2)\<rparr>) s2;
         tf = trapframe (procs s3 ! p);
         s4 = kmem_upd (\<lambda>m.
           store64 (store64 (store64 (store64 m (tf + TF_kernel_satp) (satp (myhart s3)))
             (tf + TF_kernel_sp) (kstack (procs s3 ! p) + PGSIZE))
             (tf + TF_kernel_trap) (usertrap_addr s3))
             (tf + TF_kernel_hartid) (of_nat (r_tp (kmach s3)))) s3;
         x = (r_sstatus (kmach s4) AND NOT SSTATUS_SPP) OR SSTATUS_SPIE;
         s5 = set_mach (w_sstatus x (kmach s4)) s4;
         s6 = set_hart (\<lambda>h. h\<lparr>sepc := load64 (mem (pm s5)) (tf + TF_epc)\<rparr>) s5
     in Ok ((MAKE_SATP (pagetable (procs s6 ! p)), TRAMPOLINE + (userret s6 - trampoline s6)), s6))"

text \<open>\<^verbatim>\<open>if(killed(p)) exit(-1, p->exit_msg)\<close>. A call of \<^const>\<open>exit\<close> does not come back.\<close>

definition exit_if_killed ::
    "'a iokernel_scheme env \<Rightarrow> nat \<Rightarrow> 'a iokernel_scheme \<Rightarrow> 'a iokernel_scheme outcome" where
  "exit_if_killed e p s =
     andThen (killed p s) (\<lambda>(k, s1).
     if k \<noteq> 0 then exit (fsops_of e) (env_sw e) (-1) (arr (exit_msg (procs s1 ! p))) s1 else Ok s1)"

definition set_epc :: "nat \<Rightarrow> uint64 \<Rightarrow> 'a kernel_scheme \<Rightarrow> 'a kernel_scheme" where
  "set_epc p x s = kmem_upd (\<lambda>m. store64 m (trapframe (procs s ! p) + TF_epc) x) s"

definition usertrap ::
    "'a trapkernel_scheme env \<Rightarrow> uint8 list \<Rightarrow> 'a trapkernel_scheme
     \<Rightarrow> ((uint64 \<times> uint64) \<times> 'a trapkernel_scheme) outcome" where
  "usertrap e junk s =
     (if r_sstatus (kmach s) AND SSTATUS_SPP \<noteq> 0 then Panic ''usertrap: not from user mode''
      else
        andThen (curproc (set_hart (\<lambda>h. h\<lparr>stvec := kernelvec s\<rparr>) s)) (\<lambda>(p, s1).
        let s2 = set_epc p (sepc (myhart s1)) s1 in
        andThen
          (if scause (myhart s2) = 8 then
             andThen (exit_if_killed e p s2) (\<lambda>s3.
             let s4 = set_epc p (load64 (mem (pm s3)) (trapframe (procs s3 ! p) + TF_epc) + 4) s3;
                 s5 = set_mach (intr_on (kmach s4)) s4
             in andThen (syscall e junk s5) (\<lambda>s6. Ok (0, s6)))
           else
             andThen (devintr e s2) (\<lambda>(which_dev, s3).
             if which_dev \<noteq> 0 then Ok (which_dev, s3)
             else
               andThen (printf e (Some (lit ''usertrap(): unexpected scause %p pid=%d'' @ [LF]))
                 [PPtr (scause (myhart s3)), PInt (pid (procs s3 ! p))] s3) (\<lambda>s4.
               andThen (printf e (Some (lit '' sepc=%p stval=%p'' @ [LF]))
                 [PPtr (sepc (myhart s4)), PPtr (stval (myhart s4))] s4) (\<lambda>s5.
               andThen (setkilled p s5) (\<lambda>s6. Ok (0, s6)))))) (\<lambda>(which_dev, s7).
        andThen (exit_if_killed e p s7) (\<lambda>s8.
        andThen
          (if which_dev = 2 then
             andThen (charge_cur s8) (\<lambda>s9. andThen (cfs_update s9) (yield (env_sw e)))
           else Ok s8)
          usertrapret))))"

definition kerneltrap :: "'a trapkernel_scheme env \<Rightarrow> 'a trapkernel_scheme \<Rightarrow> 'a trapkernel_scheme outcome" where
  "kerneltrap e s =
     (let pc = sepc (myhart s); st = r_sstatus (kmach s); c = scause (myhart s) in
      if st AND SSTATUS_SPP = 0 then Panic ''kerneltrap: not from supervisor mode''
      else if intr_get (kmach s) then Panic ''kerneltrap: interrupts enabled''
      else
        andThen (devintr e s) (\<lambda>(which_dev, s1).
        if which_dev = 0 then
          andThen (printf e (Some (lit ''scause %p'' @ [LF])) [PPtr c] s1) (\<lambda>s2.
          andThen (printf e (Some (lit ''sepc=%p stval=%p'' @ [LF])) [PPtr (sepc (myhart s2)), PPtr (stval (myhart s2))] s2) (\<lambda>s3.
          Panic ''kerneltrap''))
        else
          andThen
            (if which_dev = 2 then
               andThen (cfs_update s1) (\<lambda>s2.
               andThen (myproc s2) (\<lambda>(me, s3).
               case me of
                 None \<Rightarrow> Ok s3
               | Some _ \<Rightarrow>
                  andThen (curproc s3) (\<lambda>(p, s4).
                  if pstate (procs s4 ! p) = RUNNING then andThen (charge_cur s4) (yield (env_sw e)) else Ok s4)))
             else Ok s1) (\<lambda>s5.
          let s6 = set_hart (\<lambda>h. h\<lparr>sepc := pc\<rparr>) s5 in Ok (set_mach (w_sstatus st (kmach s6)) s6))))"

end
