(* ===== verification/Boot.thy ===== *)
theory Boot
  imports Trap
begin

text \<open>
  Booting: machine mode (kernel/start.c) and \<^verbatim>\<open>main\<close> (kernel/main.c) with \<^verbatim>\<open>kvminit\<close> and \<^verbatim>\<open>kvminithart\<close> of
  kernel/vm.c, and \<^verbatim>\<open>forkret\<close> of kernel/proc.c. \<open>etext\<close> is a symbol the linker places; \<open>rd\<close> answers the reads of the disk's registers.
\<close>

section \<open>kernel/start.c\<close>

record mhart =
  mstatus :: uint64
  mepc :: uint64
  msatp :: uint64
  medeleg :: uint64
  mideleg :: uint64
  sie :: uint64
  pmpaddr0 :: uint64
  pmpcfg0 :: uint64
  mscratch :: uint64
  mtvec :: uint64
  mie :: uint64
  mhartid :: nat
  mtp :: uint64

text \<open>The memory-mapped timer and the scratch area of \<^verbatim>\<open>timervec\<close> are memory.\<close>

definition CLINT :: uint64 where "CLINT = 0x2000000"

definition CLINT_MTIMECMP :: "nat \<Rightarrow> uint64" where
  "CLINT_MTIMECMP h = CLINT + 0x4000 + 8 * of_nat h"

definition CLINT_MTIME :: uint64 where "CLINT_MTIME = CLINT + 0xBFF8"

definition MSTATUS_MPP_MASK :: uint64 where "MSTATUS_MPP_MASK = push_bit 11 3"
definition MSTATUS_MPP_S :: uint64 where "MSTATUS_MPP_S = push_bit 11 1"
definition MSTATUS_MIE :: uint64 where "MSTATUS_MIE = push_bit 3 1"
definition SIE_SEIE :: uint64 where "SIE_SEIE = push_bit 9 1"
definition SIE_STIE :: uint64 where "SIE_STIE = push_bit 5 1"
definition SIE_SSIE :: uint64 where "SIE_SSIE = push_bit 1 1"
definition MIE_MTIE :: uint64 where "MIE_MTIE = push_bit 7 1"

text \<open>\<open>scratch\<close> is the address of \<^verbatim>\<open>timer_scratch[id]\<close>, \<open>vec\<close> that of \<^verbatim>\<open>timervec\<close>.\<close>

definition timerinit :: "uint64 \<Rightarrow> uint64 \<Rightarrow> mhart \<times> memory \<Rightarrow> mhart \<times> memory" where
  "timerinit scratch vec st =
     (let (h, m) = st;
          interval = 1000000;
          m1 = store64 m (CLINT_MTIMECMP (mhartid h)) (load64 m CLINT_MTIME + interval);
          m2 = store64 m1 (scratch + 24) (CLINT_MTIMECMP (mhartid h));
          m3 = store64 m2 (scratch + 32) interval
      in (h\<lparr>mscratch := scratch, mtvec := vec, mstatus := mstatus h OR MSTATUS_MIE, mie := mie h OR MIE_MTIE\<rparr>, m3))"

text \<open>\<^verbatim>\<open>start\<close>, up to its \<^verbatim>\<open>mret\<close>; \<open>entry\<close> is the address of \<^verbatim>\<open>main\<close>.\<close>

definition start :: "uint64 \<Rightarrow> uint64 \<Rightarrow> uint64 \<Rightarrow> mhart \<times> memory \<Rightarrow> mhart \<times> memory" where
  "start entry scratch vec st =
     (let (h, m) = st;
          h1 = h\<lparr>mstatus := (mstatus h AND NOT MSTATUS_MPP_MASK) OR MSTATUS_MPP_S\<rparr>;
          h2 = h1\<lparr>mepc := entry, msatp := 0, medeleg := 0xffff, mideleg := 0xffff\<rparr>;
          h3 = h2\<lparr>sie := sie h2 OR SIE_SEIE OR SIE_STIE OR SIE_SSIE, pmpaddr0 := 0x3fffffffffffff, pmpcfg0 := 0xf\<rparr>;
          (h4, m1) = timerinit scratch vec (h3, m)
      in (h4\<lparr>mtp := of_nat (mhartid h4)\<rparr>, m1))"

section \<open>kernel/main.c\<close>

record bootkernel = trapkernel +
  kernel_pagetable :: uint64
  started :: bool
  forkret_first :: bool

definition kvminit :: "uint64 \<Rightarrow> 'a bootkernel_scheme \<Rightarrow> 'a bootkernel_scheme outcome" where
  "kvminit etext s =
     andThen (lift_pmr (kvmmake etext (trampoline s)) s) (\<lambda>(pt, s1). Ok (s1\<lparr>kernel_pagetable := pt\<rparr>))"

definition kvminithart :: "'a bootkernel_scheme \<Rightarrow> 'a bootkernel_scheme" where
  "kvminithart s = set_hart (\<lambda>h. h\<lparr>satp := MAKE_SATP (kernel_pagetable s)\<rparr>) s"

text \<open>The boot hart's part of \<^verbatim>\<open>main\<close>.\<close>

definition boot_first ::
    "uint64 \<Rightarrow> ((nat \<times> uint32) list \<Rightarrow> nat \<Rightarrow> uint32) \<Rightarrow> 'a bootkernel_scheme env \<Rightarrow> 'a bootkernel_scheme
     \<Rightarrow> 'a bootkernel_scheme outcome" where
  "boot_first etext rd e s =
     andThen (printf e (Some [LF]) [] (printfinit (consoleinit s))) (\<lambda>s1.
     andThen (printf e (Some (lit ''xv6 kernel is booting'' @ [LF])) [] s1) (\<lambda>s2.
     andThen (printf e (Some [LF]) [] s2) (\<lambda>s3.
     andThen (lift_pm kinit s3) (\<lambda>s4.
     andThen (kvminit etext s4) (\<lambda>s5.
     andThen (procinit (kvminithart s5)) (\<lambda>s6.
     let s7 = plicinithart (plicinit (trapinithart (trapinit s6)));
         s8 = fileinit (iinit (binit s7))
     in andThen (virtio_disk_init rd s8) (\<lambda>(_, s9).
     andThen (userinit (fsops_of e) s9) (\<lambda>s10. Ok (s10\<lparr>started := True\<rparr>)))))))))"

text \<open>The part of the other harts, which wait for the first.\<close>

definition boot_other :: "'a bootkernel_scheme env \<Rightarrow> 'a bootkernel_scheme \<Rightarrow> 'a bootkernel_scheme outcome" where
  "boot_other e s =
     (if \<not> started s then Spin
      else
        andThen (printf e (Some (lit ''hart %d starting'' @ [LF])) [PInt (of_nat (cpuid (kmach s)))] s) (\<lambda>s1.
        Ok (plicinithart (trapinithart (kvminithart s1)))))"

text \<open>\<open>main_kernel\<close>: \<^verbatim>\<open>main\<close>, with \<open>rounds\<close> rounds of the scheduler; \<open>run\<close> is what a process does when it runs.\<close>

definition main_kernel ::
    "nat \<Rightarrow> (nat \<Rightarrow> 'a bootkernel_scheme \<Rightarrow> 'a bootkernel_scheme outcome) \<Rightarrow> uint64
     \<Rightarrow> ((nat \<times> uint32) list \<Rightarrow> nat \<Rightarrow> uint32) \<Rightarrow> 'a bootkernel_scheme env \<Rightarrow> 'a bootkernel_scheme
     \<Rightarrow> (int32 \<times> 'a bootkernel_scheme) outcome" where
  "main_kernel rounds run etext rd e s =
     andThen (if cpuid (kmach s) = 0 then boot_first etext rd e s else boot_other e s) (scheduler rounds run)"

text \<open>
  \<open>forkret\<close> of kernel/proc.c, where the first run of a process begins; \<open>forkret_first\<close> is its static
  variable \<^verbatim>\<open>first\<close>. The result is that of \<^const>\<open>usertrapret\<close>.
\<close>

definition forkret ::
    "'a bootkernel_scheme env \<Rightarrow> 'a bootkernel_scheme \<Rightarrow> ((uint64 \<times> uint64) \<times> 'a bootkernel_scheme) outcome" where
  "forkret e s =
     andThen (curproc s) (\<lambda>(p, s1).
     andThen (krelease (ProcLock p) s1) (\<lambda>s2.
     andThen (if forkret_first s2 then fsinit e ROOTDEV (s2\<lparr>forkret_first := False\<rparr>) else Ok s2) usertrapret))"

section \<open>Machine mode\<close>

text \<open>Where a hart stands when \<^verbatim>\<open>start\<close> has returned with \<^verbatim>\<open>mret\<close>: the previous-mode field is supervisor.\<close>

definition mpp :: "uint64 \<Rightarrow> uint64" where
  "mpp x = drop_bit 11 x AND 3"

lemma mpp_start: "mpp (((x AND NOT MSTATUS_MPP_MASK) OR MSTATUS_MPP_S) OR MSTATUS_MIE) = 1"
proof (rule bit_word_eqI)
  fix k assume "k < LENGTH(64)"
  have m: "(3 :: uint64) = mask 2" by (simp add: mask_eq_exp_minus_1)
  have three: "bit (3 :: uint64) n \<longleftrightarrow> n = 0 \<or> n = 1" for n unfolding m bit_mask_iff by auto
  show "bit (mpp (((x AND NOT MSTATUS_MPP_MASK) OR MSTATUS_MPP_S) OR MSTATUS_MIE)) k = bit (1 :: uint64) k"
    unfolding mpp_def MSTATUS_MPP_MASK_def MSTATUS_MPP_S_def MSTATUS_MIE_def bit_and_iff bit_or_iff bit_not_iff
      bit_push_bit_iff bit_drop_bit_eq comp_def three bit_1_iff
    by auto
qed

section \<open>Properties\<close>

text \<open>
  C40. Machine mode hands over correctly: after \<^verbatim>\<open>start\<close> an \<^verbatim>\<open>mret\<close> enters \<^verbatim>\<open>main\<close> in supervisor mode with
  paging off, all traps are delegated to supervisor mode, supervisor interrupts and the machine timer are
  enabled, tp holds the hart's number, and \<^verbatim>\<open>timervec\<close> finds in its scratch area the timer register of
  this hart and the interval, with the next tick one interval away.
\<close>

theorem start_hands_over:
  assumes ap: "apart 40 scratch 8 (CLINT_MTIMECMP (mhartid h))" and st: "start entry scratch vec (h, m) = (h', m')"
  shows "mpp (mstatus h') = 1 \<and> mepc h' = entry \<and> msatp h' = 0 \<and> medeleg h' = 0xffff \<and> mideleg h' = 0xffff \<and>
    sie h' AND (SIE_SEIE OR SIE_STIE OR SIE_SSIE) = SIE_SEIE OR SIE_STIE OR SIE_SSIE \<and>
    mie h' AND MIE_MTIE = MIE_MTIE \<and> mtvec h' = vec \<and> mscratch h' = scratch \<and> mtp h' = of_nat (mhartid h) \<and>
    load64 m' (scratch + 24) = CLINT_MTIMECMP (mhartid h) \<and> load64 m' (scratch + 32) = 1000000 \<and>
    load64 m' (CLINT_MTIMECMP (mhartid h)) = load64 m CLINT_MTIME + 1000000"
proof -
  let ?c = "CLINT_MTIMECMP (mhartid h)"
  let ?m = "store64 (store64 (store64 m ?c (load64 m CLINT_MTIME + 1000000)) (scratch + 24) ?c) (scratch + 32) 1000000"
  have sub: "apart 8 (scratch + of_nat k) 8 ?c" if "k + 8 \<le> 40" for k
  proof -
    have "40 \<le> unat (?c - scratch)" "8 \<le> unat (scratch - ?c)" using ap by (auto simp: apart_def)
    then have "?c \<noteq> scratch" by auto
    have u: "unat (of_nat k :: uint64) = k" using that by (simp add: unat_of_nat)
    have lt: "unat (?c - scratch) < 2 ^ 64" using unsigned_less [of "?c - scratch", where 'a = nat] by simp
    have a: "unat ((?c - scratch) - of_nat k) = unat (?c - scratch) - k"
      using \<open>40 \<le> unat (?c - scratch)\<close> that u by (subst unat_sub) (simp_all add: word_le_nat_alt)
    have flip: "unat (scratch - ?c) = 2 ^ 64 - unat (?c - scratch)"
      by (rule unat_minus_flip) (use \<open>?c \<noteq> scratch\<close> in simp)
    have "unat (scratch - ?c) + unat (of_nat k :: uint64) < 2 ^ LENGTH(64)"
      using flip \<open>40 \<le> unat (?c - scratch)\<close> that u lt by simp
    then have "unat ((scratch - ?c) + of_nat k) = unat (scratch - ?c) + k"
      by (subst (asm) unat_add_lem) (simp add: u)
    then have "unat (scratch + of_nat k - ?c) = unat (scratch - ?c) + k" by (simp only: diff_add_eq)
    moreover have "unat (?c - (scratch + of_nat k)) = unat (?c - scratch) - k" using a by (simp only: diff_diff_eq)
    ultimately show ?thesis
      unfolding apart_def using \<open>40 \<le> unat (?c - scratch)\<close> \<open>8 \<le> unat (scratch - ?c)\<close> that by linarith
  qed
  have "apart 8 (scratch + 32) 8 (scratch + 24)" by (simp add: apart_def)
  then have m: "load64 ?m (scratch + 24) = ?c" "load64 ?m (scratch + 32) = 1000000"
    "load64 ?m ?c = load64 m CLINT_MTIME + 1000000"
    using sub [of 24] sub [of 32] by (simp_all add: load64_store64_apart)
  have "h' = h\<lparr>mstatus := ((mstatus h AND NOT MSTATUS_MPP_MASK) OR MSTATUS_MPP_S) OR MSTATUS_MIE,
      mepc := entry, msatp := 0, medeleg := 0xffff, mideleg := 0xffff, sie := sie h OR SIE_SEIE OR SIE_STIE OR SIE_SSIE,
      pmpaddr0 := 0x3fffffffffffff, pmpcfg0 := 0xf, mscratch := scratch, mtvec := vec, mie := mie h OR MIE_MTIE,
      mtp := of_nat (mhartid h)\<rparr> \<and> m' = ?m"
    using st by (cases h) (auto simp: start_def timerinit_def Let_def)
  moreover have "(sie h OR SIE_SEIE OR SIE_STIE OR SIE_SSIE) AND (SIE_SEIE OR SIE_STIE OR SIE_SSIE) =
      SIE_SEIE OR SIE_STIE OR SIE_SSIE" "(mie h OR MIE_MTIE) AND MIE_MTIE = MIE_MTIE"
    by (auto intro!: bit_word_eqI simp: bit_or_iff bit_and_iff)
  ultimately show ?thesis using mpp_start [of "mstatus h"] m by simp
qed

definition reset_hart :: mhart where
  "reset_hart = \<lparr>mstatus = 0, mepc = 0, msatp = 0, medeleg = 0, mideleg = 0, sie = 0, pmpaddr0 = 0, pmpcfg0 = 0,
     mscratch = 0, mtvec = 0, mie = 0, mhartid = 1, mtp = 0\<rparr>"

theorem start_hands_over_witness:
  "\<exists>h' m'. start 0x80000100 0x80009000 0x80005000 (reset_hart, \<lambda>_. 0) = (h', m') \<and>
     mepc h' = 0x80000100 \<and> load64 m' (0x80009000 + 32) = 1000000"
proof -
  obtain h' m' where st: "start 0x80000100 0x80009000 0x80005000 (reset_hart, \<lambda>_. 0) = (h', m')" by fastforce
  have "apart 40 0x80009000 8 (CLINT_MTIMECMP (mhartid reset_hart))"
    by (simp add: apart_def CLINT_MTIMECMP_def CLINT_def reset_hart_def)
  from start_hands_over [OF this st] st show ?thesis by blast
qed

end
