(* ===== verification/Asm.thy ===== *)
theory Asm
  imports Physmem
begin

text \<open>
  The assembly code of the kernel: the context switch (kernel/swtch.S), the code that enters and
  leaves the kernel (kernel/trampoline.S) and the vectors of kernel/kernelvec.S. An instruction is a
  function on the registers, the control registers and the memory that the current page table shows.
  The lemmas show that what is saved is what is restored.
\<close>

section \<open>Instructions\<close>

datatype reg =
    RA | SP | GP | TP | T0 | T1 | T2 | S0 | S1 | A0 | A1 | A2 | A3 | A4 | A5 | A6 | A7
  | S2 | S3 | S4 | S5 | S6 | S7 | S8 | S9 | S10 | S11 | T3 | T4 | T5 | T6

datatype csr = SSCRATCH | SATP | SIP | MSCRATCH

datatype instr =
    SD reg nat reg | LD reg nat reg | LI reg uint64 | ADDI reg reg int | ADD reg reg reg
  | CSRW csr reg | CSRR reg csr | CSRRW reg csr reg | SFENCE

record hartstate =
  regs :: "reg \<Rightarrow> uint64"
  csrs :: "csr \<Rightarrow> uint64"
  amem :: memory

definition set_reg :: "reg \<Rightarrow> uint64 \<Rightarrow> hartstate \<Rightarrow> hartstate" where
  "set_reg r x s = s\<lparr>regs := (regs s)(r := x)\<rparr>"

definition set_csr :: "csr \<Rightarrow> uint64 \<Rightarrow> hartstate \<Rightarrow> hartstate" where
  "set_csr c x s = s\<lparr>csrs := (csrs s)(c := x)\<rparr>"

fun step :: "instr \<Rightarrow> hartstate \<Rightarrow> hartstate" where
  "step (SD r off b) s = s\<lparr>amem := store64 (amem s) (regs s b + of_nat off) (regs s r)\<rparr>"
| "step (LD r off b) s = set_reg r (load64 (amem s) (regs s b + of_nat off)) s"
| "step (LI r x) s = set_reg r x s"
| "step (ADDI r a i) s = set_reg r (regs s a + word_of_int i) s"
| "step (ADD r a b) s = set_reg r (regs s a + regs s b) s"
| "step (CSRW c r) s = set_csr c (regs s r) s"
| "step (CSRR r c) s = set_reg r (csrs s c) s"
| "step (CSRRW r c a) s = set_reg r (csrs s c) (set_csr c (regs s a) s)"
| "step SFENCE s = s"

definition run :: "instr list \<Rightarrow> hartstate \<Rightarrow> hartstate" where
  "run = fold step"

section \<open>kernel/swtch.S, kernel/trampoline.S and kernel/kernelvec.S\<close>

text \<open>
  Each list ends where the code leaves it: \<^verbatim>\<open>ret\<close>, \<^verbatim>\<open>jr t0\<close>, \<^verbatim>\<open>sret\<close>, \<^verbatim>\<open>call kerneltrap\<close> or \<^verbatim>\<open>mret\<close>.
\<close>

definition swtch_code :: "instr list" where
  "swtch_code =
    [SD RA 0 A0, SD SP 8 A0, SD S0 16 A0, SD S1 24 A0, SD S2 32 A0, SD S3 40 A0, SD S4 48 A0, SD S5 56 A0,
     SD S6 64 A0, SD S7 72 A0, SD S8 80 A0, SD S9 88 A0, SD S10 96 A0, SD S11 104 A0, LD RA 0 A1,
     LD SP 8 A1, LD S0 16 A1, LD S1 24 A1, LD S2 32 A1, LD S3 40 A1, LD S4 48 A1, LD S5 56 A1, LD S6 64 A1,
     LD S7 72 A1, LD S8 80 A1, LD S9 88 A1, LD S10 96 A1, LD S11 104 A1]"

definition uservec_code :: "instr list" where
  "uservec_code =
    [CSRW SSCRATCH A0, LI A0 TRAPFRAME, SD RA 40 A0, SD SP 48 A0, SD GP 56 A0, SD TP 64 A0, SD T0 72 A0,
     SD T1 80 A0, SD T2 88 A0, SD S0 96 A0, SD S1 104 A0, SD A1 120 A0, SD A2 128 A0, SD A3 136 A0,
     SD A4 144 A0, SD A5 152 A0, SD A6 160 A0, SD A7 168 A0, SD S2 176 A0, SD S3 184 A0, SD S4 192 A0,
     SD S5 200 A0, SD S6 208 A0, SD S7 216 A0, SD S8 224 A0, SD S9 232 A0, SD S10 240 A0, SD S11 248 A0,
     SD T3 256 A0, SD T4 264 A0, SD T5 272 A0, SD T6 280 A0, CSRR T0 SSCRATCH, SD T0 112 A0, LD SP 8 A0,
     LD TP 32 A0, LD T0 16 A0, LD T1 0 A0, SFENCE, CSRW SATP T1, SFENCE]"

definition userret_code :: "instr list" where
  "userret_code =
    [SFENCE, CSRW SATP A0, SFENCE, LI A0 TRAPFRAME, LD RA 40 A0, LD SP 48 A0, LD GP 56 A0, LD TP 64 A0,
     LD T0 72 A0, LD T1 80 A0, LD T2 88 A0, LD S0 96 A0, LD S1 104 A0, LD A1 120 A0, LD A2 128 A0,
     LD A3 136 A0, LD A4 144 A0, LD A5 152 A0, LD A6 160 A0, LD A7 168 A0, LD S2 176 A0, LD S3 184 A0,
     LD S4 192 A0, LD S5 200 A0, LD S6 208 A0, LD S7 216 A0, LD S8 224 A0, LD S9 232 A0, LD S10 240 A0,
     LD S11 248 A0, LD T3 256 A0, LD T4 264 A0, LD T5 272 A0, LD T6 280 A0, LD A0 112 A0]"

definition kernelvec_enter :: "instr list" where
  "kernelvec_enter =
    [ADDI SP SP (-256), SD RA 0 SP, SD SP 8 SP, SD GP 16 SP, SD TP 24 SP, SD T0 32 SP, SD T1 40 SP,
     SD T2 48 SP, SD S0 56 SP, SD S1 64 SP, SD A0 72 SP, SD A1 80 SP, SD A2 88 SP, SD A3 96 SP,
     SD A4 104 SP, SD A5 112 SP, SD A6 120 SP, SD A7 128 SP, SD S2 136 SP, SD S3 144 SP, SD S4 152 SP,
     SD S5 160 SP, SD S6 168 SP, SD S7 176 SP, SD S8 184 SP, SD S9 192 SP, SD S10 200 SP, SD S11 208 SP,
     SD T3 216 SP, SD T4 224 SP, SD T5 232 SP, SD T6 240 SP]"

definition kernelvec_leave :: "instr list" where
  "kernelvec_leave =
    [LD RA 0 SP, LD SP 8 SP, LD GP 16 SP, LD T0 32 SP, LD T1 40 SP, LD T2 48 SP, LD S0 56 SP, LD S1 64 SP,
     LD A0 72 SP, LD A1 80 SP, LD A2 88 SP, LD A3 96 SP, LD A4 104 SP, LD A5 112 SP, LD A6 120 SP,
     LD A7 128 SP, LD S2 136 SP, LD S3 144 SP, LD S4 152 SP, LD S5 160 SP, LD S6 168 SP, LD S7 176 SP,
     LD S8 184 SP, LD S9 192 SP, LD S10 200 SP, LD S11 208 SP, LD T3 216 SP, LD T4 224 SP, LD T5 232 SP,
     LD T6 240 SP, ADDI SP SP (256)]"

definition timervec_code :: "instr list" where
  "timervec_code =
    [CSRRW A0 MSCRATCH A0, SD A1 0 A0, SD A2 8 A0, SD A3 16 A0, LD A1 24 A0, LD A2 32 A0, LD A3 0 A1,
     ADD A3 A3 A2, SD A3 0 A1, LI A1 2, CSRW SIP A1, LD A3 16 A0, LD A2 8 A0, LD A1 0 A0,
     CSRRW A0 MSCRATCH A0]"

section \<open>Saving and restoring a frame\<close>

text \<open>A frame lists registers with the offsets at which they are kept.\<close>

type_synonym frame = "(reg \<times> nat) list"

definition frame_ok :: "frame \<Rightarrow> bool" where
  "frame_ok fr \<longleftrightarrow> distinct (map fst fr) \<and> distinct (map snd fr) \<and> (\<forall>off \<in> set (map snd fr). 8 dvd off \<and> off < 4096)"

definition save_all :: "frame \<Rightarrow> uint64 \<Rightarrow> (reg \<Rightarrow> uint64) \<Rightarrow> memory \<Rightarrow> memory" where
  "save_all fr a rf m = fold (\<lambda>(r, off) m. store64 m (a + of_nat off) (rf r)) fr m"

lemma offsets_apart:
  assumes "8 dvd i" "8 dvd j" "i < 4096" "j < 4096" "i \<noteq> j"
  shows "apart 8 (a + of_nat i) 8 (a + of_nat j)"
proof -
  have d: "i + 8 \<le> j \<or> j + 8 \<le> i" using assms by (auto elim!: dvdE)
  have sub: "unat ((of_nat y :: uint64) - of_nat x) = (if x \<le> y then y - x else 2 ^ 64 - (x - y))"
    if "x < 4096" "y < 4096" for x y
    using that by (simp add: unat_sub_if_size word_size unat_of_nat) arith
  have "(a + of_nat j) - (a + of_nat i) = of_nat j - of_nat i" "(a + of_nat i) - (a + of_nat j) = of_nat i - of_nat j"
    by simp_all
  then show ?thesis unfolding apart_def using d
  proof (elim disjE)
    assume "i + 8 \<le> j"
    then show "8 \<le> unat (a + of_nat j - (a + of_nat i)) \<and> 8 \<le> unat (a + of_nat i - (a + of_nat j))"
      using sub [OF assms(3,4)] sub [OF assms(4,3)] assms(3,4) by simp arith
  next
    assume "j + 8 \<le> i"
    then show "8 \<le> unat (a + of_nat j - (a + of_nat i)) \<and> 8 \<le> unat (a + of_nat i - (a + of_nat j))"
      using sub [OF assms(3,4)] sub [OF assms(4,3)] assms(3,4) by simp arith
  qed
qed

lemma save_all_Cons: "save_all ((r, off) # fr) a rf m = save_all fr a rf (store64 m (a + of_nat off) (rf r))"
  by (simp add: save_all_def)

lemma load_save_other:
  assumes "\<forall>i \<in> set (map snd fr). 8 dvd i \<and> i < 4096" and "8 dvd off" "off < 4096" "off \<notin> set (map snd fr)"
  shows "load64 (save_all fr a rf m) (a + of_nat off) = load64 m (a + of_nat off)"
  using assms
proof (induction fr arbitrary: m)
  case Nil
  then show ?case by (simp add: save_all_def)
next
  case (Cons x fr)
  obtain r i where x: "x = (r, i)" by (cases x)
  have "apart 8 (a + of_nat i) 8 (a + of_nat off)" using Cons.prems x by (intro offsets_apart) auto
  then show ?case using Cons.IH [of "store64 m (a + of_nat i) (rf r)"] Cons.prems
    by (simp add: x save_all_Cons load64_store64_apart)
qed

lemma load_saved:
  assumes "frame_ok fr" and "(r, off) \<in> set fr"
  shows "load64 (save_all fr a rf m) (a + of_nat off) = rf r"
  using assms
proof (induction fr arbitrary: m)
  case Nil
  then show ?case by simp
next
  case (Cons x fr)
  obtain q i where x: "x = (q, i)" by (cases x)
  have ok: "frame_ok fr" using Cons.prems(1) by (simp add: frame_ok_def)
  show ?case
  proof (cases "(r, off) \<in> set fr")
    case True
    then show ?thesis using Cons.IH [OF ok] by (simp add: x save_all_Cons)
  next
    case False
    then have "q = r" "i = off" using Cons.prems(2) x by auto
    moreover have "load64 (save_all fr a rf (store64 m (a + of_nat i) (rf q))) (a + of_nat i) = rf q"
      using Cons.prems(1) x load_save_other [of fr i a rf "store64 m (a + of_nat i) (rf q)"]
      by (simp add: frame_ok_def)
    ultimately show ?thesis by (simp add: x save_all_Cons)
  qed
qed

lemma save_all_outside:
  assumes "\<forall>i \<in> set (map snd fr). i + 8 \<le> n" and "n \<le> unat (x - a)"
  shows "save_all fr a rf m x = m x"
  using assms
proof (induction fr arbitrary: m)
  case Nil
  then show ?case by (simp add: save_all_def)
next
  case (Cons y fr)
  obtain q i where y: "y = (q, i)" by (cases y)
  have le: "i + 8 \<le> n" "n \<le> unat (x - a)" using Cons.prems y by auto
  have lt: "unat (x - a) < 2 ^ 64" using unsigned_less [of "x - a", where 'a = nat] by simp
  have i: "unat (of_nat i :: uint64) = i" using le lt by (simp add: unat_of_nat)
  have "unat ((x - a) - of_nat i) = unat (x - a) - i"
    using le i by (subst unat_sub) (simp_all add: word_le_nat_alt)
  then have "unat (x - (a + of_nat i)) = unat (x - a) - i" by (simp only: diff_diff_eq)
  then have "8 \<le> unat (x - (a + of_nat i))" using le by linarith
  then show ?case using Cons by (simp add: y save_all_Cons store64_outside)
qed

lemma run_append: "run (p @ q) s = run q (run p s)"
  by (simp add: run_def)

lemma run_Cons: "run (i # p) s = run p (step i s)"
  by (simp add: run_def)

lemma run_Nil [simp]: "run [] s = s"
  by (simp add: run_def)

lemma run_saves: "run (map (\<lambda>(r, off). SD r off b) fr) s = s\<lparr>amem := save_all fr (regs s b) (regs s) (amem s)\<rparr>"
  by (induction fr arbitrary: s) (auto simp: run_def save_all_def)

definition loaded :: "frame \<Rightarrow> uint64 \<Rightarrow> memory \<Rightarrow> (reg \<Rightarrow> uint64) \<Rightarrow> reg \<Rightarrow> uint64" where
  "loaded fr a m rf r = (case map_of fr r of None \<Rightarrow> rf r | Some off \<Rightarrow> load64 m (a + of_nat off))"

text \<open>The base register may be restored with the others, if its slot holds its own value.\<close>

lemma run_loads:
  assumes "distinct (map fst fr)" and "\<forall>off. (b, off) \<in> set fr \<longrightarrow> load64 (amem s) (regs s b + of_nat off) = regs s b"
  shows "run (map (\<lambda>(r, off). LD r off b) fr) s = s\<lparr>regs := loaded fr (regs s b) (amem s) (regs s)\<rparr>"
  using assms
proof (induction fr arbitrary: s)
  case Nil
  have "loaded [] (regs s b) (amem s) (regs s) = regs s" by (simp add: loaded_def fun_eq_iff)
  then show ?case by simp
next
  case (Cons x fr)
  obtain r i where x: "x = (r, i)" by (cases x)
  let ?s = "set_reg r (load64 (amem s) (regs s b + of_nat i)) s"
  have b: "regs ?s b = regs s b" using Cons.prems(2) x by (auto simp: set_reg_def)
  have m: "amem ?s = amem s" by (simp add: set_reg_def)
  have "loaded fr (regs s b) (amem s) (regs ?s) = loaded (x # fr) (regs s b) (amem s) (regs s)"
  proof
    fix q
    have "map_of fr r = None" using Cons.prems(1) x by (simp add: map_of_eq_None_iff)
    then show "loaded fr (regs s b) (amem s) (regs ?s) q = loaded (x # fr) (regs s b) (amem s) (regs s) q"
      by (cases "q = r") (simp_all add: loaded_def set_reg_def x split: option.split)
  qed
  moreover have "run (map (\<lambda>(r, off). LD r off b) fr) ?s = ?s\<lparr>regs := loaded fr (regs ?s b) (amem ?s) (regs ?s)\<rparr>"
    using Cons.prems by (intro Cons.IH) (simp_all add: b m)
  moreover have "?s\<lparr>regs := f\<rparr> = s\<lparr>regs := f\<rparr>" for f by (simp add: set_reg_def)
  ultimately have "run (map (\<lambda>(r, off). LD r off b) fr) ?s = s\<lparr>regs := loaded (x # fr) (regs s b) (amem s) (regs s)\<rparr>"
    by (simp only: b m)
  then show ?case by (simp add: run_Cons x)
qed

lemma loaded_saved:
  assumes "frame_ok fr" and "(r, off) \<in> set fr"
  shows "loaded fr a (save_all fr a rf m) rf' r = rf r"
proof -
  have "map_of fr r = Some off" using assms by (auto simp: frame_ok_def intro: map_of_is_SomeI)
  then show ?thesis using load_saved [OF assms] by (simp add: loaded_def)
qed

section \<open>The frames of the four routines\<close>

definition context_frame :: frame where
  "context_frame = [(RA, 0), (SP, 8), (S0, 16), (S1, 24), (S2, 32), (S3, 40), (S4, 48), (S5, 56), (S6, 64),
     (S7, 72), (S8, 80), (S9, 88), (S10, 96), (S11, 104)]"

text \<open>The registers of \<^verbatim>\<open>struct trapframe\<close> but a0, and those that kernelvec saves but tp.\<close>

definition user_frame :: frame where
  "user_frame = [(RA, 40), (SP, 48), (GP, 56), (TP, 64), (T0, 72), (T1, 80), (T2, 88), (S0, 96), (S1, 104),
     (A1, 120), (A2, 128), (A3, 136), (A4, 144), (A5, 152), (A6, 160), (A7, 168), (S2, 176), (S3, 184),
     (S4, 192), (S5, 200), (S6, 208), (S7, 216), (S8, 224), (S9, 232), (S10, 240), (S11, 248), (T3, 256),
     (T4, 264), (T5, 272), (T6, 280)]"

definition kernel_frame :: frame where
  "kernel_frame = [(RA, 0), (SP, 8), (GP, 16), (T0, 32), (T1, 40), (T2, 48), (S0, 56), (S1, 64), (A0, 72),
     (A1, 80), (A2, 88), (A3, 96), (A4, 104), (A5, 112), (A6, 120), (A7, 128), (S2, 136), (S3, 144),
     (S4, 152), (S5, 160), (S6, 168), (S7, 176), (S8, 184), (S9, 192), (S10, 200), (S11, 208), (T3, 216),
     (T4, 224), (T5, 232), (T6, 240)]"

lemma frames_ok: "frame_ok context_frame" "frame_ok user_frame" "frame_ok kernel_frame"
  by (simp_all add: frame_ok_def context_frame_def user_frame_def kernel_frame_def)

lemma swtch_code_eq:
  "swtch_code = map (\<lambda>(r, off). SD r off A0) context_frame @ map (\<lambda>(r, off). LD r off A1) context_frame"
  by (simp add: swtch_code_def context_frame_def)

lemma uservec_code_eq:
  "uservec_code = [CSRW SSCRATCH A0, LI A0 TRAPFRAME] @ map (\<lambda>(r, off). SD r off A0) user_frame @
     [CSRR T0 SSCRATCH, SD T0 112 A0, LD SP 8 A0, LD TP 32 A0, LD T0 16 A0, LD T1 0 A0, SFENCE, CSRW SATP T1, SFENCE]"
  by (simp add: uservec_code_def user_frame_def)

lemma userret_code_eq:
  "userret_code = [SFENCE, CSRW SATP A0, SFENCE, LI A0 TRAPFRAME] @ map (\<lambda>(r, off). LD r off A0) user_frame @ [LD A0 112 A0]"
  by (simp add: userret_code_def user_frame_def)

definition kernel_saves :: frame where
  "kernel_saves = take 3 kernel_frame @ [(TP, 24)] @ drop 3 kernel_frame"

lemma kernel_saves_ok: "frame_ok kernel_saves" and kernel_saves_set: "set kernel_saves = insert (TP, 24) (set kernel_frame)"
  by (simp_all add: frame_ok_def kernel_saves_def kernel_frame_def insert_commute)

lemma kernelvec_enter_eq: "kernelvec_enter = ADDI SP SP (-256) # map (\<lambda>(r, off). SD r off SP) kernel_saves"
  by (simp add: kernelvec_enter_def kernel_saves_def kernel_frame_def)

lemma kernelvec_leave_eq: "kernelvec_leave = map (\<lambda>(r, off). LD r off SP) kernel_frame @ [ADDI SP SP 256]"
  by (simp add: kernelvec_leave_def kernel_frame_def)

lemma frame_offsets:
  "\<forall>i \<in> set (map snd context_frame). i + 8 \<le> 112" "\<forall>i \<in> set (map snd user_frame). 8 dvd i \<and> i < 4096"
  "\<forall>i \<in> set (map snd user_frame). 40 \<le> i \<and> i \<noteq> 112 \<and> i < 288"
  by (simp_all add: context_frame_def user_frame_def)

lemma load_outside:
  assumes "apart n a k b" and "\<forall>i \<in> set (map snd fr). i + 8 \<le> n" and "off + 8 \<le> k"
  shows "load64 (save_all fr a rf m) (b + of_nat off) = load64 m (b + of_nat off)"
proof (rule load64_cong)
  fix x assume x: "unat (x - (b + of_nat off)) < 8"
  have k: "k < 2 ^ 64" using assms(1) unsigned_less [of "a - b", where 'a = nat] by (simp add: apart_def)
  have off: "unat (of_nat off :: uint64) = off" using assms(3) k by (simp add: unat_of_nat)
  have "x - b = (x - (b + of_nat off)) + of_nat off" by simp
  moreover have "unat (x - (b + of_nat off)) + unat (of_nat off :: uint64) < 2 ^ 64" using x off assms(3) k by linarith
  ultimately have "unat (x - b) = unat (x - (b + of_nat off)) + off"
    using unat_add_lem [of "x - (b + of_nat off)" "of_nat off"] off by simp
  then have "unat (x - b) < k" using x assms(3) by linarith
  with assms(1) have "n \<le> unat (x - a)" by (rule apart_offset)
  then show "save_all fr a rf m x = m x" by (rule save_all_outside [OF assms(2)])
qed

lemma loaded_at: "distinct (map fst fr) \<Longrightarrow> (r, off) \<in> set fr \<Longrightarrow> loaded fr a m rf r = load64 m (a + of_nat off)"
  by (simp add: loaded_def)

lemma loaded_other: "r \<notin> fst ` set fr \<Longrightarrow> loaded fr a m rf r = rf r"
  by (simp add: loaded_def map_of_eq_None_iff [symmetric])

lemma run_swtch:
  "run swtch_code s = (let m = save_all context_frame (regs s A0) (regs s) (amem s) in
     s\<lparr>amem := m, regs := loaded context_frame (regs s A1) m (regs s)\<rparr>)"
proof -
  let ?t = "s\<lparr>amem := save_all context_frame (regs s A0) (regs s) (amem s)\<rparr>"
  have "run (map (\<lambda>(r, off). LD r off A1) context_frame) ?t = ?t\<lparr>regs := loaded context_frame (regs ?t A1) (amem ?t) (regs ?t)\<rparr>"
    by (rule run_loads) (simp_all add: context_frame_def)
  then show ?thesis by (simp add: swtch_code_eq run_append run_saves Let_def)
qed

lemma run_uservec:
  "run uservec_code s =
     (let m = store64 (save_all user_frame TRAPFRAME (regs s) (amem s)) (TRAPFRAME + 112) (regs s A0);
          t1 = load64 m TRAPFRAME
      in s\<lparr>regs := (regs s)(A0 := TRAPFRAME, SP := load64 m (TRAPFRAME + 8), TP := load64 m (TRAPFRAME + 32),
             T0 := load64 m (TRAPFRAME + 16), T1 := t1),
           csrs := (csrs s)(SSCRATCH := regs s A0, SATP := t1), amem := m\<rparr>)"
proof -
  have A0: "(A0, i) \<notin> set user_frame" for i by (simp add: user_frame_def)
  have "save_all user_frame a ((regs s)(A0 := x)) m = save_all user_frame a (regs s) m" for a x m
    unfolding save_all_def by (rule fold_cong) (auto simp: A0)
  then show ?thesis
    by (simp add: uservec_code_eq run_append run_Cons run_saves Let_def set_reg_def set_csr_def fun_upd_twist)
qed

lemma run_userret:
  "run userret_code u = u\<lparr>csrs := (csrs u)(SATP := regs u A0),
     regs := (loaded user_frame TRAPFRAME (amem u) (regs u))(A0 := load64 (amem u) (TRAPFRAME + 112))\<rparr>"
proof -
  let ?t = "u\<lparr>csrs := (csrs u)(SATP := regs u A0), regs := (regs u)(A0 := TRAPFRAME)\<rparr>"
  have A0: "A0 \<notin> fst ` set user_frame" by (simp add: user_frame_def)
  have "run (map (\<lambda>(r, off). LD r off A0) user_frame) ?t = ?t\<lparr>regs := loaded user_frame (regs ?t A0) (amem ?t) (regs ?t)\<rparr>"
    by (rule run_loads) (simp_all add: user_frame_def)
  moreover have "(loaded user_frame a m ((regs u)(A0 := x)))(A0 := y) = (loaded user_frame a m (regs u))(A0 := y)" for a m x y
    by (auto simp: loaded_def fun_eq_iff split: option.split)
  moreover have "loaded user_frame a m ((regs u)(A0 := x)) A0 = x" for a m x using A0 by (simp add: loaded_other)
  ultimately show ?thesis
    by (simp add: userret_code_eq run_append run_Cons set_reg_def set_csr_def)
qed

section \<open>Properties\<close>

text \<open>
  C39. The context switch saves the old thread and resumes the new one: after \<^verbatim>\<open>swtch(old, new)\<close>, on
  contexts that do not overlap, \<^verbatim>\<open>old\<close> holds the callee-saved registers, ra and sp as they were, those
  registers have the values that \<^verbatim>\<open>new\<close> held, and every other register is unchanged.
\<close>

theorem swtch_saves_and_resumes:
  assumes "apart 112 (regs s A0) 112 (regs s A1)"
  shows "(\<forall>(r, off) \<in> set context_frame.
      load64 (amem (run swtch_code s)) (regs s A0 + of_nat off) = regs s r \<and>
      regs (run swtch_code s) r = load64 (amem s) (regs s A1 + of_nat off)) \<and>
    (\<forall>r. r \<notin> fst ` set context_frame \<longrightarrow> regs (run swtch_code s) r = regs s r)"
proof -
  let ?m = "save_all context_frame (regs s A0) (regs s) (amem s)"
  have 1: "load64 ?m (regs s A0 + of_nat off) = regs s r" if "(r, off) \<in> set context_frame" for r off
    using load_saved [OF frames_ok(1) that] .
  have 2: "loaded context_frame (regs s A1) ?m (regs s) r = load64 (amem s) (regs s A1 + of_nat off)"
    if "(r, off) \<in> set context_frame" for r off
  proof -
    have "off + 8 \<le> 112" using frame_offsets(1) that by auto
    moreover have "distinct (map fst context_frame)" using frames_ok(1) by (simp add: frame_ok_def)
    ultimately show ?thesis using loaded_at [OF _ that] load_outside [OF assms frame_offsets(1)] by simp
  qed
  show ?thesis unfolding run_swtch Let_def using 1 2 by (auto simp: loaded_other)
qed

theorem swtch_saves_and_resumes_witness:
  "let s = \<lparr>regs = (\<lambda>_. 7)(A0 := 0x1000, A1 := 0x2000), csrs = \<lambda>_. 0, amem = \<lambda>_. 0\<rparr> in
     load64 (amem (run swtch_code s)) (0x1000 + of_nat 8) = 7 \<and> regs (run swtch_code s) SP = load64 (amem s) (0x2000 + of_nat 8)"
proof -
  let ?s = "\<lparr>regs = (\<lambda>_. 7)(A0 := 0x1000, A1 := 0x2000), csrs = \<lambda>_. 0, amem = \<lambda>_. 0\<rparr>"
  have "apart 112 (regs ?s A0) 112 (regs ?s A1)" by (simp add: apart_def)
  from conjunct1 [OF swtch_saves_and_resumes [OF this]] have "case (SP, 8) of (r, off) \<Rightarrow>
      load64 (amem (run swtch_code ?s)) (regs ?s A0 + of_nat off) = regs ?s r \<and>
      regs (run swtch_code ?s) r = load64 (amem ?s) (regs ?s A1 + of_nat off)"
    by (rule bspec) (simp add: context_frame_def)
  then show ?thesis by (simp add: Let_def)
qed

text \<open>
  C29. A trap from user space loses nothing: \<^verbatim>\<open>uservec\<close> stores the user's registers in the trapframe and
  enters the kernel with the stack, hart number, handler and page table that \<^verbatim>\<open>usertrapret\<close> left there;
  and whatever the kernel does in between, if it leaves the saved registers in the trapframe as they are,
  \<^verbatim>\<open>userret\<close> gives every register its old value and installs the page table passed in a0.
\<close>

theorem trap_roundtrip:
  assumes saved: "\<forall>off. 8 dvd off \<longrightarrow> 40 \<le> off \<longrightarrow> off < 288 \<longrightarrow>
      load64 (amem u) (TRAPFRAME + of_nat off) = load64 (amem (run uservec_code s)) (TRAPFRAME + of_nat off)"
  shows "regs (run userret_code u) = regs s \<and> csrs (run userret_code u) SATP = regs u A0 \<and>
    regs (run uservec_code s) SP = load64 (amem s) (TRAPFRAME + 8) \<and>
    regs (run uservec_code s) T0 = load64 (amem s) (TRAPFRAME + 16) \<and>
    regs (run uservec_code s) TP = load64 (amem s) (TRAPFRAME + 32) \<and>
    csrs (run uservec_code s) SATP = load64 (amem s) TRAPFRAME"
proof -
  let ?base = "save_all user_frame TRAPFRAME (regs s) (amem s)"
  let ?m = "store64 ?base (TRAPFRAME + 112) (regs s A0)"
  have m: "amem (run uservec_code s) = ?m" by (simp add: run_uservec Let_def)
  have other: "load64 ?m (TRAPFRAME + of_nat off) = load64 ?base (TRAPFRAME + of_nat off)"
    if "8 dvd off" "off < 4096" "off \<noteq> 112" for off
    using that offsets_apart [of 112 off TRAPFRAME] by (simp add: load64_store64_apart)
  have low: "load64 ?m (TRAPFRAME + of_nat off) = load64 (amem s) (TRAPFRAME + of_nat off)" if "8 dvd off" "off < 40" for off
  proof -
    have "off \<notin> set (map snd user_frame)" using frame_offsets(3) that by auto
    moreover have "off < 4096" "off \<noteq> 112" using that by auto
    ultimately show ?thesis using other [OF that(1)] load_save_other [OF frame_offsets(2) that(1)] by metis
  qed
  have "regs (run userret_code u) r = regs s r" for r
  proof (cases "r = A0")
    case True
    then show ?thesis using saved [rule_format, of 112] m by (simp add: run_userret)
  next
    case False
    then obtain off where off: "(r, off) \<in> set user_frame" by (cases r) (auto simp: user_frame_def)
    then have o: "8 dvd off" "40 \<le> off" "off \<noteq> 112" "off < 288" using frame_offsets(2,3) by auto
    have d: "distinct (map fst user_frame)" using frames_ok(2) by (simp add: frame_ok_def)
    have "regs (run userret_code u) r = load64 (amem u) (TRAPFRAME + of_nat off)"
      using False by (simp add: run_userret loaded_at [OF d off])
    also have "\<dots> = load64 ?base (TRAPFRAME + of_nat off)" using saved o m other [of off] by simp
    also have "\<dots> = regs s r" by (rule load_saved [OF frames_ok(2) off])
    finally show ?thesis .
  qed
  then show ?thesis using low [of 8] low [of 16] low [of 32] low [of 0]
    by (simp add: fun_eq_iff run_userret run_uservec Let_def)
qed

theorem trap_roundtrip_witness:
  "let s = \<lparr>regs = \<lambda>r. if r = SP then 0x4000 else 5, csrs = \<lambda>_. 0, amem = \<lambda>_. 0\<rparr>;
       k = run uservec_code s
   in regs (run userret_code (k\<lparr>regs := \<lambda>_. 9\<rparr>)) = regs s"
  unfolding Let_def by (rule conjunct1 [OF trap_roundtrip]) simp

text \<open>
  A trap inside the kernel is invisible to the interrupted code: if \<^verbatim>\<open>kerneltrap\<close>, called between the
  two halves of \<^verbatim>\<open>kernelvec\<close>, returns with the stack pointer it was called with and has left the 256 bytes
  above it alone, every register but tp has its old value when the code goes on.
\<close>

theorem kernelvec_roundtrip:
  assumes sp: "regs u SP = regs (run kernelvec_enter s) SP"
    and saved: "\<forall>off. 8 dvd off \<longrightarrow> off < 256 \<longrightarrow>
      load64 (amem u) (regs u SP + of_nat off) = load64 (amem (run kernelvec_enter s)) (regs u SP + of_nat off)"
    and r: "r \<noteq> TP"
  shows "regs (run kernelvec_leave u) r = regs s r"
proof -
  let ?sp = "regs s SP - 256" and ?rf = "(regs s)(SP := regs s SP - 256)"
  have e: "run kernelvec_enter s = s\<lparr>regs := ?rf, amem := save_all kernel_saves ?sp ?rf (amem s)\<rparr>"
    by (simp add: kernelvec_enter_eq run_Cons run_saves set_reg_def)
  have sp': "regs u SP = ?sp" using sp e by simp
  have bound: "8 dvd off \<and> off < 256" if "(q, off) \<in> set kernel_frame" for q off
    using that by (auto simp: kernel_frame_def)
  have at: "load64 (amem u) (?sp + of_nat off) = ?rf q" if "(q, off) \<in> set kernel_frame" for q off
  proof -
    have "load64 (amem u) (?sp + of_nat off) = load64 (save_all kernel_saves ?sp ?rf (amem s)) (?sp + of_nat off)"
      using saved bound [OF that] e sp' by simp
    also have "\<dots> = ?rf q" using that kernel_saves_set by (intro load_saved [OF kernel_saves_ok]) auto
    finally show ?thesis .
  qed
  have d: "distinct (map fst kernel_frame)" using frames_ok(3) by (simp add: frame_ok_def)
  have "run (map (\<lambda>(r, off). LD r off SP) kernel_frame) u = u\<lparr>regs := loaded kernel_frame (regs u SP) (amem u) (regs u)\<rparr>"
    using at [of SP] by (intro run_loads d) (auto simp: sp')
  then have l: "run kernelvec_leave u = set_reg SP (loaded kernel_frame ?sp (amem u) (regs u) SP + 256)
      (u\<lparr>regs := loaded kernel_frame ?sp (amem u) (regs u)\<rparr>)"
    by (simp add: kernelvec_leave_eq run_append run_Cons sp')
  obtain off where off: "(r, off) \<in> set kernel_frame" using r by (cases r) (auto simp: kernel_frame_def)
  have "(SP, 8) \<in> set kernel_frame" by (simp add: kernel_frame_def)
  from at [OF this] have "loaded kernel_frame ?sp (amem u) (regs u) SP = ?sp"
    using loaded_at [OF d \<open>(SP, 8) \<in> set kernel_frame\<close>] by simp
  then show ?thesis using at [OF off] loaded_at [OF d off] by (cases "r = SP") (simp_all add: l set_reg_def)
qed

theorem kernelvec_roundtrip_witness:
  "let s = \<lparr>regs = \<lambda>r. if r = SP then 0x4000 else 5, csrs = \<lambda>_. 0, amem = \<lambda>_. 0\<rparr>;
       k = run kernelvec_enter s
   in regs (run kernelvec_leave (k\<lparr>regs := (\<lambda>_. 9)(SP := regs k SP)\<rparr>)) A0 = 5"
proof -
  let ?s = "\<lparr>regs = \<lambda>r. if r = SP then 0x4000 else 5, csrs = \<lambda>_. 0, amem = \<lambda>_. 0\<rparr>"
  let ?u = "(run kernelvec_enter ?s)\<lparr>regs := (\<lambda>_. 9)(SP := regs (run kernelvec_enter ?s) SP)\<rparr>"
  have "regs (run kernelvec_leave ?u) A0 = regs ?s A0" by (rule kernelvec_roundtrip) simp_all
  then show ?thesis by (simp add: Let_def)
qed

end
