(* ===== verification/Codec.thy ===== *)
theory Codec
  imports Fsstate
begin

text \<open>
  Little-endian fields of byte arrays: what \<^const>\<open>rd16\<close> and \<^const>\<open>rd32\<close> read after \<^const>\<open>wr16\<close>,
  \<^const>\<open>wr32\<close> and \<^const>\<open>blit\<close>. The on-disk log header and inodes are built from these.
\<close>

named_theorems codec_simps

lemma length_blit [simp]: "length (blit bs i vs) = length bs"
  by (simp add: blit_def)

lemma length_wr [simp]: "length (wr16 bs i w) = length bs" "length (wr32 bs i v) = length bs"
  by (simp_all add: wr16_def wr32_def)

lemma arr_blit:
  assumes "i + length vs \<le> length bs"
  shows "arr (blit bs i vs) j = (if i \<le> j \<and> j < i + length vs then vs ! (j - i) else arr bs j)"
  using assms by (auto simp: arr_def blit_def nth_append)

lemma length_bytes [simp]: "length (bytes16 w) = 2" "length (bytes32 v) = 4"
  by (simp_all add: bytes16_def bytes32_def)

lemma arr_wr:
  "i + 2 \<le> length bs \<Longrightarrow> arr (wr16 bs i w) j = (if i \<le> j \<and> j < i + 2 then bytes16 w ! (j - i) else arr bs j)"
  "i + 4 \<le> length bs \<Longrightarrow> arr (wr32 bs i v) j = (if i \<le> j \<and> j < i + 4 then bytes32 v ! (j - i) else arr bs j)"
  by (simp_all add: wr16_def wr32_def arr_blit)

lemma join16: "ucast (ucast (w :: uint16) :: uint8) OR push_bit 8 (ucast (ucast (drop_bit 8 w) :: uint8)) = w"
  by (rule bit_word_eqI) (auto simp: bit_or_iff bit_push_bit_iff bit_ucast_iff bit_drop_bit_eq)

lemma rd16_wr16 [codec_simps]: "i + 2 \<le> length bs \<Longrightarrow> rd16 (wr16 bs i w) i = w"
  by (simp add: rd16_def arr_wr bytes16_def join16)

lemma join32:
  "ucast (ucast (ucast (w :: uint32) :: uint8) OR push_bit 8 (ucast (ucast (drop_bit 8 w) :: uint8)) :: uint16) OR
   push_bit 16 (ucast (ucast (ucast (drop_bit 16 w) :: uint8) OR push_bit 8 (ucast (ucast (drop_bit 24 w) :: uint8)) :: uint16)) = w"
proof (rule bit_word_eqI)
  fix n assume "n < LENGTH(32)"
  then consider "n < 8" | "8 \<le> n" "n < 16" | "16 \<le> n" "n < 24" | "24 \<le> n" "n < 32" by fastforce
  then show "bit ((ucast (ucast (ucast w :: uint8) OR push_bit 8 (ucast (ucast (drop_bit 8 w) :: uint8)) :: uint16) OR
     push_bit 16 (ucast (ucast (ucast (drop_bit 16 w) :: uint8) OR push_bit 8 (ucast (ucast (drop_bit 24 w) :: uint8)) :: uint16))) :: uint32) n =
     bit w n"
    by cases (auto simp: bit_or_iff bit_push_bit_iff bit_ucast_iff bit_drop_bit_eq)
qed

lemma rd32_wr32 [codec_simps]: "i + 4 \<le> length bs \<Longrightarrow> rd32 (wr32 bs i w) i = w"
  by (simp add: rd32_def rd16_def arr_wr bytes32_def join32)

lemma rd16_other [codec_simps]:
  "i + 2 \<le> length bs \<Longrightarrow> j + 2 \<le> i \<or> i + 2 \<le> j \<Longrightarrow> rd16 (wr16 bs i w) j = rd16 bs j"
  "i + 4 \<le> length bs \<Longrightarrow> j + 2 \<le> i \<or> i + 4 \<le> j \<Longrightarrow> rd16 (wr32 bs i v) j = rd16 bs j"
  by (auto simp: rd16_def arr_wr)

lemma rd32_other [codec_simps]:
  "i + 2 \<le> length bs \<Longrightarrow> j + 4 \<le> i \<or> i + 2 \<le> j \<Longrightarrow> rd32 (wr16 bs i w) j = rd32 bs j"
  "i + 4 \<le> length bs \<Longrightarrow> j + 4 \<le> i \<or> i + 4 \<le> j \<Longrightarrow> rd32 (wr32 bs i v) j = rd32 bs j"
  by (auto simp: rd32_def rd16_def arr_wr)

text \<open>Copying a whole array.\<close>

lemma blit_whole: "length vs = length bs \<Longrightarrow> blit bs 0 vs = vs"
  by (simp add: blit_def)

lemma slice_whole: "slice bs 0 (length bs) = bs"
  by (simp add: slice_def)

text \<open>A sequence of words written from index \<open>a\<close> on.\<close>

lemma fold_wr32:
  assumes "a + 4 * k \<le> length bs"
  shows "length (fold (\<lambda>i d. wr32 d (a + 4 * i) (f i)) [0..<k] bs) = length bs \<and>
     (\<forall>j < k. rd32 (fold (\<lambda>i d. wr32 d (a + 4 * i) (f i)) [0..<k] bs) (a + 4 * j) = f j) \<and>
     (\<forall>j. j + 4 \<le> a \<longrightarrow> rd32 (fold (\<lambda>i d. wr32 d (a + 4 * i) (f i)) [0..<k] bs) j = rd32 bs j)"
  using assms
proof (induction k)
  case (Suc k)
  let ?d = "fold (\<lambda>i d. wr32 d (a + 4 * i) (f i)) [0..<k] bs"
  have IH: "length ?d = length bs" "\<And>j. j < k \<Longrightarrow> rd32 ?d (a + 4 * j) = f j" "\<And>j. j + 4 \<le> a \<Longrightarrow> rd32 ?d j = rd32 bs j"
    using Suc by simp_all
  have "a + 4 * k + 4 \<le> length ?d" using Suc.prems IH(1) by simp
  then show ?case using IH by (auto simp: less_Suc_eq rd32_wr32 rd32_other)
qed simp

text \<open>An array of words laid out as bytes.\<close>

lemma length_words [simp]: "length (concat (map bytes32 ws)) = 4 * length ws"
  by (induction ws) simp_all

lemma nth_words: "i < length ws \<Longrightarrow> r < 4 \<Longrightarrow> concat (map bytes32 ws) ! (4 * i + r) = bytes32 (ws ! i) ! r"
proof (induction ws arbitrary: i)
  case (Cons w ws)
  then show ?case by (cases i) (simp_all add: nth_append)
qed simp

lemma rd32_words:
  assumes "a + 4 * length ws \<le> length bs" and i: "i < length ws"
  shows "rd32 (blit bs a (concat (map bytes32 ws))) (a + 4 * i) = ws ! i"
proof -
  have "arr (blit bs a (concat (map bytes32 ws))) (a + 4 * i + r) = bytes32 (ws ! i) ! r" if "r < 4" for r
    using that assms nth_words [OF i that] by (simp add: arr_blit)
  note w = this
  have three: "a + 4 * i + 3 = Suc (Suc (Suc (a + 4 * i)))" by simp
  show ?thesis using w [of 0] w [of 1] w [of 2] w [of 3, unfolded three]
    by (simp add: rd32_def rd16_def bytes32_def join32)
qed

lemma rd_arr_cong:
  "(\<And>k. i \<le> k \<Longrightarrow> k < i + 2 \<Longrightarrow> arr bs k = arr cs k) \<Longrightarrow> rd16 bs i = rd16 cs i"
  "(\<And>k. i \<le> k \<Longrightarrow> k < i + 4 \<Longrightarrow> arr bs k = arr cs k) \<Longrightarrow> rd32 bs i = rd32 cs i"
  by (simp_all add: rd32_def rd16_def)

end
