(* ===== verification/Journal.thy ===== *)
theory Journal
  imports Log Codec
begin

text \<open>
  The write-ahead log is crash safe. The lemmas follow a commit (kernel/log.c) write by write, over the
  abstract cache of theory Bio and the driver contract \<open>disk_driver\<close>, whose condition \<open>I\<close> every disk
  state has to satisfy: whenever the power fails, recovery finds either all of the transaction or nothing
  of it. A block write is atomic.
\<close>

section \<open>Steps over the abstract cache\<close>

definition csteps ::
    "nat \<Rightarrow> 'a fskernel_scheme \<Rightarrow> 'a fskernel_scheme \<Rightarrow> cstate \<Rightarrow> bool" where
  "csteps p s s' C \<longleftrightarrow> quiet p s s' \<and> bc_inv (fs s') \<and> fsrest (fs s') = fsrest (fs s) \<and> cview (fs s') = C"

lemma csteps_trans: "csteps p s s' C \<Longrightarrow> csteps p s' s'' C' \<Longrightarrow> csteps p s s'' C'"
  unfolding csteps_def using quiet_trans by metis

lemma cstepsD:
  assumes "csteps p s s' C" and "p < NPROC"
  shows "sys_ok p s'" "bc_inv (fs s')" "cview (fs s') = C" "lg (fs s') = lg (fs s)" "platter (fs s') = c_plat C"
    "pid (procs s' ! p) = pid (procs s ! p)"
  using assms quiet_ok quiet_proc(1) [of p s s'] c_plat_cview [of "fs s'"]
  by (auto simp: csteps_def fsrest_def)

lemma clean_block: "bc_inv v \<Longrightarrow> c_ref (cview v) n = 0 \<Longrightarrow> c_blk (cview v) n = platter v n"
proof -
  assume a: "bc_inv v" "c_ref (cview v) n = 0"
  have u: "bc_uniq v" using a(1) by (simp add: bc_inv_def)
  show ?thesis
  proof (cases "\<exists>i < NBUF. key v i = Some n")
    case True
    then obtain i where i: "i < NBUF" "key v i = Some n" by blast
    note at = cview_at [OF u i]
    have "brefcnt (bufs v ! i) = 0" using at(2) a(2) by (simp add: unat_eq_0)
    moreover have "unat (bblockno (bufs v ! i)) = n" using i(2) by (simp add: key_def split: if_splits)
    ultimately show ?thesis using at(1) bc_invD(4) [OF a(1) i(1)] by auto
  qed (simp add: cview_none(1))
qed

lemma finite_refs: "finite {m. 0 < c_ref (cview v) m}"
proof (rule finite_subset)
  show "{m. 0 < c_ref (cview v) m} \<subseteq> (\<lambda>i. unat (bblockno (bufs v ! i))) ` {..<NBUF}"
  proof
    fix m assume "m \<in> {m. 0 < c_ref (cview v) m}"
    then have "0 < c_ref (cview v) m" by simp
    then have "\<exists>i < NBUF. key v i = Some m" using cview_none(2) [of v m] by (metis less_irrefl)
    then show "m \<in> (\<lambda>i. unat (bblockno (bufs v ! i))) ` {..<NBUF}" by (auto simp: key_def split: if_splits)
  qed
qed simp

lemma set_log_facts:
  "bc_inv (fs (set_log f s)) = bc_inv (fs s)" "cview (fs (set_log f s)) = cview (fs s)"
  "lg (fs (set_log f s)) = f (lg (fs s))" "buf_for (fs (set_log f s)) b n = buf_for (fs s) b n"
proof -
  have k: "key (v\<lparr>lg := l\<rparr>) = key v" "nx (v\<lparr>lg := l\<rparr>) = nx v" "pv (v\<lparr>lg := l\<rparr>) = pv v" for v l
    by (simp_all add: key_def nx_def pv_def fun_eq_iff)
  have r: "ring (v\<lparr>lg := l\<rparr>) xs = ring v xs" for v l xs by (simp add: ring_def k)
  show "bc_inv (fs (set_log f s)) = bc_inv (fs s)" "cview (fs (set_log f s)) = cview (fs s)"
    "lg (fs (set_log f s)) = f (lg (fs s))" "buf_for (fs (set_log f s)) b n = buf_for (fs s) b n"
    by (simp_all add: set_log_def bc_inv_def bc_uniq_def cview_def slot_def buf_for_def k r cong: option.case_cong if_cong)
qed

lemma copy_data_csteps:
  assumes ok: "sys_ok p s" and inv: "bc_inv (fs s)" and d: "buf_for (fs s) dst n" and sr: "buf_for (fs s) src m"
    and ref: "0 < c_ref (cview (fs s)) n"
    and len: "length (c_blk (cview (fs s)) n) = BSIZE" "length (c_blk (cview (fs s)) m) = BSIZE"
  shows "csteps p s (copy_data dst src s) ((cview (fs s))\<lparr>c_blk := (c_blk (cview (fs s)))(n := c_blk (cview (fs s)) m)\<rparr>)"
    and "buf_for (fs s) j k \<Longrightarrow> buf_for (fs (copy_data dst src s)) j k"
proof -
  let ?x = "c_blk (cview (fs s)) m"
  have "slice (bdata (bufs (fs s) ! src)) 0 BSIZE = ?x"
    using held_facts(1) [OF inv sr] len(2) slice_whole [of ?x] by simp
  moreover have "blit (bdata (bufs (fs s) ! dst)) 0 ?x = ?x"
    using held_facts(1) [OF inv d] len blit_whole [of ?x "bdata (bufs (fs s) ! dst)"] by simp
  ultimately have eq: "fs (copy_data dst src s) = buf_upd dst (\<lambda>u. u\<lparr>bdata := ?x\<rparr>) (fs s)"
    by (simp add: copy_data_def set_buf_eq buf_upd_def)
  note sp = set_data_spec [OF inv d ref, where d = ?x]
  have "quiet p s (copy_data dst src s)" unfolding copy_data_def set_buf_eq by (rule quiet_fs_upd [OF ok])
  then show "csteps p s (copy_data dst src s) ((cview (fs s))\<lparr>c_blk := (c_blk (cview (fs s)))(n := ?x)\<rparr>)"
    using sp(1-3) by (simp add: csteps_def eq)
  show "buf_for (fs s) j k \<Longrightarrow> buf_for (fs (copy_data dst src s)) j k" unfolding eq by (rule sp(4))
qed

context disk_driver
begin

text \<open>The operations of theory Bio once more, as steps.\<close>

lemma bread_csteps:
  assumes "sys_ok p s" and "bc_inv (fs s)" and "cview (fs s) = C" and "unat bno = n" and "n < 2 ^ 31"
    and "c_lk C n = None" and "c_ref C n < 2 ^ 32 - 1" and "0 < c_ref C n \<or> card {m. 0 < c_ref C m} < NBUF"
  shows "\<exists>b s'. bread e ROOTDEV bno s = Ok (b, s') \<and> buf_for (fs s') b n \<and>
    csteps p s s' (C\<lparr>c_ref := (c_ref C)(n := c_ref C n + 1), c_lk := (c_lk C)(n := Some (pid (procs s ! p)))\<rparr>) \<and>
    (\<forall>j m. buf_for (fs s) j m \<longrightarrow> 0 < c_ref C m \<longrightarrow> buf_for (fs s') j m)"
  using bread_spec [OF assms(1,2), of bno] assms unfolding yields_def csteps_def by auto

lemma bwrite_csteps:
  assumes "sys_ok p s" and "bc_inv (fs s)" and "cview (fs s) = C" and "buf_for (fs s) b n" and "n < 2 ^ 31"
    and "c_lk C n = Some (pid (procs s ! p))" and "0 < c_ref C n" and "I ((c_plat C)(n := c_blk C n))"
  shows "\<exists>s'. bwrite e b s = Ok s' \<and> csteps p s s' (C\<lparr>c_plat := (c_plat C)(n := c_blk C n)\<rparr>) \<and>
    (\<forall>j m. buf_for (fs s) j m \<longrightarrow> buf_for (fs s') j m)"
  using bwrite_spec [OF assms(1,2,4,5)] assms c_plat_cview [of "fs s"] unfolding does_def csteps_def by auto

end

lemma brelse_csteps:
  assumes "sys_ok p s" and "bc_inv (fs s)" and "cview (fs s) = C" and "buf_for (fs s) b n"
    and "c_lk C n = Some (pid (procs s ! p))" and "0 < c_ref C n" and "c_ref C n = 1 \<longrightarrow> c_blk C n = c_plat C n"
  shows "\<exists>s'. brelse b s = Ok s' \<and>
    csteps p s s' (C\<lparr>c_ref := (c_ref C)(n := c_ref C n - 1), c_lk := (c_lk C)(n := None)\<rparr>) \<and>
    (\<forall>j m. buf_for (fs s) j m \<longrightarrow> buf_for (fs s') j m)"
  using brelse_spec [OF assms(1,2,4)] assms c_plat_cview [of "fs s"] unfolding does_def csteps_def by auto

lemma bunpin_csteps:
  assumes "sys_ok p s" and "bc_inv (fs s)" and "cview (fs s) = C" and "buf_for (fs s) b n" and "1 < c_ref C n"
  shows "\<exists>s'. bunpin b s = Ok s' \<and> csteps p s s' (C\<lparr>c_ref := (c_ref C)(n := c_ref C n - 1)\<rparr>) \<and>
    (\<forall>j m. buf_for (fs s) j m \<longrightarrow> buf_for (fs s') j m)"
  using bunpin_spec [OF assms(1,2,4)] assms unfolding does_def csteps_def by auto

section \<open>The four kinds of steps of a commit\<close>

context disk_driver
begin

lemma write_log_one_csteps:
  assumes ok: "sys_ok p s" and inv: "bc_inv (fs s)" and C: "cview (fs s) = C" and dev: "log_dev (lg (fs s)) = ROOTDEV"
    and L: "unat (log_start (lg (fs s)) + of_nat t + 1) = L" "L < 2 ^ 31"
    and H: "unat (lh_block (lg (fs s)) ! t) = H" "H < 2 ^ 31" and ne: "L \<noteq> H"
    and lk: "\<forall>m. c_lk C m = None" and ref: "c_ref C L = 0" "0 < c_ref C H" "c_ref C H < 2 ^ 32 - 1"
    and room: "card {m. 0 < c_ref C m} < NBUF"
    and len: "length (c_blk C L) = BSIZE" "length (c_blk C H) = BSIZE" and guard: "I ((c_plat C)(L := c_blk C H))"
  shows "\<exists>s'. write_log_one e t s = Ok s' \<and>
    csteps p s s' (C\<lparr>c_blk := (c_blk C)(L := c_blk C H), c_plat := (c_plat C)(L := c_blk C H)\<rparr>)"
proof -
  have p: "p < NPROC" by (rule sys_okD(5) [OF ok])
  let ?me = "Some (pid (procs s ! p))"
  obtain to s1 where to: "bread e ROOTDEV (log_start (lg (fs s)) + of_nat t + 1) s = Ok (to, s1)" "buf_for (fs s1) to L"
    and st1: "csteps p s s1 (C\<lparr>c_ref := (c_ref C)(L := 1), c_lk := (c_lk C)(L := ?me)\<rparr>)" (is "csteps p s s1 ?C1")
    using bread_csteps [OF ok inv C L] lk ref room by auto
  note f1 = cstepsD [OF st1 p]
  obtain from_b s2 where fr: "bread e ROOTDEV (lh_block (lg (fs s)) ! t) s1 = Ok (from_b, s2)" "buf_for (fs s2) from_b H"
    and st2: "csteps p s1 s2 (C\<lparr>c_ref := (c_ref C)(L := 1, H := c_ref C H + 1), c_lk := (c_lk C)(L := ?me, H := ?me)\<rparr>)" (is "csteps p s1 s2 ?C2")
    and keep2: "buf_for (fs s2) to L"
    using bread_csteps [OF f1(1,2,3) H] lk ref ne f1(6) to(2) by auto
  note f2 = cstepsD [OF st2 p]
  let ?s3 = "copy_data to from_b s2"
  have st3: "csteps p s2 ?s3 (?C2\<lparr>c_blk := (c_blk C)(L := c_blk C H)\<rparr>)" (is "csteps p s2 ?s3 ?C3")
    and keep3: "buf_for (fs ?s3) to L" "buf_for (fs ?s3) from_b H"
    using copy_data_csteps [OF f2(1,2) keep2 fr(2)] f2(3) len ne keep2 fr(2) by simp_all
  note f3 = cstepsD [OF st3 p]
  obtain s4 where s4: "bwrite e to ?s3 = Ok s4" and st4: "csteps p ?s3 s4 (?C3\<lparr>c_plat := (c_plat C)(L := c_blk C H)\<rparr>)" (is "csteps p ?s3 s4 ?C4")
    and keep4: "buf_for (fs s4) to L" "buf_for (fs s4) from_b H"
    using bwrite_csteps [OF f3(1,2,3) keep3(1) L(2)] keep3 ne guard f1(6) f2(6) f3(6) by auto
  note f4 = cstepsD [OF st4 p]
  have e: "(c_lk C)(L := ?me, H := None) = (c_lk C)(L := ?me)" "(c_ref C)(L := Suc 0, H := c_ref C H) = (c_ref C)(L := Suc 0)"
    using lk ne by (auto simp: fun_eq_iff)
  obtain s5 where s5: "brelse from_b s4 = Ok s5"
    and st5: "csteps p s4 s5 (?C4\<lparr>c_ref := (c_ref C)(L := 1), c_lk := (c_lk C)(L := ?me)\<rparr>)" (is "csteps p s4 s5 ?C5")
    and keep5: "buf_for (fs s5) to L"
    using brelse_csteps [OF f4(1,2,3) keep4(2)] keep4 ne ref lk f1(6) f2(6) f3(6) f4(6) e by auto
  note f5 = cstepsD [OF st5 p]
  obtain s6 where s6: "brelse to s5 = Ok s6"
    and st6: "csteps p s5 s6 (C\<lparr>c_blk := (c_blk C)(L := c_blk C H), c_plat := (c_plat C)(L := c_blk C H)\<rparr>)"
    using brelse_csteps [OF f5(1,2,3) keep5] ref lk f1(6) f2(6) f3(6) f4(6) f5(6) by (auto simp: fun_upd_idem)
  have "write_log_one e t s = Ok s6"
    using to(1) fr(1) s4 s5 s6 f1(4) dev by (simp add: write_log_one_def)
  moreover have "csteps p s s6 (C\<lparr>c_blk := (c_blk C)(L := c_blk C H), c_plat := (c_plat C)(L := c_blk C H)\<rparr>)"
    by (rule csteps_trans [OF st1 csteps_trans [OF st2 csteps_trans [OF st3 csteps_trans [OF st4 csteps_trans [OF st5 st6]]]]])
  ultimately show ?thesis by blast
qed

lemma install_one_csteps:
  assumes ok: "sys_ok p s" and inv: "bc_inv (fs s)" and C: "cview (fs s) = C" and dev: "log_dev (lg (fs s)) = ROOTDEV"
    and L: "unat (log_start (lg (fs s)) + of_nat t + 1) = L" "L < 2 ^ 31"
    and H: "unat (lh_block (lg (fs s)) ! t) = H" "H < 2 ^ 31" and ne: "L \<noteq> H"
    and lk: "\<forall>m. c_lk C m = None" and refL: "c_ref C L = 0"
    and refH: "if recovering then c_ref C = (\<lambda>_. 0) else 0 < c_ref C H \<and> c_ref C H < 2 ^ 32 - 1"
    and room: "card {m. 0 < c_ref C m} < NBUF"
    and len: "length (c_blk C L) = BSIZE" "length (c_blk C H) = BSIZE" and guard: "I ((c_plat C)(H := c_blk C L))"
  shows "\<exists>s'. install_one e recovering t s = Ok s' \<and>
    csteps p s s' (C\<lparr>c_blk := (c_blk C)(H := c_blk C L), c_plat := (c_plat C)(H := c_blk C L),
      c_ref := (c_ref C)(H := c_ref C H - 1)\<rparr>)"
proof -
  have p: "p < NPROC" by (rule sys_okD(5) [OF ok])
  let ?me = "Some (pid (procs s ! p))"
  have clean: "c_blk C L = c_plat C L" using clean_block [OF inv, of L] C refL by auto
  obtain lb s1 where lb: "bread e ROOTDEV (log_start (lg (fs s)) + of_nat t + 1) s = Ok (lb, s1)" "buf_for (fs s1) lb L"
    and st1: "csteps p s s1 (C\<lparr>c_ref := (c_ref C)(L := 1), c_lk := (c_lk C)(L := ?me)\<rparr>)" (is "csteps p s s1 ?C1")
    using bread_csteps [OF ok inv C L] lk refL room by auto
  note f1 = cstepsD [OF st1 p]
  have room1: "0 < c_ref ?C1 H \<or> card {m. 0 < c_ref ?C1 m} < NBUF" "c_ref ?C1 H < 2 ^ 32 - 1"
    using refH ne by (auto simp: NBUF_def MAXOPBLOCKS_def split: if_splits)
  obtain db s2 where db: "bread e ROOTDEV (lh_block (lg (fs s)) ! t) s1 = Ok (db, s2)" "buf_for (fs s2) db H"
    and st2: "csteps p s1 s2 (C\<lparr>c_ref := (c_ref C)(L := 1, H := c_ref C H + 1), c_lk := (c_lk C)(L := ?me, H := ?me)\<rparr>)" (is "csteps p s1 s2 ?C2")
    and keep2: "buf_for (fs s2) lb L"
    using bread_csteps [OF f1(1,2,3) H _ room1(2,1)] lk ne f1(6) lb(2) by auto
  note f2 = cstepsD [OF st2 p]
  let ?s3 = "copy_data db lb s2"
  have st3: "csteps p s2 ?s3 (?C2\<lparr>c_blk := (c_blk C)(H := c_blk C L)\<rparr>)" (is "csteps p s2 ?s3 ?C3")
    and keep3: "buf_for (fs ?s3) lb L" "buf_for (fs ?s3) db H"
    using copy_data_csteps [OF f2(1,2) db(2) keep2] f2(3) len ne keep2 db(2) by simp_all
  note f3 = cstepsD [OF st3 p]
  obtain s4 where s4: "bwrite e db ?s3 = Ok s4" and st4: "csteps p ?s3 s4 (?C3\<lparr>c_plat := (c_plat C)(H := c_blk C L)\<rparr>)" (is "csteps p ?s3 s4 ?C4")
    and keep4: "buf_for (fs s4) lb L" "buf_for (fs s4) db H"
    using bwrite_csteps [OF f3(1,2,3) keep3(2) H(2)] keep3 ne guard f1(6) f2(6) f3(6) by auto
  note f4 = cstepsD [OF st4 p]
  define k where "k = (if recovering then 1 else c_ref C H)"
  have k: "0 < k" "k - 1 = c_ref C H - 1" using refH by (auto simp: k_def)
  have "\<exists>s5. (if \<not> recovering then bunpin db s4 else Ok s4) = Ok s5 \<and>
      csteps p s4 s5 (?C4\<lparr>c_ref := (c_ref C)(L := 1, H := k)\<rparr>) \<and> buf_for (fs s5) lb L \<and> buf_for (fs s5) db H"
  proof (cases recovering)
    case True
    then have "?C4\<lparr>c_ref := (c_ref C)(L := 1, H := k)\<rparr> = ?C4" using refH by (simp add: k_def)
    moreover have "csteps p s4 s4 ?C4" using f4(1-3) by (simp add: csteps_def quiet_refl)
    ultimately show ?thesis using True keep4 by simp
  next
    case False
    then show ?thesis using bunpin_csteps [OF f4(1,2,3) keep4(2)] refH ne keep4 by (auto simp: k_def)
  qed
  then obtain s5 where s5: "(if \<not> recovering then bunpin db s4 else Ok s4) = Ok s5"
    and st5: "csteps p s4 s5 (?C4\<lparr>c_ref := (c_ref C)(L := 1, H := k)\<rparr>)" (is "csteps p s4 s5 ?C5")
    and keep5: "buf_for (fs s5) lb L" "buf_for (fs s5) db H" by blast
  note f5 = cstepsD [OF st5 p]
  have e: "(c_lk C)(L := None, H := ?me) = (c_lk C)(H := ?me)" "(c_ref C)(L := 0, H := k) = (c_ref C)(H := k)"
    "(c_lk C)(L := ?me, H := ?me, L := None) = (c_lk C)(H := ?me)"
    "(c_ref C)(L := Suc 0, H := k, L := 0) = (c_ref C)(H := k)" "(c_lk C)(H := None) = c_lk C"
    using lk refL ne by (auto simp: fun_eq_iff)
  obtain s6 where s6: "brelse lb s5 = Ok s6"
    and st6: "csteps p s5 s6 (?C5\<lparr>c_ref := (c_ref C)(H := k), c_lk := (c_lk C)(H := ?me)\<rparr>)" (is "csteps p s5 s6 ?C6")
    and keep6: "buf_for (fs s6) db H"
    using brelse_csteps [OF f5(1,2,3) keep5(1)] keep5 ne clean f1(6) f2(6) f3(6) f4(6) f5(6) e by auto
  note f6 = cstepsD [OF st6 p]
  obtain s7 where s7: "brelse db s6 = Ok s7"
    and st7: "csteps p s6 s7 (?C6\<lparr>c_ref := (c_ref C)(H := c_ref C H - 1), c_lk := c_lk C\<rparr>)"
    using brelse_csteps [OF f6(1,2,3) keep6] k e f1(6) f2(6) f3(6) f4(6) f5(6) f6(6) by auto
  have "install_one e recovering t s = Ok s7"
    using lb(1) db(1) s4 s5 s6 s7 f1(4) dev by (simp add: install_one_def)
  moreover have "csteps p s s7 (?C6\<lparr>c_ref := (c_ref C)(H := c_ref C H - 1), c_lk := c_lk C\<rparr>)"
    by (rule csteps_trans [OF st1 csteps_trans [OF st2 csteps_trans [OF st3 csteps_trans [OF st4
      csteps_trans [OF st5 csteps_trans [OF st6 st7]]]]]])
  ultimately show ?thesis by auto
qed

lemma write_head_csteps:
  assumes ok: "sys_ok p s" and inv: "bc_inv (fs s)" and C: "cview (fs s) = C" and dev: "log_dev (lg (fs s)) = ROOTDEV"
    and B: "unat (log_start (lg (fs s))) = B" "B < 2 ^ 31" and lk: "\<forall>m. c_lk C m = None" and ref: "c_ref C B = 0"
    and room: "card {m. 0 < c_ref C m} < NBUF"
    and x: "x = head_data (lh_n (lg (fs s))) (lh_block (lg (fs s))) (c_blk C B)" and guard: "I ((c_plat C)(B := x))"
  shows "\<exists>s'. write_head e s = Ok s' \<and> csteps p s s' (C\<lparr>c_blk := (c_blk C)(B := x), c_plat := (c_plat C)(B := x)\<rparr>)"
proof -
  have p: "p < NPROC" by (rule sys_okD(5) [OF ok])
  let ?me = "Some (pid (procs s ! p))"
  obtain b s1 where b: "bread e ROOTDEV (log_start (lg (fs s))) s = Ok (b, s1)" "buf_for (fs s1) b B"
    and st1: "csteps p s s1 (C\<lparr>c_ref := (c_ref C)(B := 1), c_lk := (c_lk C)(B := ?me)\<rparr>)" (is "csteps p s s1 ?C1")
    using bread_csteps [OF ok inv C B] lk ref room by auto
  note f1 = cstepsD [OF st1 p]
  let ?s2 = "set_buf b (\<lambda>u. u\<lparr>bdata := head_data (lh_n (lg (fs s1))) (lh_block (lg (fs s1))) (bdata u)\<rparr>) s1"
  have "bdata (bufs (fs s1) ! b) = c_blk C B" using held_facts(1) [OF f1(2) b(2)] f1(3) by simp
  then have eq: "fs ?s2 = buf_upd b (\<lambda>u. u\<lparr>bdata := x\<rparr>) (fs s1)"
    using f1(4) x by (simp add: set_buf_eq buf_upd_def)
  have ref1: "0 < c_ref (cview (fs s1)) B" using f1(3) by simp
  note sp = set_data_spec [OF f1(2) b(2) ref1, where d = x]
  have "quiet p s1 ?s2" unfolding set_buf_eq by (rule quiet_fs_upd [OF f1(1)])
  then have st2: "csteps p s1 ?s2 (?C1\<lparr>c_blk := (c_blk C)(B := x)\<rparr>)" (is "csteps p s1 ?s2 ?C2")
    unfolding csteps_def eq using sp(1-3) f1(3) by simp
  have keep2: "buf_for (fs ?s2) b B" unfolding eq by (rule sp(4) [OF b(2)])
  note f2 = cstepsD [OF st2 p]
  obtain s3 where s3: "bwrite e b ?s2 = Ok s3" and st3: "csteps p ?s2 s3 (?C2\<lparr>c_plat := (c_plat C)(B := x)\<rparr>)" (is "csteps p ?s2 s3 ?C3")
    and keep3: "buf_for (fs s3) b B"
    using bwrite_csteps [OF f2(1,2,3) keep2 B(2)] keep2 guard f1(6) f2(6) by auto
  note f3 = cstepsD [OF st3 p]
  obtain s4 where s4: "brelse b s3 = Ok s4"
    and st4: "csteps p s3 s4 (C\<lparr>c_blk := (c_blk C)(B := x), c_plat := (c_plat C)(B := x)\<rparr>)"
    using brelse_csteps [OF f3(1,2,3) keep3] ref lk f1(6) f2(6) f3(6) by (auto simp: fun_upd_idem)
  have "write_head e s = Ok s4" using b(1) s3 s4 dev by (simp add: write_head_def)
  moreover have "csteps p s s4 (C\<lparr>c_blk := (c_blk C)(B := x), c_plat := (c_plat C)(B := x)\<rparr>)"
    by (rule csteps_trans [OF st1 csteps_trans [OF st2 csteps_trans [OF st3 st4]]])
  ultimately show ?thesis by blast
qed

end

section \<open>The log on disk\<close>

text \<open>
  What recovery makes of a disk \<open>d\<close> with the log at block \<open>start\<close>: the header lists the home blocks, and
  the \<open>i\<close>-th of them gets the contents of log block \<open>start + 1 + i\<close>.
\<close>

definition install_to :: "nat list \<Rightarrow> (nat \<Rightarrow> uint8 list) \<Rightarrow> nat \<Rightarrow> (nat \<Rightarrow> uint8 list) \<Rightarrow> nat \<Rightarrow> uint8 list" where
  "install_to hb src t f = fold (\<lambda>i x. x(hb ! i := src i)) [0..<t] f"

definition log_count :: "nat \<Rightarrow> (nat \<Rightarrow> uint8 list) \<Rightarrow> nat" where
  "log_count start d = nat (sint (rd32 (d start) 0))"

definition log_homes :: "nat \<Rightarrow> (nat \<Rightarrow> uint8 list) \<Rightarrow> nat list" where
  "log_homes start d = map (\<lambda>i. unat (rd32 (d start) (4 + 4 * i))) [0..<log_count start d]"

definition replay :: "nat \<Rightarrow> (nat \<Rightarrow> uint8 list) \<Rightarrow> nat \<Rightarrow> uint8 list" where
  "replay start d = install_to (log_homes start d) (\<lambda>i. d (start + 1 + i)) (log_count start d) d"

definition log_area :: "nat \<Rightarrow> nat set" where
  "log_area start = {start..<start + nat LOGSIZE}"

definition same_data :: "nat \<Rightarrow> (nat \<Rightarrow> uint8 list) \<Rightarrow> (nat \<Rightarrow> uint8 list) \<Rightarrow> bool" where
  "same_data start d d' \<longleftrightarrow> (\<forall>b. b \<notin> log_area start \<longrightarrow> d b = d' b)"

text \<open>A log that recovery can work with.\<close>

definition log_ok :: "nat \<Rightarrow> (nat \<Rightarrow> uint8 list) \<Rightarrow> bool" where
  "log_ok start d \<longleftrightarrow> start + nat LOGSIZE < 2 ^ 31 \<and> 0 \<le> sint (rd32 (d start) 0) \<and> log_count start d < nat LOGSIZE \<and>
     (\<forall>b \<in> log_area start. length (d b) = BSIZE) \<and>
     (\<forall>b \<in> set (log_homes start d). b < 2 ^ 31 \<and> b \<notin> log_area start \<and> length (d b) = BSIZE)"

lemma LOGSIZE_nat [simp]: "nat LOGSIZE = 30"
  by (simp add: LOGSIZE_def MAXOPBLOCKS_def)

lemma install_to_simps [simp]:
  "install_to hb src 0 f = f" "install_to hb src (Suc t) f = (install_to hb src t f)(hb ! t := src t)"
  by (simp_all add: install_to_def)

lemma install_to_other: "t \<le> length hb \<Longrightarrow> b \<notin> set (take t hb) \<Longrightarrow> install_to hb src t f b = f b"
  by (induction t) (auto simp: take_Suc_conv_app_nth)

lemma install_to_cong:
  "t \<le> length hb \<Longrightarrow> (\<And>i. i < t \<Longrightarrow> src i = src' i) \<Longrightarrow> b \<in> set (take t hb) \<or> f b = g b \<Longrightarrow>
     install_to hb src t f b = install_to hb src' t g b"
  by (induction t) (auto simp: take_Suc_conv_app_nth)

lemma install_to_nth:
  "distinct hb \<Longrightarrow> t \<le> length hb \<Longrightarrow> i < t \<Longrightarrow> install_to hb src t f (hb ! i) = src i"
proof (induction t)
  case (Suc t)
  then show ?case by (cases "i = t") (auto simp: nth_eq_iff_index_eq)
qed simp

lemma replay_empty: "log_count start d = 0 \<Longrightarrow> replay start d = d"
  by (simp add: replay_def log_homes_def)

lemma log_homes_cong: "d' start = d start \<Longrightarrow> log_homes start d' = log_homes start d"
  "d' start = d start \<Longrightarrow> log_count start d' = log_count start d"
  by (simp_all add: log_homes_def log_count_def)

text \<open>The header that \<^const>\<open>write_head\<close> writes.\<close>

lemma head_data_log:
  assumes n: "n \<le> 30" and len: "length x = BSIZE" and bl: "map unat (take n bl) = hb" "n \<le> length bl"
    and d: "d start = head_data (of_nat n) bl x"
  shows "log_count start d = n" "log_homes start d = hb" "length (d start) = BSIZE" "0 \<le> sint (rd32 (d start) 0)"
proof -
  have sn: "sint (of_nat n :: int32) = int n" using n by (simp add: signed_of_nat signed_take_bit_int_eq_self)
  let ?y = "wr32 x 0 (of_nat n)"
  have "4 + 4 * n \<le> length ?y" using n len by (simp add: BSIZE_def)
  note f = fold_wr32 [OF this, of "\<lambda>i. bl ! i"]
  have eq: "d start = fold (\<lambda>i d. wr32 d (4 + 4 * i) (bl ! i)) [0..<n] ?y"
    using d by (simp add: head_data_def sn)
  have "rd32 (d start) 0 = rd32 ?y 0" using f by (simp add: eq)
  also have "\<dots> = of_nat n" using len by (simp add: rd32_wr32 BSIZE_def)
  finally have r: "rd32 (d start) 0 = of_nat n" .
  then show cnt: "log_count start d = n" "0 \<le> sint (rd32 (d start) 0)" by (simp_all add: log_count_def sn)
  show "length (d start) = BSIZE" using f len by (simp add: eq)
  have "rd32 (d start) (4 + 4 * i) = bl ! i" if "i < n" for i using f that by (simp add: eq)
  then have "log_homes start d = map (\<lambda>i. unat (bl ! i)) [0..<n]" by (simp add: log_homes_def cnt(1))
  also have "\<dots> = hb" using bl by (auto intro: nth_equalityI)
  finally show "log_homes start d = hb" .
qed

lemma fold_list_update: "n \<le> length bl \<Longrightarrow> fold (\<lambda>i bl. bl[i := f i]) [0..<n] bl = map f [0..<n] @ drop n bl"
proof (induction n)
  case (Suc n)
  then have "drop n bl = bl ! n # drop (Suc n) bl" by (simp add: Cons_nth_drop_Suc)
  then show ?case using Suc by (simp add: list_update_append)
qed simp

lemma log_loop_steps:
  assumes step: "\<And>t s. t < n \<Longrightarrow> P t s \<Longrightarrow> \<exists>s'. f t s = Ok s' \<and> P (Suc t) s'"
    and cnt: "\<And>t s. P t s \<Longrightarrow> sint (lh_n (lg (fs s))) = int n" and P: "P t s" "t \<le> n" and fuel: "n - t \<le> fuel"
  shows "\<exists>s'. log_loop fuel f t s = Ok s' \<and> P n s'"
  using P fuel
proof (induction fuel arbitrary: t s)
  case 0
  then show ?case using cnt [of t s] by auto
next
  case (Suc k)
  show ?case
  proof (cases "t < n")
    case True
    with step [OF True Suc.prems(1)] obtain s1 where s1: "f t s = Ok s1" "P (Suc t) s1" by blast
    then show ?thesis using Suc.IH [of "Suc t" s1] Suc.prems True cnt [of t s] by auto
  next
    case False
    then show ?thesis using Suc.prems cnt [of t s] by auto
  qed
qed

section \<open>The disk during a commit\<close>

text \<open>
  A transaction: the home blocks \<open>hb\<close> get the contents \<open>new\<close>. A disk is in order, \<open>crash_ok\<close>, when
  recovery from it yields the old data or the new.
\<close>

definition txn_ok :: "nat \<Rightarrow> nat list \<Rightarrow> (nat \<Rightarrow> uint8 list) \<Rightarrow> (nat \<Rightarrow> uint8 list) \<Rightarrow> bool" where
  "txn_ok start hb new d \<longleftrightarrow> length hb < nat LOGSIZE \<and> distinct hb \<and> log_ok start d \<and> log_count start d = 0 \<and>
     (\<forall>b \<in> set hb. b < 2 ^ 31 \<and> b \<notin> log_area start \<and> length (d b) = BSIZE \<and> length (new b) = BSIZE)"

definition txn_new :: "nat list \<Rightarrow> (nat \<Rightarrow> uint8 list) \<Rightarrow> (nat \<Rightarrow> uint8 list) \<Rightarrow> nat \<Rightarrow> uint8 list" where
  "txn_new hb new d b = (if b \<in> set hb then new b else d b)"

definition crash_ok :: "nat \<Rightarrow> (nat \<Rightarrow> uint8 list) \<Rightarrow> (nat \<Rightarrow> uint8 list) \<Rightarrow> (nat \<Rightarrow> uint8 list) \<Rightarrow> bool" where
  "crash_ok start old new d \<longleftrightarrow> log_ok start d \<and>
     (same_data start (replay start d) old \<or> same_data start (replay start d) new)"

text \<open>The disk with the first \<open>t\<close> log blocks written.\<close>

definition logged :: "nat \<Rightarrow> nat list \<Rightarrow> (nat \<Rightarrow> uint8 list) \<Rightarrow> nat \<Rightarrow> (nat \<Rightarrow> uint8 list) \<Rightarrow> nat \<Rightarrow> uint8 list" where
  "logged start hb new t f b = (if start < b \<and> b \<le> start + t then new (hb ! (b - start - 1)) else f b)"

lemma logged_simps [simp]:
  "logged start hb new 0 f = f" "logged start hb new t f start = f start"
  "(logged start hb new t f)(Suc (start + t) := new (hb ! t)) = logged start hb new (Suc t) f"
  by (auto simp: logged_def fun_eq_iff le_Suc_eq)

lemma logged_data: "t < nat LOGSIZE \<Longrightarrow> b \<notin> log_area start \<Longrightarrow> logged start hb new t f b = f b"
  by (auto simp: logged_def log_area_def)

lemma logged_log: "i < t \<Longrightarrow> logged start hb new t f (start + 1 + i) = new (hb ! i)"
  by (simp add: logged_def)

lemma logged_length:
  assumes "txn_ok start hb new d" and "t \<le> length hb" and "b \<in> log_area start"
  shows "length (logged start hb new t d b) = BSIZE"
proof (cases "start < b \<and> b \<le> start + t")
  case True
  then have "hb ! (b - start - 1) \<in> set hb" using assms(2) by (intro nth_mem) linarith
  then show ?thesis using True assms(1) by (simp add: logged_def txn_ok_def)
next
  case False
  then show ?thesis using assms by (auto simp: logged_def txn_ok_def log_ok_def)
qed

lemma crash_ok_logged:
  assumes ok: "txn_ok start hb new d" and t: "t \<le> length hb"
  shows "crash_ok start d w (logged start hb new t d)"
proof -
  let ?d = "logged start hb new t d"
  have lt: "t < nat LOGSIZE" using ok t by (simp add: txn_ok_def)
  have c: "log_count start ?d = 0" "log_homes start ?d = []"
    using ok log_homes_cong [of ?d start d] by (simp_all add: txn_ok_def log_homes_def)
  have "log_ok start ?d" using ok c logged_length [OF ok t] by (simp add: log_ok_def txn_ok_def)
  moreover have "same_data start (replay start ?d) d"
    unfolding replay_empty [OF c(1)] same_data_def using logged_data [OF lt] by blast
  ultimately show ?thesis by (simp add: crash_ok_def)
qed

lemma installed_data:
  assumes ok: "txn_ok start hb new d" and b: "b \<notin> log_area start"
  shows "install_to hb (\<lambda>i. new (hb ! i)) (length hb) ((logged start hb new (length hb) d)(start := x)) b = txn_new hb new d b"
    (is "install_to hb ?s (length hb) ?f b = _")
proof (cases "b \<in> set hb")
  case True
  then show ?thesis using ok install_to_nth [OF _ order_refl] by (auto simp: txn_new_def in_set_conv_nth txn_ok_def)
next
  case False
  then have "b \<noteq> start" "install_to hb ?s (length hb) ?f b = ?f b" using b by (auto simp: install_to_other log_area_def)
  then show ?thesis using False logged_data [of "length hb" b start hb new d] ok b by (simp add: txn_new_def txn_ok_def)
qed

text \<open>Once the header is on the disk, recovery installs the transaction, however much of it is already in place.\<close>

lemma crash_ok_installing:
  assumes ok: "txn_ok start hb new d" and t: "t \<le> length hb"
    and x: "\<And>y. y start = x \<Longrightarrow> log_count start y = length hb \<and> log_homes start y = hb \<and>
      length (y start) = BSIZE \<and> 0 \<le> sint (rd32 (y start) 0)"
  shows "crash_ok start w (txn_new hb new d)
    (install_to hb (\<lambda>i. new (hb ! i)) t ((logged start hb new (length hb) d)(start := x)))"
proof -
  let ?f = "(logged start hb new (length hb) d)(start := x)" and ?s = "\<lambda>i. new (hb ! i)"
  let ?d = "install_to hb ?s t ?f"
  have lt: "length hb < 30" and dist: "distinct hb" and st: "start + 30 < 2 ^ 31"
    and hb: "b \<in> set hb \<Longrightarrow> b < 2 ^ 31 \<and> b \<notin> log_area start \<and> length (d b) = BSIZE \<and> length (new b) = BSIZE" for b
    using ok by (auto simp: txn_ok_def log_ok_def)
  have log: "?d b = ?f b" if "b \<in> log_area start" for b
    using that hb by (intro install_to_other [OF t]) (auto dest: in_set_takeD)
  have area: "start \<in> log_area start" "i < length hb \<Longrightarrow> start + 1 + i \<in> log_area start" for i
    using lt by (auto simp: log_area_def)
  have h: "log_count start ?d = length hb" "log_homes start ?d = hb" "length (?d start) = BSIZE" "0 \<le> sint (rd32 (?d start) 0)"
    using x [of ?d] log [OF area(1)] by simp_all
  have src: "?d (start + 1 + i) = ?s i" if "i < length hb" for i
    using log [OF area(2) [OF that]] logged_log [OF that] by simp
  have home: "?d b \<in> {new b, d b}" if b: "b \<in> set hb" for b
  proof -
    obtain i where i: "i < length hb" "b = hb ! i" using b by (auto simp: in_set_conv_nth)
    have "?f b = d b" using hb [OF b] area(1) logged_data [of "length hb" b start hb new d] lt by auto
    then show ?thesis
      using i install_to_nth [OF dist t, of i ?s ?f] install_to_other [OF t, of b ?s ?f] dist
      by (cases "i < t") (auto simp: in_set_conv_nth nth_eq_iff_index_eq)
  qed
  have "length (?d b) = BSIZE" if "b \<in> log_area start" for b
    using that log [OF that] h(3) logged_length [OF ok order_refl that] by (cases "b = start") simp_all
  then have "log_ok start ?d" using h lt st hb home by (fastforce simp: log_ok_def)
  moreover have "replay start ?d b = txn_new hb new d b" if b: "b \<notin> log_area start" for b
  proof -
    have "replay start ?d b = install_to hb ?s (length hb) ?f b"
    proof -
      have "b \<in> set hb \<or> ?d b = ?f b" using install_to_other [OF t, of b ?s ?f] in_set_takeD [of b t hb] by blast
      then show ?thesis unfolding replay_def h using src by (intro install_to_cong) simp_all
    qed
    also have "\<dots> = txn_new hb new d b" by (rule installed_data [OF ok b])
    finally show ?thesis .
  qed
  ultimately show ?thesis by (simp add: crash_ok_def same_data_def)
qed

lemma crash_ok_erased:
  assumes st: "start + 30 < 2 ^ 31" and y: "rd32 y 0 = 0" "length y = BSIZE"
    and f: "\<forall>b \<in> log_area start. b \<noteq> start \<longrightarrow> length (f b) = BSIZE" "same_data start f g"
  shows "crash_ok start w g (f(start := y))" and "log_count start (f(start := y)) = 0"
proof -
  let ?d = "f(start := y)"
  have area: "start \<in> log_area start" by (simp add: log_area_def)
  show c: "log_count start ?d = 0" using y(1) by (simp add: log_count_def)
  then have h: "log_homes start ?d = []" by (simp add: log_homes_def)
  have "log_ok start ?d" using st c h y f(1) by (simp add: log_ok_def)
  moreover have "?d b = g b" if "b \<notin> log_area start" for b using that f(2) area by (auto simp: same_data_def)
  ultimately show "crash_ok start w g ?d" unfolding crash_ok_def replay_empty [OF c] same_data_def by blast
qed

text \<open>Recovery may itself be interrupted: every disk on its way recovers to the same data.\<close>

lemma crash_ok_replaying:
  assumes ok: "log_ok start d" and t: "t \<le> log_count start d"
  shows "crash_ok start w (replay start d) (install_to (log_homes start d) (\<lambda>i. d (start + 1 + i)) t d)"
proof -
  let ?hb = "log_homes start d" and ?s = "\<lambda>i. d (start + 1 + i)"
  let ?d = "install_to ?hb ?s t d"
  have n: "length ?hb = log_count start d" "log_count start d < 30" using ok by (simp_all add: log_homes_def log_ok_def)
  have hb: "b \<in> set ?hb \<Longrightarrow> b < 2 ^ 31 \<and> b \<notin> log_area start \<and> length (d b) = BSIZE" for b using ok by (auto simp: log_ok_def)
  have log: "?d b = d b" if "b \<in> log_area start" for b
    using that hb t n(1) by (intro install_to_other) (auto dest: in_set_takeD)
  have area: "start \<in> log_area start" "i < log_count start d \<Longrightarrow> start + 1 + i \<in> log_area start" for i
    using n(2) by (auto simp: log_area_def)
  have h: "log_count start ?d = log_count start d" "log_homes start ?d = ?hb"
    using log_homes_cong [of ?d start d] log [OF area(1)] by simp_all
  have len: "length (install_to ?hb ?s k d b) = BSIZE" if "length (d b) = BSIZE" "k \<le> log_count start d" for b k
    using that
  proof (induction k)
    case (Suc k)
    then show ?case using area(2) [of k] ok by (auto simp: log_ok_def)
  qed simp
  have "log_ok start ?d" using ok h log len [OF _ t] area(1) by (simp add: log_ok_def)
  moreover have "replay start ?d = replay start d"
  proof
    fix b
    have "b \<in> set ?hb \<or> ?d b = d b" using install_to_other [of t ?hb b ?s d] t n(1) in_set_takeD [of b t ?hb] by auto
    then show "replay start ?d b = replay start d b"
      unfolding replay_def h using log area(2) n(1) by (intro install_to_cong) simp_all
  qed
  ultimately show ?thesis by (simp add: crash_ok_def same_data_def)
qed

section \<open>Commit and recovery\<close>

definition log_quiet :: "nat \<Rightarrow> nat \<Rightarrow> 'a fskernel_scheme \<Rightarrow> bool" where
  "log_quiet p start s \<longleftrightarrow> sys_ok p s \<and> bc_inv (fs s) \<and> log_dev (lg (fs s)) = ROOTDEV \<and>
     unat (log_start (lg (fs s))) = start \<and> (\<forall>b. c_lk (cview (fs s)) b = None) \<and>
     (\<forall>b \<in> log_area start. c_ref (cview (fs s)) b = 0) \<and> card {b. 0 < c_ref (cview (fs s)) b} < NBUF"

text \<open>
  A state in which \<^verbatim>\<open>end_op\<close> calls \<^verbatim>\<open>commit\<close>: the log lists the home blocks \<open>hb\<close>, each pinned in the cache,
  and the log on disk is empty.
\<close>

definition commit_ready :: "nat \<Rightarrow> nat \<Rightarrow> nat list \<Rightarrow> 'a fskernel_scheme \<Rightarrow> bool" where
  "commit_ready p start hb s \<longleftrightarrow> log_quiet p start s \<and> lh_n (lg (fs s)) = of_nat (length hb) \<and>
     length hb \<le> length (lh_block (lg (fs s))) \<and> map unat (take (length hb) (lh_block (lg (fs s)))) = hb \<and>
     txn_ok start hb (c_blk (cview (fs s))) (platter (fs s)) \<and>
     (\<forall>b \<in> set hb. 0 < c_ref (cview (fs s)) b \<and> c_ref (cview (fs s)) b < 2 ^ 32 - 1)"

lemma log_block_number:
  assumes "unat (st :: int32) = start" and "start + 30 < 2 ^ 31" and "t < 29"
  shows "unat (st + of_nat t + 1) = start + 1 + t" and "start + 1 + t < 2 ^ 31"
proof -
  have u: "unat (of_nat k :: int32) = k" if "k < 2 ^ 32" for k
    using that by (simp add: unat_of_nat take_bit_nat_eq_self)
  have "unat (st + of_nat (t + 1)) = start + (t + 1)"
    using assms unat_add_lem [of st "of_nat (t + 1)"] u [of "t + 1"] by (simp del: of_nat_add)
  then show "unat (st + of_nat t + 1) = start + 1 + t" by (simp add: algebra_simps)
qed (use assms in simp)

lemma home_block: "map unat (take n bl) = hb \<Longrightarrow> n \<le> length bl \<Longrightarrow> t < n \<Longrightarrow> unat (bl ! t) = hb ! t"
  by auto

lemma fewer_refs:
  assumes "\<And>b. R b \<le> c_ref (cview v) b"
  shows "card {m. 0 < R m} \<le> card {m. 0 < c_ref (cview v) m}"
  using assms finite_refs [of v] by (intro card_mono) (auto intro: less_le_trans)

lemma install_to_length:
  "(\<And>k. k < t \<Longrightarrow> length (src k) = n) \<Longrightarrow> length (f b) = n \<Longrightarrow> length (install_to hb src t f b) = n"
  by (induction t) auto

lemma commit_readyD:
  assumes "commit_ready p start hb s" and "cview (fs s) = C" and "l = lg (fs s)"
  shows "sys_ok p s" "bc_inv (fs s)" "log_dev l = ROOTDEV" "unat (log_start l) = start" "\<forall>b. c_lk C b = None"
    "\<forall>b \<in> log_area start. c_ref C b = 0" "card {b. 0 < c_ref C b} < NBUF"
    "lh_n l = of_nat (length hb)" "length hb \<le> length (lh_block l)" "map unat (take (length hb) (lh_block l)) = hb"
    "txn_ok start hb (c_blk C) (c_plat C)" "\<forall>b \<in> set hb. 0 < c_ref C b \<and> c_ref C b < 2 ^ 32 - 1"
  using assms c_plat_cview [of "fs s"] by (auto simp: commit_ready_def log_quiet_def)

lemma txn_okD:
  assumes "txn_ok start hb new d"
  shows "length hb < 30" "start + 30 < 2 ^ 31" "distinct hb" "length (d start) = BSIZE" "log_count start d = 0"
    "start \<in> log_area start" "start < 2 ^ 31"
    "b \<in> set hb \<Longrightarrow> b < 2 ^ 31 \<and> b \<notin> log_area start \<and> length (new b) = BSIZE"
  using assms by (auto simp: txn_ok_def log_ok_def log_area_def)

lemma log_area_clean: "log_quiet p start s \<Longrightarrow> b \<in> log_area start \<Longrightarrow> c_blk (cview (fs s)) b = c_plat (cview (fs s)) b"
  using clean_block [of "fs s" b] by (auto simp: log_quiet_def)

lemma commit_ready_quiet: "commit_ready p start hb s \<Longrightarrow> log_quiet p start s"
  by (simp add: commit_ready_def)

text \<open>The header \<open>x\<close> that makes the transaction \<open>hb\<close> of \<open>s\<close> permanent, and a disk or cache with the log and it in place.\<close>

definition commit_head :: "nat \<Rightarrow> nat list \<Rightarrow> 'a fskernel_scheme \<Rightarrow> uint8 list" where
  "commit_head start hb s = head_data (of_nat (length hb)) (lh_block (lg (fs s))) (platter (fs s) start)"

definition committed :: "nat \<Rightarrow> nat list \<Rightarrow> 'a fskernel_scheme \<Rightarrow> (nat \<Rightarrow> uint8 list) \<Rightarrow> nat \<Rightarrow> uint8 list" where
  "committed start hb s f =
     (logged start hb (c_blk (cview (fs s))) (length hb) f)(start := commit_head start hb s)"

lemma commit_head_log:
  assumes "commit_ready p start hb s" and "y start = commit_head start hb s"
  shows "log_count start y = length hb \<and> log_homes start y = hb \<and> length (y start) = BSIZE \<and> 0 \<le> sint (rd32 (y start) 0)"
proof -
  note r = commit_readyD [OF assms(1) refl refl]
  show ?thesis
    using head_data_log [OF _ txn_okD(4) [OF r(11)] r(10,9), of y start] txn_okD(1) [OF r(11)] assms(2) c_plat_cview [of "fs s"]
    by (simp add: commit_head_def)
qed

lemma committed_blk:
  assumes "commit_ready p start hb s" and "C = cview (fs s)"
  shows "b \<notin> log_area start \<Longrightarrow> committed start hb s (c_blk C) b = c_blk C b"
    and "b \<in> log_area start \<Longrightarrow> length (committed start hb s (c_blk C) b) = BSIZE"
    and "b \<in> log_area start \<Longrightarrow> b \<noteq> start \<Longrightarrow> length (committed start hb s (c_plat C) b) = BSIZE"
    and "i < length hb \<Longrightarrow> committed start hb s (c_blk C) (start + 1 + i) = c_blk C (hb ! i)"
proof -
  note r = commit_readyD [OF assms(1) assms(2) [symmetric] refl] and t = txn_okD [OF commit_readyD(11) [OF assms(1) assms(2) [symmetric] refl]]
  show "committed start hb s (c_blk C) b = c_blk C b" if "b \<notin> log_area start"
    using that t(1,6) logged_data [of "length hb" b start hb "c_blk C" "c_blk C"] assms(2) by (auto simp: committed_def)
  show "length (committed start hb s (c_plat C) b) = BSIZE" if "b \<in> log_area start" "b \<noteq> start"
    using that logged_length [OF r(11) order_refl that(1)] assms(2) by (simp add: committed_def)
  show "length (committed start hb s (c_blk C) b) = BSIZE" if "b \<in> log_area start"
    using that commit_head_log [OF assms(1), of "\<lambda>_. commit_head start hb s"] logged_length [OF r(11) order_refl that] assms(2)
      log_area_clean [OF commit_ready_quiet [OF assms(1)] that] by (auto simp: committed_def logged_def)
  show "committed start hb s (c_blk C) (start + 1 + i) = c_blk C (hb ! i)" if "i < length hb"
    using that logged_log [OF that, of start hb "c_blk C" "c_blk C"] assms(2) by (simp add: committed_def)
qed

context disk_driver
begin

lemma write_log_csteps:
  assumes rdy: "commit_ready p start hb s" and C: "cview (fs s) = C"
    and guard: "\<And>t. t \<le> length hb \<Longrightarrow> I (logged start hb (c_blk C) t (c_plat C))"
  shows "\<exists>s'. write_log e s = Ok s' \<and> csteps p s s' (C\<lparr>c_blk := logged start hb (c_blk C) (length hb) (c_blk C),
     c_plat := logged start hb (c_blk C) (length hb) (c_plat C)\<rparr>)"
proof -
  let ?n = "length hb" and ?l = "lg (fs s)"
  define P where "P t s' \<longleftrightarrow> csteps p s s' (C\<lparr>c_blk := logged start hb (c_blk C) t (c_blk C),
     c_plat := logged start hb (c_blk C) t (c_plat C)\<rparr>)" for t s'
  note q = commit_readyD(1-7) [OF rdy C refl] and r = commit_readyD(8-12) [OF rdy C refl]
  note n = txn_okD(1,2) [OF r(4)]
  have p: "p < NPROC" by (rule sys_okD(5) [OF q(1)])
  have cnt: "sint (lh_n (lg (fs s'))) = int ?n" if "P t s'" for t s'
    using cstepsD(4) [OF that [unfolded P_def] p] r(1) n(1) by (simp add: signed_of_nat signed_take_bit_int_eq_self)
  have step: "\<exists>s''. write_log_one e t s' = Ok s'' \<and> P (Suc t) s''" if t: "t < ?n" and Pt: "P t s'" for t s'
  proof -
    note f = cstepsD [OF Pt [unfolded P_def] p]
    let ?L = "start + 1 + t" and ?H = "hb ! t"
    have mem: "?H \<in> set hb" "?L \<in> log_area start" using t n(1) by (auto simp: log_area_def)
    have H: "?H < 2 ^ 31" "?H \<notin> log_area start" "length (c_blk C ?H) = BSIZE"
      using txn_okD(8) [OF r(4) mem(1)] by auto
    have Lb: "unat (log_start (lg (fs s')) + of_nat t + 1) = ?L" "?L < 2 ^ 31"
      using log_block_number [OF q(4) n(2), of t] t n(1) f(4) by auto
    have Hb: "unat (lh_block (lg (fs s')) ! t) = ?H" using home_block [OF r(3,2) t] f(4) by simp
    have area: "c_blk C b = c_plat C b" if "b \<in> log_area start" for b
      using log_area_clean [OF commit_ready_quiet [OF rdy] that] C by simp
    have home: "logged start hb (c_blk C) t (c_blk C) ?H = c_blk C ?H"
      using logged_data [of t ?H start hb "c_blk C" "c_blk C"] H(2) t n(1) by simp
    have len: "length (logged start hb (c_blk C) t (c_blk C) ?L) = BSIZE"
      using logged_length [OF r(4), of t ?L] t mem(2) area [OF mem(2)] by (auto simp: logged_def split: if_splits)
    have ne: "?L \<noteq> ?H" using mem(2) H(2) by auto
    have upd: "(logged start hb (c_blk C) t g)(?L := c_blk C ?H) = logged start hb (c_blk C) (Suc t) g" for g
      by simp
    show ?thesis
      using write_log_one_csteps [OF f(1-3) _ Lb Hb H(1) ne] f(4) q r(5) mem len H(3) home upd guard [of "Suc t"] t
      unfolding P_def using csteps_trans [OF Pt [unfolded P_def]] by auto
  qed
  have "P 0 s" using q C by (simp add: P_def csteps_def quiet_refl)
  from log_loop_steps [of ?n P "write_log_one e", OF step cnt this] n(1)
  show ?thesis by (simp add: write_log_def P_def)
qed

lemma install_trans_csteps:
  assumes q: "log_quiet p start s" and C: "cview (fs s) = C" and cnt: "lh_n (lg (fs s)) = of_nat (length hb)"
    and n: "length hb < 30" "start + 30 < 2 ^ 31"
    and bl: "length hb \<le> length (lh_block (lg (fs s)))" "map unat (take (length hb) (lh_block (lg (fs s)))) = hb"
    and hb: "\<forall>b \<in> set hb. b < 2 ^ 31 \<and> b \<notin> log_area start \<and> length (c_blk C b) = BSIZE"
    and area: "\<forall>b \<in> log_area start. length (c_blk C b) = BSIZE"
    and refs: "if recovering then c_ref C = (\<lambda>_. 0) else distinct hb \<and> (\<forall>b \<in> set hb. 0 < c_ref C b \<and> c_ref C b < 2 ^ 32 - 1)"
    and src: "src = (\<lambda>i. c_blk C (start + 1 + i))" and guard: "\<And>t. t \<le> length hb \<Longrightarrow> I (install_to hb src t (c_plat C))"
  shows "\<exists>s'. install_trans e recovering s = Ok s' \<and> csteps p s s' (C\<lparr>c_blk := install_to hb src (length hb) (c_blk C),
     c_plat := install_to hb src (length hb) (c_plat C), c_ref := \<lambda>b. if b \<in> set hb then c_ref C b - 1 else c_ref C b\<rparr>)"
proof -
  let ?n = "length hb" and ?l = "lg (fs s)"
  define ref where "ref t b = (if b \<in> set (take t hb) then c_ref C b - 1 else c_ref C b)" for t b
  define P where "P t s' \<longleftrightarrow> csteps p s s' (C\<lparr>c_blk := install_to hb src t (c_blk C),
     c_plat := install_to hb src t (c_plat C), c_ref := ref t\<rparr>)" for t s'
  have qs: "sys_ok p s" "bc_inv (fs s)" "log_dev ?l = ROOTDEV" "unat (log_start ?l) = start" "\<forall>b. c_lk C b = None"
    "\<forall>b \<in> log_area start. c_ref C b = 0" "card {b. 0 < c_ref C b} < NBUF"
    using q C by (auto simp: log_quiet_def)
  have p: "p < NPROC" by (rule sys_okD(5) [OF qs(1)])
  have count: "sint (lh_n (lg (fs s'))) = int ?n" if "P t s'" for t s'
    using cstepsD(4) [OF that [unfolded P_def] p] cnt n(1) by (simp add: signed_of_nat signed_take_bit_int_eq_self)
  have step: "\<exists>s''. install_one e recovering t s' = Ok s'' \<and> P (Suc t) s''" if t: "t < ?n" and Pt: "P t s'" for t s'
  proof -
    note f = cstepsD [OF Pt [unfolded P_def] p]
    let ?L = "start + 1 + t" and ?H = "hb ! t"
    have mem: "?H \<in> set hb" "?L \<in> log_area start" using t n(1) by (auto simp: log_area_def)
    have H: "?H < 2 ^ 31" "?H \<notin> log_area start" using hb mem(1) by auto
    have Lb: "unat (log_start (lg (fs s')) + of_nat t + 1) = ?L" "?L < 2 ^ 31"
      using log_block_number [OF qs(4) n(2), of t] t n(1) f(4) by auto
    have Hb: "unat (lh_block (lg (fs s')) ! t) = ?H" using home_block [OF bl(2,1) t] f(4) by simp
    have notin: "b \<notin> set (take t hb)" if "b \<in> log_area start" for b
      using that hb by (auto dest: in_set_takeD)
    have L: "install_to hb src t (c_blk C) ?L = src t" "ref t ?L = 0"
      using install_to_other [of t hb ?L src] notin [OF mem(2)] mem(2) qs(6) t src by (auto simp: ref_def)
    have lens: "length (install_to hb src t (c_blk C) b) = BSIZE" if "b \<in> set hb" for b
      using hb that area src t n(1) by (intro install_to_length) (auto simp: log_area_def)
    have lenL: "length (src t) = BSIZE" using area mem(2) src by auto
    have ne: "?L \<noteq> ?H" using mem(2) H(2) by auto
    have fresh: "?H \<notin> set (take t hb)" if "distinct hb"
      using that t by (auto simp: in_set_conv_nth nth_eq_iff_index_eq)
    have refH: "if recovering then ref t = (\<lambda>_. 0) else 0 < ref t ?H \<and> ref t ?H < 2 ^ 32 - 1"
      using refs mem(1) fresh by (auto simp: fun_eq_iff ref_def)
    have room: "card {m. 0 < ref t m} < NBUF"
    proof (rule le_less_trans [OF _ qs(7)])
      show "card {m. 0 < ref t m} \<le> card {b. 0 < c_ref C b}" using fewer_refs [of "ref t" "fs s"] C by (simp add: ref_def)
    qed
    have next_ref: "(ref t)(?H := ref t ?H - 1) = ref (Suc t)"
      using refs fresh mem(1) t by (auto simp: fun_eq_iff take_Suc_conv_app_nth ref_def split: if_splits)
    let ?D = "C\<lparr>c_blk := install_to hb src t (c_blk C), c_plat := install_to hb src t (c_plat C), c_ref := ref t\<rparr>"
    have "log_dev (lg (fs s')) = ROOTDEV" "\<forall>m. c_lk ?D m = None" "c_ref ?D ?L = 0"
      "if recovering then c_ref ?D = (\<lambda>_. 0) else 0 < c_ref ?D ?H \<and> c_ref ?D ?H < 2 ^ 32 - 1"
      "card {m. 0 < c_ref ?D m} < NBUF" "length (c_blk ?D ?L) = BSIZE" "length (c_blk ?D ?H) = BSIZE"
      "I ((c_plat ?D)(?H := c_blk ?D ?L))"
      using f(4) qs refH room L lens [OF mem(1)] lenL guard [of "Suc t"] t by (simp_all split: if_splits)
    from install_one_csteps [OF f(1-3) this(1) Lb Hb H(1) ne this(2-)]
    obtain s'' where s'': "install_one e recovering t s' = Ok s''"
      "csteps p s' s'' (?D\<lparr>c_blk := (c_blk ?D)(?H := c_blk ?D ?L), c_plat := (c_plat ?D)(?H := c_blk ?D ?L),
        c_ref := (c_ref ?D)(?H := c_ref ?D ?H - 1)\<rparr>)" by blast
    have "P (Suc t) s''"
      using csteps_trans [OF Pt [unfolded P_def] s''(2)] L(1) next_ref by (simp add: P_def)
    then show ?thesis using s''(1) by blast
  qed
  have "ref 0 = c_ref C" "ref ?n = (\<lambda>b. if b \<in> set hb then c_ref C b - 1 else c_ref C b)" by (auto simp: ref_def fun_eq_iff)
  note ends = this
  have "P 0 s" using qs C ends by (simp add: P_def csteps_def quiet_refl)
  from log_loop_steps [of ?n P "install_one e recovering", OF step count this] n(1)
  show ?thesis by (simp add: install_trans_def P_def ends)
qed

lemma commit_writes:
  assumes rdy: "commit_ready p start hb s" and C: "cview (fs s) = C"
    and guard: "\<And>x. crash_ok start (c_plat C) (txn_new hb (c_blk C) (c_plat C)) x \<Longrightarrow> I x"
  shows "\<exists>s1 s2. write_log e s = Ok s1 \<and> write_head e s1 = Ok s2 \<and>
     csteps p s s2 (C\<lparr>c_blk := committed start hb s (c_blk C), c_plat := committed start hb s (c_plat C)\<rparr>)"
proof -
  note r = commit_readyD [OF rdy C refl] and t = txn_okD [OF commit_readyD(11) [OF rdy C refl]]
  let ?w = "logged start hb (c_blk C) (length hb)" and ?x = "commit_head start hb s"
  obtain s1 where s1: "write_log e s = Ok s1"
    and st1: "csteps p s s1 (C\<lparr>c_blk := ?w (c_blk C), c_plat := ?w (c_plat C)\<rparr>)" (is "csteps p s s1 ?C1")
    using write_log_csteps [OF rdy C] crash_ok_logged [OF r(11)] guard by blast
  note f1 = cstepsD [OF st1 sys_okD(5) [OF r(1)]]
  have x: "?x = head_data (lh_n (lg (fs s1))) (lh_block (lg (fs s1))) (c_blk ?C1 start)"
    using f1(4) r(8) log_area_clean [OF commit_ready_quiet [OF rdy] t(6)] C c_plat_cview [of "fs s"] by (simp add: commit_head_def)
  have "I ((c_plat ?C1)(start := ?x))"
    using guard [OF crash_ok_installing [OF r(11) le0 commit_head_log [OF rdy]]] by simp
  then obtain s2 where "write_head e s1 = Ok s2"
    "csteps p s1 s2 (?C1\<lparr>c_blk := (?w (c_blk C))(start := ?x), c_plat := (?w (c_plat C))(start := ?x)\<rparr>)"
    using write_head_csteps [OF f1(1-3), of start ?x] x f1(4) r t by auto
  then show ?thesis using s1 csteps_trans [OF st1] C by (auto simp: committed_def)
qed

lemma commit_installs:
  assumes rdy: "commit_ready p start hb s" and C: "cview (fs s) = C"
    and guard: "\<And>x. crash_ok start (c_plat C) (txn_new hb (c_blk C) (c_plat C)) x \<Longrightarrow> I x"
    and st: "csteps p s s2 (C\<lparr>c_blk := committed start hb s (c_blk C), c_plat := committed start hb s (c_plat C)\<rparr>)"
    and i: "inst = install_to hb (\<lambda>i. c_blk C (hb ! i)) (length hb)"
  shows "\<exists>s3. install_trans e False s2 = Ok s3 \<and> csteps p s s3 (C\<lparr>c_blk := inst (committed start hb s (c_blk C)),
     c_plat := inst (committed start hb s (c_plat C)), c_ref := \<lambda>b. if b \<in> set hb then c_ref C b - 1 else c_ref C b\<rparr>)"
proof -
  let ?C2 = "C\<lparr>c_blk := committed start hb s (c_blk C), c_plat := committed start hb s (c_plat C)\<rparr>"
  note r = commit_readyD [OF rdy C refl] and t = txn_okD [OF commit_readyD(11) [OF rdy C refl]]
    and f = cstepsD [OF st sys_okD(5) [OF commit_readyD(1) [OF rdy C refl]]] and k = committed_blk [OF rdy C [symmetric]]
  define src where "src = (\<lambda>i. c_blk ?C2 (start + 1 + i))"
  have to: "install_to hb src k f = install_to hb (\<lambda>i. c_blk C (hb ! i)) k f" if "k \<le> length hb" for k f
    using that k(4) by (intro ext install_to_cong) (auto simp: src_def)
  have q2: "log_quiet p start s2" using f(1-4) r by (simp add: log_quiet_def)
  have "\<exists>s3. install_trans e False s2 = Ok s3 \<and> csteps p s2 s3 (?C2\<lparr>c_blk := install_to hb src (length hb) (c_blk ?C2),
      c_plat := install_to hb src (length hb) (c_plat ?C2), c_ref := \<lambda>b. if b \<in> set hb then c_ref ?C2 b - 1 else c_ref ?C2 b\<rparr>)"
  proof (rule install_trans_csteps [OF q2 f(3) _ t(1,2) _ _ _ _ _ src_def])
    show "\<forall>b \<in> set hb. b < 2 ^ 31 \<and> b \<notin> log_area start \<and> length (c_blk ?C2 b) = BSIZE" using t(8) k(1) by simp
    show "\<forall>b \<in> log_area start. length (c_blk ?C2 b) = BSIZE" using k(2) by simp
    show "I (install_to hb src j (c_plat ?C2))" if "j \<le> length hb" for j
      using guard [OF crash_ok_installing [OF r(11) that commit_head_log [OF rdy]]] to [OF that] C by (simp add: committed_def)
  qed (use f(4) r t(3) in simp_all)
  then obtain s3 where "install_trans e False s2 = Ok s3"
    and s3: "csteps p s2 s3 (?C2\<lparr>c_blk := install_to hb src (length hb) (c_blk ?C2),
      c_plat := install_to hb src (length hb) (c_plat ?C2), c_ref := \<lambda>b. if b \<in> set hb then c_ref ?C2 b - 1 else c_ref ?C2 b\<rparr>)"
    by blast
  have cr: "c_ref ?C2 = c_ref C" by simp
  show ?thesis using \<open>install_trans e False s2 = Ok s3\<close> csteps_trans [OF st s3 [unfolded cr]] to [OF order_refl] by (intro exI [of _ s3]) (simp add: i)
qed

lemma commit_erases:
  assumes rdy: "commit_ready p start hb s" and C: "cview (fs s) = C" and D: "D = C\<lparr>c_blk := B, c_plat := P, c_ref := R\<rparr>"
    and guard: "\<And>x. crash_ok start (c_plat C) (txn_new hb (c_blk C) (c_plat C)) x \<Longrightarrow> I x"
    and st: "csteps p s s3 D" and R: "\<And>b. R b \<le> c_ref C b" and B: "length (B start) = BSIZE"
    and P: "same_data start P (txn_new hb (c_blk C) (c_plat C))" "\<And>b. b \<in> log_area start \<Longrightarrow> b \<noteq> start \<Longrightarrow> length (P b) = BSIZE"
  shows "\<exists>s4 y. write_head e (set_log (\<lambda>l. l\<lparr>lh_n := 0\<rparr>) s3) = Ok s4 \<and> quiet p s s4 \<and> bc_inv (fs s4) \<and>
     lg (fs s4) = (lg (fs s))\<lparr>lh_n := 0\<rparr> \<and> log_count start (P(start := y)) = 0 \<and>
     cview (fs s4) = D\<lparr>c_blk := B(start := y), c_plat := P(start := y)\<rparr>"
proof -
  note r = commit_readyD [OF rdy C refl] and t = txn_okD [OF commit_readyD(11) [OF rdy C refl]]
    and f = cstepsD [OF st sys_okD(5) [OF commit_readyD(1) [OF rdy C refl]]]
  let ?s3 = "set_log (\<lambda>l. l\<lparr>lh_n := 0\<rparr>) s3"
  have keep: "bc_inv (fs ?s3)" "cview (fs ?s3) = D" "lg (fs ?s3) = (lg (fs s))\<lparr>lh_n := 0\<rparr>" "quiet p s3 ?s3"
    using f(1-4) by (simp_all add: set_log_facts) (simp add: quiet_fs_upd set_log_def)
  define y where "y = head_data 0 (lh_block (lg (fs s))) (B start)"
  have y: "rd32 y 0 = 0" "length y = BSIZE" using B by (simp_all add: y_def head_data_def rd32_wr32 BSIZE_def)
  have ce: "crash_ok start (c_plat C) (txn_new hb (c_blk C) (c_plat C)) (P(start := y))" "log_count start (P(start := y)) = 0"
    using crash_ok_erased [OF t(2) y, of P] P by (auto simp: same_data_def)
  have room: "card {m. 0 < c_ref D m} < NBUF" using fewer_refs [of R "fs s"] R C r(7) D by simp
  have "R start = 0" using R [of start] r(6) t(6) by simp
  then obtain s4 where "write_head e ?s3 = Ok s4"
    "csteps p ?s3 s4 (D\<lparr>c_blk := (c_blk D)(start := y), c_plat := (c_plat D)(start := y)\<rparr>)"
    using write_head_csteps [OF quiet_ok [OF keep(4)] keep(1,2), of start y] keep(3) r t room guard [OF ce(1)] D y_def by auto
  note s4 = this and f4 = cstepsD [OF this(2) sys_okD(5) [OF r(1)]]
  have "quiet p s s4" using st s4(2) keep(4) unfolding csteps_def by (meson quiet_trans)
  then show ?thesis using s4(1) f4(2-4) keep(3) ce(2) D by auto
qed

lemma commit_does:
  assumes rdy: "commit_ready p start hb s" and C: "cview (fs s) = C"
    and guard: "\<And>x. crash_ok start (c_plat C) (txn_new hb (c_blk C) (c_plat C)) x \<Longrightarrow> I x"
  shows "\<exists>s'. commit e s = Ok s' \<and> quiet p s s' \<and> bc_inv (fs s') \<and> lg (fs s') = (lg (fs s))\<lparr>lh_n := 0\<rparr> \<and>
     log_count start (platter (fs s')) = 0 \<and> same_data start (platter (fs s')) (txn_new hb (c_blk C) (c_plat C)) \<and>
     same_data start (c_blk (cview (fs s'))) (c_blk C) \<and> c_lk (cview (fs s')) = c_lk C \<and>
     c_ref (cview (fs s')) = (\<lambda>b. if b \<in> set hb then c_ref C b - 1 else c_ref C b)"
proof -
  note r = commit_readyD [OF rdy C refl] and t = txn_okD [OF commit_readyD(11) [OF rdy C refl]]
    and k = committed_blk [OF rdy C [symmetric]]
  have sn: "sint (lh_n (lg (fs s))) = int (length hb)" using r(8) t(1) by (simp add: signed_of_nat signed_take_bit_int_eq_self)
  show ?thesis
  proof (cases "hb = []")
    case True
    have "fs s = (fs s)\<lparr>lg := (lg (fs s))\<lparr>lh_n := 0\<rparr>\<rparr>" using r(8) True by simp
    moreover have "commit e s = Ok s" using sn True by (simp add: commit_def)
    ultimately show ?thesis
      using True r(1,2,8) t(5) C c_plat_cview [of "fs s"] by (auto simp: quiet_refl same_data_def txn_new_def)
  next
    case False
    define inst where "inst = install_to hb (\<lambda>i. c_blk C (hb ! i)) (length hb)"
    obtain s1 s2 where s12: "write_log e s = Ok s1" "write_head e s1 = Ok s2"
      "csteps p s s2 (C\<lparr>c_blk := committed start hb s (c_blk C), c_plat := committed start hb s (c_plat C)\<rparr>)"
      using commit_writes [OF rdy C guard] by blast
    obtain s3 where s3: "install_trans e False s2 = Ok s3" "csteps p s s3 (C\<lparr>c_blk := inst (committed start hb s (c_blk C)),
       c_plat := inst (committed start hb s (c_plat C)), c_ref := \<lambda>b. if b \<in> set hb then c_ref C b - 1 else c_ref C b\<rparr>)"
      using commit_installs [OF rdy C guard s12(3) inst_def] by blast
    have other: "inst g b = g b" if "b \<in> log_area start" for b g
      using install_to_other [OF order_refl, of b hb] t(8) that by (auto simp: inst_def)
    have data: "inst (committed start hb s (c_plat C)) b = txn_new hb (c_blk C) (c_plat C) b" if "b \<notin> log_area start" for b
      using installed_data [OF r(11) that] C by (simp add: committed_def inst_def)
    have blk: "inst (committed start hb s (c_blk C)) b = c_blk C b" if "b \<notin> log_area start" for b
      using install_to_nth [OF t(3) order_refl, of _ "\<lambda>i. c_blk C (hb ! i)"] install_to_other [OF order_refl, of b hb] k(1) [OF that]
      by (cases "b \<in> set hb") (auto simp: in_set_conv_nth inst_def)
    have le: "(if b \<in> set hb then c_ref C b - 1 else c_ref C b) \<le> c_ref C b" for b by simp
    obtain s4 y where s4: "write_head e (set_log (\<lambda>l. l\<lparr>lh_n := 0\<rparr>) s3) = Ok s4" "quiet p s s4" "bc_inv (fs s4)"
      "lg (fs s4) = (lg (fs s))\<lparr>lh_n := 0\<rparr>" "log_count start ((inst (committed start hb s (c_plat C)))(start := y)) = 0"
      "cview (fs s4) = C\<lparr>c_blk := (inst (committed start hb s (c_blk C)))(start := y),
         c_plat := (inst (committed start hb s (c_plat C)))(start := y), c_ref := \<lambda>b. if b \<in> set hb then c_ref C b - 1 else c_ref C b\<rparr>"
      using commit_erases [OF rdy C refl guard s3(2) le] other t(6) k(2,3) data by (auto simp: same_data_def)
    have "commit e s = Ok s4" using sn False s12 s3(1) s4(1) by (simp add: commit_def)
    moreover have "platter (fs s4) = (inst (committed start hb s (c_plat C)))(start := y)"
      using s4(6) c_plat_cview [of "fs s4"] by simp
    ultimately show ?thesis using s4(2-6) data blk t(6) by (auto simp: same_data_def)
  qed
qed

lemma read_head_does:
  assumes q: "log_quiet p start s" and C: "cview (fs s) = C" and ok: "log_ok start (c_plat C)"
    and len: "length (lh_block (lg (fs s))) = 30" and hb: "hb = log_homes start (c_plat C)"
  shows "\<exists>s'. read_head e s = Ok s' \<and> quiet p s s' \<and> log_quiet p start s' \<and> cview (fs s') = C \<and>
     lh_n (lg (fs s')) = of_nat (length hb) \<and> length hb \<le> length (lh_block (lg (fs s'))) \<and>
     map unat (take (length hb) (lh_block (lg (fs s')))) = hb"
proof -
  have qs: "sys_ok p s" "bc_inv (fs s)" "log_dev (lg (fs s)) = ROOTDEV" "unat (log_start (lg (fs s))) = start"
    "\<forall>b. c_lk C b = None" "\<forall>b \<in> log_area start. c_ref C b = 0" "card {b. 0 < c_ref C b} < NBUF"
    using q C by (auto simp: log_quiet_def)
  have p: "p < NPROC" by (rule sys_okD(5) [OF qs(1)])
  have B: "start \<in> log_area start" "start < 2 ^ 31" using ok by (auto simp: log_area_def log_ok_def)
  let ?me = "Some (pid (procs s ! p))" and ?n = "log_count start (c_plat C)"
  obtain b s1 where b: "bread e ROOTDEV (log_start (lg (fs s))) s = Ok (b, s1)" "buf_for (fs s1) b start"
    and st1: "csteps p s s1 (C\<lparr>c_ref := (c_ref C)(start := 1), c_lk := (c_lk C)(start := ?me)\<rparr>)" (is "csteps p s s1 ?C1")
    using bread_csteps [OF qs(1,2) C qs(4) B(2)] qs B(1) by auto
  note f1 = cstepsD [OF st1 p]
  have data: "bdata (bufs (fs s1) ! b) = c_plat C start"
    using held_facts(1) [OF f1(2) b(2)] f1(3) clean_block [OF qs(2), of start] C qs(6) B(1) by auto
  define g where "g = (\<lambda>l :: klog. l\<lparr>lh_n := rd32 (c_plat C start) 0,
    lh_block := fold (\<lambda>i bl. bl[i := rd32 (c_plat C start) (4 + 4 * i)]) [0..<?n] (lh_block l)\<rparr>)"
  let ?s2 = "set_log g s1"
  have keep: "bc_inv (fs ?s2)" "cview (fs ?s2) = ?C1" "lg (fs ?s2) = g (lg (fs s))" "buf_for (fs ?s2) b start" "quiet p s1 ?s2"
    using f1(1-4) b(2) by (simp_all add: set_log_facts) (simp add: quiet_fs_upd set_log_def)
  have ok2: "sys_ok p ?s2" by (rule quiet_ok [OF keep(5)])
  have pid2: "pid (procs ?s2 ! p) = pid (procs s ! p)" using quiet_proc(1) [OF keep(5) p] f1(6) by simp
  obtain s3 where s3: "brelse b ?s2 = Ok s3" and st3: "csteps p ?s2 s3 C"
    using brelse_csteps [OF ok2 keep(1,2,4)] qs B(1) pid2 clean_block [OF qs(2), of start] C by (auto simp: fun_upd_idem)
  note f3 = cstepsD [OF st3 p]
  have "read_head e s = Ok s3" using b(1) s3 qs(3) data by (simp add: read_head_def Let_def log_count_def g_def)
  moreover have "quiet p s s3" using st1 st3 keep(5) unfolding csteps_def by (meson quiet_trans)
  moreover have "log_quiet p start s3" using f3(1-4) keep(3) qs by (simp add: log_quiet_def g_def)
  moreover have "?n \<le> 30" using ok by (simp add: log_ok_def)
  then have bl: "lh_block (lg (fs s3)) = map (\<lambda>i. rd32 (c_plat C start) (4 + 4 * i)) [0..<?n] @ drop ?n (lh_block (lg (fs s)))"
    using fold_list_update [of ?n "lh_block (lg (fs s))"] len f3(4) keep(3) by (simp add: g_def)
  have lh: "length hb = ?n" "hb = map (\<lambda>i. unat (rd32 (c_plat C start) (4 + 4 * i))) [0..<?n]" by (simp_all add: hb log_homes_def)
  have "lh_n (lg (fs s3)) = of_nat ?n"
    using f3(4) keep(3) ok by (simp add: g_def log_count_def log_ok_def)
  ultimately show ?thesis using f3(3) lh by (auto simp: bl)
qed

lemma recover_does:
  assumes q: "log_quiet p start s" and C: "cview (fs s) = C" and none: "c_ref C = (\<lambda>_. 0)" and ok: "log_ok start (c_plat C)"
    and len: "length (lh_block (lg (fs s))) = 30"
    and guard: "\<And>x. crash_ok start (c_plat C) (replay start (c_plat C)) x \<Longrightarrow> I x"
  shows "\<exists>s'. recover_from_log e s = Ok s' \<and> quiet p s s' \<and> log_quiet p start s' \<and> lh_n (lg (fs s')) = 0 \<and>
     log_count start (platter (fs s')) = 0 \<and> same_data start (platter (fs s')) (replay start (c_plat C)) \<and>
     c_blk (cview (fs s')) = platter (fs s') \<and> c_ref (cview (fs s')) = (\<lambda>_. 0)"
proof -
  let ?d = "c_plat C"
  define hb where "hb = log_homes start ?d"
  let ?n = "length hb"
  have n: "?n = log_count start ?d" "?n < 30" "start + 30 < 2 ^ 31" using ok by (simp_all add: hb_def log_homes_def log_ok_def)
  obtain s1 where s1: "read_head e s = Ok s1" "quiet p s s1" "log_quiet p start s1" "cview (fs s1) = C"
    "lh_n (lg (fs s1)) = of_nat ?n" "?n \<le> length (lh_block (lg (fs s1)))" "map unat (take ?n (lh_block (lg (fs s1)))) = hb"
    using read_head_does [OF q C ok len hb_def] by blast
  have inv: "bc_inv (fs s1)" and ok1: "sys_ok p s1" using s1(3) by (simp_all add: log_quiet_def)
  have p: "p < NPROC" by (rule sys_okD(5) [OF ok1])
  have blk: "c_blk C = ?d" using clean_block [OF inv] s1(4) none by (auto simp: fun_eq_iff)
  define src where "src = (\<lambda>i. c_blk C (start + 1 + i))"
  have hbs: "b < 2 ^ 31 \<and> b \<notin> log_area start \<and> length (c_blk C b) = BSIZE" if "b \<in> set hb" for b
    using ok that by (auto simp: log_ok_def hb_def blk)
  have g: "I (install_to hb src t ?d)" if "t \<le> ?n" for t
    using crash_ok_replaying [OF ok, of t ?d] that n(1) guard by (simp add: hb_def src_def blk)
  have "\<exists>s2. install_trans e True s1 = Ok s2 \<and> csteps p s1 s2 (C\<lparr>c_blk := install_to hb src ?n (c_blk C),
      c_plat := install_to hb src ?n ?d, c_ref := \<lambda>b. if b \<in> set hb then c_ref C b - 1 else c_ref C b\<rparr>)"
    by (rule install_trans_csteps [OF s1(3,4,5) n(2,3) s1(6,7) _ _ _ src_def g])
       (use hbs ok none in \<open>auto simp: log_ok_def blk\<close>)
  then obtain s2 where s2: "install_trans e True s1 = Ok s2"
    and st2: "csteps p s1 s2 (C\<lparr>c_blk := install_to hb src ?n ?d, c_plat := install_to hb src ?n ?d, c_ref := \<lambda>_. 0\<rparr>)" (is "csteps p s1 s2 ?C2")
    by (auto simp: blk none cong: if_cong)
  note f2 = cstepsD [OF st2 p]
  let ?s2 = "set_log (\<lambda>l. l\<lparr>lh_n := 0\<rparr>) s2" and ?f = "install_to hb src ?n ?d"
  have rp: "?f = replay start ?d" by (simp add: replay_def hb_def src_def n(1) [unfolded hb_def] blk)
  have keep: "bc_inv (fs ?s2)" "cview (fs ?s2) = ?C2" "lg (fs ?s2) = (lg (fs s1))\<lparr>lh_n := 0\<rparr>" "quiet p s2 ?s2"
    using f2(1-4) by (simp_all add: set_log_facts) (simp add: quiet_fs_upd set_log_def)
  have ok2: "sys_ok p ?s2" by (rule quiet_ok [OF keep(4)])
  define y where "y = head_data 0 (lh_block (lg (fs s1))) (?f start)"
  have area: "?f b = ?d b" if "b \<in> log_area start" for b
    using that hbs install_to_other [OF order_refl, of b hb src ?d] by auto
  have B: "start \<in> log_area start" "start < 2 ^ 31" using n(3) by (auto simp: log_area_def)
  have lens: "length (?f b) = BSIZE" if "b \<in> log_area start" for b using area [OF that] ok that by (simp add: log_ok_def)
  have hy: "rd32 y 0 = 0" "length y = BSIZE"
    using lens [OF B(1)] by (simp_all add: y_def head_data_def rd32_wr32 BSIZE_def)
  have ce: "crash_ok start ?d (replay start ?d) (?f(start := y))" and cnt0: "log_count start (?f(start := y)) = 0"
    using crash_ok_erased [OF n(3) hy, of ?f "replay start ?d"] lens rp by (auto simp: same_data_def)
  have "\<exists>s3. write_head e ?s2 = Ok s3 \<and> csteps p ?s2 s3 (?C2\<lparr>c_blk := (c_blk ?C2)(start := y), c_plat := (c_plat ?C2)(start := y)\<rparr>)"
    by (rule write_head_csteps [OF ok2 keep(1,2) _ _ B(2)])
       (use keep(3) s1(3) guard [OF ce] in \<open>auto simp: log_quiet_def y_def NBUF_def MAXOPBLOCKS_def s1(4)\<close>)
  then obtain s3 where s3: "write_head e ?s2 = Ok s3"
    and st3: "csteps p ?s2 s3 (?C2\<lparr>c_blk := ?f(start := y), c_plat := ?f(start := y)\<rparr>)" (is "csteps p ?s2 s3 ?C3") by auto
  note f3 = cstepsD [OF st3 p]
  have "recover_from_log e s = Ok s3" using s1(1) s2 s3 by (simp add: recover_from_log_def)
  moreover have "quiet p s s3" using s1(2) st2 st3 keep(4) unfolding csteps_def by (meson quiet_trans)
  moreover have "log_quiet p start s3" using f3(1-4) keep(3) s1(3) by (auto simp: log_quiet_def s1(4) NBUF_def MAXOPBLOCKS_def)
  ultimately show ?thesis using f3(3-5) keep(3) cnt0 rp B(1) by (auto simp: same_data_def)
qed

end

section \<open>Writing to the log\<close>

text \<open>The net effect of \<^verbatim>\<open>log_write\<close> on the file system's data.\<close>

definition log_enter :: "nat \<Rightarrow> nat \<Rightarrow> fsstate \<Rightarrow> fsstate" where
  "log_enter b i v =
     (let l = lg v; new = (int i = sint (lh_n l));
          v1 = v\<lparr>lg := l\<lparr>lh_block := (lh_block l)[i := bblockno (bufs v ! b)], lh_n := (if new then lh_n l + 1 else lh_n l)\<rparr>\<rparr>
      in if new then buf_upd b (\<lambda>u. u\<lparr>brefcnt := brefcnt u + 1\<rparr>) v1 else v1)"

lemma log_write_eq:
  assumes ok: "sys_ok p s" and i: "i = absorb (nat (sint (lh_n (lg (fs s))))) (lh_block (lg (fs s))) (bblockno (bufs (fs s) ! b))"
    and fits: "sint (lh_n (lg (fs s))) < LOGSIZE" "sint (lh_n (lg (fs s))) < sint (log_size (lg (fs s)) - 1)"
    and "1 \<le> sint (outstanding (lg (fs s)))"
  shows "log_write b s = Ok (ktouch (fs_upd (log_enter b i) s))"
proof -
  let ?t = "set_mach (taken LogLock (kmach s)) s"
  note sok = sys_okD [OF ok]
  have acq: "kacquire LogLock s = Ok ?t" by (rule fs_section(1) [OF ok])
  have pin: "bpin b u = Ok (set_buf b (\<lambda>x. x\<lparr>brefcnt := brefcnt x + 1\<rparr>) u)" if m: "kmach u = taken LogLock (kmach s)" for u :: "'a fskernel_scheme"
  proof -
    have free: "lock_free BcacheLock (kmach u)" using sok(1) [of BcacheLock] by (simp add: m lock_free_taken)
    have irq: "irq_ok (kmach u)" "touch (kmach u) = kmach u" using sok(2) by (simp_all add: m)
    let ?v = "set_buf b (\<lambda>x. x\<lparr>brefcnt := brefcnt x + 1\<rparr>) (set_mach (taken BcacheLock (kmach u)) u)"
    have "kmach ?v = taken BcacheLock (kmach u)" by (simp add: set_buf_def)
    from krelease_view [OF free irq(1) this] irq(2) show ?thesis
      by (simp add: bpin_def kacquire_free [OF free] set_buf_def fs_upd_def set_mach_def)
  qed
  have rel: "krelease LogLock u = Ok (set_mach (touch (kmach s)) u)" if "kmach u = taken LogLock (kmach s)" for u :: "'a fskernel_scheme"
    by (rule krelease_view [OF sok(1,2) that])
  have m: "kmach (set_log f ?t) = taken LogLock (kmach s)" "kmach (set_log f (set_buf b g (set_log h ?t))) = taken LogLock (kmach s)" for f g h
    by (simp_all add: set_log_def set_buf_def)
  show ?thesis
    using assms(3-5)
    by (simp add: log_write_def acq Let_def i [symmetric] pin [OF m(1)] rel [OF m(1)] rel [OF m(2)])
       (simp add: log_enter_def Let_def set_log_def set_buf_eq fs_upd_def set_mach_def ktouch_def buf_upd_def)
qed

lemma absorb_cases:
  assumes "n \<le> length bl" and "i = absorb n bl x"
  shows "i \<le> n" "i < n \<Longrightarrow> bl ! i = x" "i = n \<Longrightarrow> x \<notin> set (take n bl)"
proof -
  let ?xs = "take n bl"
  have len: "length ?xs = n" using assms(1) by simp
  show "i \<le> n" using assms length_takeWhile_le [of "\<lambda>y. y \<noteq> x" ?xs] by (simp add: absorb_def)
  show "bl ! i = x" if "i < n"
    using that assms nth_length_takeWhile [of "\<lambda>y. y \<noteq> x" ?xs] len by (auto simp: absorb_def)
  show "x \<notin> set ?xs" if "i = n"
  proof -
    have "takeWhile (\<lambda>y. y \<noteq> x) ?xs = ?xs"
      using that assms(2) len takeWhile_eq_take [of "\<lambda>y. y \<noteq> x" ?xs] by (simp add: absorb_def)
    then show ?thesis by (metis (mono_tags, lifting) takeWhile_eq_all_conv)
  qed
qed

definition log_same :: "klog \<Rightarrow> klog \<Rightarrow> bool" where
  "log_same l l' \<longleftrightarrow> log_start l' = log_start l \<and> log_size l' = log_size l \<and> outstanding l' = outstanding l \<and>
     committing l' = committing l \<and> log_dev l' = log_dev l"

definition logged_homes :: "klog \<Rightarrow> nat list" where
  "logged_homes l = map unat (take (nat (sint (lh_n l))) (lh_block l))"

lemma log_enter_homes:
  assumes l: "0 \<le> sint (lh_n l)" "sint (lh_n l) < 30" "length (lh_block l) = 30" and x: "unat x = n"
    and i: "i = absorb (nat (sint (lh_n l))) (lh_block l) x"
    and l': "l' = l\<lparr>lh_block := (lh_block l)[i := x], lh_n := (if int i = sint (lh_n l) then lh_n l + 1 else lh_n l)\<rparr>"
  shows "logged_homes l' = (if n \<in> set (logged_homes l) then logged_homes l else logged_homes l @ [n])"
    and "(int i = sint (lh_n l)) = (n \<notin> set (logged_homes l))"
proof -
  let ?k = "nat (sint (lh_n l))"
  have k: "?k \<le> length (lh_block l)" "?k < 30" using l by auto
  note ab = absorb_cases [OF k(1) i]
  have mem: "n \<in> set (logged_homes l) \<longleftrightarrow> x \<in> set (take ?k (lh_block l))"
    using x by (auto simp: logged_homes_def) (metis word_unat_eq_iff)
  have new: "i = ?k \<longleftrightarrow> n \<notin> set (logged_homes l)"
  proof (cases "i = ?k")
    case True
    then show ?thesis using ab(3) mem by simp
  next
    case False
    then have "i < ?k" using ab(1) by simp
    then have "x \<in> set (take ?k (lh_block l))" using ab(2) k(1) by (auto simp: in_set_conv_nth intro!: exI [of _ i])
    then show ?thesis using False mem by simp
  qed
  then show iff: "(int i = sint (lh_n l)) = (n \<notin> set (logged_homes l))" using l(1) by auto
  show "logged_homes l' = (if n \<in> set (logged_homes l) then logged_homes l else logged_homes l @ [n])"
  proof (cases "i = ?k")
    case True
    have "sint (lh_n l + 1) = sint (lh_n l) + 1" 
      using sint_add_in_range [of "lh_n l" 1] l(1,2) by simp
    then have "nat (sint (lh_n l + 1)) = Suc ?k" using l(1) by simp
    then show ?thesis using True new iff l' x k l(3) by (simp add: logged_homes_def take_Suc_conv_app_nth)
  next
    case False
    then have "i < ?k" using ab(1) by simp
    then have "(lh_block l)[i := x] = lh_block l" using ab(2) by (metis list_update_id)
    then show ?thesis using False new iff l' by (simp add: logged_homes_def)
  qed
qed

lemma log_write_does:
  assumes ok: "sys_ok p s" and inv: "bc_inv (fs s)" and bf: "buf_for (fs s) b n"
    and ref: "0 < c_ref (cview (fs s)) n" "c_ref (cview (fs s)) n < 2 ^ 32 - 1"
    and l: "l = lg (fs s)" "0 \<le> sint (lh_n l)" "length (lh_block l) = 30"
    and fits: "\<not> (LOGSIZE \<le> sint (lh_n l) \<or> sint (log_size l - 1) \<le> sint (lh_n l))" "\<not> sint (outstanding l) < 1"
  shows "\<exists>s'. log_write b s = Ok s' \<and> quiet p s s' \<and> bc_inv (fs s') \<and>
      (if n \<in> set (logged_homes l) then logged_homes (lg (fs s')) = logged_homes l \<and> cview (fs s') = cview (fs s)
       else logged_homes (lg (fs s')) = logged_homes l @ [n] \<and>
         cview (fs s') = (cview (fs s))\<lparr>c_ref := (c_ref (cview (fs s)))(n := c_ref (cview (fs s)) n + 1)\<rparr>) \<and>
      log_same l (lg (fs s')) \<and> length (lh_block (lg (fs s'))) = 30 \<and> buf_for (fs s') b n"
proof -
  define i where "i = absorb (nat (sint (lh_n l))) (lh_block l) (bblockno (bufs (fs s) ! b))"
  have lt: "sint (lh_n l) < 30" using fits(1) by (simp add: LOGSIZE_def MAXOPBLOCKS_def)
  have run: "log_write b s = Ok (ktouch (fs_upd (log_enter b i) s))"
    using fits l(1) i_def by (intro log_write_eq [OF ok]) auto
  have q: "quiet p s (ktouch (fs_upd (log_enter b i) s))"
    using quiet_trans [OF quiet_fs_upd [OF ok] quiet_ktouch [OF quiet_ok [OF quiet_fs_upd [OF ok]]]] .
  note homes = log_enter_homes [OF l(2) lt l(3) held_facts(6) [OF inv bf] i_def refl]
  let ?g = "\<lambda>l. l\<lparr>lh_block := (lh_block l)[i := bblockno (bufs (fs s) ! b)], lh_n := (if int i = sint (lh_n l) then lh_n l + 1 else lh_n l)\<rparr>"
  let ?s1 = "set_log ?g s"
  have s1: "bc_inv (fs ?s1)" "cview (fs ?s1) = cview (fs s)" "buf_for (fs ?s1) b n" "sys_ok p ?s1"
    using inv bf quiet_ok [OF quiet_fs_upd [OF ok]] by (simp_all add: set_log_facts) (simp add: set_log_def)
  have lg': "lg (fs ?s1) = ?g l" using l(1) by (simp add: set_log_facts)
  let ?w = "log_enter b i (fs s)"
  have "bc_inv ?w \<and> lg ?w = ?g l \<and> buf_for ?w b n \<and> cview ?w = (if n \<in> set (logged_homes l) then cview (fs s)
      else (cview (fs s))\<lparr>c_ref := (c_ref (cview (fs s)))(n := c_ref (cview (fs s)) n + 1)\<rparr>)"
  proof (cases "n \<in> set (logged_homes l)")
    case True
    then have "?w = fs ?s1" using homes(2) l(1) by (simp add: log_enter_def Let_def set_log_def)
    then show ?thesis using s1 True lg' by simp
  next
    case False
    then have w: "?w = buf_upd b (\<lambda>u. u\<lparr>brefcnt := brefcnt u + 1\<rparr>) (fs ?s1)"
      using homes(2) l(1) by (simp add: log_enter_def Let_def set_log_def)
    obtain v' where v': "does p ?s1 (bpin b ?s1) v'" "bc_inv v'" "fsrest v' = fsrest (fs ?s1)" "buf_for v' b n"
      "cview v' = (cview (fs s))\<lparr>c_ref := (c_ref (cview (fs s)))(n := c_ref (cview (fs s)) n + 1)\<rparr>"
      using bpin_spec [OF s1(4,1,3)] s1(2,3) ref(2) by auto
    moreover have "v' = ?w"
      using v'(1) fs_section(1,2) [OF s1(4), of BcacheLock] by (simp add: does_def bpin_def set_buf_eq w)
    ultimately show ?thesis using False lg' by (simp add: fsrest_def)
  qed
  moreover define l' where "l' = ?g l"
  ultimately have w: "bc_inv ?w" "lg ?w = l'" "buf_for ?w b n" "cview ?w = (if n \<in> set (logged_homes l) then cview (fs s)
      else (cview (fs s))\<lparr>c_ref := (c_ref (cview (fs s)))(n := c_ref (cview (fs s)) n + 1)\<rparr>)" by simp_all
  have "log_same l l'" "length (lh_block l') = 30" using l(3) by (simp_all add: l'_def log_same_def)
  then show ?thesis using run q homes(1) [folded l'_def] w by simp
qed

section \<open>Properties\<close>

text \<open>
  C31. \<^verbatim>\<open>log_write\<close> panics exactly when the transaction is too big or none is open; otherwise it adds the
  buffer's block to the transaction once: a block that is already there is absorbed, a new one is
  appended and its buffer pinned, and nothing else of the cache changes.
\<close>

theorem log_write_records:
  assumes ok: "sys_ok p s" and inv: "bc_inv (fs s)" and bf: "buf_for (fs s) b n"
    and ref: "0 < c_ref (cview (fs s)) n" "c_ref (cview (fs s)) n < 2 ^ 32 - 1"
    and l: "l = lg (fs s)" "0 \<le> sint (lh_n l)" "length (lh_block l) = 30"
  shows "if LOGSIZE \<le> sint (lh_n l) \<or> sint (log_size l - 1) \<le> sint (lh_n l) then log_write b s = Panic ''too big a transaction''
    else if sint (outstanding l) < 1 then log_write b s = Panic ''log_write outside of trans''
    else \<exists>s'. log_write b s = Ok s' \<and> quiet p s s' \<and> bc_inv (fs s') \<and>
      (if n \<in> set (logged_homes l) then logged_homes (lg (fs s')) = logged_homes l \<and> cview (fs s') = cview (fs s)
       else logged_homes (lg (fs s')) = logged_homes l @ [n] \<and>
         cview (fs s') = (cview (fs s))\<lparr>c_ref := (c_ref (cview (fs s)))(n := c_ref (cview (fs s)) n + 1)\<rparr>)"
proof -
  have acq: "kacquire LogLock s = Ok (set_mach (taken LogLock (kmach s)) s)" by (rule fs_section(1) [OF ok])
  consider (big) "LOGSIZE \<le> sint (lh_n l) \<or> sint (log_size l - 1) \<le> sint (lh_n l)"
    | (closed) "\<not> (LOGSIZE \<le> sint (lh_n l) \<or> sint (log_size l - 1) \<le> sint (lh_n l))" "sint (outstanding l) < 1"
    | (fits) "\<not> (LOGSIZE \<le> sint (lh_n l) \<or> sint (log_size l - 1) \<le> sint (lh_n l))" "\<not> sint (outstanding l) < 1" by blast
  then show ?thesis
  proof cases
    case big
    then show ?thesis using l(1) by (auto simp: log_write_def acq Let_def)
  next
    case closed
    then show ?thesis using l(1) by (simp add: log_write_def acq Let_def)
  next
    case fits
    from log_write_does [OF ok inv bf ref l fits] fits show ?thesis unfolding if_not_P [OF fits(1)] if_not_P [OF fits(2)] by blast
  qed
qed

text \<open>A boot state with the log at block 2, and one transaction that writes block 100.\<close>

definition log_demo :: fskernel where
  "log_demo = set_log (\<lambda>_. \<lparr>log_start = 2, log_size = 30, outstanding = 1, committing = False, log_dev = ROOTDEV,
     lh_n = 0, lh_block = replicate 30 0\<rparr>) (with_fs one_running boot_cache)"

lemma log_demo_facts:
  "sys_ok 0 log_demo" "bc_inv (fs log_demo)" "cview (fs log_demo) = cview boot_cache"
  "lg (fs log_demo) = \<lparr>log_start = 2, log_size = 30, outstanding = 1, committing = False, log_dev = ROOTDEV,
     lh_n = 0, lh_block = replicate 30 0\<rparr>"
  using quiet_ok [OF quiet_fs_upd [OF one_running_sys_ok [of boot_cache]]] boot_cache(1)
  by (simp_all add: log_demo_def set_log_facts) (simp add: set_log_def)

lemma log_demo_disk: "log_ok 2 (\<lambda>_. replicate 1024 0)" "log_count 2 (\<lambda>_. replicate 1024 0) = 0"
proof -
  have "rd32 (replicate 1024 0) 0 = 0" by (simp add: rd32_def rd16_def arr_def)
  then show "log_count 2 (\<lambda>_. replicate 1024 0) = 0" "log_ok 2 (\<lambda>_. replicate 1024 0)"
    by (simp_all add: log_count_def log_ok_def log_homes_def BSIZE_def)
qed

lemma log_demo_read:
  "\<exists>b s. bread (virtio_env (\<lambda>s. Ok (serve s)) 0) ROOTDEV 100 log_demo = Ok (b, s) \<and> buf_for (fs s) b 100 \<and>
     csteps 0 log_demo s ((cview boot_cache)\<lparr>c_ref := (c_ref (cview boot_cache))(100 := 1),
       c_lk := (c_lk (cview boot_cache))(100 := Some (pid (procs log_demo ! 0)))\<rparr>)"
  using vdrv.bread_csteps [OF log_demo_facts(1,2,3), of 100 100] by (auto simp: boot_cache NBUF_def MAXOPBLOCKS_def)

theorem log_write_records_witness:
  "\<exists>b s s'. bread (virtio_env (\<lambda>s. Ok (serve s)) 0) ROOTDEV 100 log_demo = Ok (b, s) \<and> log_write b s = Ok s' \<and>
     logged_homes (lg (fs s')) = [100] \<and> c_ref (cview (fs s')) 100 = 2"
proof -
  obtain b s where r: "bread (virtio_env (\<lambda>s. Ok (serve s)) 0) ROOTDEV 100 log_demo = Ok (b, s)" "buf_for (fs s) b 100"
    and st: "csteps 0 log_demo s ((cview boot_cache)\<lparr>c_ref := (c_ref (cview boot_cache))(100 := 1),
       c_lk := (c_lk (cview boot_cache))(100 := Some (pid (procs log_demo ! 0)))\<rparr>)" (is "csteps 0 log_demo s ?C")
    using log_demo_read by blast
  have p: "(0 :: nat) < NPROC" by (simp add: NPROC_def)
  note f = cstepsD [OF st p]
  have c: "0 < c_ref (cview (fs s)) 100" "c_ref (cview (fs s)) 100 < 2 ^ 32 - 1" using f(3) by simp_all
  have l: "0 \<le> sint (lh_n (lg (fs s)))" "length (lh_block (lg (fs s))) = 30" "logged_homes (lg (fs s)) = []"
    "\<not> (LOGSIZE \<le> sint (lh_n (lg (fs s))) \<or> sint (log_size (lg (fs s)) - 1) \<le> sint (lh_n (lg (fs s))))"
    "\<not> sint (outstanding (lg (fs s))) < 1"
    using f(4) by (simp_all add: log_demo_facts logged_homes_def LOGSIZE_def MAXOPBLOCKS_def)
  from log_write_records [OF f(1,2) r(2) c refl l(1,2)] l(3-) f(3) r(1) show ?thesis
    unfolding if_not_P [OF l(4)] if_not_P [OF l(5)] by (auto simp: l(3))
qed

text \<open>
  C1. Commit is atomic. Let the log on disk be empty and the blocks \<open>hb\<close> of the open transaction be pinned
  in the cache. Then \<^verbatim>\<open>commit\<close> returns, and before each of its disk writes the disk it leaves behind is one
  from which recovery yields either the old contents of every data block or the transaction's contents
  of every block of \<open>hb\<close> and the old ones elsewhere (the driver \<open>guarded I\<close> would panic otherwise). At
  the end the new contents are in place on the disk, the log is empty, the cache is unchanged and
  each block of \<open>hb\<close> has been unpinned once.
\<close>

theorem commit_atomic:
  assumes "commit_ready p start hb s" and "new = txn_new hb (c_blk (cview (fs s))) (platter (fs s))"
  shows "\<exists>s'. commit (guarded (crash_ok start (platter (fs s)) new) (virtio_env (\<lambda>s. Ok (serve s)) p)) s = Ok s' \<and>
     quiet p s s' \<and> bc_inv (fs s') \<and> lh_n (lg (fs s')) = 0 \<and> log_count start (platter (fs s')) = 0 \<and>
     same_data start (platter (fs s')) new \<and> same_data start (c_blk (cview (fs s'))) (c_blk (cview (fs s))) \<and>
     c_ref (cview (fs s')) = (\<lambda>b. if b \<in> set hb then c_ref (cview (fs s)) b - 1 else c_ref (cview (fs s)) b)"
  using gdrv.commit_does [OF assms(1) refl, of "crash_ok start (platter (fs s)) new"] assms(2) c_plat_cview [of "fs s"] by auto

lemma log_demo_transaction:
  "\<exists>s :: fskernel. commit_ready 0 2 [100] s \<and> c_blk (cview (fs s)) 100 = replicate 1024 7 \<and> platter (fs s) = (\<lambda>_. replicate 1024 0)"
proof -
  let ?e = "virtio_env (\<lambda>s. Ok (serve s)) 0 :: fskernel env"
  have p: "(0 :: nat) < NPROC" by (simp add: NPROC_def)
  obtain b s1 where r: "buf_for (fs s1) b 100"
    and st: "csteps 0 log_demo s1 ((cview boot_cache)\<lparr>c_ref := (c_ref (cview boot_cache))(100 := 1),
       c_lk := (c_lk (cview boot_cache))(100 := Some (pid (procs log_demo ! 0)))\<rparr>)" (is "csteps 0 log_demo s1 ?C")
    using log_demo_read by blast
  note f = cstepsD [OF st p]
  define t2 where "t2 = set_buf b (\<lambda>u. u\<lparr>bdata := replicate 1024 7\<rparr>) s1"
  have ref1: "0 < c_ref (cview (fs s1)) 100" using f(3) by simp
  note sp = set_data_spec [OF f(2) r ref1, where d = "replicate 1024 7"]
  have q2: "quiet 0 s1 t2" unfolding t2_def set_buf_eq by (rule quiet_fs_upd [OF f(1)])
  have s2: "bc_inv (fs t2)" "cview (fs t2) = ?C\<lparr>c_blk := (c_blk ?C)(100 := replicate 1024 7)\<rparr>" "buf_for (fs t2) b 100"
    "lg (fs t2) = lg (fs log_demo)" "sys_ok 0 t2" "pid (procs t2 ! 0) = pid (procs log_demo ! 0)"
    using sp(1,2) sp(4) [OF r] f(3,4,6) quiet_ok [OF q2] quiet_proc(1) [OF q2 p] by (simp_all add: set_buf_eq t2_def)
  have l: "0 \<le> sint (lh_n (lg (fs t2)))" "length (lh_block (lg (fs t2))) = 30" "logged_homes (lg (fs t2)) = []"
    "\<not> (LOGSIZE \<le> sint (lh_n (lg (fs t2))) \<or> sint (log_size (lg (fs t2)) - 1) \<le> sint (lh_n (lg (fs t2))))"
    "\<not> sint (outstanding (lg (fs t2))) < 1"
    unfolding s2(4) by (simp_all add: log_demo_facts logged_homes_def LOGSIZE_def MAXOPBLOCKS_def)
  have c2: "0 < c_ref (cview (fs t2)) 100" "c_ref (cview (fs t2)) 100 < 2 ^ 32 - 1" unfolding s2(2) by simp_all
  obtain s3 where s3: "quiet 0 t2 s3" "bc_inv (fs s3)" "logged_homes (lg (fs s3)) = [100]" "buf_for (fs s3) b 100"
    "cview (fs s3) = ?C\<lparr>c_blk := (c_blk ?C)(100 := replicate 1024 7), c_ref := (c_ref ?C)(100 := 2)\<rparr>"
    "log_same (lg (fs log_demo)) (lg (fs s3))" "length (lh_block (lg (fs s3))) = 30"
  proof -
    have nin: "\<not> 100 \<in> set (logged_homes (lg (fs t2)))" unfolding l(3) by simp
    have one: "c_ref (cview (fs t2)) 100 + 1 = 2" unfolding s2(2) by simp
    have "\<exists>s3. quiet 0 t2 s3 \<and> bc_inv (fs s3) \<and> logged_homes (lg (fs s3)) = [100] \<and> buf_for (fs s3) b 100 \<and>
        cview (fs s3) = (cview (fs t2))\<lparr>c_ref := (c_ref (cview (fs t2)))(100 := 2)\<rparr> \<and>
        log_same (lg (fs log_demo)) (lg (fs s3)) \<and> length (lh_block (lg (fs s3))) = 30"
      using log_write_does [OF s2(5,1,3) c2 refl l(1,2,4,5)] unfolding if_not_P [OF nin] one unfolding l(3) unfolding s2(4) by (elim exE conjE) (intro exI conjI, simp_all)
    then show thesis using that unfolding s2(2) by (elim exE conjE) simp
  qed
  have pid3: "pid (procs s3 ! 0) = pid (procs log_demo ! 0)" using quiet_proc(1) [OF s3(1) p] s2(6) by simp
  obtain s4 where st4: "csteps 0 s3 s4 ((cview boot_cache)\<lparr>c_blk := (c_blk (cview boot_cache))(100 := replicate 1024 7),
      c_ref := (c_ref (cview boot_cache))(100 := 1)\<rparr>)" (is "csteps 0 s3 s4 ?D")
    using brelse_csteps [OF quiet_ok [OF s3(1)] s3(2,5,4)] pid3 by (auto simp: boot_cache fun_upd_idem)
  note g = cstepsD [OF st4 p]
  define bl k where "bl = lh_block (lg (fs s3))" and "k = lh_n (lg (fs s3))"
  have k: "k = 1" "map unat (take 1 bl) = [100]"
  proof -
    have h: "map unat (take (nat (sint k)) bl) = [100]" using s3(3) by (simp add: logged_homes_def bl_def k_def)
    have "length (map unat (take (nat (sint k)) bl)) = min (nat (sint k)) 30" using s3(7) by (simp add: bl_def)
    then have "min (nat (sint k)) 30 = 1" unfolding h by simp
    then have one: "nat (sint k) = 1" by linarith
    then show "map unat (take 1 bl) = [100]" using h by simp
    have "sint k = sint (1 :: int32)" using one by simp
    then show "k = 1" by (simp only: signed_word_eqI)
  qed
  have "{b. 0 < c_ref ?D b} = {100}" by (auto simp: boot_cache)
  then have "log_quiet 0 2 s4" using g s3(6) by (simp add: log_quiet_def log_same_def log_demo_facts boot_cache log_area_def NBUF_def MAXOPBLOCKS_def)
  moreover have "txn_ok 2 [100] (c_blk ?D) (\<lambda>_. replicate 1024 0)"
    using log_demo_disk by (simp add: txn_ok_def log_area_def BSIZE_def)
  ultimately have "commit_ready 0 2 [100] s4"
    using g s3(7) k by (simp add: commit_ready_def boot_cache bl_def k_def)
  then show ?thesis using g(3,5) by (intro exI [of _ s4]) (simp add: boot_cache)
qed

theorem commit_atomic_witness:
  "\<exists>s s' :: fskernel. commit_ready 0 2 [100] s \<and>
     commit (guarded (crash_ok 2 (\<lambda>_. replicate 1024 0) ((\<lambda>_. replicate 1024 0)(100 := replicate 1024 7)))
       (virtio_env (\<lambda>s. Ok (serve s)) 0)) s = Ok s' \<and>
     platter (fs s') 100 = replicate 1024 7 \<and> platter (fs s') 99 = replicate 1024 0"
proof -
  obtain s :: fskernel where s: "commit_ready 0 2 [100] s" "c_blk (cview (fs s)) 100 = replicate 1024 7" "platter (fs s) = (\<lambda>_. replicate 1024 0)"
    using log_demo_transaction by blast
  let ?new = "(\<lambda>_. replicate 1024 0)(100 := replicate 1024 7)"
  have new: "?new = txn_new [100] (c_blk (cview (fs s))) (platter (fs s))"
    using s(2,3) by (auto simp: txn_new_def fun_eq_iff)
  from commit_atomic [OF s(1) new] s obtain s' where
    "commit (guarded (crash_ok 2 (\<lambda>_. replicate 1024 0) ?new) (virtio_env (\<lambda>s. Ok (serve s)) 0)) s = Ok s'"
    "same_data 2 (platter (fs s')) ?new" by auto
  then show ?thesis using s(1) by (auto simp: same_data_def log_area_def)
qed



end
