(* ===== verification/Blocks.thy ===== *)
theory Blocks
  imports Fs Journal
begin

text \<open>
  The block allocator and the inode store of kernel/fs.c inside a transaction, over the abstract cache
  of theory Bio: every change of a block goes through the log (theory Journal). The driver is any
  instance of \<open>disk_driver\<close>.
\<close>

section \<open>Bits of a bitmap block\<close>

lemma bit_used_iff: "bit_used d bi \<longleftrightarrow> bit (d ! (bi div 8)) (bi mod 8)"
  by (simp add: bit_used_def bit_mask_def push_bit_eq_mult and_exp_eq_0_iff_not_bit)

lemma bit_index_eq: "i div 8 = j div 8 \<Longrightarrow> i mod 8 = j mod 8 \<Longrightarrow> i = (j :: nat)"
  by (metis div_mult_mod_eq)

lemma bit_mark_used:
  assumes "bi div 8 < length d"
  shows "bit_used (bit_mark bi d) j \<longleftrightarrow> j = bi \<or> bit_used d j"
proof (cases "j div 8 = bi div 8")
  case True
  then have "(bi mod 8 = j mod 8) = (j = bi)" using bit_index_eq by metis
  then show ?thesis using True assms
    by (auto simp: bit_used_iff bit_mark_def bit_mask_def bit_or_iff bit_exp_iff)
next
  case False
  then show ?thesis by (auto simp: bit_used_iff bit_mark_def)
qed

lemma bit_clear_used:
  assumes "bi div 8 < length d"
  shows "bit_used (bit_clear bi d) j \<longleftrightarrow> j \<noteq> bi \<and> bit_used d j"
proof (cases "j div 8 = bi div 8")
  case True
  then have "(bi mod 8 = j mod 8) = (j = bi)" using bit_index_eq by metis
  then show ?thesis using True assms
    by (auto simp: bit_used_iff bit_clear_def bit_mask_def bit_and_iff bit_not_iff bit_exp_iff)
next
  case False
  then show ?thesis by (auto simp: bit_used_iff bit_clear_def)
qed

lemma length_bit_mark [simp]: "length (bit_mark bi d) = length d" "length (bit_clear bi d) = length d"
  by (simp_all add: bit_mark_def bit_clear_def)

lemma find_clear_spec:
  assumes "BPB - bi \<le> k"
  shows "case find_clear k d b sz bi of
      Some j \<Rightarrow> bi \<le> j \<and> j < BPB \<and> b + j < sz \<and> \<not> bit_used d j \<and> (\<forall>i. bi \<le> i \<and> i < j \<longrightarrow> bit_used d i)
    | None \<Rightarrow> \<forall>i. bi \<le> i \<and> i < BPB \<and> b + i < sz \<longrightarrow> bit_used d i"
  using assms
proof (induction k arbitrary: bi)
  case (Suc k)
  show ?case
  proof (cases "bi < BPB \<and> b + bi < sz \<and> bit_used d bi")
    case True
    then have "case find_clear k d b sz (Suc bi) of
        Some j \<Rightarrow> Suc bi \<le> j \<and> j < BPB \<and> b + j < sz \<and> \<not> bit_used d j \<and> (\<forall>i. Suc bi \<le> i \<and> i < j \<longrightarrow> bit_used d i)
      | None \<Rightarrow> \<forall>i. Suc bi \<le> i \<and> i < BPB \<and> b + i < sz \<longrightarrow> bit_used d i"
      using Suc.prems by (intro Suc.IH) simp
    then show ?thesis using True by (auto simp: Suc_le_eq split: option.splits) (metis le_neq_implies_less)+
  next
    case False
    then show ?thesis by auto
  qed
qed auto

section \<open>Changing a block in a transaction\<close>

text \<open>A process inside a transaction that has room for \<open>k\<close> more blocks.\<close>

definition txn_state :: "nat \<Rightarrow> nat \<Rightarrow> 'a fskernel_scheme \<Rightarrow> bool" where
  "txn_state p k s \<longleftrightarrow> sys_ok p s \<and> bc_inv (fs s) \<and> log_size (lg (fs s)) = 30 \<and>
     0 \<le> sint (lh_n (lg (fs s))) \<and> sint (lh_n (lg (fs s))) + int k \<le> 29 \<and> length (lh_block (lg (fs s))) = 30 \<and>
     1 \<le> sint (outstanding (lg (fs s))) \<and> (\<forall>b. c_lk (cview (fs s)) b = None) \<and>
     (\<forall>b \<in> set (logged_homes (lg (fs s))). 0 < c_ref (cview (fs s)) b) \<and>
     (\<forall>b. c_ref (cview (fs s)) b + k < 2 ^ 32 - 1) \<and> card {b. 0 < c_ref (cview (fs s)) b} + k \<le> NBUF"

text \<open>What an operation on the cache leaves of the file system's other data.\<close>

definition fsother :: "fsstate \<Rightarrow> superblock \<times> inode list \<times> kfile list \<times> (nat \<Rightarrow> sleeplock)" where
  "fsother v = (sb v, itable v, ftable v, \<lambda>i. slks v (InodeLock i))"

lemma fsother_rest: "fsrest v = fsrest w \<Longrightarrow> fsother v = fsother w"
  by (simp add: fsrest_def fsother_def)

lemma log_enter_other: "fsother (log_enter b i v) = fsother v"
  by (simp add: log_enter_def Let_def fsother_def)

lemma logged_count:
  assumes "length (lh_block l) = 30" and "length (logged_homes l) < 30"
  shows "nat (sint (lh_n l)) = length (logged_homes l)"
  using assms by (simp add: logged_homes_def)

text \<open>A locked buffer of block \<open>n\<close>, fetched from \<open>s\<close>.\<close>

definition fetched :: "nat \<Rightarrow> 'a fskernel_scheme \<Rightarrow> 'a fskernel_scheme \<Rightarrow> nat \<Rightarrow> nat \<Rightarrow> bool" where
  "fetched p s s1 bp n \<longleftrightarrow> buf_for (fs s1) bp n \<and> csteps p s s1 ((cview (fs s))\<lparr>
     c_ref := (c_ref (cview (fs s)))(n := c_ref (cview (fs s)) n + 1),
     c_lk := (c_lk (cview (fs s)))(n := Some (pid (procs s ! p)))\<rparr>)"

lemma txn_stateD:
  assumes "txn_state p k s"
  shows "sys_ok p s" "bc_inv (fs s)" "\<forall>b. c_lk (cview (fs s)) b = None" "p < NPROC"
    "length (lh_block (lg (fs s))) = 30" "0 \<le> sint (lh_n (lg (fs s)))" "\<not> sint (outstanding (lg (fs s))) < 1"
  using assms sys_okD(5) by (auto simp: txn_state_def)

lemma fetched_data:
  assumes "fetched p s s1 bp n" and "p < NPROC"
  shows "buf_data bp s1 = c_blk (cview (fs s)) n" "sb (fs s1) = sb (fs s)" "itable (fs s1) = itable (fs s)"
proof -
  have st: "csteps p s s1 ((cview (fs s))\<lparr>c_ref := (c_ref (cview (fs s)))(n := c_ref (cview (fs s)) n + 1),
      c_lk := (c_lk (cview (fs s)))(n := Some (pid (procs s ! p)))\<rparr>)" and b: "buf_for (fs s1) bp n"
    using assms(1) by (simp_all add: fetched_def)
  note f = cstepsD [OF st assms(2)]
  show "buf_data bp s1 = c_blk (cview (fs s)) n" using held_facts(1) [OF f(2) b] f(3) by (simp add: buf_data_def)
  show "sb (fs s1) = sb (fs s)" "itable (fs s1) = itable (fs s)" using st by (simp_all add: csteps_def fsrest_def)
qed

text \<open>
  A process that may use the cache, with room for \<open>k\<close> more buffers. In a transaction this is part of \<open>txn_state\<close>.
\<close>

definition io_state :: "nat \<Rightarrow> nat \<Rightarrow> 'a fskernel_scheme \<Rightarrow> bool" where
  "io_state p k s \<longleftrightarrow> sys_ok p s \<and> bc_inv (fs s) \<and> (\<forall>b. c_lk (cview (fs s)) b = None) \<and>
     (\<forall>b. c_ref (cview (fs s)) b + k < 2 ^ 32 - 1) \<and> card {b. 0 < c_ref (cview (fs s)) b} + k \<le> NBUF"

lemma txn_io: "txn_state p k s \<Longrightarrow> io_state p k s"
  by (simp add: txn_state_def io_state_def)

lemma txn_io_back:
  assumes "txn_state p k s" and "io_state p k s'" and "cview (fs s') = cview (fs s)" and "lg (fs s') = lg (fs s)"
  shows "txn_state p k s'"
  using assms by (simp add: txn_state_def io_state_def)

lemma io_stateD:
  assumes "io_state p k s"
  shows "sys_ok p s" "bc_inv (fs s)" "\<forall>b. c_lk (cview (fs s)) b = None" "p < NPROC"
  using assms sys_okD(5) by (auto simp: io_state_def)

text \<open>Changes outside the buffers and their locks do not show in the cache.\<close>

definition same_cache :: "fsstate \<Rightarrow> fsstate \<Rightarrow> bool" where
  "same_cache v w \<longleftrightarrow> bufs v = bufs w \<and> platter v = platter w \<and> lg v = lg w \<and> (\<forall>i. slks v (BufLock i) = slks w (BufLock i))"

lemma same_cache:
  assumes "same_cache v w"
  shows "bc_inv v = bc_inv w" "cview v = cview w" "buf_for v b n = buf_for w b n"
proof -
  have k: "key v = key w" "nx v = nx w" "pv v = pv w" using assms by (simp_all add: key_def nx_def pv_def fun_eq_iff same_cache_def)
  have r: "ring v = ring w" using assms by (simp add: ring_def k fun_eq_iff same_cache_def)
  show "bc_inv v = bc_inv w" "cview v = cview w" "buf_for v b n = buf_for w b n"
    using assms by (simp_all add: bc_inv_def bc_uniq_def cview_def slot_def buf_for_def same_cache_def k r cong: option.case_cong if_cong)
qed

lemma same_cache_upd:
  "same_cache (slk_set (InodeLock i) l x v) v" "same_cache (v\<lparr>itable := t\<rparr>) v"
  by (simp_all add: same_cache_def slk_set_def)

lemma txn_same_cache:
  assumes "txn_state p k s" and "sys_ok p s'" and "same_cache (fs s') (fs s)"
  shows "txn_state p k s'"
proof -
  have "lg (fs s') = lg (fs s)" using assms(3) by (simp add: same_cache_def)
  then show ?thesis using assms same_cache [OF assms(3)] unfolding txn_state_def by metis
qed

lemma io_release:
  assumes t: "io_state p k s" and f: "fetched p s s1 bp n" and t1: "quiet p s1 t" "same_cache (fs t) (fs s1)"
  shows "\<exists>s'. brelse bp t = Ok s' \<and> quiet p s s' \<and> io_state p k s' \<and> cview (fs s') = cview (fs s) \<and> lg (fs s') = lg (fs s) \<and>
     fsother (fs s') = fsother (fs t)"
proof -
  note d = io_stateD [OF t]
  let ?C = "cview (fs s)"
  have st: "csteps p s s1 (?C\<lparr>c_ref := (c_ref ?C)(n := c_ref ?C n + 1), c_lk := (c_lk ?C)(n := Some (pid (procs s ! p)))\<rparr>)" (is "csteps p s s1 ?C1")
    and b: "buf_for (fs s1) bp n" using f by (simp_all add: fetched_def)
  note f1 = cstepsD [OF st d(4)] and c = same_cache [OF t1(2)]
  have clean: "c_ref ?C n = 0 \<longrightarrow> c_blk ?C n = c_plat ?C n" using clean_block [OF d(2), of n] c_plat_cview [of "fs s"] by auto
  have same: "(c_ref ?C)(n := c_ref ?C n) = c_ref ?C" "(c_lk ?C)(n := None) = c_lk ?C" using d(3) by (simp_all add: fun_upd_idem)
  have t2: "bc_inv (fs t)" "cview (fs t) = ?C1" "buf_for (fs t) bp n" "pid (procs t ! p) = pid (procs s ! p)"
    using c f1(2,3,6) b quiet_proc(1) [OF t1(1) d(4)] by simp_all
  obtain s' where s': "brelse bp t = Ok s'" and st2: "csteps p t s' ?C"
    using brelse_csteps [OF quiet_ok [OF t1(1)] t2(1-3)] t2(4) clean same by auto
  note g = cstepsD [OF st2 d(4)]
  have "lg (fs s') = lg (fs s)" using g(4) t1(2) f1(4) by (simp add: same_cache_def)
  moreover have "io_state p k s'" using t g(1-3) by (simp add: io_state_def)
  moreover have "quiet p s s'" using st t1(1) st2 unfolding csteps_def by (meson quiet_trans)
  moreover have "fsother (fs s') = fsother (fs t)" using st2 by (intro fsother_rest) (simp add: csteps_def)
  ultimately show ?thesis using s' g(3) by blast
qed

lemma release_fetched:
  assumes t: "txn_state p k s" and f: "fetched p s s1 bp n"
  shows "\<exists>s'. brelse bp s1 = Ok s' \<and> quiet p s s' \<and> txn_state p k s' \<and> cview (fs s') = cview (fs s) \<and>
     lg (fs s') = lg (fs s) \<and> fsother (fs s') = fsother (fs s)"
proof -
  have c: "quiet p s1 s1" "fsother (fs s1) = fsother (fs s)"
    using f quiet_ok quiet_refl fsother_rest unfolding fetched_def csteps_def by blast+
  show ?thesis using io_release [OF txn_io [OF t] f c(1)] txn_io_back [OF t] c(2) by (auto simp: same_cache_def)
qed

context disk_driver
begin

lemma io_fetch:
  assumes t: "io_state p (Suc k) s" and n: "unat bno = n" "n < 2 ^ 31"
  shows "\<exists>bp s1. bread e ROOTDEV bno s = Ok (bp, s1) \<and> fetched p s s1 bp n"
proof -
  have "c_ref (cview (fs s)) n + Suc k < 2 ^ 32 - 1" "card {b. 0 < c_ref (cview (fs s)) b} + Suc k \<le> NBUF"
    using t unfolding io_state_def by blast+
  then have "c_ref (cview (fs s)) n < 2 ^ 32 - 1" "card {b. 0 < c_ref (cview (fs s)) b} < NBUF" by linarith+
  then show ?thesis using bread_csteps [OF io_stateD(1,2) [OF t] refl n] io_stateD(3) [OF t] unfolding fetched_def by auto
qed

lemmas fetch = io_fetch [OF txn_io]

end

lemma one_more_ref:
  assumes "\<And>m. m \<noteq> n \<Longrightarrow> R m = c_ref (cview v) m"
  shows "card {m. 0 < R m} \<le> Suc (card {m. 0 < c_ref (cview v) m})"
proof -
  have fin: "finite {m. 0 < c_ref (cview v) m}" by (rule finite_refs)
  have "{m. 0 < R m} \<subseteq> insert n {m. 0 < c_ref (cview v) m}"
  proof
    fix m assume "m \<in> {m. 0 < R m}"
    then show "m \<in> insert n {m. 0 < c_ref (cview v) m}" using assms [of m] by (cases "m = n") simp_all
  qed
  from card_mono [OF _ this] fin have "card {m. 0 < R m} \<le> card (insert n {m. 0 < c_ref (cview v) m})" by simp
  also have "\<dots> \<le> Suc (card {m. 0 < c_ref (cview v) m})" using fin by (simp add: card_insert_if)
  finally show ?thesis .
qed

lemma log_budget:
  assumes len: "length (lh_block l) = 30" "length (lh_block l') = 30" and l: "0 \<le> sint (lh_n l)" "sint (lh_n l) + int (Suc k) \<le> 29"
    and homes: "logged_homes l' = (if n \<in> set (logged_homes l) then logged_homes l else logged_homes l @ [n])"
  shows "sint (lh_n l') + int k \<le> 29 \<and> 0 \<le> sint (lh_n l')"
proof -
  have old: "length (logged_homes l) = nat (sint (lh_n l))" using len(1) l by (simp add: logged_homes_def)
  then have "length (logged_homes l') < 30" using homes l by auto
  note cnt = logged_count [OF len(2) this]
  have "logged_homes l' \<noteq> []" using homes by (auto split: if_splits)
  then have pos: "0 < sint (lh_n l')" using cnt by (simp flip: zero_less_nat_eq)
  have "nat (sint (lh_n l')) \<le> Suc (nat (sint (lh_n l)))" using cnt old homes by (simp split: if_splits)
  then show ?thesis using pos l by linarith
qed

lemma log_write_other:
  assumes "sys_ok p s" and "log_write bp s = Ok s'"
    and "\<not> (LOGSIZE \<le> sint (lh_n (lg (fs s))) \<or> sint (log_size (lg (fs s)) - 1) \<le> sint (lh_n (lg (fs s))))"
    and "\<not> sint (outstanding (lg (fs s))) < 1"
  shows "fsother (fs s') = fsother (fs s)"
proof -
  define i where "i = absorb (nat (sint (lh_n (lg (fs s))))) (lh_block (lg (fs s))) (bblockno (bufs (fs s) ! bp))"
  have "log_write bp s = Ok (ktouch (fs_upd (log_enter bp i) s))" using assms(3,4) by (intro log_write_eq [OF assms(1) i_def]) auto
  then show ?thesis using assms(2) log_enter_other [of bp i "fs s"] by auto
qed

lemma update_fetched:
  assumes t: "txn_state p (Suc k) s" and f: "fetched p s s1 bp n" and C: "cview (fs s) = C"
  shows "\<exists>s2 s'. log_write bp (set_data bp g s1) = Ok s2 \<and> brelse bp s2 = Ok s' \<and> quiet p s s' \<and> txn_state p k s' \<and>
     c_blk (cview (fs s')) = (c_blk C)(n := g (c_blk C n)) \<and> platter (fs s') = platter (fs s) \<and>
     set (logged_homes (lg (fs s'))) = insert n (set (logged_homes (lg (fs s)))) \<and> fsother (fs s') = fsother (fs s)"
proof -
  note d = txn_stateD [OF t]
  let ?l = "lg (fs s)" and ?me = "Some (pid (procs s ! p))"
  have st: "csteps p s s1 (C\<lparr>c_ref := (c_ref C)(n := c_ref C n + 1), c_lk := (c_lk C)(n := ?me)\<rparr>)" (is "csteps p s s1 ?C1")
    and b: "buf_for (fs s1) bp n" using f C by (simp_all add: fetched_def)
  note f1 = cstepsD [OF st d(4)]
  have bud: "sint (lh_n ?l) + int (Suc k) \<le> 29" "log_size ?l = 30" "c_ref C m + Suc k < 2 ^ 32 - 1"
    "card {m. 0 < c_ref C m} + Suc k \<le> NBUF" "\<forall>m \<in> set (logged_homes ?l). 0 < c_ref C m" for m
    using t C unfolding txn_state_def by blast+
  define t2 where "t2 = set_data bp g s1"
  have t2_fs: "fs t2 = buf_upd bp (\<lambda>u. u\<lparr>bdata := g (c_blk C n)\<rparr>) (fs s1)"
    using held_facts(1) [OF f1(2) b] f1(3) by (simp add: t2_def set_data_def set_buf_eq buf_upd_def)
  have ref1: "0 < c_ref (cview (fs s1)) n" using f1(3) by simp
  note sp = set_data_spec [OF f1(2) b ref1, where d = "g (c_blk C n)", folded t2_fs]
  have q2: "quiet p s1 t2" unfolding t2_def set_data_def set_buf_eq by (rule quiet_fs_upd [OF f1(1)])
  have c2: "cview (fs t2) = ?C1\<lparr>c_blk := (c_blk C)(n := g (c_blk C n))\<rparr>" using sp(2) f1(3) by simp
  have lg2: "lg (fs t2) = ?l" using t2_fs f1(4) by simp
  have r2: "0 < c_ref (cview (fs t2)) n" "c_ref (cview (fs t2)) n < 2 ^ 32 - 1" using c2 bud(3) [of n] by simp_all
  have fits: "\<not> (LOGSIZE \<le> sint (lh_n ?l) \<or> sint (log_size ?l - 1) \<le> sint (lh_n ?l))"
    using bud(1,2) by (simp add: LOGSIZE_def MAXOPBLOCKS_def)
  define kept where "kept = (n \<in> set (logged_homes ?l))"
  define r where "r = (if kept then c_ref C n else c_ref C n + 1)"
  obtain s2 where s2: "log_write bp t2 = Ok s2" "quiet p t2 s2" "bc_inv (fs s2)" "buf_for (fs s2) bp n"
    "logged_homes (lg (fs s2)) = (if kept then logged_homes ?l else logged_homes ?l @ [n])"
    "cview (fs s2) = (cview (fs t2))\<lparr>c_ref := (c_ref C)(n := r + 1)\<rparr>"
    "log_same ?l (lg (fs s2))" "length (lh_block (lg (fs s2))) = 30"
  proof -
    have "(c_ref C)(n := c_ref C n + 1, n := x) = (c_ref C)(n := x)" for x by simp
    moreover have "(cview (fs t2))\<lparr>c_ref := (c_ref C)(n := c_ref C n + 1)\<rparr> = cview (fs t2)" unfolding c2 by simp
    ultimately show thesis
      using log_write_does [OF quiet_ok [OF q2] sp(1) sp(4) [OF b] r2 lg2 [symmetric] d(6,5) fits d(7)] that
      unfolding kept_def [symmetric] r_def by (cases kept) (auto simp: c2)
  qed
  have pid: "pid (procs s2 ! p) = pid (procs s ! p)"
    using quiet_proc(1) [OF s2(2) d(4)] quiet_proc(1) [OF q2 d(4)] f1(6) by simp
  have pos: "0 < r" using bud(5) by (auto simp: r_def kept_def)
  define C3 where "C3 = C\<lparr>c_blk := (c_blk C)(n := g (c_blk C n)), c_ref := (c_ref C)(n := r)\<rparr>"
  have lk: "(c_lk C)(n := None) = c_lk C" using d(3) C by (auto simp: fun_eq_iff)
  obtain s' where s': "brelse bp s2 = Ok s'" and st3: "csteps p s2 s' C3"
    using brelse_csteps [OF quiet_ok [OF s2(2)] s2(3) refl s2(4)] pid pos lk unfolding s2(6) c2 C3_def by auto
  note f3 = cstepsD [OF st3 d(4)]
  have q: "quiet p s s'" using st q2 s2(2) st3 unfolding csteps_def by (meson quiet_trans)
  have "sint (lh_n (lg (fs s2))) + int k \<le> 29 \<and> 0 \<le> sint (lh_n (lg (fs s2)))"
    by (rule log_budget [OF d(5) s2(8) d(6) bud(1) s2(5) [unfolded kept_def]])
  moreover have "card {m. 0 < c_ref C3 m} + k \<le> NBUF"
    using one_more_ref [of n "c_ref C3" "fs s"] C bud(4) by (simp add: C3_def)
  moreover have "c_ref C3 m + k < 2 ^ 32 - 1" for m using bud(3) [of m] by (auto simp: C3_def r_def)
  moreover have "0 < c_ref C3 m" if "m \<in> set (logged_homes (lg (fs s2)))" for m
    using that s2(5) bud(5) pos by (auto simp: C3_def split: if_splits)
  moreover have "c_lk C3 m = None" for m using d(3) C by (simp add: C3_def)
  ultimately have "txn_state p k s'"
    using f3(1-4) s2(7,8) bud(2) d(7) by (simp add: txn_state_def log_same_def)
  moreover have "fsother (fs s') = fsother (fs s)"
  proof -
    have "fsother (fs s2) = fsother (fs t2)" using fits d(7) lg2 by (intro log_write_other [OF quiet_ok [OF q2] s2(1)]) simp_all
    also have "\<dots> = fsother (fs s1)" using sp(3) by (rule fsother_rest)
    finally show ?thesis using st st3 fsother_rest unfolding csteps_def by metis
  qed
  moreover have "platter (fs s') = platter (fs s)" using f3(5) C c_plat_cview [of "fs s"] by (simp add: C3_def)
  moreover have "c_blk (cview (fs s')) = (c_blk C)(n := g (c_blk C n))" using f3(3) by (simp add: C3_def)
  moreover have "set (logged_homes (lg (fs s'))) = insert n (set (logged_homes ?l))"
    using f3(4) s2(5) by (auto simp: kept_def)
  ultimately show ?thesis using s2(1) s' q unfolding t2_def by blast
qed

section \<open>The block allocator\<close>

definition bitmap_block :: "superblock \<Rightarrow> nat \<Rightarrow> nat" where
  "bitmap_block v b = unat (BBLOCK b v)"

definition block_used :: "superblock \<Rightarrow> (nat \<Rightarrow> uint8 list) \<Rightarrow> nat \<Rightarrow> bool" where
  "block_used v blk b \<longleftrightarrow> bit_used (blk (bitmap_block v b)) (b mod BPB)"

text \<open>The bitmap and the blocks it describes; the boot block and the bitmap blocks are themselves marked as used.\<close>

definition bitmap_ok :: "superblock \<Rightarrow> (nat \<Rightarrow> uint8 list) \<Rightarrow> bool" where
  "bitmap_ok v blk \<longleftrightarrow> unat (sb_size v) \<le> 2 ^ 31 \<and> block_used v blk 0 \<and> (\<forall>b < unat (sb_size v). bitmap_block v b < 2 ^ 31 \<and>
     length (blk b) = BSIZE \<and> length (blk (bitmap_block v b)) = BSIZE \<and>
     (\<not> block_used v blk b \<longrightarrow> (\<forall>c < unat (sb_size v). b \<noteq> bitmap_block v c)))"

lemma bitmap_block_round: "i < BPB \<Longrightarrow> bitmap_block v (BPB * j + i) = bitmap_block v (BPB * j)"
  by (simp add: bitmap_block_def BBLOCK_def BPB_def BSIZE_def)

definition allocates :: "nat \<Rightarrow> nat \<Rightarrow> 'k fskernel_scheme \<Rightarrow> nat \<Rightarrow> 'k fskernel_scheme \<Rightarrow> bool" where
  "allocates p k s b s' \<longleftrightarrow> (let v = sb (fs s); blk = c_blk (cview (fs s)); n = bitmap_block v b in
     b < unat (sb_size v) \<and> \<not> block_used v blk b \<and> (\<forall>c < b. block_used v blk c) \<and> quiet p s s' \<and> txn_state p k s' \<and>
     c_blk (cview (fs s')) = blk(n := bit_mark (b mod BPB) (blk n), b := replicate BSIZE 0) \<and>
     platter (fs s') = platter (fs s) \<and> fsother (fs s') = fsother (fs s) \<and>
     set (logged_homes (lg (fs s'))) = {b, n} \<union> set (logged_homes (lg (fs s))))"

definition all_used :: "nat \<Rightarrow> nat \<Rightarrow> 'k fskernel_scheme \<Rightarrow> 'k fskernel_scheme \<Rightarrow> bool" where
  "all_used p k s s' \<longleftrightarrow> (\<forall>c < unat (sb_size (sb (fs s))). block_used (sb (fs s)) (c_blk (cview (fs s))) c) \<and>
     quiet p s s' \<and> txn_state p k s' \<and> cview (fs s') = cview (fs s) \<and> lg (fs s') = lg (fs s) \<and> fsother (fs s') = fsother (fs s)"

lemma unat_of_nat_uint32: "b < 2 ^ 32 \<Longrightarrow> unat (of_nat b :: uint32) = b"
  by (simp add: unat_of_nat take_bit_nat_eq_self)

text \<open>Two blocks with the same bitmap bit are the same block.\<close>

lemma bitmap_block_eq:
  assumes "bitmap_ok v blk" "b < unat (sb_size v)" "c < unat (sb_size v)" and "bitmap_block v b = bitmap_block v c" "b mod BPB = c mod BPB"
  shows "b = c"
proof -
  have lt: "b < 2 ^ 31" "c < 2 ^ 31" using assms(1-3) by (auto simp: bitmap_ok_def)
  have "(of_nat (b div BPB) :: uint32) = of_nat (c div BPB)"
    using assms(4) by (simp add: bitmap_block_def BBLOCK_def word_unat_eq_iff [symmetric])
  moreover have "b div BPB < 2 ^ 32" "c div BPB < 2 ^ 32" using lt by (auto intro: le_less_trans [OF div_le_dividend])
  ultimately have "b div BPB = c div BPB"
    using unat_of_nat_uint32 by metis
  then show ?thesis using assms(5) by (metis div_mult_mod_eq)
qed

lemma same_bit:
  assumes "bitmap_ok v blk" "b < unat (sb_size v)" "c < unat (sb_size v)"
  shows "bitmap_block v c = bitmap_block v b \<Longrightarrow> c mod BPB = b mod BPB \<longleftrightarrow> c = b"
  using bitmap_block_eq [OF assms(1,3,2)] by auto

lemma bit_in_block: "b mod BPB div 8 < BSIZE"
proof -
  have "b mod BPB < BSIZE * 8" by (simp add: BPB_def BSIZE_def)
  then show ?thesis by (rule less_mult_imp_div_less)
qed

lemma block_used_mark:
  assumes ok: "bitmap_ok v blk" and b: "b < unat (sb_size v)" "c < unat (sb_size v)" and blk': "blk' (bitmap_block v c) = (blk(bitmap_block v b := bit_mark (b mod BPB) (blk (bitmap_block v b)))) (bitmap_block v c)"
  shows "block_used v blk' c \<longleftrightarrow> c = b \<or> block_used v blk c"
proof -
  have len: "length (blk (bitmap_block v b)) = BSIZE" using ok b(1) by (simp add: bitmap_ok_def)
  have "bit_used (bit_mark (b mod BPB) (blk (bitmap_block v b))) j \<longleftrightarrow> j = b mod BPB \<or> bit_used (blk (bitmap_block v b)) j" for j
    using len bit_in_block [of b] by (intro bit_mark_used) simp
  then show ?thesis using blk' same_bit [OF ok b] by (cases "bitmap_block v c = bitmap_block v b") (auto simp: block_used_def)
qed

lemma block_used_clear:
  assumes ok: "bitmap_ok v blk" and b: "b < unat (sb_size v)" "c < unat (sb_size v)" and blk': "blk' (bitmap_block v c) = (blk(bitmap_block v b := bit_clear (b mod BPB) (blk (bitmap_block v b)))) (bitmap_block v c)"
  shows "block_used v blk' c \<longleftrightarrow> c \<noteq> b \<and> block_used v blk c"
proof -
  have len: "length (blk (bitmap_block v b)) = BSIZE" using ok b(1) by (simp add: bitmap_ok_def)
  have "bit_used (bit_clear (b mod BPB) (blk (bitmap_block v b))) j \<longleftrightarrow> j \<noteq> b mod BPB \<and> bit_used (blk (bitmap_block v b)) j" for j
    using len bit_in_block [of b] by (intro bit_clear_used) simp
  then show ?thesis using blk' same_bit [OF ok b] by (cases "bitmap_block v c = bitmap_block v b") (auto simp: block_used_def)
qed

text \<open>The search of one bitmap block, in terms of the blocks it describes.\<close>

lemma find_clear_bitmap:
  assumes before: "\<forall>c < BPB * j. c < sz \<longrightarrow> block_used v blk c"
  shows "case find_clear BPB (blk (bitmap_block v (BPB * j))) (BPB * j) sz 0 of
      Some i \<Rightarrow> i < BPB \<and> BPB * j + i < sz \<and> \<not> block_used v blk (BPB * j + i) \<and> (\<forall>c < BPB * j + i. block_used v blk c)
    | None \<Rightarrow> \<forall>c < BPB * Suc j. c < sz \<longrightarrow> block_used v blk c"
proof -
  define B where "B = bitmap_block v (BPB * j)"
  have used: "block_used v blk (BPB * j + i) = bit_used (blk B) i" if "i < BPB" for i
    using that by (simp add: block_used_def bitmap_block_round B_def)
  have below: "block_used v blk c" if "c < sz" "c < BPB * j + i" "i \<le> BPB" "\<forall>x < i. BPB * j + x < sz \<longrightarrow> bit_used (blk B) x" for c i
  proof (cases "c < BPB * j")
    case True
    then show ?thesis using before that(1) by blast
  next
    case False
    then have "c = BPB * j + (c - BPB * j)" by simp
    moreover have "c - BPB * j < i" using that(2) False by linarith
    ultimately show ?thesis using used [of "c - BPB * j"] that by (metis order_less_le_trans)
  qed
  have "case find_clear BPB (blk B) (BPB * j) sz 0 of
      Some i \<Rightarrow> i < BPB \<and> BPB * j + i < sz \<and> \<not> bit_used (blk B) i \<and> (\<forall>c < i. bit_used (blk B) c)
    | None \<Rightarrow> \<forall>i. i < BPB \<and> BPB * j + i < sz \<longrightarrow> bit_used (blk B) i"
    using find_clear_spec [where bi = 0 and k = BPB and d = "blk B" and b = "BPB * j" and sz = sz] by (simp split: option.splits)
  then show ?thesis unfolding B_def [symmetric] using used below [of _ BPB] below
    by (cases "find_clear BPB (blk B) (BPB * j) sz 0") (simp_all add: add.commute)
qed

context disk_driver
begin

lemma bzero_does:
  assumes t: "txn_state p (Suc k) s" and C: "cview (fs s) = C" and n: "unat bno = n" "n < 2 ^ 31" and len: "length (c_blk C n) = BSIZE"
  shows "\<exists>s'. bzero e ROOTDEV bno s = Ok s' \<and> quiet p s s' \<and> txn_state p k s' \<and>
     c_blk (cview (fs s')) = (c_blk C)(n := replicate BSIZE 0) \<and> platter (fs s') = platter (fs s) \<and>
     set (logged_homes (lg (fs s'))) = insert n (set (logged_homes (lg (fs s)))) \<and> fsother (fs s') = fsother (fs s)"
proof -
  obtain bp s1 where f: "bread e ROOTDEV bno s = Ok (bp, s1)" "fetched p s s1 bp n" using fetch [OF t n] by blast
  have "blit (c_blk C n) 0 (replicate BSIZE 0) = replicate BSIZE 0" using len by (simp add: blit_whole)
  with update_fetched [OF t f(2) C, of "\<lambda>d. blit d 0 (replicate BSIZE 0)"] f(1)
  show ?thesis by (fastforce simp: bzero_def)
qed

text \<open>A round of \<^verbatim>\<open>balloc\<close> that finds a clear bit.\<close>

lemma balloc_hit:
  assumes t: "txn_state p (Suc (Suc k)) s" and f: "fetched p s s1 bp n" and C: "c_blk (cview (fs s)) = blk"
    and ok: "bitmap_ok v blk" "sb (fs s) = v" and b: "b < unat (sb_size v)" "\<not> block_used v blk b" and n: "n = bitmap_block v b"
  shows "\<exists>s'. andThen (log_write bp (set_data bp (bit_mark (b mod BPB)) s1)) (\<lambda>s2.
       andThen (brelse bp s2) (\<lambda>s3. andThen (bzero e ROOTDEV (of_nat b) s3) (\<lambda>s4. Ok (of_nat b :: uint32, s4)))) = Ok (of_nat b, s') \<and>
     quiet p s s' \<and> txn_state p k s' \<and> c_blk (cview (fs s')) = blk(n := bit_mark (b mod BPB) (blk n), b := replicate BSIZE 0) \<and>
     platter (fs s') = platter (fs s) \<and> fsother (fs s') = fsother (fs s) \<and>
     set (logged_homes (lg (fs s'))) = {b, n} \<union> set (logged_homes (lg (fs s)))"
proof -
  have B: "b < 2 ^ 31" "length (blk b) = BSIZE" "b \<noteq> n" using ok(1) b n by (auto simp: bitmap_ok_def)
  then have ub: "unat (of_nat b :: uint32) = b" by (simp add: unat_of_nat_uint32)
  obtain s2 s3 where s3: "log_write bp (set_data bp (bit_mark (b mod BPB)) s1) = Ok s2" "brelse bp s2 = Ok s3" "quiet p s s3"
    "txn_state p (Suc k) s3" "c_blk (cview (fs s3)) = blk(n := bit_mark (b mod BPB) (blk n))" "platter (fs s3) = platter (fs s)"
    "set (logged_homes (lg (fs s3))) = insert n (set (logged_homes (lg (fs s))))" "fsother (fs s3) = fsother (fs s)"
    using update_fetched [OF t f refl, of "bit_mark (b mod BPB)"] C by blast
  have "length (c_blk (cview (fs s3)) b) = BSIZE" using s3(5) B by simp
  from bzero_does [OF s3(4) refl ub B(1) this] obtain s4 where s4: "bzero e ROOTDEV (of_nat b) s3 = Ok s4" "quiet p s3 s4"
    "txn_state p k s4" "c_blk (cview (fs s4)) = (c_blk (cview (fs s3)))(b := replicate BSIZE 0)" "platter (fs s4) = platter (fs s3)"
    "set (logged_homes (lg (fs s4))) = insert b (set (logged_homes (lg (fs s3))))" "fsother (fs s4) = fsother (fs s3)"
    by blast
  show ?thesis using s3(1,2,5-8) s4(1,3-7) quiet_trans [OF s3(3) s4(2)] by auto
qed

lemma balloc_loop_does:
  assumes "txn_state p (Suc (Suc k)) s" and "bitmap_ok (sb (fs s)) (c_blk (cview (fs s)))" and "sz = unat (sb_size (sb (fs s)))"
    and "\<forall>c < BPB * j. c < sz \<longrightarrow> block_used (sb (fs s)) (c_blk (cview (fs s))) c" and "sz - BPB * j \<le> fuel"
  shows "(\<exists>b s'. balloc_loop fuel e ROOTDEV (BPB * j) s = Ok (of_nat b, s') \<and> allocates p k s b s') \<or>
     (\<exists>s'. balloc_loop fuel e ROOTDEV (BPB * j) s = Ok (0, s') \<and> all_used p (Suc (Suc k)) s s')"
  using assms
proof (induction fuel arbitrary: s j)
  case 0
  then have "\<forall>c < sz. block_used (sb (fs s)) (c_blk (cview (fs s))) c" "\<not> BPB * j < sz" by auto
  moreover have "balloc_loop 0 e ROOTDEV (BPB * j) s = Ok (0, s)"
    using calculation(2) "0.prems"(3) by (subst balloc_loop.simps) simp
  ultimately show ?case using "0.prems"(1,3) txn_stateD(1) [OF "0.prems"(1)] by (auto simp: quiet_refl all_used_def)
next
  case (Suc m)
  define v blk where "v = sb (fs s)" and "blk = c_blk (cview (fs s))"
  note P = Suc.prems [folded v_def blk_def]
  show ?case
  proof (cases "BPB * j < sz")
    case False
    then have "\<forall>c < sz. block_used v blk c" using P(4) by auto
    moreover have "balloc_loop (Suc m) e ROOTDEV (BPB * j) s = Ok (0, s)"
      using False Suc.prems(3) by (subst balloc_loop.simps) simp
    ultimately show ?thesis using P txn_stateD(1) [OF Suc.prems(1)] by (auto simp: quiet_refl all_used_def v_def blk_def)
  next
    case True
    note d = txn_stateD [OF Suc.prems(1)]
    define B where "B = bitmap_block v (BPB * j)"
    have B: "unat (BBLOCK (BPB * j) v) = B" "B < 2 ^ 31" using P(2,3) True by (auto simp: bitmap_ok_def bitmap_block_def B_def)
    obtain bp s1 where f: "bread e ROOTDEV (BBLOCK (BPB * j) v) s = Ok (bp, s1)" "fetched p s s1 bp B"
      using fetch [OF Suc.prems(1) B] by blast
    note fd = fetched_data [OF f(2) d(4)]
    note fc = find_clear_bitmap [OF P(4), folded B_def]
    show ?thesis
    proof (cases "find_clear BPB (blk B) (BPB * j) sz 0")
      case None
      then have full: "\<forall>c < BPB * Suc j. c < sz \<longrightarrow> block_used v blk c" using fc by simp
      obtain s2 where s2: "brelse bp s1 = Ok s2" "quiet p s s2" "txn_state p (Suc (Suc k)) s2" "cview (fs s2) = cview (fs s)"
        "lg (fs s2) = lg (fs s)" "fsother (fs s2) = fsother (fs s)" using release_fetched [OF Suc.prems(1) f(2)] by blast
      have sb2: "sb (fs s2) = v" using s2(6) by (simp add: fsother_def v_def)
      have step: "balloc_loop (Suc m) e ROOTDEV (BPB * j) s = balloc_loop m e ROOTDEV (BPB * Suc j) s2"
        using True P(3) f(1) fd None s2(1) by (subst balloc_loop.simps) (simp add: add.commute v_def blk_def)
      have "sz - BPB * Suc j \<le> m" using P(5) True by (simp add: BPB_def BSIZE_def)
      note ih = Suc.IH [OF s2(3), of "Suc j", unfolded s2(4) sb2, folded blk_def, OF P(2,3) full this]
      have plat: "platter (fs s2) = platter (fs s)" using s2(4) by (metis c_plat_cview)
      have "allocates p k s2 b s' \<Longrightarrow> allocates p k s b s'" for b s'
        using quiet_trans [OF s2(2)] sb2 s2(4-6) plat by (auto simp: allocates_def Let_def v_def)
      moreover have "all_used p (Suc (Suc k)) s2 s' \<Longrightarrow> all_used p (Suc (Suc k)) s s'" for s'
        using quiet_trans [OF s2(2)] sb2 s2(4-6) by (auto simp: all_used_def v_def)
      ultimately show ?thesis using ih unfolding step by blast
    next
      case (Some i)
      define b where "b = BPB * j + i"
      have i: "i < BPB" "b < sz" and un: "\<not> block_used v blk b" "\<forall>c < b. block_used v blk c" using fc Some by (simp_all add: b_def)
      have mod: "b mod BPB = i" "bitmap_block v b = B" using i(1) by (simp_all add: bitmap_block_round b_def B_def)
      obtain s' where s': "andThen (log_write bp (set_data bp (bit_mark (b mod BPB)) s1)) (\<lambda>s2.
          andThen (brelse bp s2) (\<lambda>s3. andThen (bzero e ROOTDEV (of_nat b) s3) (\<lambda>s4. Ok (of_nat b :: uint32, s4)))) = Ok (of_nat b, s')"
        "allocates p k s b s'"
        using balloc_hit [OF Suc.prems(1) f(2) blk_def [symmetric] P(2) v_def [symmetric] _ un(1) mod(2) [symmetric]] i(2) P(3) un mod(2)
        by (auto simp: allocates_def Let_def v_def [symmetric] blk_def [symmetric])
      have "balloc_loop (Suc m) e ROOTDEV (BPB * j) s = Ok (of_nat b, s')"
        using True P(3) f(1) fd Some s'(1) mod(1) by (subst balloc_loop.simps) (simp add: v_def blk_def b_def)
      with s'(2) show ?thesis by blast
    qed
  qed
qed

end

lemma bitmap_ok_mark:
  assumes ok: "bitmap_ok v blk" and b: "b < unat (sb_size v)" "\<not> block_used v blk b"
    and blk': "blk' = blk(bitmap_block v b := bit_mark (b mod BPB) (blk (bitmap_block v b)), b := replicate BSIZE 0)"
  shows "\<forall>c < unat (sb_size v). block_used v blk' c \<longleftrightarrow> c = b \<or> block_used v blk c" "bitmap_ok v blk'"
proof -
  have ne: "bitmap_block v c \<noteq> b" if "c < unat (sb_size v)" for c using ok b that unfolding bitmap_ok_def by metis
  show u: "\<forall>c < unat (sb_size v). block_used v blk' c \<longleftrightarrow> c = b \<or> block_used v blk c"
    using block_used_mark [OF ok b(1)] ne blk' by simp
  have "length (blk' c) = (if c = b then BSIZE else length (blk c))" for c by (simp add: blk')
  then show "bitmap_ok v blk'" using ok u b(1) unfolding bitmap_ok_def by auto
qed

lemma bitmap_ok_clear:
  assumes ok: "bitmap_ok v blk" and b: "b < unat (sb_size v)" "0 < b" "\<forall>c < unat (sb_size v). b \<noteq> bitmap_block v c"
    and blk': "blk' = blk(bitmap_block v b := bit_clear (b mod BPB) (blk (bitmap_block v b)))"
  shows "\<forall>c < unat (sb_size v). block_used v blk' c \<longleftrightarrow> c \<noteq> b \<and> block_used v blk c" "bitmap_ok v blk'"
proof -
  show u: "\<forall>c < unat (sb_size v). block_used v blk' c \<longleftrightarrow> c \<noteq> b \<and> block_used v blk c"
    using block_used_clear [OF ok b(1)] blk' by simp
  have "length (blk' c) = length (blk c)" for c by (simp add: blk')
  then show "bitmap_ok v blk'" using ok u b unfolding bitmap_ok_def by auto
qed

text \<open>
  C8. The block allocator. In a transaction with room for two blocks, \<^verbatim>\<open>balloc\<close> returns. If the bitmap has an
  unused block, the result is the first one, it is not 0, its content is zeroed, its bit and no other
  is set in the bitmap, both changed blocks are in the log, and the bitmap is well-formed again.
  Otherwise the result is 0 and no block changes. Nothing is written to the disk in either case.
\<close>

theorem balloc_takes_first_free:
  assumes t: "txn_state p (Suc (Suc k)) s" and v: "v = sb (fs s)" and blk: "blk = c_blk (cview (fs s))" and ok: "bitmap_ok v blk"
  shows "if \<exists>b < unat (sb_size v). \<not> block_used v blk b
    then \<exists>b s'. balloc (virtio_env (\<lambda>s. Ok (serve s)) p) ROOTDEV s = Ok (of_nat b, s') \<and> 0 < b \<and> b < unat (sb_size v) \<and>
      \<not> block_used v blk b \<and> (\<forall>c < b. block_used v blk c) \<and> quiet p s s' \<and> txn_state p k s' \<and>
      bitmap_ok v (c_blk (cview (fs s'))) \<and>
      (\<forall>c < unat (sb_size v). block_used v (c_blk (cview (fs s'))) c \<longleftrightarrow> c = b \<or> block_used v blk c) \<and>
      c_blk (cview (fs s')) b = replicate BSIZE 0 \<and>
      (\<forall>n. n \<noteq> b \<and> n \<noteq> bitmap_block v b \<longrightarrow> c_blk (cview (fs s')) n = blk n) \<and>
      platter (fs s') = platter (fs s) \<and> {b, bitmap_block v b} \<subseteq> set (logged_homes (lg (fs s')))
    else \<exists>s'. balloc (virtio_env (\<lambda>s. Ok (serve s)) p) ROOTDEV s = Ok (0, s') \<and> quiet p s s' \<and>
      txn_state p (Suc (Suc k)) s' \<and> cview (fs s') = cview (fs s)"
proof -
  let ?e = "virtio_env (\<lambda>s. Ok (serve s)) p"
  have zero: "block_used v blk 0" using ok by (simp add: bitmap_ok_def)
  from vdrv.balloc_loop_does [OF t ok [unfolded v blk] refl, of 0 "unat (sb_size (sb (fs s)))"]
  consider (found) b s' where "balloc ?e ROOTDEV s = Ok (of_nat b, s')" "allocates p k s b s'"
    | (full) s' where "balloc ?e ROOTDEV s = Ok (0, s')" "all_used p (Suc (Suc k)) s s'"
    unfolding balloc_def by auto
  then show ?thesis
  proof cases
    case found
    note a = found(2) [unfolded allocates_def Let_def, folded v blk]
    have b: "b < unat (sb_size v)" "\<not> block_used v blk b" and c: "c_blk (cview (fs s')) =
        blk(bitmap_block v b := bit_mark (b mod BPB) (blk (bitmap_block v b)), b := replicate BSIZE 0)" using a by blast+
    have "0 < b" using zero b(2) by (metis gr0I)
    moreover have "\<exists>b < unat (sb_size v). \<not> block_used v blk b" using b by blast
    ultimately show ?thesis using found(1) a bitmap_ok_mark [OF ok b c]
      by (simp only: if_True, intro exI [of _ b] exI [of _ s']) (simp add: c)
  next
    case full
    then show ?thesis using v blk by (auto simp: all_used_def)
  qed
qed

text \<open>The superblock is no part of the cache.\<close>

lemma sb_upd_facts:
  "bc_inv (v\<lparr>sb := x\<rparr>) = bc_inv v" "cview (v\<lparr>sb := x\<rparr>) = cview v"
  "lg (v\<lparr>sb := x\<rparr>) = lg v"
proof -
  have k: "key (v\<lparr>sb := x\<rparr>) = key v" "nx (v\<lparr>sb := x\<rparr>) = nx v" "pv (v\<lparr>sb := x\<rparr>) = pv v" for v
    by (simp_all add: key_def nx_def pv_def fun_eq_iff)
  have r: "ring (v\<lparr>sb := x\<rparr>) xs = ring v xs" for v xs by (simp add: ring_def k)
  show "bc_inv (v\<lparr>sb := x\<rparr>) = bc_inv v" "cview (v\<lparr>sb := x\<rparr>) = cview v"
    "lg (v\<lparr>sb := x\<rparr>) = lg v"
    by (simp_all add: bc_inv_def bc_uniq_def cview_def slot_def buf_for_def k r cong: option.case_cong if_cong)
qed

definition alloc_demo :: fskernel where
  "alloc_demo = fs_upd (\<lambda>v. v\<lparr>sb := \<lparr>sb_magic = FSMAGIC, sb_size = 8, sb_nblocks = 8, sb_ninodes = 200, sb_nlog = 30,
     sb_logstart = 2, sb_inodestart = 32, sb_bmapstart = 45\<rparr>\<rparr>) log_demo"

lemma alloc_demo_txn: "txn_state 0 5 alloc_demo" "c_blk (cview (fs alloc_demo)) = (\<lambda>_. replicate 1024 0)"
  "unat (sb_size (sb (fs alloc_demo))) = 8" "sb_bmapstart (sb (fs alloc_demo)) = 45"
proof -
  have f: "bc_inv (fs alloc_demo)" "cview (fs alloc_demo) = cview boot_cache" "lg (fs alloc_demo) = lg (fs log_demo)" "sys_ok 0 alloc_demo"
    using log_demo_facts quiet_ok [OF quiet_fs_upd [OF log_demo_facts(1)]] by (simp_all add: alloc_demo_def sb_upd_facts)
  show "txn_state 0 5 alloc_demo" unfolding txn_state_def f(2,3) log_demo_facts(4)
    using f(1,4) by (simp add: boot_cache logged_homes_def NBUF_def MAXOPBLOCKS_def)
  show "c_blk (cview (fs alloc_demo)) = (\<lambda>_. replicate 1024 0)" using f(2) by (simp add: boot_cache)
qed (simp_all add: alloc_demo_def)

text \<open>A small disk with the bitmap in block 45, on which the boot block and the blocks of \<open>us\<close> are in use.\<close>

lemma alloc_demo_bitmap:
  "\<exists>s :: fskernel. txn_state 0 4 s \<and> bitmap_ok (sb (fs s)) (c_blk (cview (fs s))) \<and> unat (sb_size (sb (fs s))) = 8 \<and>
     (\<forall>b < 8. block_used (sb (fs s)) (c_blk (cview (fs s))) b \<longleftrightarrow> b < 2) \<and> (\<forall>b < 8. bitmap_block (sb (fs s)) b = 45)"
proof -
  note a = alloc_demo_txn
  have k: "(5 :: nat) = Suc 4" by simp
  obtain bp s1 where "fetched 0 alloc_demo s1 bp 45"
    using vdrv.fetch [OF a(1) [unfolded k], of 45 45] by auto
  from update_fetched [OF a(1) [unfolded k] this refl, of "bit_mark 1 \<circ> bit_mark 0"] a(2)
  obtain s :: fskernel where s: "txn_state 0 4 s" "c_blk (cview (fs s)) = (\<lambda>_. replicate 1024 0)(45 := bit_mark 1 (bit_mark 0 (replicate 1024 0)))"
    "fsother (fs s) = fsother (fs alloc_demo)" by auto
  have sb: "sb (fs s) = sb (fs alloc_demo)" using s(3) by (simp add: fsother_def)
  have small: "b div BPB = 0" "b mod BPB = b" if "b < 8" for b using that by (simp_all add: BPB_def BSIZE_def)
  have bb: "bitmap_block (sb (fs s)) b = 45" if "b < 8" for b
    using small [OF that] a(4) by (simp add: bitmap_block_def BBLOCK_def sb)
  have zero: "\<not> bit_used (replicate 1024 0) b" if "b < 8" for b using that by (simp add: bit_used_def)
  have used: "block_used (sb (fs s)) (c_blk (cview (fs s))) b \<longleftrightarrow> b < 2" if "b < 8" for b
    using that zero by (auto simp: block_used_def bb small s(2) bit_mark_used)
  then have "bitmap_ok (sb (fs s)) (c_blk (cview (fs s)))"
    using a(3) by (auto simp: bitmap_ok_def sb bb [unfolded sb] s(2) BSIZE_def)
  then show ?thesis using s(1) used bb a(3) sb by auto
qed

theorem balloc_takes_first_free_witness:
  "\<exists>s s' :: fskernel. balloc (virtio_env (\<lambda>s. Ok (serve s)) 0) ROOTDEV s = Ok (2, s') \<and> {2, 45} \<subseteq> set (logged_homes (lg (fs s')))"
proof -
  obtain s :: fskernel where s: "txn_state 0 (Suc (Suc 2)) s" "bitmap_ok (sb (fs s)) (c_blk (cview (fs s)))" "unat (sb_size (sb (fs s))) = 8"
    and u: "\<forall>b < 8. block_used (sb (fs s)) (c_blk (cview (fs s))) b \<longleftrightarrow> b < 2" "\<forall>b < 8. bitmap_block (sb (fs s)) b = 45"
    using alloc_demo_bitmap by (auto simp: numeral_eq_Suc)
  have ex: "\<exists>b < unat (sb_size (sb (fs s))). \<not> block_used (sb (fs s)) (c_blk (cview (fs s))) b" using s(3) u(1) by (intro exI [of _ 2]) simp
  from balloc_takes_first_free [OF s(1) refl refl s(2), unfolded if_P [OF ex]]
  obtain b s' where b: "balloc (virtio_env (\<lambda>s. Ok (serve s)) 0) ROOTDEV s = Ok (of_nat b, s')" "b < 8"
    "\<not> block_used (sb (fs s)) (c_blk (cview (fs s))) b" "\<forall>c < b. block_used (sb (fs s)) (c_blk (cview (fs s))) c"
    "{b, bitmap_block (sb (fs s)) b} \<subseteq> set (logged_homes (lg (fs s')))" using s(3) by auto
  have "b = 2" using b(2-4) u(1) by (metis le_neq_implies_less less_imp_le_nat linorder_not_less less_2_cases_iff numeral_less_iff semiring_norm(76,78) order_less_trans)
  then show ?thesis using b(1,5) u(2) by auto
qed

text \<open>
  C32. Freeing a block. In a transaction \<^verbatim>\<open>bfree\<close> of a block that is marked as used clears its bit and no other,
  records the bitmap block in the log and changes nothing else; on a block that is not in use it panics.
\<close>

theorem bfree_clears_bit:
  assumes t: "txn_state p (Suc k) s" and v: "v = sb (fs s)" and blk: "blk = c_blk (cview (fs s))" and ok: "bitmap_ok v blk"
    and b: "unat b < unat (sb_size v)" "0 < unat b" "\<forall>c < unat (sb_size v). unat b \<noteq> bitmap_block v c"
  shows "if block_used v blk (unat b)
    then \<exists>s'. bfree (virtio_env (\<lambda>s. Ok (serve s)) p) ROOTDEV b s = Ok s' \<and> quiet p s s' \<and> txn_state p k s' \<and>
      bitmap_ok v (c_blk (cview (fs s'))) \<and>
      (\<forall>c < unat (sb_size v). block_used v (c_blk (cview (fs s'))) c \<longleftrightarrow> c \<noteq> unat b \<and> block_used v blk c) \<and>
      (\<forall>n. n \<noteq> bitmap_block v (unat b) \<longrightarrow> c_blk (cview (fs s')) n = blk n) \<and>
      platter (fs s') = platter (fs s) \<and> bitmap_block v (unat b) \<in> set (logged_homes (lg (fs s')))
    else bfree (virtio_env (\<lambda>s. Ok (serve s)) p) ROOTDEV b s = Panic ''freeing free block''"
proof -
  let ?e = "virtio_env (\<lambda>s. Ok (serve s)) p" and ?n = "bitmap_block v (unat b)"
  have n: "unat (BBLOCK (unat b) v) = ?n" "?n < 2 ^ 31" using ok b(1) by (simp_all add: bitmap_block_def bitmap_ok_def)
  obtain bp s1 where f: "bread ?e ROOTDEV (BBLOCK (unat b) v) s = Ok (bp, s1)" "fetched p s s1 bp ?n"
    using vdrv.fetch [OF t n] by blast
  have data: "buf_data bp s1 = blk ?n" using fetched_data(1) [OF f(2) txn_stateD(4) [OF t]] blk by simp
  note upd = update_fetched [OF t f(2) refl, of "bit_clear (unat b mod BPB)", folded blk]
  show ?thesis
  proof (cases "block_used v blk (unat b)")
    case True
    obtain s2 s' where s': "log_write bp (set_data bp (bit_clear (unat b mod BPB)) s1) = Ok s2" "brelse bp s2 = Ok s'"
      "quiet p s s'" "txn_state p k s'" "c_blk (cview (fs s')) = blk(?n := bit_clear (unat b mod BPB) (blk ?n))"
      "platter (fs s') = platter (fs s)" "set (logged_homes (lg (fs s'))) = insert ?n (set (logged_homes (lg (fs s))))"
      using upd by blast
    have "bfree ?e ROOTDEV b s = Ok s'" using True f(1) data s'(1,2) v by (simp add: bfree_def Let_def block_used_def)
    then show ?thesis using True s' bitmap_ok_clear [OF ok b s'(5)] by auto
  next
    case False
    then show ?thesis using f(1) data v by (simp add: bfree_def Let_def block_used_def)
  qed
qed

theorem bfree_clears_bit_witness:
  "\<exists>s s' :: fskernel. bfree (virtio_env (\<lambda>s. Ok (serve s)) 0) ROOTDEV 1 s = Ok s' \<and> 45 \<in> set (logged_homes (lg (fs s'))) \<and>
     bfree (virtio_env (\<lambda>s. Ok (serve s)) 0) ROOTDEV 5 s = Panic ''freeing free block''"
proof -
  obtain s :: fskernel where s: "txn_state 0 (Suc 3) s" "bitmap_ok (sb (fs s)) (c_blk (cview (fs s)))" "unat (sb_size (sb (fs s))) = 8"
    and u: "\<forall>b < 8. block_used (sb (fs s)) (c_blk (cview (fs s))) b \<longleftrightarrow> b < 2" "\<forall>b < 8. bitmap_block (sb (fs s)) b = 45"
    using alloc_demo_bitmap by (auto simp: numeral_eq_Suc)
  note f = bfree_clears_bit [OF s(1) refl refl s(2), unfolded s(3)]
  show ?thesis using f [of 1] f [of 5] u by auto
qed

end
