(* ===== verification/Inodes.thy ===== *)
theory Inodes
  imports Blocks
begin

text \<open>
  Inodes on the disk and in the inode table: the layout that \<^const>\<open>dinode_write\<close> and
  \<^const>\<open>dinode_read\<close> agree on, and \<^const>\<open>iupdate\<close> followed by \<^const>\<open>ilock\<close> through the log,
  the buffer cache and the disk driver.
\<close>

section \<open>The layout of an inode block\<close>

definition same_dinode :: "inode \<Rightarrow> inode \<Rightarrow> bool" where
  "same_dinode x y \<longleftrightarrow> itype x = itype y \<and> imajor x = imajor y \<and> iminor x = iminor y \<and> nlink x = nlink y \<and>
     isize x = isize y \<and> addrs x = addrs y"

lemma dinode_at_fits: "length d = BSIZE \<Longrightarrow> dinode_at i + 64 \<le> length d"
proof -
  have "unat i mod IPB < 16" by (simp add: IPB_def BSIZE_def)
  then show "length d = BSIZE \<Longrightarrow> dinode_at i + 64 \<le> length d" by (simp add: dinode_at_def BSIZE_def)
qed

lemma length_dinode_write [simp]: "length (dinode_write x d) = length d"
  by (simp add: dinode_write_def Let_def)

lemma arr_dinode_write:
  assumes "length d = BSIZE" and "length (addrs x) = NDIRECT + 1" and "k < dinode_at (inum x) \<or> dinode_at (inum x) + 64 \<le> k"
  shows "arr (dinode_write x d) k = arr d k"
proof -
  define a where "a = dinode_at (inum x)"
  have "a + 64 \<le> length d" "k < a \<or> a + 64 \<le> k" using assms(3) dinode_at_fits [OF assms(1)] by (simp_all add: a_def)
  then show ?thesis using assms(2)
    by (elim disjE) (simp_all add: dinode_write_def Let_def arr_blit arr_wr NDIRECT_def a_def [symmetric])
qed

lemma dinode_read_write:
  assumes "length d = BSIZE" and "length (addrs x) = NDIRECT + 1" and "inum y = inum x"
  shows "same_dinode (dinode_read (dinode_write x d) y) x"
proof -
  define a where "a = dinode_at (inum x)"
  have fits: "a + 64 \<le> length d" using dinode_at_fits [OF assms(1)] by (simp add: a_def)
  define d5 where "d5 = wr32 (wr16 (wr16 (wr16 (wr16 d a (itype x)) (a + 2) (imajor x)) (a + 4) (iminor x)) (a + 6) (nlink x)) (a + 8) (isize x)"
  have len: "length d5 = length d" by (simp add: d5_def)
  have w: "dinode_write x d = blit d5 (a + 12) (concat (map bytes32 (addrs x)))" (is "_ = ?w")
    by (simp add: dinode_write_def Let_def a_def d5_def)
  have low: "arr ?w k = arr d5 k" if "k < a + 12" for k using that fits len assms(2) by (simp add: arr_blit NDIRECT_def)
  have "rd16 ?w a = itype x" "rd16 ?w (a + 2) = imajor x" "rd16 ?w (a + 4) = iminor x" "rd16 ?w (a + 6) = nlink x" "rd32 ?w (a + 8) = isize x"
    using fits low by (subst rd_arr_cong [of _ _ d5]; simp add: d5_def codec_simps)+
  moreover have "map (\<lambda>i. rd32 ?w (a + 12 + 4 * i)) [0..<NDIRECT + 1] = addrs x"
    using fits len assms(2) rd32_words [of "a + 12" "addrs x" d5] by (intro nth_equalityI) (simp_all add: NDIRECT_def del: upt_Suc)
  ultimately show ?thesis using assms(3) by (simp add: same_dinode_def dinode_read_def Let_def w a_def)
qed

text \<open>The other inodes of the block are untouched.\<close>

lemma dinode_read_other:
  assumes "length d = BSIZE" and "length (addrs x) = NDIRECT + 1" and "unat (inum y) mod IPB \<noteq> unat (inum x) mod IPB"
  shows "dinode_read (dinode_write x d) y = dinode_read d y"
proof -
  have "dinode_at (inum y) + 64 \<le> dinode_at (inum x) \<or> dinode_at (inum x) + 64 \<le> dinode_at (inum y)"
    using assms(3) unfolding dinode_at_def nat_neq_iff by linarith
  then have "arr (dinode_write x d) k = arr d k" if "dinode_at (inum y) \<le> k" "k < dinode_at (inum y) + 64" for k
    using that arr_dinode_write [OF assms(1,2)] by auto
  then have "rd16 (dinode_write x d) (dinode_at (inum y) + r) = rd16 d (dinode_at (inum y) + r)"
    "rd32 (dinode_write x d) (dinode_at (inum y) + r) = rd32 d (dinode_at (inum y) + r)" if "r + 4 \<le> 64" for r
    using that by (auto intro!: rd_arr_cong)
  from this [of 0] this [of 2] this [of 4] this [of 6] this [of 8] this(2) [of "12 + 4 * i" for i] show ?thesis
    by (auto simp: dinode_read_def Let_def NDIRECT_def add.assoc)
qed

section \<open>Through the log and the cache\<close>

lemma release_changed:
  assumes t: "txn_state p k s" and f: "fetched p s s1 bp n" and t1: "quiet p s1 t" "same_cache (fs t) (fs s1)"
  shows "\<exists>s'. brelse bp t = Ok s' \<and> quiet p s s' \<and> txn_state p k s' \<and> cview (fs s') = cview (fs s) \<and> fsother (fs s') = fsother (fs t)"
  using io_release [OF txn_io [OF t] f t1] txn_io_back [OF t] by metis

lemma iupdate_does:
  assumes t: "txn_state p (Suc k) s" and x: "x = itable (fs s) ! ip" "idev x = ROOTDEV"
    and n: "n = unat (IBLOCK (inum x) (sb (fs s)))" "n < 2 ^ 31"
  shows "\<exists>s'. iupdate (virtio_env (\<lambda>s. Ok (serve s)) p) ip s = Ok s' \<and> quiet p s s' \<and> txn_state p k s' \<and>
     c_blk (cview (fs s')) = (c_blk (cview (fs s)))(n := dinode_write x (c_blk (cview (fs s)) n)) \<and>
     platter (fs s') = platter (fs s) \<and> n \<in> set (logged_homes (lg (fs s'))) \<and> fsother (fs s') = fsother (fs s)"
proof -
  obtain bp s1 where f: "bread (virtio_env (\<lambda>s. Ok (serve s)) p) ROOTDEV (IBLOCK (inum x) (sb (fs s))) s = Ok (bp, s1)" "fetched p s s1 bp n"
    using vdrv.fetch [OF t n(1) [symmetric] n(2)] by blast
  note fd = fetched_data [OF f(2) txn_stateD(4) [OF t]]
  from update_fetched [OF t f(2) refl, of "dinode_write x"] f(1) fd(3) x show ?thesis
    by (auto simp: iupdate_def Let_def)
qed

lemma ilock_does:
  assumes t: "txn_state p (Suc k) s" and x: "x = itable (fs s) ! ip" "idev x = ROOTDEV" "0 < sint (iref x)" "\<not> ivalid x" "ip < length (itable (fs s))"
    and free: "slocked (slks (fs s) (InodeLock ip)) = 0"
    and n: "n = unat (IBLOCK (inum x) (sb (fs s)))" "n < 2 ^ 31"
    and y: "y = (dinode_read (c_blk (cview (fs s)) n) x)\<lparr>ivalid := True\<rparr>" "itype y \<noteq> 0"
  shows "\<exists>s'. ilock (virtio_env (\<lambda>s. Ok (serve s)) p) (Some ip) s = Ok s' \<and> quiet p s s' \<and> txn_state p (Suc k) s' \<and>
     cview (fs s') = cview (fs s) \<and> itable (fs s') = (itable (fs s))[ip := y] \<and>
     lk_owner (slks (fs s') (InodeLock ip)) = Some (pid (procs s ! p))"
proof -
  let ?e = "virtio_env (\<lambda>s. Ok (serve s)) p" and ?v1 = "slk_set (InodeLock ip) 1 (pid (procs s ! p)) (fs s)"
  note d = txn_stateD [OF t]
  obtain s1 where s1: "acquiresleep ?e (InodeLock ip) s = Ok s1" "quiet p s s1" "fs s1 = ?v1"
    using acquiresleep_does [OF d(1) free] unfolding does_def by blast
  have c1: "same_cache (fs s1) (fs s)" unfolding s1(3) by (rule same_cache_upd)
  have it1: "itable (fs s1) = itable (fs s)" "sb (fs s1) = sb (fs s)" by (simp_all add: s1(3) slk_set_def)
  have t1: "txn_state p (Suc k) s1" by (rule txn_same_cache [OF t quiet_ok [OF s1(2)] c1])
  note d1 = txn_stateD [OF t1]
  obtain bp s2 where f: "bread ?e ROOTDEV (IBLOCK (inum x) (sb (fs s))) s1 = Ok (bp, s2)" "fetched p s1 s2 bp n"
    using vdrv.fetch [OF t1 n(1) [symmetric] n(2)] by blast
  note fd = fetched_data [OF f(2) d1(4)]
  have blk: "buf_data bp s2 = c_blk (cview (fs s)) n" using fd(1) same_cache(2) [OF c1] by simp
  define z where "z = dinode_read (c_blk (cview (fs s)) n) x"
  define s3 where "s3 = set_inode ip (dinode_read (buf_data bp s2)) s2"
  have sys2: "sys_ok p s2" using f(2) quiet_ok unfolding fetched_def csteps_def by blast
  have s3: "quiet p s2 s3" "same_cache (fs s3) (fs s2)" "itable (fs s3) = (itable (fs s))[ip := z]"
    "slks (fs s3) (InodeLock ip) = slks (fs s2) (InodeLock ip)"
    unfolding s3_def set_inode_def using quiet_fs_upd [OF sys2] fd(3) it1(1) x(1) blk by (simp_all add: same_cache_upd z_def)
  obtain s4 where s4: "brelse bp s3 = Ok s4" "quiet p s1 s4" "txn_state p (Suc k) s4" "cview (fs s4) = cview (fs s1)"
    "fsother (fs s4) = fsother (fs s3)" using release_changed [OF t1 f(2) s3(1,2)] by blast
  define s5 where "s5 = set_inode ip (\<lambda>x. x\<lparr>ivalid := True\<rparr>) s4"
  have it4: "itable (fs s4) = (itable (fs s))[ip := z]" using s4(5) s3(3) by (simp add: fsother_def)
  have s5: "quiet p s4 s5" "same_cache (fs s5) (fs s4)" "itable (fs s5) = (itable (fs s))[ip := y]" "slks (fs s5) = slks (fs s4)"
    unfolding s5_def set_inode_def using quiet_fs_upd [OF txn_stateD(1) [OF s4(3)]] it4 x(5) y(1) by (simp_all add: same_cache_upd z_def)
  have "ilock ?e (Some ip) s = Ok s5"
    using x s1(1) it1 f(1) s4(1) s5(3) y(2) unfolding ilock_def s3_def [symmetric] s5_def by (simp add: Let_def s3_def [symmetric] s5_def [symmetric])
  moreover have "quiet p s s5" by (rule quiet_trans [OF s1(2) quiet_trans [OF s4(2) s5(1)]])
  moreover have "txn_state p (Suc k) s5" by (rule txn_same_cache [OF s4(3) quiet_ok [OF s5(1)] s5(2)])
  moreover have "cview (fs s5) = cview (fs s)" using same_cache(2) [OF s5(2)] same_cache(2) [OF c1] s4(4) by simp
  moreover have "slks (fs s5) (InodeLock ip) = slks ?v1 (InodeLock ip)"
  proof -
    have "fsother (fs s2) = fsother (fs s1)" using f(2) by (intro fsother_rest) (simp add: fetched_def csteps_def)
    then show ?thesis using s5(4) s4(5) s3(4) s1(3) by (simp add: fsother_def fun_eq_iff)
  qed
  ultimately show ?thesis using s5(3) by (intro exI [of _ s5]) (simp add: slk_set_def lk_owner_def)
qed

lemma iunlock_does:
  assumes t: "txn_state p k s" and own: "lk_owner (slks (fs s) (InodeLock ip)) = Some (pid (procs s ! p))" and ref: "0 < sint (iref (itable (fs s) ! ip))"
  shows "\<exists>s'. iunlock (Some ip) s = Ok s' \<and> quiet p s s' \<and> txn_state p k s' \<and> fs s' = slk_set (InodeLock ip) 0 0 (fs s)"
proof -
  note d = txn_stateD [OF t]
  obtain s1 where s1: "holdingsleep (InodeLock ip) s = Ok (True, s1)" "quiet p s s1" "fs s1 = fs s"
    using holdingsleep_yields [OF d(1), of "InodeLock ip"] own by (auto simp: yields_def lk_owner_def split: if_splits)
  obtain s2 where s2: "releasesleep (InodeLock ip) s1 = Ok s2" "quiet p s1 s2" "fs s2 = slk_set (InodeLock ip) 0 0 (fs s)"
    using releasesleep_does [OF quiet_ok [OF s1(2)], of "InodeLock ip"] s1(3) by (auto simp: does_def)
  have "iunlock (Some ip) s = Ok s2" using s1 s2(1) ref by (simp add: iunlock_def)
  moreover have "same_cache (fs s2) (fs s)" unfolding s2(3) by (rule same_cache_upd)
  ultimately show ?thesis using quiet_trans [OF s1(2) s2(2)] s2(3) txn_same_cache [OF t quiet_ok [OF s2(2)]] by blast
qed

section \<open>Properties\<close>

text \<open>
  C10. An inode written is the inode read back. In a transaction, \<^verbatim>\<open>iupdate\<close> and \<^verbatim>\<open>iunlock\<close> by the
  holder of an inode's lock return; the inode's block and no other changes, it is recorded in the
  log, the other inodes of the block keep their contents, and nothing reaches the disk yet. When the
  entry of the inode table is then recycled and loaded again (\<open>j\<close> is the entry \<^verbatim>\<open>iget\<close> leaves, with
  arbitrary stale fields), \<^verbatim>\<open>ilock\<close> returns with the lock held and every field as it was written.
\<close>

theorem iupdate_then_ilock:
  assumes t: "txn_state p (Suc (Suc k)) s" and x: "x = itable (fs s) ! ip" "ip < length (itable (fs s))" "idev x = ROOTDEV" "0 < sint (iref x)"
    "itype x \<noteq> 0" "length (addrs x) = NDIRECT + 1" and own: "lk_owner (slks (fs s) (InodeLock ip)) = Some (pid (procs s ! p))"
    and n: "n = unat (IBLOCK (inum x) (sb (fs s)))" "n < 2 ^ 31" and blk: "blk = c_blk (cview (fs s))" "length (blk n) = BSIZE"
    and j: "inum j = inum x" "idev j = ROOTDEV" "0 < sint (iref j)" "\<not> ivalid j"
  shows "\<exists>s' s''. andThen (iupdate (virtio_env (\<lambda>s. Ok (serve s)) p) ip s) (iunlock (Some ip)) = Ok s' \<and> quiet p s s' \<and>
     txn_state p (Suc k) s' \<and> platter (fs s') = platter (fs s) \<and> n \<in> set (logged_homes (lg (fs s'))) \<and>
     (\<forall>m. m \<noteq> n \<longrightarrow> c_blk (cview (fs s')) m = blk m) \<and>
     (\<forall>y. unat (inum y) mod IPB \<noteq> unat (inum x) mod IPB \<longrightarrow> dinode_read (c_blk (cview (fs s')) n) y = dinode_read (blk n) y) \<and>
     ilock (virtio_env (\<lambda>s. Ok (serve s)) p) (Some ip) (set_inode ip (\<lambda>_. j) s') = Ok s'' \<and> quiet p s' s'' \<and>
     same_dinode (itable (fs s'') ! ip) x \<and> ivalid (itable (fs s'') ! ip) \<and>
     lk_owner (slks (fs s'') (InodeLock ip)) = Some (pid (procs s ! p))"
proof -
  let ?e = "virtio_env (\<lambda>s. Ok (serve s)) p"
  note d = txn_stateD [OF t]
  obtain s1 where s1: "iupdate ?e ip s = Ok s1" "quiet p s s1" "txn_state p (Suc k) s1" "c_blk (cview (fs s1)) = blk(n := dinode_write x (blk n))"
    "platter (fs s1) = platter (fs s)" "n \<in> set (logged_homes (lg (fs s1)))" "fsother (fs s1) = fsother (fs s)"
    using iupdate_does [OF t x(1,3) n] blk(1) by blast
  have o1: "sb (fs s1) = sb (fs s)" "itable (fs s1) = itable (fs s)" "slks (fs s1) (InodeLock ip) = slks (fs s) (InodeLock ip)"
    "pid (procs s1 ! p) = pid (procs s ! p)"
    using s1(7) quiet_proc(1) [OF s1(2) d(4)] by (simp_all add: fsother_def fun_eq_iff)
  obtain s2 where s2: "iunlock (Some ip) s1 = Ok s2" "quiet p s1 s2" "txn_state p (Suc k) s2" "fs s2 = slk_set (InodeLock ip) 0 0 (fs s1)"
    using iunlock_does [OF s1(3), of ip] own o1 x(1,4) by auto
  define s3 where "s3 = set_inode ip (\<lambda>_. j) s2"
  have c2: "same_cache (fs s2) (fs s1)" unfolding s2(4) by (rule same_cache_upd)
  have q3: "quiet p s2 s3" unfolding s3_def set_inode_def by (rule quiet_fs_upd [OF txn_stateD(1) [OF s2(3)]])
  have fs3: "fs s3 = (slk_set (InodeLock ip) 0 0 (fs s1))\<lparr>itable := (itable (fs s))[ip := j]\<rparr>"
    by (simp add: s3_def set_inode_def s2(4) slk_set_def o1(2))
  then have c3: "same_cache (fs s3) (fs s1)" by (simp add: same_cache_def slk_set_def)
  have t3: "txn_state p (Suc k) s3" by (rule txn_same_cache [OF s1(3) quiet_ok [OF q3] c3])
  note blk3 = same_cache(2) [OF c3]
  have e3: "j = itable (fs s3) ! ip" "ip < length (itable (fs s3))" "slocked (slks (fs s3) (InodeLock ip)) = 0" "n = unat (IBLOCK (inum j) (sb (fs s3)))"
    "c_blk (cview (fs s3)) n = dinode_write x (blk n)"
    using x(2) j(1) n(1) o1 blk3 s1(4) by (simp_all add: fs3 slk_set_def)
  define y where "y = (dinode_read (dinode_write x (blk n)) j)\<lparr>ivalid := True\<rparr>"
  have y: "same_dinode y x" using dinode_read_write [OF blk(2) x(6) j(1)] by (simp add: y_def same_dinode_def)
  then have ty: "itype y \<noteq> 0" using x(5) by (simp add: same_dinode_def)
  obtain s4 where s4: "ilock ?e (Some ip) s3 = Ok s4" "quiet p s3 s4" "itable (fs s4) = (itable (fs s3))[ip := y]"
    "lk_owner (slks (fs s4) (InodeLock ip)) = Some (pid (procs s3 ! p))"
    using ilock_does [OF t3 e3(1) j(2-4) e3(2,3,4) n(2) _ ty] e3(5) unfolding y_def by auto
  have "pid (procs s3 ! p) = pid (procs s ! p)" using quiet_proc(1) [OF q3 d(4)] quiet_proc(1) [OF s2(2) d(4)] o1(4) by simp
  then have "lk_owner (slks (fs s4) (InodeLock ip)) = Some (pid (procs s ! p))" "itable (fs s4) ! ip = y" "ivalid y"
    using s4(3,4) e3(2) by (simp_all add: y_def)
  moreover have "platter (fs s2) = platter (fs s)" "lg (fs s2) = lg (fs s1)" "cview (fs s2) = cview (fs s1)"
    using c2 s1(5) same_cache(2) [OF c2] by (simp_all add: same_cache_def)
  ultimately show ?thesis
    using s1(1,4,6) s2(1,3) s4(1) y quiet_trans [OF s1(2) s2(2)] quiet_trans [OF q3 s4(2)] dinode_read_other [OF blk(2) x(6)]
    by (intro exI [of _ s2] exI [of _ s4]) (simp add: s3_def)
qed

definition demo_inode :: inode where
  "demo_inode = \<lparr>idev = ROOTDEV, inum = 1, iref = 1, ivalid = True, itype = 1, imajor = 0, iminor = 0, nlink = 1,
     isize = 1024, addrs = 46 # replicate 12 0\<rparr>"

definition inode_demo :: fskernel where
  "inode_demo = fs_upd (\<lambda>v. (slk_set (InodeLock 0) 1 (pid (procs alloc_demo ! 0)) v)\<lparr>itable := replicate NINODE demo_inode\<rparr>) alloc_demo"

lemma inode_demo_facts:
  "txn_state 0 (Suc (Suc 3)) inode_demo" "c_blk (cview (fs inode_demo)) = (\<lambda>_. replicate 1024 0)"
  "itable (fs inode_demo) = replicate NINODE demo_inode" "lk_owner (slks (fs inode_demo) (InodeLock 0)) = Some (pid (procs inode_demo ! 0))"
  "unat (IBLOCK 1 (sb (fs inode_demo))) = 32"
proof -
  have c: "same_cache (fs inode_demo) (fs alloc_demo)" by (simp add: inode_demo_def same_cache_def slk_set_def)
  have "sys_ok 0 inode_demo" unfolding inode_demo_def by (rule quiet_ok [OF quiet_fs_upd [OF txn_stateD(1) [OF alloc_demo_txn(1)]]])
  from txn_same_cache [OF alloc_demo_txn(1) this c] show "txn_state 0 (Suc (Suc 3)) inode_demo" by (simp add: numeral_eq_Suc)
  show "c_blk (cview (fs inode_demo)) = (\<lambda>_. replicate 1024 0)" using same_cache(2) [OF c] alloc_demo_txn(2) by simp
qed (simp_all add: inode_demo_def alloc_demo_def slk_set_def lk_owner_def IBLOCK_def IPB_def BSIZE_def)

theorem iupdate_then_ilock_witness:
  "\<exists>s' s''. andThen (iupdate (virtio_env (\<lambda>s. Ok (serve s)) 0) 0 inode_demo) (iunlock (Some 0)) = Ok s' \<and>
     ilock (virtio_env (\<lambda>s. Ok (serve s)) 0) (Some 0) (set_inode 0 (\<lambda>_. demo_inode\<lparr>ivalid := False, isize := 7, addrs := []\<rparr>) s') = Ok s'' \<and>
     isize (itable (fs s'') ! 0) = 1024 \<and> hd (addrs (itable (fs s'') ! 0)) = 46"
proof -
  note f = inode_demo_facts
  have x: "demo_inode = itable (fs inode_demo) ! 0" "0 < length (itable (fs inode_demo))" using f(3) by (simp_all add: NINODE_def)
  have i: "idev demo_inode = ROOTDEV" "0 < sint (iref demo_inode)" "itype demo_inode \<noteq> 0" "length (addrs demo_inode) = NDIRECT + 1"
    "32 = unat (IBLOCK (inum demo_inode) (sb (fs inode_demo)))" using f(5) by (simp_all add: demo_inode_def NDIRECT_def)
  have b: "length (c_blk (cview (fs inode_demo)) 32) = BSIZE" using f(2) by (simp add: BSIZE_def)
  from iupdate_then_ilock [OF f(1) x i(1-4) f(4) i(5) _ refl b, of "demo_inode\<lparr>ivalid := False, isize := 7, addrs := []\<rparr>"]
  show ?thesis by (auto simp: same_dinode_def demo_inode_def)
qed

end
