(* ===== verification/Contents.thy ===== *)
theory Contents
  imports Inodes
begin

text \<open>
  The contents of files (kernel/fs.c): \<^const>\<open>bmap\<close>, \<^const>\<open>readi\<close> and \<^const>\<open>writei\<close> against the file as
  one sequence of bytes, over direct and indirect blocks. The blocks concerned are allocated; the lemmas
  follow the loops chunk by chunk through the buffer cache and the log.
\<close>

section \<open>A file as a sequence of bytes\<close>

text \<open>The block that holds block \<open>bn\<close> of the file, given the contents of all blocks.\<close>

definition file_map :: "(nat \<Rightarrow> uint8 list) \<Rightarrow> inode \<Rightarrow> nat \<Rightarrow> uint32" where
  "file_map blk x bn =
     (if bn < NDIRECT then addrs x ! bn else rd32 (blk (unat (addrs x ! NDIRECT))) (4 * (bn - NDIRECT)))"

definition file_byte :: "(nat \<Rightarrow> uint8 list) \<Rightarrow> inode \<Rightarrow> nat \<Rightarrow> uint8" where
  "file_byte blk x i = blk (unat (file_map blk x (i div BSIZE))) ! (i mod BSIZE)"

definition file_bytes :: "(nat \<Rightarrow> uint8 list) \<Rightarrow> inode \<Rightarrow> nat \<Rightarrow> nat \<Rightarrow> uint8 list" where
  "file_bytes blk x off n = map (file_byte blk x) [off..<off + n]"

text \<open>
  The first \<open>nb\<close> blocks of the file are allocated, different from each other, from the indirect block and
  from the block \<open>ib\<close> of the inode.
\<close>

definition file_ok :: "(nat \<Rightarrow> uint8 list) \<Rightarrow> inode \<Rightarrow> nat \<Rightarrow> nat \<Rightarrow> bool" where
  "file_ok blk x ib nb \<longleftrightarrow> nb \<le> MAXFILE \<and>
     (\<forall>bn < nb. file_map blk x bn \<noteq> 0 \<and> unat (file_map blk x bn) < 2 ^ 31 \<and> unat (file_map blk x bn) \<noteq> ib \<and>
        length (blk (unat (file_map blk x bn))) = BSIZE) \<and>
     inj_on (file_map blk x) {..<nb} \<and>
     (NDIRECT < nb \<longrightarrow> addrs x ! NDIRECT \<noteq> 0 \<and> unat (addrs x ! NDIRECT) < 2 ^ 31 \<and> unat (addrs x ! NDIRECT) \<noteq> ib \<and>
        addrs x ! NDIRECT \<notin> file_map blk x ` {..<nb})"

text \<open>\<open>file_written blk blk' x nb off bs\<close>: the bytes \<open>bs\<close> were written at \<open>off\<close>, and nothing else changed.\<close>

definition file_written ::
    "(nat \<Rightarrow> uint8 list) \<Rightarrow> (nat \<Rightarrow> uint8 list) \<Rightarrow> inode \<Rightarrow> nat \<Rightarrow> nat \<Rightarrow> uint8 list \<Rightarrow> bool" where
  "file_written blk blk' x nb off bs \<longleftrightarrow>
     (\<forall>m. m \<notin> (\<lambda>bn. unat (file_map blk x bn)) ` {..<nb} \<longrightarrow> blk' m = blk m) \<and>
     (\<forall>bn < nb. length (blk' (unat (file_map blk x bn))) = BSIZE) \<and>
     (\<forall>bn < nb. \<forall>r < BSIZE. blk' (unat (file_map blk x bn)) ! r =
        (if off \<le> bn * BSIZE + r \<and> bn * BSIZE + r < off + length bs then bs ! (bn * BSIZE + r - off)
         else blk (unat (file_map blk x bn)) ! r))"

lemma BSIZE_pos [simp]: "0 < BSIZE" "BSIZE \<noteq> 0"
  by (simp_all add: BSIZE_def)

lemma file_okD:
  assumes "file_ok blk x ib nb" and "bn < nb"
  shows "file_map blk x bn \<noteq> 0" "unat (file_map blk x bn) < 2 ^ 31" "unat (file_map blk x bn) \<noteq> ib"
    "length (blk (unat (file_map blk x bn))) = BSIZE" "bn < MAXFILE"
  using assms by (auto simp: file_ok_def)

lemma file_written_map:
  assumes ok: "file_ok blk x ib nb" and w: "file_written blk blk' x nb off bs" and bn: "bn < nb"
  shows "file_map blk' x bn = file_map blk x bn"
proof (cases "bn < NDIRECT")
  case False
  then have "addrs x ! NDIRECT \<notin> file_map blk x ` {..<nb}" using ok bn by (auto simp: file_ok_def)
  then have "unat (addrs x ! NDIRECT) \<notin> (\<lambda>bn. unat (file_map blk x bn)) ` {..<nb}" by (auto simp: word_unat_eq_iff)
  then have "blk' (unat (addrs x ! NDIRECT)) = blk (unat (addrs x ! NDIRECT))" using w by (simp add: file_written_def)
  then show ?thesis by (simp add: file_map_def)
qed (simp add: file_map_def)

lemma file_written_ok:
  assumes ok: "file_ok blk x ib nb" and w: "file_written blk blk' x nb off bs"
  shows "file_ok blk' x ib nb"
proof -
  have m: "file_map blk' x bn = file_map blk x bn" if "bn < nb" for bn by (rule file_written_map [OF ok w that])
  then have "file_map blk' x ` {..<nb} = file_map blk x ` {..<nb}" "inj_on (file_map blk' x) {..<nb} = inj_on (file_map blk x) {..<nb}"
    by (auto simp: inj_on_def)
  then show ?thesis using ok w m by (simp add: file_ok_def file_written_def)
qed

lemma file_written_none: "file_ok blk x ib nb \<Longrightarrow> file_written blk blk x nb off []"
  by (auto simp: file_written_def file_ok_def)

text \<open>One chunk more, within one block.\<close>

lemma file_written_more:
  assumes ok: "file_ok blk x ib nb" and w: "file_written blk blk1 x nb off bs"
    and o: "i = off + length bs" "i div BSIZE < nb" "i mod BSIZE + length cs \<le> BSIZE"
    and b: "b = unat (file_map blk x (i div BSIZE))" and blk2: "blk2 = blk1(b := blit (blk1 b) (i mod BSIZE) cs)"
  shows "file_written blk blk2 x nb off (bs @ cs)"
  unfolding file_written_def
proof (intro conjI allI impI)
  show "blk2 m = blk m" if "m \<notin> (\<lambda>bn. unat (file_map blk x bn)) ` {..<nb}" for m
    using that w o(2) b by (auto simp: file_written_def blk2)
  show "length (blk2 (unat (file_map blk x bn))) = BSIZE" if "bn < nb" for bn
    using that w by (auto simp: file_written_def blk2)
  fix bn r assume bn: "bn < nb" and r: "r < BSIZE"
  let ?f = "unat (file_map blk x bn)" and ?k = "bn * BSIZE + r"
  have old: "blk1 ?f ! r = (if off \<le> ?k \<and> ?k < i then bs ! (?k - off) else blk ?f ! r)" and len: "length (blk1 b) = BSIZE"
    using w bn r o(1,2) b by (simp_all add: file_written_def)
  have i: "i = i div BSIZE * BSIZE + i mod BSIZE" by simp
  show "blk2 ?f ! r = (if off \<le> ?k \<and> ?k < off + length (bs @ cs) then (bs @ cs) ! (?k - off) else blk ?f ! r)"
  proof (cases "bn = i div BSIZE")
    case True
    have "blk2 ?f ! r = (if i \<le> ?k \<and> ?k < i + length cs then cs ! (?k - i) else blk1 ?f ! r)"
    proof -
      define m where "m = i mod BSIZE"
      have "i = bn * BSIZE + m" using i True by (simp add: m_def)
      then have "i \<le> ?k \<longleftrightarrow> m \<le> r" "?k < i + length cs \<longleftrightarrow> r < m + length cs" "?k - i = r - m" by simp_all
      then show ?thesis using arr_blit [of "i mod BSIZE" cs "blk1 b" r] o(3) len r True b by (simp add: blk2 arr_def m_def)
    qed
    then show ?thesis using old o(1) by (auto simp: nth_append)
  next
    case False
    then have ne: "?f \<noteq> b" using ok bn o(2) b by (auto simp: file_ok_def inj_on_def word_unat_eq_iff)
    have "?k < i \<or> i + length cs \<le> ?k"
    proof (cases "bn < i div BSIZE")
      case True
      then have "Suc bn * BSIZE \<le> i div BSIZE * BSIZE" by (intro mult_le_mono1) simp
      also have "\<dots> \<le> i" by simp
      finally show ?thesis using r by simp
    next
      case False
      then have "Suc (i div BSIZE) * BSIZE \<le> bn * BSIZE" using \<open>bn \<noteq> i div BSIZE\<close> by (intro mult_le_mono1) simp
      moreover have "i + length cs \<le> i div BSIZE * BSIZE + BSIZE" using o(3) by (metis add.assoc add_left_mono div_mult_mod_eq)
      ultimately show ?thesis by simp
    qed
    then show ?thesis using ne old o(1) by (auto simp: blk2 nth_append)
  qed
qed

lemma file_written_byte:
  assumes "file_ok blk x ib nb" and "file_written blk blk' x nb off bs" and "i < nb * BSIZE"
  shows "file_byte blk' x i = (if off \<le> i \<and> i < off + length bs then bs ! (i - off) else file_byte blk x i)"
proof -
  have "i div BSIZE < nb" using assms(3) by (simp add: less_mult_imp_div_less)
  then show ?thesis using file_written_map [OF assms(1,2)] assms(2) by (simp add: file_byte_def file_written_def)
qed


section \<open>Blocks of a file\<close>

text \<open>What an operation that only reads leaves: the cache, the log, the inode table.\<close>

definition kept :: "nat \<Rightarrow> nat \<Rightarrow> 'a fskernel_scheme \<Rightarrow> 'a fskernel_scheme \<Rightarrow> bool" where
  "kept p k s s' \<longleftrightarrow> quiet p s s' \<and> io_state p k s' \<and> cview (fs s') = cview (fs s) \<and> lg (fs s') = lg (fs s) \<and>
     fsother (fs s') = fsother (fs s)"

lemma kept_refl: "io_state p k s \<Longrightarrow> kept p k s s"
  by (simp add: kept_def quiet_refl io_stateD(1))

lemma kept_trans: "kept p k s s1 \<Longrightarrow> kept p k s1 s2 \<Longrightarrow> kept p k s s2"
  unfolding kept_def using quiet_trans by metis

lemma keptD:
  assumes "kept p k s s'"
  shows "io_state p k s'" "cview (fs s') = cview (fs s)" "itable (fs s') = itable (fs s)" "sb (fs s') = sb (fs s)"
  using assms by (simp_all add: kept_def fsother_def)

lemma kept_txn: "txn_state p k s \<Longrightarrow> kept p k s s' \<Longrightarrow> txn_state p k s'"
  using txn_io_back by (auto simp: kept_def)

text \<open>Fetch a block and release it again, with a change in between that the cache does not see.\<close>

lemma kept_fetch:
  assumes t: "io_state p (Suc k) s" and n: "unat bno = n" "n < 2 ^ 31"
  shows "\<exists>bp s1. bread (virtio_env (\<lambda>s. Ok (serve s)) p) ROOTDEV bno s = Ok (bp, s1) \<and> fetched p s s1 bp n \<and>
     buf_data bp s1 = c_blk (cview (fs s)) n \<and> sys_ok p s1 \<and> itable (fs s1) = itable (fs s) \<and>
     (\<forall>s2. quiet p s1 s2 \<and> fs s2 = fs s1 \<longrightarrow> (\<exists>s'. brelse bp s2 = Ok s' \<and> kept p (Suc k) s s'))"
proof -
  obtain bp s1 where f: "bread (virtio_env (\<lambda>s. Ok (serve s)) p) ROOTDEV bno s = Ok (bp, s1)" "fetched p s s1 bp n"
    using vdrv.io_fetch [OF t n] by blast
  note d = fetched_data [OF f(2) io_stateD(4) [OF t]]
  have o: "fsother (fs s1) = fsother (fs s)" "sys_ok p s1"
    using f(2) fsother_rest quiet_ok unfolding fetched_def csteps_def by blast+
  have "\<exists>s'. brelse bp s2 = Ok s' \<and> kept p (Suc k) s s'" if "quiet p s1 s2" "fs s2 = fs s1" for s2
    using io_release [OF t f(2) that(1)] that(2) o(1) by (auto simp: same_cache_def kept_def)
  then show ?thesis using f d o(2) by blast
qed

lemma bmap_maps:
  assumes t: "io_state p (Suc k) s" and x: "x = itable (fs s) ! ip" "idev x = ROOTDEV"
    and ok: "file_ok (c_blk (cview (fs s))) x ib nb" and bn: "unat bn < nb"
  shows "\<exists>s'. bmap (virtio_env (\<lambda>s. Ok (serve s)) p) ip bn s = Ok (file_map (c_blk (cview (fs s))) x (unat bn), s') \<and> kept p (Suc k) s s'"
proof (cases "unat bn < NDIRECT")
  case True
  then show ?thesis using file_okD(1) [OF ok bn] kept_refl [OF t] x(1) by (simp add: bmap_def bmap_slot_def file_map_def)
next
  case False
  let ?a = "addrs x ! NDIRECT" and ?e = "virtio_env (\<lambda>s. Ok (serve s)) p"
  have a: "?a \<noteq> 0" "unat ?a < 2 ^ 31" "unat bn - NDIRECT < NINDIRECT"
    using ok bn False file_okD(5) [OF ok bn] by (auto simp: file_ok_def MAXFILE_def)
  obtain bp s1 s' where f: "bread ?e ROOTDEV ?a s = Ok (bp, s1)" "buf_data bp s1 = c_blk (cview (fs s)) (unat ?a)"
    "brelse bp s1 = Ok s'" "kept p (Suc k) s s'"
    using kept_fetch [OF t refl a(2)] quiet_refl by blast
  have "bmap ?e ip bn s = Ok (file_map (c_blk (cview (fs s))) x (unat bn), s')"
    using False a(1,3) x f(1-3) file_okD(1) [OF ok bn] by (simp add: bmap_def bmap_slot_def Let_def file_map_def)
  then show ?thesis using f(4) by blast
qed

text \<open>The arithmetic of a chunk: it ends with the block or with the request.\<close>

lemma io_chunk_size:
  assumes "tot < n"
  shows "unat (io_chunk n tot off) = min (unat n - unat tot) (BSIZE - unat off mod BSIZE)"
proof -
  have "off mod 1024 < 1024" by (rule word_mod_less_divisor) simp
  then have "unat (1024 - off mod 1024) = 1024 - unat off mod 1024"
    by (subst unat_sub) (simp_all add: unat_mod less_imp_le)
  moreover have "unat (n - tot) = unat n - unat tot" using assms by (intro unat_sub) simp
  ultimately show ?thesis by (simp add: io_chunk_def BSIZE_def min_def word_le_nat_alt)
qed

lemma unat_add_fits: "unat (a :: uint32) + unat b < 2 ^ 32 \<Longrightarrow> unat (a + b) = unat a + unat b"
  using unat_add_lem [of a b] by simp

lemma io_chunk_bounds:
  assumes "tot < n"
  shows "unat off mod BSIZE + unat (io_chunk n tot off) \<le> BSIZE" "0 < unat (io_chunk n tot off)"
    "unat tot + unat (io_chunk n tot off) \<le> unat n"
proof -
  have "unat tot < unat n" "unat off mod BSIZE < BSIZE" using assms by (simp_all add: word_less_nat_alt)
  then show "unat off mod BSIZE + unat (io_chunk n tot off) \<le> BSIZE" "0 < unat (io_chunk n tot off)"
    "unat tot + unat (io_chunk n tot off) \<le> unat n" unfolding io_chunk_size [OF assms] by linarith+
qed

lemma file_bytes_append: "file_bytes blk x off (m + n) = file_bytes blk x off m @ file_bytes blk x (off + m) n"
proof -
  have "[off..<off + (m + n)] = [off..<off + m] @ [off + m..<off + m + n]"
    using upt_add_eq_append [of off "off + m" n] by (simp add: add.assoc)
  then show ?thesis by (simp add: file_bytes_def)
qed

lemma within_block:
  assumes "off mod BSIZE + j < BSIZE"
  shows "(off + j) div BSIZE = off div BSIZE" "(off + j) mod BSIZE = off mod BSIZE + j"
  using assms div_mult_mod_eq [of off BSIZE]
  by (metis add.assoc div_mult_self3 div_less mod_mult_self3 mod_less add_0_right mult.commute BSIZE_pos(2))+

lemma file_bytes_chunk:
  assumes "length (blk (unat (file_map blk x (off div BSIZE)))) = BSIZE" and "off mod BSIZE + m \<le> BSIZE"
  shows "slice (blk (unat (file_map blk x (off div BSIZE)))) (off mod BSIZE) m = file_bytes blk x off m"
proof (rule nth_equalityI)
  show "length (slice (blk (unat (file_map blk x (off div BSIZE)))) (off mod BSIZE) m) = length (file_bytes blk x off m)"
    using assms by (simp add: slice_def file_bytes_def)
  fix j assume "j < length (slice (blk (unat (file_map blk x (off div BSIZE)))) (off mod BSIZE) m)"
  then have j: "j < m" "off mod BSIZE + j < BSIZE" using assms by (simp_all add: slice_def)
  from within_block [OF j(2)] show "slice (blk (unat (file_map blk x (off div BSIZE)))) (off mod BSIZE) m ! j = file_bytes blk x off m ! j"
    using j assms by (simp add: slice_def file_bytes_def file_byte_def)
qed

lemma blit_Nil [simp]: "blit bs a [] = bs"
  by (cases "a \<le> length bs") (simp_all add: blit_def min_def)

lemma blit_eq: "a + length vs \<le> length bs \<Longrightarrow> blit bs a vs = take a bs @ vs @ drop (a + length vs) bs"
  by (simp add: blit_def)

lemma blit_blit:
  assumes "a + length us + length vs \<le> length bs"
  shows "blit (blit bs a us) (a + length us) vs = blit bs a (us @ vs)"
proof -
  have "blit bs a us = take a bs @ us @ drop (a + length us) bs" using assms by (intro blit_eq) simp
  moreover have "length (take a bs) = a" using assms by simp
  ultimately show ?thesis
    using assms blit_eq [of "a + length us" vs "blit bs a us"] blit_eq [of a "us @ vs" bs] by (simp add: ac_simps)
qed

section \<open>Reading\<close>

text \<open>One round of either loop: where the chunk lies.\<close>

lemma chunk_facts:
  assumes ok: "file_ok blk x ib nb" and lt: "tot < n" and fits: "unat off + (unat n - unat tot) \<le> nb * BSIZE"
    and m: "m = io_chunk n tot off" and i: "i = unat off"
  shows "unat (off div of_nat BSIZE) = i div BSIZE" "unat (off mod of_nat BSIZE) = i mod BSIZE" "i div BSIZE < nb"
    "i mod BSIZE + unat m \<le> BSIZE" "0 < unat m" "unat tot + unat m \<le> unat n"
    "unat (tot + m) = unat tot + unat m" "unat (off + m) = i + unat m" "i + unat m \<le> nb * BSIZE"
proof -
  have "unat tot < unat n" using lt by (simp add: word_less_nat_alt)
  then have "i < nb * BSIZE" using fits i by simp
  then show "i div BSIZE < nb" by (simp add: less_mult_imp_div_less)
  show "unat (off div of_nat BSIZE) = i div BSIZE" "unat (off mod of_nat BSIZE) = i mod BSIZE"
    by (simp_all add: i unat_div unat_mod BSIZE_def)
  show "i mod BSIZE + unat m \<le> BSIZE" "0 < unat m" and tot: "unat tot + unat m \<le> unat n"
    using io_chunk_bounds [OF lt, of off] by (simp_all add: m i)
  then show off: "i + unat m \<le> nb * BSIZE" using fits i by linarith
  have "nb * BSIZE < 2 ^ 32" using ok by (auto simp: file_ok_def MAXFILE_def NDIRECT_def NINDIRECT_def BSIZE_def)
  then show "unat (tot + m) = unat tot + unat m" "unat (off + m) = i + unat m"
    using tot off unsigned_less [of n, where 'a = nat] by (simp_all add: i unat_add_fits)
qed

lemma readi_round:
  assumes t: "io_state p (Suc k) s" and x: "x = itable (fs s) ! ip" "idev x = ROOTDEV" and blk: "blk = c_blk (cview (fs s))"
    and ok: "file_ok blk x ib nb" and lt: "tot < n" and fits: "unat off + (unat n - unat tot) \<le> nb * BSIZE"
    and m: "m = io_chunk n tot off"
  shows "\<exists>s'. readi_loop (Suc fuel) (virtio_env (\<lambda>s. Ok (serve s)) p) ip n tot off (AtLocal loc) s =
       readi_loop fuel (virtio_env (\<lambda>s. Ok (serve s)) p) ip n (tot + m) (off + m)
         (AtLocal (blit loc (unat tot) (file_bytes blk x (unat off) (unat m)))) s' \<and> kept p (Suc k) s s'"
proof -
  let ?e = "virtio_env (\<lambda>s. Ok (serve s)) p" and ?cs = "file_bytes blk x (unat off) (unat m)"
  define i where "i = unat off"
  note c = chunk_facts [OF ok lt fits m i_def]
  note fo = file_okD [OF ok c(3)]
  obtain s1 where s1: "bmap ?e ip (off div of_nat BSIZE) s = Ok (file_map blk x (i div BSIZE), s1)" "kept p (Suc k) s s1"
    using bmap_maps [OF t x, of ib nb "off div of_nat BSIZE"] ok blk c(1,3) by auto
  note k1 = keptD [OF s1(2)]
  obtain bp s2 where s2: "bread ?e ROOTDEV (file_map blk x (i div BSIZE)) s1 = Ok (bp, s2)"
    "buf_data bp s2 = blk (unat (file_map blk x (i div BSIZE)))" "sys_ok p s2"
    and rel: "\<And>t. quiet p s2 t \<Longrightarrow> fs t = fs s2 \<Longrightarrow> \<exists>s'. brelse bp t = Ok s' \<and> kept p (Suc k) s1 s'"
    using kept_fetch [OF k1(1) refl fo(2)] k1(2) blk by metis
  have cs: "slice (buf_data bp s2) (i mod BSIZE) (unat m) = ?cs"
    using file_bytes_chunk [where blk = blk and x = x and off = i and m = "unat m"] fo(4) c(4) s2(2) by (simp add: i_def)
  have out: "io_out (AtLocal loc) (unat tot) ?cs s2 = Ok (0, AtLocal (blit loc (unat tot) ?cs), ktouch s2)"
    using sys_okD(2) [OF s2(3)] by (simp add: myproc_eq)
  obtain s4 where s4: "brelse bp (ktouch s2) = Ok s4" "kept p (Suc k) s1 s4" using rel [OF quiet_ktouch [OF s2(3)]] by auto
  have "idev (itable (fs s1) ! ip) = ROOTDEV" using k1(3) x by simp
  then have "readi_loop (Suc fuel) ?e ip n tot off (AtLocal loc) s =
      readi_loop fuel ?e ip n (tot + m) (off + m) (AtLocal (blit loc (unat tot) ?cs)) s4"
    using lt s1(1) fo(1) s2(1) cs out s4(1) c(2) by (subst readi_loop.simps) (simp add: Let_def m)
  then show ?thesis using kept_trans [OF s1(2) s4(2)] by blast
qed

lemma readi_loop_reads:
  assumes "io_state p (Suc k) s" and "x = itable (fs s) ! ip" "idev x = ROOTDEV" and "blk = c_blk (cview (fs s))"
    and "file_ok blk x ib nb" and "tot \<le> n" and "unat n - unat tot \<le> fuel"
    and "unat off + (unat n - unat tot) \<le> nb * BSIZE" and "unat n \<le> length loc"
  shows "\<exists>s'. readi_loop fuel (virtio_env (\<lambda>s. Ok (serve s)) p) ip n tot off (AtLocal loc) s =
       Ok (n, AtLocal (blit loc (unat tot) (file_bytes blk x (unat off) (unat n - unat tot))), s') \<and> kept p (Suc k) s s'"
  using assms
proof (induction fuel arbitrary: s tot off loc)
  case 0
  then have "tot = n" by (simp add: word_le_nat_alt word_unat_eq_iff)
  then show ?case using kept_refl [OF 0(1)] by (subst readi_loop.simps) (simp add: file_bytes_def)
next
  case (Suc fuel)
  let ?e = "virtio_env (\<lambda>s. Ok (serve s)) p"
  show ?case
  proof (cases "tot < n")
    case False
    then have "tot = n" using Suc.prems(6) by simp
    then show ?thesis using kept_refl [OF Suc.prems(1)] by (subst readi_loop.simps) (simp add: file_bytes_def)
  next
    case True
    define m where "m = io_chunk n tot off"
    let ?cs = "file_bytes blk x (unat off) (unat m)" and ?rest = "file_bytes blk x (unat off + unat m) (unat n - (unat tot + unat m))"
    note c = chunk_facts [OF Suc.prems(5) True Suc.prems(8) m_def refl]
    obtain s1 where s1: "readi_loop (Suc fuel) ?e ip n tot off (AtLocal loc) s =
        readi_loop fuel ?e ip n (tot + m) (off + m) (AtLocal (blit loc (unat tot) ?cs)) s1" "kept p (Suc k) s s1"
      using readi_round [OF Suc.prems(1-5) True Suc.prems(8) m_def] by blast
    note k1 = keptD [OF s1(2)]
    have "unat n - (unat tot + unat m) \<le> fuel" using Suc.prems(7) c(5) by linarith
    then obtain s5 where s5: "readi_loop fuel ?e ip n (tot + m) (off + m) (AtLocal (blit loc (unat tot) ?cs)) s1 =
        Ok (n, AtLocal (blit (blit loc (unat tot) ?cs) (unat tot + unat m) ?rest), s5)" "kept p (Suc k) s1 s5"
      using Suc.IH [of s1 "tot + m" "off + m" "blit loc (unat tot) ?cs"] k1 Suc.prems(2-5,8,9) c by (auto simp: word_le_nat_alt)
    have "?cs @ ?rest = file_bytes blk x (unat off) (unat n - unat tot)"
      using file_bytes_append [of blk x "unat off" "unat m" "unat n - (unat tot + unat m)"] c(6) by simp
    then have "blit (blit loc (unat tot) ?cs) (unat tot + unat m) ?rest = blit loc (unat tot) (file_bytes blk x (unat off) (unat n - unat tot))"
      using blit_blit [of "unat tot" ?cs ?rest loc] c(6) Suc.prems(9) by (simp add: file_bytes_def)
    then show ?thesis using s1(1) s5 kept_trans [OF s1(2) s5(2)] by simp
  qed
qed

lemma readi_does:
  assumes t: "io_state p (Suc k) s" and x: "x = itable (fs s) ! ip" "idev x = ROOTDEV" and blk: "blk = c_blk (cview (fs s))"
    and ok: "file_ok blk x ib nb" and sz: "unat (isize x) \<le> nb * BSIZE" and loc: "unat n \<le> length loc"
    and off: "off \<le> isize x" "unat off + unat n < 2 ^ 32" and m: "m = min (unat n) (unat (isize x) - unat off)"
  shows "\<exists>s'. readi (virtio_env (\<lambda>s. Ok (serve s)) p) ip (AtLocal loc) off n s =
     Ok (of_nat m, AtLocal (blit loc 0 (file_bytes blk x (unat off) m)), s') \<and> kept p (Suc k) s s'"
proof -
  define n' where "n' = (if off + n > isize x then isize x - off else n)"
  have o: "unat off \<le> unat (isize x)" "unat (off + n) = unat off + unat n"
    using off unat_add_fits by (simp_all add: word_le_nat_alt)
  have n': "unat n' = m" using o unat_sub [OF off(1)] m by (auto simp: n'_def word_less_nat_alt)
  then have r: "of_nat m = n'" by auto
  have "\<not> (off > isize x \<or> off + n < off)" using o off(1) by (simp add: word_less_nat_alt)
  then have eq: "readi (virtio_env (\<lambda>s. Ok (serve s)) p) ip (AtLocal loc) off n s =
      readi_loop m (virtio_env (\<lambda>s. Ok (serve s)) p) ip n' 0 off (AtLocal loc) s"
    using x(1) by (simp add: readi_def Let_def n' [symmetric] n'_def)
  have "m \<le> unat n" "unat off + m \<le> nb * BSIZE" using m o(1) sz by simp_all
  then show ?thesis unfolding eq r using readi_loop_reads [OF t x blk ok, of 0 n' m off loc] n' loc by simp
qed


section \<open>Writing\<close>

text \<open>What the source of a write holds, in a memory seen through the page table \<open>pt\<close>.\<close>

fun source_bytes :: "memory \<Rightarrow> uint64 \<Rightarrow> iobuf \<Rightarrow> nat \<Rightarrow> uint8 list" where
  "source_bytes m pt (AtAddr user a) n = (if user then map (\<lambda>i. uread m pt (a + of_nat i)) [0..<n] else read_bytes m a n)"
| "source_bytes m pt (AtLocal loc) n = take n loc"

fun source_ok :: "memory \<Rightarrow> uint64 \<Rightarrow> iobuf \<Rightarrow> nat \<Rightarrow> bool" where
  "source_ok m pt (AtAddr user a) n \<longleftrightarrow> (user \<longrightarrow> pt_wf m 2 pt \<and> range_mapped m pt a n \<and> unat a + n \<le> 2 ^ 38)"
| "source_ok m pt (AtLocal loc) n \<longleftrightarrow> n \<le> length loc"

lemma length_source [simp]: "source_ok m pt src n \<Longrightarrow> length (source_bytes m pt src n) = n"
  by (cases src) (simp_all add: read_bytes_def)

lemma fetched_touched:
  assumes "fetched p s s1 bp n" and "quiet p s1 t" and "fs t = fs s1"
  shows "fetched p s t bp n"
  using assms quiet_trans unfolding fetched_def csteps_def by metis

text \<open>The blocks that the bytes from \<open>i\<close> up to \<open>j\<close> touch.\<close>

definition blocks_left :: "nat \<Rightarrow> nat \<Rightarrow> nat" where
  "blocks_left i j = (if i < j then (j - 1) div BSIZE - i div BSIZE + 1 else 0)"

lemma blocks_left_chunk:
  assumes "i < j" and m: "m = min (j - i) (BSIZE - i mod BSIZE)"
  shows "blocks_left i j = Suc (blocks_left (i + m) j)"
proof -
  have r: "i mod BSIZE < BSIZE" by simp
  show ?thesis
  proof (cases "j - i \<le> BSIZE - i mod BSIZE")
    case True
    then have "i mod BSIZE + (j - i - 1) < BSIZE" using r assms(1) by linarith
    then have "(i + (j - i - 1)) div BSIZE = i div BSIZE" by (rule within_block)
    moreover have "i + (j - i - 1) = j - 1" "i + m = j" using assms(1) True by (simp_all add: m)
    ultimately show ?thesis using assms(1) by (simp add: blocks_left_def)
  next
    case False
    define q where "q = i div BSIZE * BSIZE"
    have "i = q + i mod BSIZE" by (simp add: q_def)
    moreover have "m = BSIZE - i mod BSIZE" using False by (simp add: m)
    ultimately have "i + m = q + BSIZE" using r by linarith
    then have d: "(i + m) div BSIZE = Suc (i div BSIZE)" by (simp add: q_def)
    have lt: "i + m < j" using False assms(1) by (simp add: m)
    then have "(i + m) div BSIZE \<le> (j - 1) div BSIZE" by (intro div_le_mono) simp
    then show ?thesis using lt assms(1) d by (simp add: blocks_left_def)
  qed
qed


lemma io_in_reads:
  assumes sys: "sys_ok p s" and src: "source_ok (mem (pm s)) (pagetable (procs s ! p)) src n" and le: "tot + m \<le> n"
  shows "io_in src tot m s = Ok (0, slice (source_bytes (mem (pm s)) (pagetable (procs s ! p)) src n) tot m, ktouch s)"
proof (cases src)
  case (AtLocal loc)
  have "slice (take n loc) tot m = slice loc tot m" using le by (simp add: slice_def drop_take min_def)
  then show ?thesis using AtLocal sys_okD(2) [OF sys] by (simp add: myproc_eq)
next
  case (AtAddr user a)
  let ?m = "mem (pm s)" and ?pt = "pagetable (procs s ! p)"
  have cut: "slice (map f [0..<n]) tot m = map (\<lambda>i. f (tot + i)) [0..<m]" for f :: "nat \<Rightarrow> uint8"
    using le by (intro nth_equalityI) (simp_all add: slice_def)
  have shift: "a + of_nat tot + of_nat i = a + of_nat (tot + i)" for i by (simp add: add.assoc)
  show ?thesis
  proof (cases user)
    case True
    then have u: "pt_wf ?m 2 ?pt" "range_mapped ?m ?pt a n" "unat a + n \<le> 2 ^ 38" using src AtAddr by simp_all
    have at: "unat (a + of_nat tot) = unat a + tot" using u(3) le unat_add_lem [of a "of_nat tot"]
      by (simp add: unat_of_nat take_bit_nat_eq_self)
    then have "range_mapped ?m ?pt (a + of_nat tot) m" using u(2) le by (simp add: range_mapped_def)
    moreover have "mem (pm (ktouch s)) = ?m" by simp
    ultimately have "copyin ?pt (a + of_nat tot) m (pm (ktouch s)) =
        Ok (0, map (\<lambda>i. uread ?m ?pt (a + of_nat (tot + i))) [0..<m], pm (ktouch s))"
      using copyin_reads [of "pm (ktouch s)" ?pt "a + of_nat tot" m] u(1,3) at le by (simp add: shift del: of_nat_add)
    then show ?thesis using AtAddr True sys_okD(2,4) [OF sys] cut by (simp add: either_copyin_def myproc_eq)
  next
    case False
    then show ?thesis using AtAddr sys_okD(2) [OF sys] cut by (simp add: either_copyin_def myproc_eq read_bytes_def add.assoc)
  qed
qed

lemma writei_round:
  assumes t: "txn_state p (Suc k) s" and x: "x = itable (fs s) ! ip" "idev x = ROOTDEV" and blk: "blk = c_blk (cview (fs s))"
    and ok: "file_ok blk x ib nb" and lt: "tot < n" and fits: "unat off + (unat n - unat tot) \<le> nb * BSIZE"
    and m: "m = io_chunk n tot off" and i: "i = unat off" and b: "b = unat (file_map blk x (i div BSIZE))"
    and src: "source_ok (mem (pm s)) (pagetable (procs s ! p)) src (unat n)"
    and bs: "bs = source_bytes (mem (pm s)) (pagetable (procs s ! p)) src (unat n)"
  shows "\<exists>s'. writei_loop (Suc fuel) (virtio_env (\<lambda>s. Ok (serve s)) p) ip src n tot off s =
       writei_loop fuel (virtio_env (\<lambda>s. Ok (serve s)) p) ip src n (tot + m) (off + m) s' \<and> quiet p s s' \<and> txn_state p k s' \<and>
     c_blk (cview (fs s')) = blk(b := blit (blk b) (i mod BSIZE) (slice bs (unat tot) (unat m))) \<and> platter (fs s') = platter (fs s) \<and>
     set (logged_homes (lg (fs s'))) = insert b (set (logged_homes (lg (fs s)))) \<and> fsother (fs s') = fsother (fs s)"
proof -
  let ?e = "virtio_env (\<lambda>s. Ok (serve s)) p" and ?g = "\<lambda>d. blit d (i mod BSIZE) (slice bs (unat tot) (unat m))"
  note c = chunk_facts [OF ok lt fits m i]
  note fo = file_okD [OF ok c(3), folded b]
  obtain s1 where s1: "bmap ?e ip (off div of_nat BSIZE) s = Ok (file_map blk x (i div BSIZE), s1)" "kept p (Suc k) s s1"
    using bmap_maps [OF txn_io [OF t] x, of ib nb "off div of_nat BSIZE"] ok blk c(1,3) by auto
  note k1 = keptD [OF s1(2)] and t1 = kept_txn [OF t s1(2)]
  have p: "p < NPROC" by (rule io_stateD(4) [OF k1(1)])
  obtain bp s2 where s2: "bread ?e ROOTDEV (file_map blk x (i div BSIZE)) s1 = Ok (bp, s2)" "fetched p s1 s2 bp b" "sys_ok p s2"
    using kept_fetch [OF k1(1) b [symmetric] fo(2)] by metis
  have q2: "quiet p s s2" using s1(2) s2(2) quiet_trans unfolding kept_def fetched_def csteps_def by metis
  then have same: "mem (pm s2) = mem (pm s)" "pagetable (procs s2 ! p) = pagetable (procs s ! p)"
    using quiet_proc(2) [OF q2 p] by (simp_all add: quiet_def)
  have io: "io_in src (unat tot) (unat m) s2 = Ok (0, slice bs (unat tot) (unat m), ktouch s2)"
    using io_in_reads [OF s2(3), of src "unat n" "unat tot" "unat m"] src bs same c(6) by simp
  have f: "fetched p s1 (ktouch s2) bp b" by (rule fetched_touched [OF s2(2) quiet_ktouch [OF s2(3)]]) simp
  obtain s3 s' where s': "log_write bp (set_data bp ?g (ktouch s2)) = Ok s3" "brelse bp s3 = Ok s'" "quiet p s1 s'" "txn_state p k s'"
    "c_blk (cview (fs s')) = blk(b := ?g (blk b))" "platter (fs s') = platter (fs s1)"
    "set (logged_homes (lg (fs s'))) = insert b (set (logged_homes (lg (fs s1))))" "fsother (fs s') = fsother (fs s1)"
    using update_fetched [OF t1 f refl, of ?g] k1(2) blk by auto
  have old: "platter (fs s1) = platter (fs s)" "lg (fs s1) = lg (fs s)" "fsother (fs s1) = fsother (fs s)" "quiet p s s1"
    using s1(2) c_plat_cview [of "fs s"] c_plat_cview [of "fs s1"] by (simp_all add: kept_def)
  have "idev (itable (fs s1) ! ip) = ROOTDEV" using k1(3) x by simp
  then have "writei_loop (Suc fuel) ?e ip src n tot off s = writei_loop fuel ?e ip src n (tot + m) (off + m) s'"
    using lt s1(1) fo(1) s2(1) io s'(1,2) c(2) by (subst writei_loop.simps) (simp add: Let_def m [symmetric])
  then show ?thesis using s'(3-8) old quiet_trans [OF old(4) s'(3)] by (intro exI [of _ s']) simp
qed


text \<open>
  The state inside the loop of \<^verbatim>\<open>writei\<close>: from \<open>s\<close>, the bytes \<open>bs\<close> of the source have been written at \<open>o0\<close>
  into the file \<open>x\<close>, and every block touched is in the log.
\<close>

definition writing :: "nat \<Rightarrow> nat \<Rightarrow> inode \<Rightarrow> nat \<Rightarrow> nat \<Rightarrow> uint8 list \<Rightarrow> 'a fskernel_scheme \<Rightarrow> 'a fskernel_scheme \<Rightarrow> bool" where
  "writing p k x nb o0 bs s s' \<longleftrightarrow> quiet p s s' \<and> txn_state p k s' \<and> platter (fs s') = platter (fs s) \<and> fsother (fs s') = fsother (fs s) \<and>
     file_written (c_blk (cview (fs s))) (c_blk (cview (fs s'))) x nb o0 bs \<and>
     (\<forall>i < length bs. unat (file_map (c_blk (cview (fs s))) x ((o0 + i) div BSIZE)) \<in> set (logged_homes (lg (fs s')))) \<and>
     set (logged_homes (lg (fs s))) \<subseteq> set (logged_homes (lg (fs s')))"

lemma writing_start:
  "txn_state p k s \<Longrightarrow> file_ok (c_blk (cview (fs s))) x ib nb \<Longrightarrow> writing p k x nb o0 [] s s"
  by (simp add: writing_def file_written_none quiet_refl txn_stateD(1))

lemma writing_round:
  assumes x: "x = itable (fs s) ! ip" "idev x = ROOTDEV" and ok: "file_ok (c_blk (cview (fs s))) x ib nb"
    and src: "source_ok (mem (pm s)) (pagetable (procs s ! p)) src (unat n)"
    and bs: "bs = source_bytes (mem (pm s)) (pagetable (procs s ! p)) src (unat n)"
    and w: "writing p (Suc k) x nb o0 (take (unat tot) bs) s s1" and off: "unat off = o0 + unat tot" "o0 + unat n \<le> nb * BSIZE"
    and lt: "tot < n" and m: "m = io_chunk n tot off"
  shows "\<exists>s'. writei_loop (Suc fuel) (virtio_env (\<lambda>s. Ok (serve s)) p) ip src n tot off s1 =
       writei_loop fuel (virtio_env (\<lambda>s. Ok (serve s)) p) ip src n (tot + m) (off + m) s' \<and>
     writing p k x nb o0 (take (unat (tot + m)) bs) s s'"
proof -
  let ?blk = "c_blk (cview (fs s))" and ?blk1 = "c_blk (cview (fs s1))"
  have q: "quiet p s s1" and t: "txn_state p (Suc k) s1" and o: "fsother (fs s1) = fsother (fs s)"
    and fw: "file_written ?blk ?blk1 x nb o0 (take (unat tot) bs)" using w by (simp_all add: writing_def)
  note p = txn_stateD(4) [OF t]
  have x1: "x = itable (fs s1) ! ip" using x(1) o by (simp add: fsother_def)
  have same: "mem (pm s1) = mem (pm s)" "pagetable (procs s1 ! p) = pagetable (procs s ! p)"
    using quiet_proc(2) [OF q p] q by (simp_all add: quiet_def)
  have tn: "unat tot < unat n" using lt by (simp add: word_less_nat_alt)
  note ok1 = file_written_ok [OF ok fw]
  have fits: "unat off + (unat n - unat tot) \<le> nb * BSIZE" using off tn by simp
  define i where "i = unat off"
  note c = chunk_facts [OF ok1 lt fits m i_def]
  define b where "b = unat (file_map ?blk1 x (i div BSIZE))"
  have b': "b = unat (file_map ?blk x (i div BSIZE))" using file_written_map [OF ok fw c(3)] by (simp add: b_def)
  let ?cs = "slice bs (unat tot) (unat m)"
  have lb: "length bs = unat n" using src bs by simp
  then have cs: "length ?cs = unat m" "take (unat (tot + m)) bs = take (unat tot) bs @ ?cs"
    using c(6,7) by (simp_all add: slice_def take_add)
  obtain s' where s': "writei_loop (Suc fuel) (virtio_env (\<lambda>s. Ok (serve s)) p) ip src n tot off s1 =
       writei_loop fuel (virtio_env (\<lambda>s. Ok (serve s)) p) ip src n (tot + m) (off + m) s'" "quiet p s1 s'" "txn_state p k s'"
     "c_blk (cview (fs s')) = ?blk1(b := blit (?blk1 b) (i mod BSIZE) ?cs)" "platter (fs s') = platter (fs s1)"
     "set (logged_homes (lg (fs s'))) = insert b (set (logged_homes (lg (fs s1))))" "fsother (fs s') = fsother (fs s1)"
    using writei_round [OF t x1 x(2) refl ok1 lt fits m i_def b_def, of src bs fuel] src bs same by auto
  have at: "i = o0 + length (take (unat tot) bs)" using off(1) tn lb by (simp add: i_def)
  have "file_written ?blk (c_blk (cview (fs s'))) x nb o0 (take (unat (tot + m)) bs)"
    unfolding cs(2) by (rule file_written_more [OF ok fw at c(3) _ b' s'(4)]) (use cs(1) c(4) in simp)
  moreover have "unat (file_map ?blk x ((o0 + j) div BSIZE)) \<in> set (logged_homes (lg (fs s')))" if "j < unat tot + unat m" for j
  proof (cases "j < unat tot")
    case True
    then show ?thesis using w tn lb s'(6) by (simp add: writing_def)
  next
    case False
    define r where "r = j - unat tot"
    have "o0 + j = i + r" "r < unat m" using False that off(1) by (simp_all add: i_def r_def)
    then show ?thesis using within_block(1) [of i r] c(4) b' s'(6) by simp
  qed
  ultimately have "writing p k x nb o0 (take (unat (tot + m)) bs) s s'"
    using w s'(3,5-7) quiet_trans [OF q s'(2)] c(7) by (auto simp: writing_def)
  then show ?thesis using s'(1) by blast
qed

lemma writei_loop_writes:
  assumes x: "x = itable (fs s) ! ip" "idev x = ROOTDEV" and ok: "file_ok (c_blk (cview (fs s))) x ib nb"
    and src: "source_ok (mem (pm s)) (pagetable (procs s ! p)) src (unat n)"
    and bs: "bs = source_bytes (mem (pm s)) (pagetable (procs s ! p)) src (unat n)" and le: "o0 + unat n \<le> nb * BSIZE"
    and "writing p (blocks_left (unat off) (o0 + unat n) + k) x nb o0 (take (unat tot) bs) s s1"
    and "unat off = o0 + unat tot" and "tot \<le> n" and "unat n - unat tot \<le> fuel"
  shows "\<exists>s'. writei_loop fuel (virtio_env (\<lambda>s. Ok (serve s)) p) ip src n tot off s1 = Ok (n, off + (n - tot), s') \<and>
     writing p k x nb o0 bs s s'"
  using assms(7-)
proof (induction fuel arbitrary: s1 tot off)
  case 0
  then have "tot = n" by (simp add: word_le_nat_alt word_unat_eq_iff)
  then show ?case using 0 src bs by (subst writei_loop.simps) (simp add: blocks_left_def)
next
  case (Suc fuel)
  show ?case
  proof (cases "tot < n")
    case False
    then have "tot = n" using Suc.prems(3) by simp
    then show ?thesis using Suc.prems src bs by (subst writei_loop.simps) (simp add: blocks_left_def)
  next
    case True
    define m where "m = io_chunk n tot off"
    have tn: "unat tot < unat n" using True by (simp add: word_less_nat_alt)
    have fits: "unat off + (unat n - unat tot) \<le> nb * BSIZE" using Suc.prems(2) le tn by simp
    note c = chunk_facts [OF ok True fits m_def refl]
    have "unat m = min (o0 + unat n - unat off) (BSIZE - unat off mod BSIZE)"
      using io_chunk_size [OF True, of off] Suc.prems(2) by (simp add: m_def)
    then have left: "blocks_left (unat off) (o0 + unat n) = Suc (blocks_left (unat (off + m)) (o0 + unat n))"
      using blocks_left_chunk [of "unat off" "o0 + unat n" "unat m"] c(8) Suc.prems(2) tn by simp
    have w1: "writing p (Suc (blocks_left (unat (off + m)) (o0 + unat n) + k)) x nb o0 (take (unat tot) bs) s s1"
      using Suc.prems(1) by (simp add: left)
    obtain s2 where s2: "writei_loop (Suc fuel) (virtio_env (\<lambda>s. Ok (serve s)) p) ip src n tot off s1 =
        writei_loop fuel (virtio_env (\<lambda>s. Ok (serve s)) p) ip src n (tot + m) (off + m) s2"
      "writing p (blocks_left (unat (off + m)) (o0 + unat n) + k) x nb o0 (take (unat (tot + m)) bs) s s2"
      using writing_round [OF x ok src bs w1 Suc.prems(2) le True m_def] by blast
    have "unat n - unat (tot + m) \<le> fuel" using Suc.prems(4) c(5,7) by linarith
    moreover have "unat (off + m) = o0 + unat (tot + m)" "tot + m \<le> n"
      using c(6-8) Suc.prems(2) by (simp_all add: word_le_nat_alt)
    ultimately obtain s' where "writei_loop fuel (virtio_env (\<lambda>s. Ok (serve s)) p) ip src n (tot + m) (off + m) s2 =
        Ok (n, off + m + (n - (tot + m)), s')" "writing p k x nb o0 bs s s'"
      using Suc.IH [OF s2(2)] by blast
    then show ?thesis using s2(1) by simp
  qed
qed


text \<open>A block outside the file, such as that of the inode, does not matter.\<close>

lemma file_other_block:
  assumes ok: "file_ok blk x ib nb" and y: "addrs y = addrs x"
  shows "file_ok (blk(ib := d)) y ib nb" and "i < nb * BSIZE \<Longrightarrow> file_byte (blk(ib := d)) y i = file_byte blk x i"
proof -
  have m: "file_map (blk(ib := d)) y bn = file_map blk x bn" if "bn < nb" for bn
    using ok that y by (auto simp: file_map_def file_ok_def)
  then have "file_map (blk(ib := d)) y ` {..<nb} = file_map blk x ` {..<nb}"
    "inj_on (file_map (blk(ib := d)) y) {..<nb} = inj_on (file_map blk x) {..<nb}"
    by (auto simp: inj_on_def)
  then show "file_ok (blk(ib := d)) y ib nb" using ok m y by (simp add: file_ok_def)
  show "file_byte (blk(ib := d)) y i = file_byte blk x i" if "i < nb * BSIZE"
  proof -
    have "i div BSIZE < nb" using that by (simp add: less_mult_imp_div_less)
    then show ?thesis using m file_okD(3) [OF ok] by (simp add: file_byte_def)
  qed
qed

lemma writei_does:
  assumes t: "txn_state p (blocks_left (unat off) (unat off + unat n) + Suc k) s" and x: "x = itable (fs s) ! ip" "idev x = ROOTDEV"
    "ip < length (itable (fs s))" and ib: "ib = unat (IBLOCK (inum x) (sb (fs s)))" "ib < 2 ^ 31"
    and blk: "blk = c_blk (cview (fs s))" and ok: "file_ok blk x ib nb" and off: "off \<le> isize x" "unat off + unat n \<le> nb * BSIZE"
    and src: "source_ok (mem (pm s)) (pagetable (procs s ! p)) src (unat n)"
    and bs: "bs = source_bytes (mem (pm s)) (pagetable (procs s ! p)) src (unat n)"
    and y: "y = x\<lparr>isize := max (isize x) (off + n)\<rparr>"
  shows "\<exists>s' blk1. writei (virtio_env (\<lambda>s. Ok (serve s)) p) ip src off n s = Ok (n, s') \<and> quiet p s s' \<and> txn_state p k s' \<and>
     platter (fs s') = platter (fs s) \<and> itable (fs s') = (itable (fs s))[ip := y] \<and>
     file_written blk blk1 x nb (unat off) bs \<and> c_blk (cview (fs s')) = blk1(ib := dinode_write y (blk1 ib)) \<and>
     ib \<in> set (logged_homes (lg (fs s')))"
proof -
  let ?e = "virtio_env (\<lambda>s. Ok (serve s)) p"
  have big: "nb * BSIZE \<le> MAXFILE * BSIZE" "MAXFILE * BSIZE < 2 ^ 32"
    using ok by (simp_all add: file_ok_def MAXFILE_def NDIRECT_def NINDIRECT_def BSIZE_def)
  have sum: "unat (off + n) = unat off + unat n" using off(2) big by (intro unat_add_fits) linarith
  have le: "unat off + unat n \<le> MAXFILE * BSIZE" using off(2) big(1) by linarith
  have guards: "\<not> (off > isize x \<or> off + n < off)" "\<not> unat (off + n) > MAXFILE * BSIZE"
    using off(1) le sum by (simp_all add: word_less_nat_alt word_le_nat_alt)
  have "writing p (blocks_left (unat off) (unat off + unat n) + Suc k) x nb (unat off) (take (unat (0 :: uint32)) bs) s s"
    using writing_start [OF t ok [unfolded blk]] by simp
  from writei_loop_writes [OF x(1,2) ok [unfolded blk] src bs off(2) this]
  obtain s1 where s1: "writei_loop (unat n) ?e ip src n 0 off s = Ok (n, off + n, s1)" "writing p (Suc k) x nb (unat off) bs s s1"
    by auto
  have w: "quiet p s s1" "txn_state p (Suc k) s1" "platter (fs s1) = platter (fs s)" "fsother (fs s1) = fsother (fs s)"
    "file_written blk (c_blk (cview (fs s1))) x nb (unat off) bs" using s1(2) blk by (simp_all add: writing_def)
  have o1: "itable (fs s1) = itable (fs s)" "sb (fs s1) = sb (fs s)" using w(4) by (simp_all add: fsother_def)
  define s2 where "s2 = (if off + n > isize (itable (fs s1) ! ip) then set_inode ip (\<lambda>x. x\<lparr>isize := off + n\<rparr>) s1 else s1)"
  have q2: "quiet p s1 s2" unfolding s2_def set_inode_def using quiet_fs_upd quiet_refl txn_stateD(1) [OF w(2)] by auto
  have c2: "same_cache (fs s2) (fs s1)" by (simp add: s2_def set_inode_def same_cache_def)
  have it2: "itable (fs s2) = (itable (fs s))[ip := y]" "sb (fs s2) = sb (fs s)"
    using o1 x(1,3) y by (auto simp: s2_def set_inode_def max_def not_less list_update_same_conv)
  have t2: "txn_state p (Suc k) s2" by (rule txn_same_cache [OF w(2) quiet_ok [OF q2] c2])
  have y2: "y = itable (fs s2) ! ip" "idev y = ROOTDEV" "ib = unat (IBLOCK (inum y) (sb (fs s2)))" using it2 x ib(1) y by simp_all
  obtain s3 where s3: "iupdate ?e ip s2 = Ok s3" "quiet p s2 s3" "txn_state p k s3"
    "c_blk (cview (fs s3)) = (c_blk (cview (fs s2)))(ib := dinode_write y (c_blk (cview (fs s2)) ib))"
    "platter (fs s3) = platter (fs s2)" "ib \<in> set (logged_homes (lg (fs s3)))" "fsother (fs s3) = fsother (fs s2)"
    using iupdate_does [OF t2 y2 ib(2)] by blast
  have "writei ?e ip src off n s = Ok (n, s3)" using guards s1(1) s3(1) x(1) by (simp add: writei_def s2_def [symmetric])
  moreover have "quiet p s s3" by (rule quiet_trans [OF w(1) quiet_trans [OF q2 s3(2)]])
  ultimately show ?thesis using s3(3-7) w(3,5) it2(1) same_cache(2) [OF c2] c2
    by (intro exI [of _ s3] exI [of _ "c_blk (cview (fs s1))"]) (simp add: same_cache_def fsother_def)
qed


section \<open>Properties\<close>

lemma no_wrap: "\<not> off + n < off \<longleftrightarrow> unat (off :: uint32) + unat n < 2 ^ 32"
proof (cases "unat off + unat n < 2 ^ 32")
  case True
  then show ?thesis by (simp add: word_less_nat_alt unat_add_fits)
next
  case False
  have "unat off < 2 ^ 32" "unat n < 2 ^ 32" using unsigned_less [of off, where 'a = nat] unsigned_less [of n, where 'a = nat] by simp_all
  then have "unat (off + n) = unat off + unat n - 2 ^ 32" using False by (simp add: unat_word_ariths mod_if)
  then show ?thesis using False \<open>unat n < 2 ^ 32\<close> by (simp add: word_less_nat_alt)
qed

lemma blit_start: "length bs \<le> length loc \<Longrightarrow> blit loc 0 bs = bs @ drop (length bs) loc"
  by (simp add: blit_def)

text \<open>A file of 1024 zero bytes, with two allocated blocks, 46 and 47, of which it fills the first.\<close>

definition files_demo :: fskernel where
  "files_demo = set_inode 0 (\<lambda>x. x\<lparr>addrs := 46 # 47 # replicate 11 0\<rparr>) inode_demo"

lemma files_demo_facts:
  assumes "x = demo_inode\<lparr>addrs := 46 # 47 # replicate 11 0\<rparr>"
  shows "txn_state 0 (Suc (Suc 3)) files_demo" "c_blk (cview (fs files_demo)) = (\<lambda>_. replicate 1024 0)"
    "x = itable (fs files_demo) ! 0" "0 < length (itable (fs files_demo))" "idev x = ROOTDEV" "isize x = 1024"
    "32 = unat (IBLOCK (inum x) (sb (fs files_demo)))" "file_ok (\<lambda>_. replicate 1024 0) x 32 2"
proof -
  note f = inode_demo_facts
  have c: "same_cache (fs files_demo) (fs inode_demo)" by (simp add: files_demo_def set_inode_def same_cache_def)
  have "sys_ok 0 files_demo" unfolding files_demo_def set_inode_def by (rule quiet_ok [OF quiet_fs_upd [OF txn_stateD(1) [OF f(1)]]])
  from txn_same_cache [OF f(1) this c] show "txn_state 0 (Suc (Suc 3)) files_demo" .
  show "c_blk (cview (fs files_demo)) = (\<lambda>_. replicate 1024 0)" using same_cache(2) [OF c] f(2) by simp
  show "x = itable (fs files_demo) ! 0" "0 < length (itable (fs files_demo))"
    using f(3) assms by (simp_all add: files_demo_def set_inode_def NINODE_def)
  show "idev x = ROOTDEV" "isize x = 1024" "32 = unat (IBLOCK (inum x) (sb (fs files_demo)))"
    using assms f(5) by (simp_all add: demo_inode_def files_demo_def set_inode_def)
  have m: "file_map b x bn = (if bn = 0 then 46 else 47)" if "bn < 2" for b bn
    using that assms by (auto simp: file_map_def NDIRECT_def less_2_cases_iff)
  show "file_ok (\<lambda>_. replicate 1024 0) x 32 2"
    using m by (auto simp: file_ok_def inj_on_def MAXFILE_def NDIRECT_def BSIZE_def)
qed

text \<open>
  C12. \<^verbatim>\<open>readi\<close> returns the contents of the file. For a file whose blocks are allocated, direct or through
  the indirect block, a read into a kernel buffer that starts behind the end of the file or whose range wraps around at 32 bits
  returns 0 and changes nothing; every other read returns, cuts the request at the end of the file, fills
  the start of the buffer with exactly the bytes of the file from \<open>off\<close> on, returns their number, and leaves the
  cache, the log and the inode table as they were.
\<close>

theorem readi_returns_contents:
  assumes t: "io_state p (Suc k) s" and x: "x = itable (fs s) ! ip" "idev x = ROOTDEV" and blk: "blk = c_blk (cview (fs s))"
    and ok: "file_ok blk x ib nb" and sz: "unat (isize x) \<le> nb * BSIZE" and loc: "unat n \<le> length loc"
    and m: "m = min (unat n) (unat (isize x) - unat off)"
  shows "if off > isize x \<or> off + n < off then readi (virtio_env (\<lambda>s. Ok (serve s)) p) ip (AtLocal loc) off n s = Ok (0, AtLocal loc, s)
    else \<exists>s'. readi (virtio_env (\<lambda>s. Ok (serve s)) p) ip (AtLocal loc) off n s =
        Ok (of_nat m, AtLocal (file_bytes blk x (unat off) m @ drop m loc), s') \<and> quiet p s s' \<and>
      cview (fs s') = cview (fs s) \<and> lg (fs s') = lg (fs s) \<and> fsother (fs s') = fsother (fs s)"
proof (cases "off > isize x \<or> off + n < off")
  case True
  then show ?thesis using x(1) by (simp add: readi_def Let_def)
next
  case False
  have len: "length (file_bytes blk x (unat off) m) = m" "m \<le> length loc" using loc m by (simp_all add: file_bytes_def)
  then show ?thesis
    using False readi_does [OF t x blk ok sz loc _ _ m] no_wrap [of off n] blit_start [of "file_bytes blk x (unat off) m" loc]
    by (auto simp: kept_def not_less)
qed

theorem readi_returns_contents_witness:
  "(\<exists>s'. readi (virtio_env (\<lambda>s. Ok (serve s)) 0) 0 (AtLocal [7, 7, 7, 7, 7]) 1021 5 files_demo = Ok (3, AtLocal [0, 0, 0, 7, 7], s')) \<and>
   readi (virtio_env (\<lambda>s. Ok (serve s)) 0) 0 (AtLocal [7]) 1025 1 files_demo = Ok (0, AtLocal [7], files_demo)"
proof -
  define x where "x = demo_inode\<lparr>addrs := 46 # 47 # replicate 11 0\<rparr>"
  note f = files_demo_facts [OF x_def]
  note r = readi_returns_contents [OF txn_io [OF f(1)] f(3,5) f(2) [symmetric] f(8)]
  have sz: "unat (isize x) \<le> 2 * BSIZE" using f(6) by (simp add: BSIZE_def)
  have m: "file_map b x 0 = 46" for b by (simp add: x_def file_map_def NDIRECT_def)
  have "file_bytes (\<lambda>_. replicate 1024 0) x 1021 3 = [0, 0, 0]"
    by (simp add: file_bytes_def file_byte_def BSIZE_def m upt_rec nth_replicate)
  then show ?thesis
    using r [OF sz, of 5 "[7, 7, 7, 7, 7]" _ 1021] r [OF sz, of 1 "[7]" _ 1025] f(6) by auto
qed

text \<open>
  C9. What is written to a file is read back. In a transaction with room for the blocks touched and for the inode,
  a write that starts within the file, into allocated blocks, from user or kernel memory, returns with every byte written. The file then holds the
  bytes of the source at their place and is unchanged everywhere else, its size grows if the write goes
  beyond its end, no block outside the file changes but that of the inode, nothing reaches the disk
  before the commit, and a later \<^verbatim>\<open>readi\<close> of the same range returns exactly the bytes written.
\<close>

theorem writei_then_readi:
  assumes t: "txn_state p (blocks_left (unat off) (unat off + unat n) + Suc (Suc k)) s" and x: "x = itable (fs s) ! ip" "idev x = ROOTDEV"
    "ip < length (itable (fs s))" and ib: "ib = unat (IBLOCK (inum x) (sb (fs s)))" "ib < 2 ^ 31"
    and blk: "blk = c_blk (cview (fs s))" and ok: "file_ok blk x ib nb"
    and off: "off \<le> isize x" "unat off + unat n \<le> nb * BSIZE" and sz: "unat (isize x) \<le> nb * BSIZE"
    and src: "source_ok (mem (pm s)) (pagetable (procs s ! p)) src (unat n)"
    and bs: "bs = source_bytes (mem (pm s)) (pagetable (procs s ! p)) src (unat n)" and loc: "length loc = unat n"
  shows "\<exists>s' s'' y. writei (virtio_env (\<lambda>s. Ok (serve s)) p) ip src off n s = Ok (n, s') \<and> quiet p s s' \<and> txn_state p (Suc k) s' \<and>
     y = x\<lparr>isize := max (isize x) (off + n)\<rparr> \<and> itable (fs s') = (itable (fs s))[ip := y] \<and> platter (fs s') = platter (fs s) \<and>
     (\<forall>m. m \<noteq> ib \<and> m \<notin> (\<lambda>bn. unat (file_map blk x bn)) ` {..<nb} \<longrightarrow> c_blk (cview (fs s')) m = blk m) \<and>
     (\<forall>i < nb * BSIZE. file_byte (c_blk (cview (fs s'))) y i =
        (if unat off \<le> i \<and> i < unat off + unat n then bs ! (i - unat off) else file_byte blk x i)) \<and>
     readi (virtio_env (\<lambda>s. Ok (serve s)) p) ip (AtLocal loc) off n s' = Ok (n, AtLocal bs, s'') \<and> quiet p s' s''"
proof -
  define y where "y = x\<lparr>isize := max (isize x) (off + n)\<rparr>"
  obtain s' blk1 where s': "writei (virtio_env (\<lambda>s. Ok (serve s)) p) ip src off n s = Ok (n, s')" "quiet p s s'" "txn_state p (Suc k) s'"
    "platter (fs s') = platter (fs s)" "itable (fs s') = (itable (fs s))[ip := y]" and w: "file_written blk blk1 x nb (unat off) bs"
    and b': "c_blk (cview (fs s')) = blk1(ib := dinode_write y (blk1 ib))"
    using writei_does [OF t x ib blk ok off src bs y_def] by blast
  note ok1 = file_written_ok [OF ok w]
  note o = file_other_block [OF ok1, of y, folded b']
  have ay: "addrs y = addrs x" by (simp add: y_def)
  have byte: "file_byte (c_blk (cview (fs s'))) y i =
      (if unat off \<le> i \<and> i < unat off + unat n then bs ! (i - unat off) else file_byte blk x i)" if "i < nb * BSIZE" for i
    using o(2) [OF ay that] file_written_byte [OF ok w that] src bs by (simp add: b')
  have nowrap: "unat off + unat n < 2 ^ 32"
    using off(2) ok by (auto simp: file_ok_def MAXFILE_def NDIRECT_def NINDIRECT_def BSIZE_def)
  have size: "off \<le> isize y" "unat (isize y) \<le> nb * BSIZE" "unat n \<le> unat (isize y) - unat off"
    using off sz nowrap by (auto simp: y_def max_def word_le_nat_alt unat_add_fits)
  have y': "y = itable (fs s') ! ip" "idev y = ROOTDEV" using s'(5) x by (simp_all add: y_def)
  have "file_bytes (c_blk (cview (fs s'))) y (unat off) (unat n) = bs"
    using byte off(2) src bs by (intro nth_equalityI) (simp_all add: file_bytes_def)
  then obtain s'' where "readi (virtio_env (\<lambda>s. Ok (serve s)) p) ip (AtLocal loc) off n s' = Ok (n, AtLocal bs, s'')" "quiet p s' s''"
    using readi_does [OF txn_io [OF s'(3)] y' refl _ size(2) _ size(1) nowrap refl, of ib loc] o(1) [OF ay] size(3) loc src bs
      blit_start [of bs loc] by (auto simp: b' kept_def min_absorb1)
  moreover have "c_blk (cview (fs s')) m = blk m" if "m \<noteq> ib" "m \<notin> (\<lambda>bn. unat (file_map blk x bn)) ` {..<nb}" for m
    using that w by (simp add: b' file_written_def)
  ultimately show ?thesis using s' byte y_def by blast
qed

theorem writei_then_readi_witness:
  "\<exists>s' s''. writei (virtio_env (\<lambda>s. Ok (serve s)) 0) 0 (AtLocal [1, 2, 3, 4]) 1022 4 files_demo = Ok (4, s') \<and>
     isize (itable (fs s') ! 0) = 1026 \<and> platter (fs s') = platter (fs files_demo) \<and>
     readi (virtio_env (\<lambda>s. Ok (serve s)) 0) 0 (AtLocal [0, 0, 0, 0]) 1022 4 s' = Ok (4, AtLocal [1, 2, 3, 4], s'')"
proof -
  define x where "x = demo_inode\<lparr>addrs := 46 # 47 # replicate 11 0\<rparr>"
  note f = files_demo_facts [OF x_def]
  have b: "blocks_left (unat (1022 :: uint32)) (unat (1022 :: uint32) + unat (4 :: uint32)) = 2" by (simp add: blocks_left_def BSIZE_def)
  have t: "txn_state 0 (blocks_left (unat (1022 :: uint32)) (unat (1022 :: uint32) + unat (4 :: uint32)) + Suc (Suc 1)) files_demo"
    using f(1) unfolding b by (simp add: eval_nat_numeral)
  have o: "1022 \<le> isize x" "unat (1022 :: uint32) + unat (4 :: uint32) \<le> 2 * BSIZE" "unat (isize x) \<le> 2 * BSIZE"
    using f(6) by (simp_all add: BSIZE_def)
  have src: "source_ok m pt (AtLocal [1, 2, 3, 4]) (unat (4 :: uint32))" "[1, 2, 3, 4] = source_bytes m pt (AtLocal [1, 2, 3, 4]) (unat (4 :: uint32))" for m pt
    by simp_all
  have l: "length [0 :: uint8, 0, 0, 0] = unat (4 :: uint32)" by simp
  have "max (isize x) (1022 + 4) = 1026" using f(6) by simp
  then show ?thesis
    using writei_then_readi [OF t f(3,5,4,7) _ f(2) [symmetric] f(8) o src l] f(4) by auto
qed

end
