(* ===== verification/Splitting.thy ===== *)
theory Splitting
  imports Prelude
begin

text \<open>
  Splitting a list at every occurrence of a separator: the reference for path names (Paths), lines
  (Grep) and the words of a command line (Shell).
\<close>

fun split_on :: "'a \<Rightarrow> 'a list \<Rightarrow> 'a list list" where
  "split_on d [] = [[]]"
| "split_on d (c # cs) =
     (if c = d then [] # split_on d cs
      else case split_on d cs of [] \<Rightarrow> [[c]] | el # els \<Rightarrow> (c # el) # els)"

lemma split_on_span:
  "split_on d s = takeWhile (\<lambda>c. c \<noteq> d) s # (case dropWhile (\<lambda>c. c \<noteq> d) s of [] \<Rightarrow> [] | _ # r \<Rightarrow> split_on d r)"
  by (induction s) auto

lemma split_on_not_Nil [simp]: "split_on d s \<noteq> []"
  by (subst split_on_span) simp

lemma split_on_no_sep: "d \<notin> set s \<Longrightarrow> split_on d s = [s]"
  by (induction s) auto

lemma split_on_cut: "d \<notin> set a \<Longrightarrow> split_on d (a @ d # b) = a # split_on d b"
  by (induction a) auto

lemma split_on_pieces: "el \<in> set (split_on d s) \<Longrightarrow> d \<notin> set el"
  by (induction s arbitrary: el) (auto split: if_splits list.splits)

lemma split_on_subset: "el \<in> set (split_on d s) \<Longrightarrow> set el \<subseteq> set s"
  by (induction s arbitrary: el) (fastforce split: if_splits list.splits)+

lemma split_on_append:
  "split_on d (xs @ ys) = butlast (split_on d xs) @ split_on d (last (split_on d xs) @ ys)"
proof (induction xs)
  case (Cons c cs)
  show ?case
  proof (cases "c = d")
    case False
    obtain el els where cs: "split_on d cs = el # els" using split_on_not_Nil by (metis neq_Nil_conv)
    show ?thesis
    proof (cases "els = []")
      case True
      then show ?thesis using Cons False cs by (auto split: list.splits)
    next
      case els: False
      then show ?thesis using Cons False cs by (simp add: butlast_append)
    qed
  qed (use Cons in simp)
qed simp

lemma hd_split_on: "d \<notin> set a \<Longrightarrow> length a \<le> length (hd (split_on d (a @ b)))"
  by (subst split_on_span) (simp add: takeWhile_append)

end
