(* ===== verification/Paths.thy ===== *)
theory Paths
  imports Fs Codec Splitting
begin

text \<open>
  Path names: the elements that \<^const>\<open>skipelem\<close> hands out one after the other, as
  \<^const>\<open>namex_loop\<close> calls it, against splitting the whole path at its slashes.
\<close>

section \<open>The reference\<close>

definition path_elems :: "uint8 list \<Rightarrow> uint8 list list" where
  "path_elems path = filter (\<lambda>el. el \<noteq> []) (split_on SLASH path)"

lemma path_elems_skip: "path_elems (skip_slashes path) = path_elems path"
  by (induction path) (auto simp: skip_slashes_def path_elems_def)

lemma path_elems_drop:
  "path_elems (dropWhile (\<lambda>c. c \<noteq> SLASH) s) = filter (\<lambda>el. el \<noteq> []) (case dropWhile (\<lambda>c. c \<noteq> SLASH) s of [] \<Rightarrow> [] | _ # r \<Rightarrow> split_on SLASH r)"
proof (cases "dropWhile (\<lambda>c. c \<noteq> SLASH) s")
  case (Cons c r)
  then have "c = SLASH" by (simp add: dropWhile_eq_Cons_conv)
  then show ?thesis using Cons by (simp add: path_elems_def)
next
  case Nil
  show ?thesis unfolding Nil by (simp add: path_elems_def)
qed

lemma path_elems_Cons:
  "s \<noteq> [] \<Longrightarrow> hd s \<noteq> SLASH \<Longrightarrow> path_elems s = takeWhile (\<lambda>c. c \<noteq> SLASH) s # path_elems (dropWhile (\<lambda>c. c \<noteq> SLASH) s)"
  unfolding path_elems_drop by (subst path_elems_def, subst split_on_span) (cases s; simp)

lemma path_elems_Nil: "path_elems path = [] \<longleftrightarrow> skip_slashes path = []"
proof (cases "skip_slashes path")
  case (Cons c cs)
  then have "c \<noteq> SLASH" by (simp add: skip_slashes_def dropWhile_eq_Cons_conv)
  then have "path_elems (c # cs) \<noteq> []" using path_elems_Cons [of "c # cs"] by (metis list.distinct(1) list.sel(1))
  then show ?thesis using path_elems_skip [of path] Cons by simp
next
  case Nil
  then show ?thesis using path_elems_skip [of path] by (simp add: path_elems_def)
qed

section \<open>The elements of a path, one call at a time\<close>

text \<open>The element in the buffer \<^verbatim>\<open>name\<close>: at most \<^const>\<open>DIRSIZ\<close> bytes, ended by a zero byte if shorter.\<close>

definition elem_name :: "uint8 list \<Rightarrow> uint8 list" where
  "elem_name name = takeWhile (\<lambda>c. c \<noteq> 0) (take DIRSIZ name)"

function skipped :: "uint8 list \<Rightarrow> uint8 list \<Rightarrow> uint8 list list" where
  "skipped path name = (case skipelem path name of None \<Rightarrow> [] | Some (path', name') \<Rightarrow> elem_name name' # skipped path' name')"
  by pat_completeness auto
termination
  by (relation "measure (\<lambda>(path, _). length path)") (auto simp: skipelem_shorter)

declare skipped.simps [simp del]

lemma skipelem_None: "skipelem path name = None \<longleftrightarrow> path_elems path = []"
  unfolding path_elems_Nil by (auto simp: skipelem_def Let_def split: list.splits)

lemma skipelem_Some:
  assumes "skipelem path name = Some (path', name')" and "length name = DIRSIZ" and "0 \<notin> set path"
  shows "path_elems path \<noteq> []" "elem_name name' = take DIRSIZ (hd (path_elems path))" "path_elems path' = tl (path_elems path)"
    "length name' = DIRSIZ" "0 \<notin> set path'" "path' = skip_slashes path'"
proof -
  obtain c cs where s: "skip_slashes path = c # cs" using assms(1) by (auto simp: skipelem_def split: list.splits)
  let ?s = "c # cs"
  let ?el = "takeWhile (\<lambda>c. c \<noteq> SLASH) ?s"
  have c: "c \<noteq> SLASH" using s by (simp add: skip_slashes_def dropWhile_eq_Cons_conv)
  have e: "path_elems path = ?el # path_elems (dropWhile (\<lambda>c. c \<noteq> SLASH) ?s)"
    using path_elems_Cons [of ?s] c path_elems_skip [of path] s by simp
  have r: "path' = skip_slashes (dropWhile (\<lambda>c. c \<noteq> SLASH) ?s)"
    and n: "name' = (if length ?el \<ge> DIRSIZ then blit name 0 (take DIRSIZ ?el) else blit name 0 (?el @ [0]))"
    using assms(1) s unfolding skipelem_def Let_def by (simp_all only: list.case option.inject prod.inject)
  have sub: "set ?s \<subseteq> set path" using s set_dropWhileD [of _ "\<lambda>c. c = SLASH" path] unfolding skip_slashes_def by (metis subsetI)
  have nz: "0 \<notin> set ?el" using sub assms(3) by (meson set_takeWhileD subsetD)
  show "path_elems path \<noteq> []" using e by simp
  show "path_elems path' = tl (path_elems path)" using e r path_elems_skip by simp
  show "length name' = DIRSIZ" using n assms(2) by simp
  show "0 \<notin> set path'" using r sub assms(3) unfolding skip_slashes_def by (meson set_dropWhileD subsetD)
  show "path' = skip_slashes path'" using r by (simp add: skip_slashes_def)
  have tw: "takeWhile (\<lambda>c. c \<noteq> 0) xs = xs" if "0 \<notin> set xs" for xs :: "uint8 list" using that by (induction xs) auto
  show "elem_name name' = take DIRSIZ (hd (path_elems path))"
  proof (cases "length ?el \<ge> DIRSIZ")
    case True
    then have "name' = take DIRSIZ ?el" using n assms(2) by (simp add: blit_whole)
    then show ?thesis using e nz tw [of "take DIRSIZ ?el"] by (auto simp: elem_name_def dest: in_set_takeD)
  next
    case False
    then have "take DIRSIZ name' = ?el @ 0 # drop (Suc (length ?el)) name" using n assms(2) by (simp add: blit_def)
    then show ?thesis using e nz False tw [of ?el] by (simp add: elem_name_def takeWhile_append2)
  qed
qed

section \<open>Properties\<close>

text \<open>
  C23. Calling \<^verbatim>\<open>skipelem\<close> until it returns 0 yields exactly the non-empty pieces between the slashes of
  the path, in order, each cut to \<^verbatim>\<open>DIRSIZ\<close> bytes; the calls end; and the path that a call leaves is empty
  exactly when its element was the last one, which is what \<^verbatim>\<open>nameiparent\<close> stops at.
\<close>

theorem skipelem_splits_path:
  assumes "length name = DIRSIZ" and "0 \<notin> set path"
  shows "skipped path name = map (take DIRSIZ) (path_elems path) \<and>
     (skipelem path name = None \<longleftrightarrow> path_elems path = []) \<and>
     (\<forall>path' name'. skipelem path name = Some (path', name') \<longrightarrow>
        skipped path' name' = map (take DIRSIZ) (tl (path_elems path)) \<and> (path' = [] \<longleftrightarrow> length (path_elems path) = 1))"
proof -
  have all: "length name = DIRSIZ \<Longrightarrow> 0 \<notin> set path \<Longrightarrow> skipped path name = map (take DIRSIZ) (path_elems path)" for path name
  proof (induction path name rule: skipped.induct)
    case (1 path name)
    show ?case
    proof (cases "skipelem path name")
      case None
      then show ?thesis using skipelem_None [of path name] by (subst skipped.simps) simp
    next
      case (Some r)
      obtain path' name' where r: "skipelem path name = Some (path', name')" using Some by (cases r) auto
      note k = skipelem_Some [OF r 1(2,3)]
      have "skipped path' name' = map (take DIRSIZ) (path_elems path')" using 1(1) [OF r refl k(4,5)] .
      then show ?thesis using k(1-3) r by (subst skipped.simps) (cases "path_elems path"; simp)
    qed
  qed
  have "skipped path' name' = map (take DIRSIZ) (tl (path_elems path)) \<and> (path' = [] \<longleftrightarrow> length (path_elems path) = 1)"
    if "skipelem path name = Some (path', name')" for path' name'
  proof -
    note k = skipelem_Some [OF that assms]
    have "path' = [] \<longleftrightarrow> path_elems path' = []" using k(6) path_elems_Nil by metis
    also have "\<dots> \<longleftrightarrow> length (path_elems path) = 1" using k(1,3) by (cases "path_elems path") auto
    finally show ?thesis using all [OF k(4,5)] k(3) by simp
  qed
  then show ?thesis using all [OF assms] skipelem_None by blast
qed

theorem skipelem_splits_path_witness:
  "skipped [47, 47, 117, 47, 97, 97, 97, 97, 97, 97, 97, 97, 97, 97, 97, 97, 97, 97, 97, 47] (replicate DIRSIZ 7) =
     [[117], [97, 97, 97, 97, 97, 97, 97, 97, 97, 97, 97, 97, 97, 97]]"
proof -
  let ?p = "[47, 47, 117, 47, 97, 97, 97, 97, 97, 97, 97, 97, 97, 97, 97, 97, 97, 97, 97, 47] :: uint8 list"
  have "path_elems ?p = [[117], [97, 97, 97, 97, 97, 97, 97, 97, 97, 97, 97, 97, 97, 97, 97]]"
    by (simp add: path_elems_def SLASH_def)
  moreover have "length (replicate DIRSIZ 7) = DIRSIZ" "(0 :: uint8) \<notin> set ?p" by simp_all
  ultimately show ?thesis using skipelem_splits_path [of "replicate DIRSIZ 7" ?p] by (simp add: DIRSIZ_def)
qed

end
