(* ===== verification/Params.thy ===== *)
theory Params
  imports Sysproc
begin

text \<open>
  The scheduling parameters user code can set: their ranges as an invariant of the process table, and
  what the three system calls that set them do on every argument.
\<close>

definition params_ok :: "'a kernel_scheme \<Rightarrow> bool" where
  "params_ok s \<longleftrightarrow> 0 \<le> sint (sched_policy s) \<and> sint (sched_policy s) \<le> 2 \<and> length (procs s) = NPROC \<and>
     (\<forall>q \<in> set (procs s). 1 \<le> ps_priority q \<and> ps_priority q \<le> 10 \<and> 0 \<le> sint (cfs_priority q) \<and> sint (cfs_priority q) \<le> 2)"

lemma params_ok_update:
  assumes "params_ok s" and "procs s' = (procs s)[p := q]" and "sched_policy s' = sched_policy s"
    and "1 \<le> ps_priority q" "ps_priority q \<le> 10" "0 \<le> sint (cfs_priority q)" "sint (cfs_priority q) \<le> 2"
  shows "params_ok s'"
  using assms set_update_subset_insert [of "procs s" p q] unfolding params_ok_def by auto

section \<open>The argument and the critical section\<close>

definition arg0 :: "nat \<Rightarrow> 'a kernel_scheme \<Rightarrow> int32" where
  "arg0 p s = ucast (load64 (mem (pm s)) (trapframe (procs s ! p) + TF_a0))"

lemma argint_0: "running p s \<Longrightarrow> argint 0 s = Ok (arg0 p s, ktouch s)"
  by (simp add: running_def kready_def argint_def argraw_def curproc_eq Let_def arg0_def)

lemma own_section:
  assumes "running p s"
  shows "andThen (curproc (ktouch s)) (\<lambda>(p, s2). andThen (kacquire (ProcLock p) s2) (\<lambda>s3.
      andThen (curproc s3) (\<lambda>(p, s4). andThen (curproc (set_proc p f s4)) (\<lambda>(p, s5).
      andThen (krelease (ProcLock p) s5) (\<lambda>s6. Ok (r, s6)))))) = Ok (r, ktouch (set_proc p f s))"
proof -
  have k: "kready s" "p < NPROC" "irq_ok (kmach s)" "cproc (mycpu (kmach s)) = Some p" using assms by (simp_all add: running_def kready_def)
  let ?t = "set_mach (taken (ProcLock p) (kmach (ktouch s))) (ktouch s)"
  have c: "curproc ?t = Ok (p, ?t)" "curproc (set_proc p f ?t) = Ok (p, set_proc p f ?t)"
    using k(3,4) curproc_eq [of ?t p] curproc_eq [of "set_proc p f ?t" p]
    by (simp_all add: mycpu_taken ktouch_def set_proc_set_mach)
  have "curproc (ktouch s) = Ok (p, ktouch s)" using k(3,4) curproc_eq [of "ktouch s" p] by simp
  then show ?thesis using plock_section [of "ktouch s" p] k(1,2) c by (simp add: ktouch_set_proc)
qed

lemma scast_small:
  assumes "1 \<le> sint (v :: int32)" and "sint v \<le> 10"
  shows "1 \<le> (scast v :: uint64)" "(scast v :: uint64) \<le> 10"
proof -
  have "take_bit 64 (sint v) = sint v" using assms by (intro take_bit_int_eq_self) simp_all
  then have "uint (scast v :: uint64) = sint v" unfolding scast_eq uint_word_of_int_eq by simp
  then show "1 \<le> (scast v :: uint64)" "(scast v :: uint64) \<le> 10" using assms by (simp_all add: word_le_def)
qed

lemma own_params:
  assumes "running p s" and "params_ok s"
  shows "1 \<le> ps_priority (procs s ! p)" "ps_priority (procs s ! p) \<le> 10" "0 \<le> sint (cfs_priority (procs s ! p))"
    "sint (cfs_priority (procs s ! p)) \<le> 2"
proof -
  have "procs s ! p \<in> set (procs s)" using assms by (simp add: running_def params_ok_def)
  then show "1 \<le> ps_priority (procs s ! p)" "ps_priority (procs s ! p) \<le> 10" "0 \<le> sint (cfs_priority (procs s ! p))"
    "sint (cfs_priority (procs s ! p)) \<le> 2" using assms(2) by (auto simp: params_ok_def)
qed

lemma set_ps_priority_does:
  assumes run: "running p s" and ok: "params_ok s" and v: "v = arg0 p s"
  shows "\<exists>s'. sys_set_ps_priority s = Ok (if 1 \<le> sint v \<and> sint v \<le> 10 then 0 else -1, s') \<and> params_ok s' \<and>
     sched_policy s' = sched_policy s \<and>
     procs s' = (if 1 \<le> sint v \<and> sint v \<le> 10 then (procs s)[p := (procs s ! p)\<lparr>ps_priority := scast v\<rparr>] else procs s)"
proof (cases "1 \<le> sint v \<and> sint v \<le> 10")
  case True
  let ?s' = "ktouch (set_proc p (\<lambda>q. q\<lparr>ps_priority := scast v\<rparr>) s)"
  have "params_ok ?s'"
    using True own_params [OF run ok] scast_small by (intro params_ok_update [OF ok, of _ p "(procs s ! p)\<lparr>ps_priority := scast v\<rparr>"]) simp_all
  then show ?thesis
    using True argint_0 [OF run] v own_section [OF run, where f = "\<lambda>q. q\<lparr>ps_priority := scast v\<rparr>" and r = "0 :: uint64"]
    by (simp add: sys_set_ps_priority_def)
next
  case False
  then show ?thesis using argint_0 [OF run] v ok by (auto simp: sys_set_ps_priority_def params_ok_def)
qed

lemma set_cfs_priority_does:
  assumes run: "running p s" and ok: "params_ok s" and v: "v = arg0 p s"
  shows "\<exists>s'. sys_set_cfs_priority s = Ok (if 0 \<le> sint v \<and> sint v \<le> 2 then 0 else -1, s') \<and> params_ok s' \<and>
     sched_policy s' = sched_policy s \<and>
     procs s' = (if 0 \<le> sint v \<and> sint v \<le> 2 then (procs s)[p := (procs s ! p)\<lparr>cfs_priority := v\<rparr>] else procs s)"
proof (cases "0 \<le> sint v \<and> sint v \<le> 2")
  case True
  let ?s' = "ktouch (set_proc p (\<lambda>q. q\<lparr>cfs_priority := v\<rparr>) s)"
  have "params_ok ?s'"
    using True own_params [OF run ok] scast_small by (intro params_ok_update [OF ok, of _ p "(procs s ! p)\<lparr>cfs_priority := v\<rparr>"]) simp_all
  then show ?thesis
    using True argint_0 [OF run] v own_section [OF run, where f = "\<lambda>q. q\<lparr>cfs_priority := v\<rparr>" and r = "0 :: uint64"]
    by (simp add: sys_set_cfs_priority_def)
next
  case False
  then show ?thesis using argint_0 [OF run] v ok by (auto simp: sys_set_cfs_priority_def params_ok_def)
qed

lemma set_policy_does:
  assumes run: "running p s" and ok: "params_ok s" and v: "v = arg0 p s"
  shows "\<exists>s'. sys_set_policy s = Ok (if 0 \<le> sint v \<and> sint v \<le> 2 then 0 else -1, s') \<and> params_ok s' \<and>
     procs s' = procs s \<and> sched_policy s' = (if 0 \<le> sint v \<and> sint v \<le> 2 then v else sched_policy s)"
  using argint_0 [OF run] v ok by (auto simp: sys_set_policy_def set_policy_def params_ok_def)

section \<open>Properties\<close>

text \<open>
  C28. The scheduling parameters stay in their ranges (policy 0 to 2, priority 1 to 10, CFS priority 0
  to 2). Each of the three system calls returns; it returns 0 and stores the argument when the
  argument is in range, in the slot of the caller only, and otherwise returns -1 and stores nothing.
\<close>

theorem scheduler_parameters_in_range:
  assumes "running p s" and "params_ok s" and "v = arg0 p s"
  shows "(\<exists>s'. sys_set_ps_priority s = Ok (if 1 \<le> sint v \<and> sint v \<le> 10 then 0 else -1, s') \<and> params_ok s' \<and>
       sched_policy s' = sched_policy s \<and> procs s' = (if 1 \<le> sint v \<and> sint v \<le> 10
         then (procs s)[p := (procs s ! p)\<lparr>ps_priority := scast v\<rparr>] else procs s)) \<and>
     (\<exists>s'. sys_set_cfs_priority s = Ok (if 0 \<le> sint v \<and> sint v \<le> 2 then 0 else -1, s') \<and> params_ok s' \<and>
       sched_policy s' = sched_policy s \<and> procs s' = (if 0 \<le> sint v \<and> sint v \<le> 2
         then (procs s)[p := (procs s ! p)\<lparr>cfs_priority := v\<rparr>] else procs s)) \<and>
     (\<exists>s'. sys_set_policy s = Ok (if 0 \<le> sint v \<and> sint v \<le> 2 then 0 else -1, s') \<and> params_ok s' \<and>
       procs s' = procs s \<and> sched_policy s' = (if 0 \<le> sint v \<and> sint v \<le> 2 then v else sched_policy s))"
  by (intro conjI set_ps_priority_does [OF assms] set_cfs_priority_does [OF assms] set_policy_does [OF assms])

definition params_demo :: kernel where
  "params_demo = kmem_upd (\<lambda>m. store64 m TF_a0 2) (one_running\<lparr>procs := replicate NPROC blank_proc\<rparr>)"

lemma params_demo: "running 0 params_demo" "params_ok params_demo" "arg0 0 params_demo = 2"
proof -
  show "running 0 params_demo" using one_running_running by (simp add: running_def kready_def params_demo_def kmem_upd_def)
  show "params_ok params_demo"
    by (simp add: params_ok_def params_demo_def kmem_upd_def one_running_def set_cproc_def set_mach_def boot_kernel_def blank_proc_def)
  show "arg0 0 params_demo = 2" by (simp add: arg0_def params_demo_def kmem_upd_def blank_proc_def NPROC_def)
qed

theorem scheduler_parameters_in_range_witness:
  "\<exists>s' s''. sys_set_ps_priority params_demo = Ok (0, s') \<and> ps_priority (procs s' ! 0) = 2 \<and>
     sys_set_policy params_demo = Ok (0, s'') \<and> sched_policy s'' = 2"
  using scheduler_parameters_in_range [OF params_demo(1,2) params_demo(3) [symmetric]] params_demo(2)
  by (auto simp: params_ok_def NPROC_def)

end
