(* ===== verification/Umalloc.thy ===== *)
theory Umalloc
  imports Prelude
begin

text \<open>
  user/umalloc.c: the storage allocator of user programs. A header is found at a byte address; \<open>hptr\<close>
  and \<open>hsize\<close> are its two fields, the size in units of the 16 bytes of a header. User addresses are
  far below \<open>2 ^ 64\<close>, so address arithmetic is on natural numbers; the arguments of \<^verbatim>\<open>malloc\<close> and
  \<^verbatim>\<open>sbrk\<close> keep their widths. The lemmas show that the free list stays a circular list in
  address order, and that live blocks never overlap.
\<close>

section \<open>State\<close>

text \<open>
  \<open>freep\<close> is 0 before the first call. \<open>brk\<close> is the end of the process, and \<open>brk_max\<close> is how far the
  kernel lets it grow.
\<close>

record umem =
  hptr :: "nat \<Rightarrow> nat"
  hsize :: "nat \<Rightarrow> nat"
  freep :: nat
  base_at :: nat
  brk :: nat
  brk_max :: nat

definition HDR :: nat where "HDR = 16"

definition set_ptr :: "nat \<Rightarrow> nat \<Rightarrow> umem \<Rightarrow> umem" where
  "set_ptr a x s = s\<lparr>hptr := (hptr s)(a := x)\<rparr>"

definition set_size :: "nat \<Rightarrow> nat \<Rightarrow> umem \<Rightarrow> umem" where
  "set_size a x s = s\<lparr>hsize := (hsize s)(a := x)\<rparr>"

text \<open>\<^verbatim>\<open>p + p->s.size\<close>: the end of a block.\<close>

definition blk_end :: "umem \<Rightarrow> nat \<Rightarrow> nat" where
  "blk_end s a = a + HDR * hsize s a"

text \<open>The system call \<^verbatim>\<open>sbrk(n)\<close>: the old end of the process, or \<^verbatim>\<open>(char*)-1\<close>, here None.\<close>

definition sbrk :: "int32 \<Rightarrow> umem \<Rightarrow> nat option \<times> umem" where
  "sbrk n s =
     (if sint n > 0 \<and> brk s + nat (sint n) > brk_max s then (None, s)
      else if int (brk s) + sint n < 0 then (Some (brk s), s)
      else (Some (brk s), s\<lparr>brk := nat (int (brk s) + sint n)\<rparr>))"

section \<open>Operations\<close>

text \<open>The loop of \<^verbatim>\<open>free\<close> that finds the place of \<^verbatim>\<open>bp\<close> in the list.\<close>

fun free_find :: "nat \<Rightarrow> nat \<Rightarrow> nat \<Rightarrow> umem \<Rightarrow> nat outcome" where
  "free_find fuel bp p s =
     (if bp > p \<and> bp < hptr s p then Ok p
      else if p \<ge> hptr s p \<and> (bp > p \<or> bp < hptr s p) then Ok p
      else case fuel of 0 \<Rightarrow> Spin | Suc k \<Rightarrow> free_find k bp (hptr s p) s)"

declare free_find.simps [simp del]

definition free_mem :: "nat \<Rightarrow> nat \<Rightarrow> umem \<Rightarrow> umem outcome" where
  "free_mem fuel ap s =
     (let bp = ap - HDR in
      andThen (free_find fuel bp (freep s) s) (\<lambda>p.
      let s1 = (if blk_end s bp = hptr s p
                then set_ptr bp (hptr s (hptr s p)) (set_size bp (hsize s bp + hsize s (hptr s p)) s)
                else set_ptr bp (hptr s p) s);
          s2 = (if blk_end s1 p = bp
                then set_ptr p (hptr s1 bp) (set_size p (hsize s1 p + hsize s1 bp) s1)
                else set_ptr p bp s1)
      in Ok (s2\<lparr>freep := p\<rparr>)))"

definition morecore :: "nat \<Rightarrow> nat \<Rightarrow> umem \<Rightarrow> (nat \<times> umem) outcome" where
  "morecore fuel nu s =
     (let nu = (if nu < 4096 then 4096 else nu) in
      case sbrk (of_nat (nu * HDR)) s of
        (None, s1) \<Rightarrow> Ok (0, s1)
      | (Some hp, s1) \<Rightarrow> andThen (free_mem fuel (hp + HDR) (set_size hp nu s1)) (\<lambda>s2. Ok (freep s2, s2)))"

text \<open>\<open>take_block nunits prevp p\<close>: the inner branch of \<^verbatim>\<open>malloc\<close>, on a block that is big enough.\<close>

definition take_block :: "nat \<Rightarrow> nat \<Rightarrow> nat \<Rightarrow> umem \<Rightarrow> nat \<times> umem" where
  "take_block nunits prevp p s =
     (if hsize s p = nunits then (p + HDR, (set_ptr prevp (hptr s p) s)\<lparr>freep := prevp\<rparr>)
      else
        let s1 = set_size p (hsize s p - nunits) s; q = blk_end s1 p
        in (q + HDR, (set_size q nunits s1)\<lparr>freep := prevp\<rparr>))"

fun malloc_loop :: "nat \<Rightarrow> nat \<Rightarrow> nat \<Rightarrow> nat \<Rightarrow> umem \<Rightarrow> (nat \<times> umem) outcome" where
  "malloc_loop fuel nunits prevp p s =
     (if hsize s p \<ge> nunits then Ok (take_block nunits prevp p s)
      else if p = freep s then
        andThen (morecore fuel nunits s) (\<lambda>(p1, s1).
        if p1 = 0 then Ok (0, s1)
        else case fuel of 0 \<Rightarrow> Spin | Suc k \<Rightarrow> malloc_loop k nunits p1 (hptr s1 p1) s1)
      else case fuel of 0 \<Rightarrow> Spin | Suc k \<Rightarrow> malloc_loop k nunits p (hptr s p) s)"

declare malloc_loop.simps [simp del]

definition malloc_init :: "umem \<Rightarrow> umem" where
  "malloc_init s =
     (if freep s = 0 then set_size (base_at s) 0 ((set_ptr (base_at s) (base_at s) s)\<lparr>freep := base_at s\<rparr>) else s)"

definition malloc :: "nat \<Rightarrow> uint32 \<Rightarrow> umem \<Rightarrow> (nat \<times> umem) outcome" where
  "malloc fuel nbytes s =
     (let nunits = (unat nbytes + HDR - 1) div HDR + 1; s1 = malloc_init s
      in malloc_loop fuel nunits (freep s1) (hptr s1 (freep s1)) s1)"

section \<open>The invariant\<close>

text \<open>A path of pointers, and the circular free list from the base header on.\<close>

primrec path_to :: "(nat \<Rightarrow> nat) \<Rightarrow> nat \<Rightarrow> nat list \<Rightarrow> nat \<Rightarrow> bool" where
  "path_to f x [] y = (x = y)"
| "path_to f x (a # as) y = (a = x \<and> path_to f (f x) as y)"

definition heap_list :: "umem \<Rightarrow> nat list \<Rightarrow> bool" where
  "heap_list s as \<longleftrightarrow> path_to (hptr s) (base_at s) (base_at s # as) (base_at s) \<and> sorted_wrt (<) (base_at s # as) \<and>
     hsize s (base_at s) = 0 \<and> 0 < base_at s \<and> freep s \<in> set (base_at s # as)"

text \<open>Blocks are not empty, lie above the base header and below the end of the process, and do not overlap.\<close>

definition blocks_ok :: "umem \<Rightarrow> nat set \<Rightarrow> bool" where
  "blocks_ok s S \<longleftrightarrow> (\<forall>a \<in> S. 0 < hsize s a \<and> base_at s < a \<and> blk_end s a \<le> brk s) \<and>
     (\<forall>a \<in> S. \<forall>b \<in> S. a < b \<longrightarrow> blk_end s a \<le> b)"

definition heap_inv :: "umem \<Rightarrow> nat list \<Rightarrow> nat set \<Rightarrow> bool" where
  "heap_inv s as live \<longleftrightarrow> heap_list s as \<and> finite live \<and> live \<inter> set as = {} \<and> blocks_ok s (set as \<union> live) \<and> base_at s < brk s"

lemma path_to_append: "path_to f x (as @ bs) y \<longleftrightarrow> (\<exists>z. path_to f x as z \<and> path_to f z bs y)"
  by (induction as arbitrary: x) auto

lemma path_to_upd [simp]: "a \<notin> set as \<Longrightarrow> path_to (f(a := v)) x as y = path_to f x as y"
  by (induction as arbitrary: x) auto

text \<open>The free list cut at one of its elements.\<close>

lemma heap_list_cut:
  assumes "heap_list s as" and "base_at s # as = us @ p # vs"
  shows "path_to (hptr s) (base_at s) us p" "path_to (hptr s) (hptr s p) vs (base_at s)"
    "\<forall>a \<in> set us. a < p" "\<forall>a \<in> set vs. p < a" "p \<notin> set us" "p \<notin> set vs" "set us \<inter> set vs = {}" "sorted_wrt (<) us" "sorted_wrt (<) vs"
proof -
  have srt: "sorted_wrt (<) (us @ p # vs)" and pt: "path_to (hptr s) (base_at s) (us @ p # vs) (base_at s)"
    using assms unfolding heap_list_def by simp_all
  show "path_to (hptr s) (base_at s) us p" "path_to (hptr s) (hptr s p) vs (base_at s)" using pt by (auto simp: path_to_append)
  show lt: "\<forall>a \<in> set us. a < p" "\<forall>a \<in> set vs. p < a" "sorted_wrt (<) us" "sorted_wrt (<) vs" using srt by (auto simp: sorted_wrt_append)
  then show "p \<notin> set us" "p \<notin> set vs" by blast+
  show "set us \<inter> set vs = {}" using lt(1,2) by (meson disjoint_iff order_less_asym)
qed

lemma path_to_nth:
  assumes "path_to f x as y" and "i < length as"
  shows "f (as ! i) = (if Suc i < length as then as ! Suc i else y)"
  using assms
proof (induction as arbitrary: x i)
  case (Cons a as)
  show ?case
  proof (cases i)
    case 0
    then show ?thesis using Cons.prems by (cases as) auto
  next
    case (Suc j)
    then show ?thesis using Cons.IH [of "f x" j] Cons.prems by auto
  qed
qed simp

section \<open>Finding the place of a block\<close>

text \<open>The successor of position \<open>i\<close> in the circular list \<open>xs\<close>; \<open>t\<close> is the last position below \<open>bp\<close>.\<close>

definition place :: "umem \<Rightarrow> nat list \<Rightarrow> nat \<Rightarrow> nat \<Rightarrow> bool" where
  "place s as bp t \<longleftrightarrow> heap_list s as \<and> t < length (base_at s # as) \<and> (base_at s # as) ! t < bp \<and>
     (\<forall>i. t < i \<and> i < length (base_at s # as) \<longrightarrow> bp < (base_at s # as) ! i)"

lemma place_step:
  assumes "place s as bp t" and "i < length (base_at s # as)" and "xs = base_at s # as" and "p = xs ! i"
  shows "free_find fuel bp p s = (if i = t then Ok p else case fuel of 0 \<Rightarrow> Spin
     | Suc k \<Rightarrow> free_find k bp (xs ! (if Suc i < length xs then Suc i else 0)) s)"
proof -
  have h: "hptr s p = (if Suc i < length xs then xs ! Suc i else xs ! 0)"
    using path_to_nth [of "hptr s" "base_at s" xs "base_at s" i] assms by (simp add: place_def heap_list_def)
  have srt: "sorted_wrt (<) xs" using assms by (simp add: place_def heap_list_def)
  have mono: "a < b \<Longrightarrow> b < length xs \<Longrightarrow> xs ! a < xs ! b" for a b using sorted_wrt_nth_less [OF srt] by blast
  have t: "t < length xs" "xs ! t < bp" "\<And>k. t < k \<Longrightarrow> k < length xs \<Longrightarrow> bp < xs ! k" and i: "i < length xs" using assms by (auto simp: place_def)
  have lo: "xs ! 0 < bp" using mono [of 0 t] t(1,2) by (cases "t = 0") auto
  consider (here) "i = t" | (below) "i < t" | (above) "t < i" by linarith
  then show ?thesis
  proof cases
    case here
    then show ?thesis using h t assms(4) mono [of 0 i] i by (subst free_find.simps) (cases "i = 0"; auto)
  next
    case below
    then have "xs ! Suc i < bp" using mono [of "Suc i" t] t(1,2) by (cases "Suc i = t") auto
    then show ?thesis using below h t(1) assms(4) mono [of i "Suc i"] by (subst free_find.simps) (auto split: nat.splits)
  next
    case above
    then show ?thesis using h t(3) [OF above i] lo assms(4) mono [of i "Suc i"] by (subst free_find.simps) (auto split: nat.splits)
  qed
qed

lemma free_find_below:
  assumes "place s as bp t" and "i \<le> t" and "t - i \<le> fuel"
  shows "free_find fuel bp ((base_at s # as) ! i) s = Ok ((base_at s # as) ! t)"
  using assms
proof (induction fuel arbitrary: i)
  case 0
  then show ?case using place_step [OF 0(1), of i] by (simp add: place_def)
next
  case (Suc k)
  then show ?case using place_step [OF Suc(2) _ refl refl, of i] Suc(1) [of "Suc i"] by (auto simp: place_def)
qed

lemma free_find_above:
  assumes "place s as bp t" and "t < i" and "i < length (base_at s # as)" and "length (base_at s # as) - i + t \<le> fuel"
  shows "free_find fuel bp ((base_at s # as) ! i) s = Ok ((base_at s # as) ! t)"
  using assms
proof (induction fuel arbitrary: i)
  case 0
  then show ?case by simp
next
  case (Suc k)
  note st = place_step [OF Suc(2) Suc(4) refl refl, of "Suc k"]
  show ?case
  proof (cases "Suc i < length (base_at s # as)")
    case True
    then show ?thesis using st Suc.IH [of "Suc i"] Suc.prems by simp
  next
    case False
    then show ?thesis using st free_find_below [OF Suc(2), of 0 k] Suc.prems by simp
  qed
qed

text \<open>The loop ends within one round of the list, at the last element below \<open>bp\<close>.\<close>

lemma free_find_does:
  assumes "heap_list s as" and bp: "base_at s < bp" "bp \<notin> set as" and p: "p \<in> set (base_at s # as)" and "length as < fuel"
  shows "\<exists>us q vs. base_at s # as = us @ q # vs \<and> free_find fuel bp p s = Ok q \<and> q < bp \<and> (\<forall>a \<in> set vs. bp < a)"
proof -
  let ?xs = "base_at s # as"
  have srt: "sorted_wrt (<) ?xs" using assms(1) by (simp add: heap_list_def)
  define T where "T = {i. i < length ?xs \<and> ?xs ! i < bp}"
  define t where "t = Max T"
  have fin: "finite T" and "0 \<in> T" using bp(1) by (simp_all add: T_def)
  then have "t \<in> T" unfolding t_def by (intro Max_in) auto
  then have t: "t < length ?xs" "?xs ! t < bp" unfolding T_def by simp_all
  have hi: "bp < ?xs ! i" if "t < i" "i < length ?xs" for i
  proof -
    have "i \<notin> T" using Max_ge [OF fin, of i] that(1) unfolding t_def by (meson leD)
    then have "\<not> ?xs ! i < bp" using that(2) unfolding T_def by blast
    moreover have "?xs ! i \<noteq> bp" using bp nth_mem [OF that(2)] by auto
    ultimately show ?thesis by simp
  qed
  have pl: "place s as bp t" using assms(1) t hi by (simp add: place_def)
  obtain i where i: "i < length ?xs" "p = ?xs ! i" using p by (metis in_set_conv_nth)
  have "free_find fuel bp p s = Ok (?xs ! t)"
    using free_find_below [OF pl, of i fuel] free_find_above [OF pl _ i(1), of fuel] i t(1) assms(5) by (cases "i \<le> t") simp_all
  moreover define us vs where "us = take t ?xs" and "vs = drop (Suc t) ?xs"
  moreover have "?xs = us @ ?xs ! t # vs" unfolding us_def vs_def by (rule id_take_nth_drop [OF t(1)])
  moreover have "\<forall>a \<in> set vs. bp < a"
  proof
    fix a assume "a \<in> set vs"
    then obtain k where "k < length vs" "a = vs ! k" by (metis in_set_conv_nth)
    then show "bp < a" using hi [of "Suc t + k"] t(1) by (simp add: vs_def)
  qed
  ultimately show ?thesis using t(2) by blast
qed

section \<open>Merging and splitting blocks\<close>

definition span :: "umem \<Rightarrow> nat set \<Rightarrow> nat set" where
  "span s A = (\<Union>a \<in> A. {a..<blk_end s a})"

lemma blk_end_less: "blocks_ok s S \<Longrightarrow> a \<in> S \<Longrightarrow> a < blk_end s a"
  by (simp add: blocks_ok_def blk_end_def HDR_def)

lemma blk_end_cong: "hsize s' a = hsize s a \<Longrightarrow> blk_end s' a = blk_end s a"
  by (simp add: blk_end_def)

text \<open>The predicates depend on the sizes and the limits only.\<close>

lemma blocks_ok_cong:
  assumes "\<And>a. a \<in> S \<Longrightarrow> hsize s' a = hsize s a" and "base_at s' = base_at s" and "brk s \<le> brk s'" and "blocks_ok s S"
  shows "blocks_ok s' S"
proof -
  have e: "\<And>a. a \<in> S \<Longrightarrow> blk_end s' a = blk_end s a" using assms(1) by (simp add: blk_end_def)
  have "blk_end s a \<le> brk s'" if "a \<in> S" for a using assms(3,4) that by (meson blocks_ok_def order_trans)
  then show ?thesis using assms(4) by (simp add: blocks_ok_def e assms(1,2))
qed

lemma span_cong: "(\<And>a. a \<in> A \<Longrightarrow> hsize s' a = hsize s a) \<Longrightarrow> span s' A = span s A"
  by (simp add: span_def blk_end_def)

lemma blocks_merge:
  assumes ok: "blocks_ok s S" and ab: "a \<in> S" "b \<in> S" "blk_end s a = b"
    and s': "hsize s' = (hsize s)(a := hsize s a + hsize s b)" "base_at s' = base_at s" "brk s' = brk s"
  shows "blocks_ok s' (S - {b})" "blk_end s' a = blk_end s b"
    and "a \<in> A \<Longrightarrow> b \<in> A \<Longrightarrow> span s' (A - {b}) = span s A"
proof -
  have lt: "a < b" "b < blk_end s b" using blk_end_less [OF ok] ab by auto
  show e: "blk_end s' a = blk_end s b" using ab(3) by (auto simp: blk_end_def s'(1) HDR_def)
  have o: "blk_end s' c = blk_end s c" if "c \<noteq> a" for c using that by (simp add: blk_end_def s'(1))
  have "blk_end s' c \<le> d" if cd: "c \<in> S" "d \<in> S" "d \<noteq> b" "c < d" for c d
  proof (cases "c = a")
    case True
    have "blk_end s a \<le> d" using ok cd ab True unfolding blocks_ok_def by blast
    then have "b < d" using ab(3) cd(3) by simp
    then have "blk_end s b \<le> d" using ok cd ab unfolding blocks_ok_def by blast
    then show ?thesis using e True by simp
  next
    case False
    then show ?thesis using o ok cd unfolding blocks_ok_def by simp
  qed
  moreover have "blk_end s' c \<le> brk s" if "c \<in> S" for c
    using that ok ab e o by (cases "c = a") (auto simp: blocks_ok_def)
  ultimately show "blocks_ok s' (S - {b})" using ok ab s' unfolding blocks_ok_def by auto
  assume A: "a \<in> A" "b \<in> A"
  have "{a..<blk_end s' a} = {a..<blk_end s a} \<union> {b..<blk_end s b}" using e ab(3) lt by auto
  moreover have "A - {b} = insert a (A - {a, b})" "A = insert a (insert b (A - {a, b}))" using A lt by auto
  moreover have "span s' (A - {a, b}) = span s (A - {a, b})" by (rule span_cong) (simp add: s'(1))
  ultimately show "span s' (A - {b}) = span s A" unfolding span_def by (metis (no_types, lifting) UN_insert Un_assoc)
qed

lemma blocks_split:
  assumes ok: "blocks_ok s S" and p: "p \<in> S" "p < q" "q < blk_end s p"
    and e: "blk_end s' p = q" "blk_end s' q = blk_end s p" "\<And>a. a \<noteq> p \<Longrightarrow> a \<noteq> q \<Longrightarrow> blk_end s' a = blk_end s a"
    and sz: "\<And>a. a \<in> insert q S \<Longrightarrow> 0 < hsize s' a" and f: "base_at s' = base_at s" "brk s' = brk s"
  shows "blocks_ok s' (insert q S)"
proof -
  have gap: "a < b \<Longrightarrow> a \<in> S \<Longrightarrow> b \<in> S \<Longrightarrow> blk_end s a \<le> b" and top: "a \<in> S \<Longrightarrow> base_at s < a \<and> blk_end s a \<le> brk s" for a b
    using ok by (simp_all add: blocks_ok_def)
  have nin: "q \<notin> S" using gap [OF p(2,1)] p(3) by (meson leD)
  have "blk_end s' a \<le> b" if ab: "a \<in> insert q S" "b \<in> insert q S" "a < b" for a b
  proof -
    consider (b) "b = q" "a \<in> S" | (a) "a = q" "b \<in> S" | (p) "a = p" "b \<in> S" | (o) "a \<noteq> p" "a \<noteq> q" "a \<in> S" "b \<in> S" using ab by auto
    then show ?thesis
    proof cases
      case b
      then show ?thesis using gap [of a p] gap [of p a] ab(3) p e nin by (cases a p rule: linorder_cases) auto
    next
      case a
      then show ?thesis using gap [of p b] ab(3) p e by auto
    next
      case p
      then show ?thesis using gap [of p b] ab(3) assms(2-4) e by auto
    next
      case o
      then show ?thesis using gap ab(3) e by simp
    qed
  qed
  moreover have "base_at s < a \<and> blk_end s' a \<le> brk s" if "a \<in> insert q S" for a
    using that top [of a] top [OF p(1)] p e by (cases "a = q"; cases "a = p") auto
  ultimately show ?thesis using sz f unfolding blocks_ok_def by auto
qed

section \<open>Freeing a block\<close>

lemma heap_list_cut_sets:
  assumes "heap_list s as" and cut: "base_at s # as = us @ p # vs"
  shows "base_at s \<le> p" "base_at s \<notin> set vs" "base_at s \<notin> set as" "set as = (set (us @ [p]) - {base_at s}) \<union> set vs"
proof -
  note c = heap_list_cut [OF assms]
  show base: "base_at s \<le> p" "base_at s \<notin> set vs" "base_at s \<notin> set as"
    using cut c(3,4) assms(1) by (cases us; auto simp: heap_list_def)+
  have "insert (base_at s) (set as) = set (us @ p # vs)" using cut by (metis list.simps(15))
  then have "set as = set (us @ p # vs) - {base_at s}" using base(3) by (metis Diff_insert_absorb)
  then show "set as = (set (us @ [p]) - {base_at s}) \<union> set vs" using base(2) by auto
qed

text \<open>The list without its base header, when it is cut behind \<open>p\<close> and goes on with \<open>ws\<close>.\<close>

lemma tl_cut:
  assumes "heap_list s as" and cut: "base_at s # as = us @ p # vs"
  shows "set (tl (us @ p # ws)) = (set (us @ [p]) - {base_at s}) \<union> set ws"
proof (cases us)
  case Nil
  then show ?thesis using cut by simp
next
  case (Cons u us')
  then have "u = base_at s" "base_at s \<notin> set us'" "base_at s \<noteq> p" using cut heap_list_cut(3,8) [OF assms] by auto
  then show ?thesis using Cons by auto
qed

text \<open>
  The state after the first half of \<^verbatim>\<open>free\<close>: \<open>bp\<close> points to the rest \<open>vs\<close> of the list, not yet linked in
  behind \<open>p\<close>. \<open>U\<close> are the free blocks up to \<open>p\<close>.
\<close>

definition half_linked :: "umem \<Rightarrow> umem \<Rightarrow> nat list \<Rightarrow> nat \<Rightarrow> nat \<Rightarrow> nat list \<Rightarrow> nat set \<Rightarrow> bool" where
  "half_linked s s1 us p bp vs live \<longleftrightarrow>
     (\<exists>n. hptr s1 = (hptr s)(bp := n) \<and> path_to (hptr s) n vs (base_at s)) \<and> sorted_wrt (<) vs \<and> (\<forall>a \<in> set vs. bp < a) \<and>
     (\<forall>a. a \<noteq> bp \<longrightarrow> hsize s1 a = hsize s a) \<and> hsize s bp \<le> hsize s1 bp \<and>
     base_at s1 = base_at s \<and> brk s1 = brk s \<and> brk_max s1 = brk_max s \<and>
     blocks_ok s1 (insert bp (set (us @ [p]) - {base_at s}) \<union> set vs \<union> (live - {bp}))"

lemma free_next:
  assumes inv: "heap_inv s as live" and bp: "bp \<in> live" and cut: "base_at s # as = us @ p # vs" and lt: "p < bp" "\<forall>a \<in> set vs. bp < a"
    and s1: "s1 = (if blk_end s bp = hptr s p
       then set_ptr bp (hptr s (hptr s p)) (set_size bp (hsize s bp + hsize s (hptr s p)) s) else set_ptr bp (hptr s p) s)"
  shows "\<exists>vs'. half_linked s s1 us p bp vs' live \<and> set vs' \<subseteq> set vs \<and> length vs' \<le> length vs \<and>
     span s1 (insert bp (set (us @ [p]) - {base_at s}) \<union> set vs') = span s (insert bp (set as))"
proof -
  have hl: "heap_list s as" and bo: "blocks_ok s (set as \<union> live)" and dj: "live \<inter> set as = {}" using inv by (simp_all add: heap_inv_def)
  note c = heap_list_cut [OF hl cut]
  let ?U = "set (us @ [p]) - {base_at s}"
  note b = heap_list_cut_sets [OF hl cut]
  note base = b(1-3) and as = b(4)
  have eq: "insert bp ?U \<union> set vs \<union> (live - {bp}) = set as \<union> live" using as bp by auto
  have bb: "bp < blk_end s bp" using blk_end_less [OF bo] bp by simp
  show ?thesis
  proof (cases "blk_end s bp = hptr s p")
    case False
    then have "half_linked s s1 us p bp vs live"
      using s1 c(2,9) lt(2) bo eq blocks_ok_cong [of "set as \<union> live" s1 s] by (auto simp: half_linked_def set_ptr_def)
    moreover have "span s1 (insert bp ?U \<union> set vs) = span s (insert bp (set as))"
      using False s1 as span_cong [of "insert bp (set as)" s1 s] by (simp add: set_ptr_def)
    ultimately show ?thesis by blast
  next
    case True
    obtain v ws where vs: "vs = v # ws" using True bb base(1) lt(1) c(2) by (cases vs) auto
    have v: "hptr s p = v" "path_to (hptr s) (hptr s v) ws (base_at s)" "sorted_wrt (<) ws" "v \<notin> set ws" using c(2,9) vs by auto
    have vS: "v \<in> set as" "v \<notin> live" "v \<notin> ?U" "v \<noteq> bp" using as vs dj c(4,7) lt by auto
    note m = blocks_merge [OF bo, of bp v s1]
    have s1': "hsize s1 = (hsize s)(bp := hsize s bp + hsize s v)" "hptr s1 = (hptr s)(bp := hptr s v)"
      "base_at s1 = base_at s" "brk s1 = brk s" "brk_max s1 = brk_max s" using s1 True v(1) by (simp_all add: set_ptr_def set_size_def)
    have e: "insert bp ?U \<union> set ws \<union> (live - {bp}) = (set as \<union> live) - {v}" "insert bp ?U \<union> set ws = insert bp (set as) - {v}"
      using as vs vS v(4) bp by auto
    have "half_linked s s1 us p bp ws live"
      using s1' v lt(2) vs m(1) bp vS(1) True unfolding half_linked_def e(1) by auto
    moreover have "span s1 (insert bp ?U \<union> set ws) = span s (insert bp (set as))"
      unfolding e(2) using m(3) [of "insert bp (set as)"] bp vS(1) True v(1) s1' by simp
    ultimately show ?thesis using vs by (intro exI [of _ ws]) auto
  qed
qed

lemma free_relinks:
  assumes inv: "heap_inv s as live" and bp: "bp \<in> live" and cut: "base_at s # as = us @ p # vs0" and lt: "p < bp"
    and n: "path_to (hptr s) n vs (base_at s)" and vs: "sorted_wrt (<) vs" "\<forall>a \<in> set vs. bp < a" "set vs \<subseteq> set vs0"
    and as': "base_at s # as' = us @ p # xs @ vs" "xs = [] \<and> hptr s2 p = n \<or> xs = [bp] \<and> hptr s2 p = bp \<and> hptr s2 bp = n"
    and q: "\<forall>a. a \<noteq> p \<and> a \<noteq> bp \<longrightarrow> hptr s2 a = hptr s a" "hsize s2 (base_at s) = 0" "base_at s2 = base_at s" "brk s2 = brk s"
      "blocks_ok s2 (set as' \<union> (live - {bp}))"
  shows "heap_inv (s2\<lparr>freep := p\<rparr>) as' (live - {bp})"
proof -
  have hl: "heap_list s as" and dj: "live \<inter> set as = {}" and fin: "finite live" and bk: "base_at s < brk s" "0 < base_at s"
    using inv by (simp_all add: heap_inv_def heap_list_def)
  note c = heap_list_cut [OF hl cut] and b = heap_list_cut_sets [OF hl cut]
  have notin: "bp \<notin> set us" "bp \<notin> set vs" "p \<notin> set vs" "p \<noteq> bp" "base_at s \<notin> set vs" using c(3) lt vs(2) b(1) by force+
  have cong: "path_to (hptr s2) x zs y = path_to (hptr s) x zs y" if "p \<notin> set zs" "bp \<notin> set zs" for x zs y
    using that q(1) by (induction zs arbitrary: x) auto
  have path: "path_to (hptr s2) (base_at s) (us @ p # xs @ vs) (base_at s)"
    using as'(2) cong c(1,5) n notin by (auto simp: path_to_append)
  have up: "\<forall>y \<in> set vs. p < y" "\<forall>x \<in> set us. x < bp" using lt vs(2) c(3) by force+
  moreover have "\<forall>x \<in> set us. \<forall>y \<in> set vs. x < y" using up vs(2) by (meson order_less_trans)
  ultimately have sorted: "sorted_wrt (<) (us @ p # xs @ vs)" using as'(2) c(3,8) vs lt by (auto simp: sorted_wrt_append)
  have "heap_list (s2\<lparr>freep := p\<rparr>) as'" unfolding heap_list_def using path sorted q(2,3) bk(2) as'(1) by auto
  moreover have "blocks_ok (s2\<lparr>freep := p\<rparr>) (set as' \<union> (live - {bp}))" by (rule blocks_ok_cong [OF _ _ _ q(5)]) simp_all
  moreover have "(live - {bp}) \<inter> set as' = {}"
  proof -
    have "distinct (base_at s # as')" unfolding as'(1) using sorted by (simp add: strict_sorted_iff)
    then have "base_at s \<notin> set as'" by simp
    moreover have "set as' \<subseteq> insert bp (set (us @ [p]) \<union> set vs)" using arg_cong [OF as'(1), of set] as'(2) by auto
    ultimately show ?thesis using dj b(4) vs(3) by auto
  qed
  ultimately show ?thesis using fin q(3,4) bk(1) by (auto simp: heap_inv_def)
qed

lemma free_prev:
  assumes inv: "heap_inv s as live" and bp: "bp \<in> live" and cut: "base_at s # as = us @ p # vs0" and lt: "p < bp"
    and h: "half_linked s s1 us p bp vs live" and sub: "set vs \<subseteq> set vs0"
    and s2: "s2 = (if blk_end s1 p = bp then set_ptr p (hptr s1 bp) (set_size p (hsize s1 p + hsize s1 bp) s1) else set_ptr p bp s1)"
  shows "\<exists>as'. heap_inv (s2\<lparr>freep := p\<rparr>) as' (live - {bp}) \<and> (\<forall>a \<in> live - {bp}. hsize s2 a = hsize s a) \<and>
     span s2 (set as') = span s1 (insert bp (set (us @ [p]) - {base_at s}) \<union> set vs) \<and> base_at s2 = base_at s \<and> brk s2 = brk s \<and>
     brk_max s2 = brk_max s \<and> length as' \<le> Suc (length us + length vs) \<and> (\<exists>a \<in> set as'. hsize s bp \<le> hsize s2 a)"
proof -
  have hl: "heap_list s as" and dj: "live \<inter> set as = {}" and fin: "finite live" and bk: "base_at s < brk s" "hsize s (base_at s) = 0" "0 < base_at s"
    using inv by (simp_all add: heap_inv_def heap_list_def)
  note c = heap_list_cut [OF hl cut]
  obtain n where n: "hptr s1 = (hptr s)(bp := n)" "path_to (hptr s) n vs (base_at s)" and vs: "sorted_wrt (<) vs" "\<forall>a \<in> set vs. bp < a"
    and sz: "\<forall>a. a \<noteq> bp \<longrightarrow> hsize s1 a = hsize s a" "hsize s bp \<le> hsize s1 bp"
    and f1: "base_at s1 = base_at s" "brk s1 = brk s" "brk_max s1 = brk_max s"
    and ok1: "blocks_ok s1 (insert bp (set (us @ [p]) - {base_at s}) \<union> set vs \<union> (live - {bp}))" (is "blocks_ok s1 ?S")
    using h unfolding half_linked_def by blast
  note b = heap_list_cut_sets [OF hl cut]
  have notin: "bp \<notin> set us" "bp \<notin> set vs" "p \<notin> set vs" "base_at s \<noteq> bp" "base_at s \<notin> set vs" "p \<noteq> bp"
    using c(3) lt vs(2) b(1) by force+
  have live: "(live - {bp}) \<inter> (insert bp (set (us @ [p]) - {base_at s}) \<union> set vs) = {}"
    using dj b(4) sub by auto
  show ?thesis
  proof (cases "blk_end s1 p = bp")
    case True
    have pb: "p \<noteq> base_at s" using True sz(1) notin(4) bk(2) by (auto simp: blk_end_def)
    then obtain us' where us: "us = base_at s # us'" using cut by (cases us) auto
    let ?as = "us' @ p # vs"
    have ub: "base_at s \<notin> set us'" using c(8) us by auto
    have e: "set ?as = (insert bp (set (us @ [p]) - {base_at s}) \<union> set vs) - {bp}" "set ?as \<union> (live - {bp}) = ?S - {bp}"
      using us ub pb notin by auto
    have s2': "hptr s2 = (hptr s1)(p := hptr s1 bp)" "hsize s2 = (hsize s1)(p := hsize s1 p + hsize s1 bp)"
      "base_at s2 = base_at s" "brk s2 = brk s" "brk_max s2 = brk_max s" using True s2 f1 by (simp_all add: set_ptr_def set_size_def)
    have inS: "p \<in> ?S" "bp \<in> ?S" using pb by auto
    note m = blocks_merge [OF ok1 inS True s2'(2)]
    have "heap_inv (s2\<lparr>freep := p\<rparr>) ?as (live - {bp})"
      using us m(1) s2' f1 sz(1) bk(2) n(1) pb notin e by (intro free_relinks [OF inv bp cut lt n(2) vs sub, where xs = "[]"]) auto
    moreover have "span s2 (set ?as) = span s1 (insert bp (set (us @ [p]) - {base_at s}) \<union> set vs)"
      unfolding e(1) by (rule m(3)) (use s2' f1 pb in simp_all)
    moreover have "\<forall>a \<in> live - {bp}. hsize s2 a = hsize s a" using live pb s2'(2) sz(1) by auto
    moreover have "\<exists>a \<in> set ?as. hsize s bp \<le> hsize s2 a" using sz(2) s2'(2) by (intro bexI [of _ p]) simp_all
    ultimately show ?thesis using s2'(3-5) us by (intro exI [of _ ?as]) simp
  next
    case False
    let ?as = "tl (us @ p # bp # vs)"
    have s2': "hptr s2 = (hptr s1)(p := bp)" "hsize s2 = hsize s1" "base_at s2 = base_at s" "brk s2 = brk s" "brk_max s2 = brk_max s"
      using False s2 f1 by (simp_all add: set_ptr_def)
    have hd: "base_at s # ?as = us @ p # bp # vs" using cut by (cases us) auto
    have e: "set ?as = insert bp (set (us @ [p]) - {base_at s}) \<union> set vs"
      using tl_cut [OF hl cut] by auto
    have ok2: "blocks_ok s2 ?S" by (rule blocks_ok_cong [OF _ _ _ ok1]) (simp_all add: s2' f1)
    have "heap_inv (s2\<lparr>freep := p\<rparr>) ?as (live - {bp})"
      using hd s2' sz(1) bk(2) n(1) notin e ok2 by (intro free_relinks [OF inv bp cut lt n(2) vs sub, where xs = "[bp]"]) auto
    moreover have "span s2 (set ?as) = span s1 (insert bp (set (us @ [p]) - {base_at s}) \<union> set vs)"
      unfolding e by (rule span_cong) (simp add: s2')
    moreover have "\<forall>a \<in> live - {bp}. hsize s2 a = hsize s a" using s2'(2) sz(1) by auto
    moreover have "\<exists>a \<in> set ?as. hsize s bp \<le> hsize s2 a" using sz(2) s2'(2) e by (intro bexI [of _ bp]) simp_all
    ultimately show ?thesis using s2'(3-5) by (intro exI [of _ ?as]) simp
  qed
qed

lemma free_mem_does:
  assumes inv: "heap_inv s as live" and bp: "bp \<in> live" and fuel: "length as < fuel"
  shows "\<exists>s' as'. free_mem fuel (bp + HDR) s = Ok s' \<and> heap_inv s' as' (live - {bp}) \<and> (\<forall>a \<in> live - {bp}. hsize s' a = hsize s a) \<and>
     span s' (set as') = span s (insert bp (set as)) \<and> base_at s' = base_at s \<and> brk s' = brk s \<and> brk_max s' = brk_max s \<and>
     length as' \<le> Suc (length as) \<and> (\<exists>a \<in> set as'. hsize s bp \<le> hsize s' a)"
proof -
  have hl: "heap_list s as" and nb: "base_at s < bp" "bp \<notin> set as" "freep s \<in> set (base_at s # as)"
    using inv bp by (auto simp: heap_inv_def blocks_ok_def heap_list_def)
  obtain us p vs where cut: "base_at s # as = us @ p # vs" and f: "free_find fuel bp (freep s) s = Ok p" "p < bp" "\<forall>a \<in> set vs. bp < a"
    using free_find_does [OF hl nb fuel] by blast
  define s1 where "s1 = (if blk_end s bp = hptr s p
    then set_ptr bp (hptr s (hptr s p)) (set_size bp (hsize s bp + hsize s (hptr s p)) s) else set_ptr bp (hptr s p) s)"
  obtain vs' where h: "half_linked s s1 us p bp vs' live" "set vs' \<subseteq> set vs" "length vs' \<le> length vs"
    "span s1 (insert bp (set (us @ [p]) - {base_at s}) \<union> set vs') = span s (insert bp (set as))"
    using free_next [OF inv bp cut f(2,3) s1_def] by blast
  define s2 where "s2 = (if blk_end s1 p = bp then set_ptr p (hptr s1 bp) (set_size p (hsize s1 p + hsize s1 bp) s1) else set_ptr p bp s1)"
  obtain as' where a: "heap_inv (s2\<lparr>freep := p\<rparr>) as' (live - {bp})" "\<forall>a \<in> live - {bp}. hsize s2 a = hsize s a"
    "span s2 (set as') = span s (insert bp (set as))" "base_at s2 = base_at s" "brk s2 = brk s" "brk_max s2 = brk_max s"
    "length as' \<le> Suc (length us + length vs')" "\<exists>a \<in> set as'. hsize s bp \<le> hsize s2 a"
    using free_prev [OF inv bp cut f(2) h(1,2) s2_def] h(4) by auto
  have "free_mem fuel (bp + HDR) s = Ok (s2\<lparr>freep := p\<rparr>)"
    using f(1) by (simp add: free_mem_def s1_def [symmetric] Let_def s2_def)
  moreover have "span (s2\<lparr>freep := p\<rparr>) (set as') = span s2 (set as')" by (rule span_cong) simp
  moreover have "length as = length us + length vs" using arg_cong [OF cut, of length] by simp
  ultimately show ?thesis using a h(3) by (intro exI [of _ "s2\<lparr>freep := p\<rparr>"] exI [of _ as']) simp
qed

section \<open>Allocating a block\<close>

lemma new_block:
  assumes inv: "heap_inv s as live" and s1: "s1 = set_size (brk s) n (s\<lparr>brk := brk s + HDR * n\<rparr>)" and n: "0 < n"
  shows "heap_inv s1 as (insert (brk s) live)" "\<forall>a \<in> set as \<union> live. hsize s1 a = hsize s a" "brk s \<notin> set as \<union> live"
proof -
  have bo: "blocks_ok s (set as \<union> live)" and hl: "heap_list s as" and bk: "base_at s < brk s" "live \<inter> set as = {}" "finite live"
    using inv by (simp_all add: heap_inv_def)
  have lt: "a < brk s" if "a \<in> set as \<union> live" for a
    using order_less_le_trans [OF blk_end_less [OF bo that]] bo that unfolding blocks_ok_def by blast
  then show nin: "brk s \<notin> set as \<union> live" by blast
  then show sz: "\<forall>a \<in> set as \<union> live. hsize s1 a = hsize s a" by (auto simp: s1 set_size_def)
  have f: "hptr s1 = hptr s" "freep s1 = freep s" "base_at s1 = base_at s" "brk s1 = brk s + HDR * n" "hsize s1 (brk s) = n" "hsize s1 (base_at s) = hsize s (base_at s)"
    using bk(1) by (simp_all add: s1 set_size_def)
  have "blocks_ok s1 (set as \<union> live)" by (rule blocks_ok_cong [OF _ f(3) _ bo]) (use sz f(4) in auto)
  moreover have "blk_end s1 a \<le> brk s" if "a \<in> set as \<union> live" for a using that bo sz by (auto simp: blocks_ok_def blk_end_def)
  moreover have "blk_end s1 (brk s) = brk s1" using f by (simp add: blk_end_def)
  ultimately have "blocks_ok s1 (set as \<union> insert (brk s) live)"
    using lt f bk(1) n by (auto simp: blocks_ok_def dest: less_imp_le intro: less_asym)
  then show "heap_inv s1 as (insert (brk s) live)"
    using hl f bk nin by (auto simp: heap_inv_def heap_list_def)
qed

lemma sint_of_nat_small:
  assumes "k < 2 ^ 31"
  shows "sint (of_nat k :: int32) = int k"
proof -
  have "int k < 2 ^ 31" using assms by (metis of_nat_less_iff of_nat_numeral of_nat_power)
  then have "signed_take_bit 31 (int k) = int k" by (intro signed_take_bit_int_eq_self) simp_all
  then show ?thesis by (simp add: signed_of_nat)
qed

lemma sbrk_grow:
  assumes "0 < k" and "k < 2 ^ 31"
  shows "sbrk (of_nat k) s = (if brk s + k > brk_max s then (None, s) else (Some (brk s), s\<lparr>brk := brk s + k\<rparr>))"
  using assms by (simp add: sbrk_def sint_of_nat_small nat_add_distrib flip: of_nat_add)

lemma morecore_does:
  assumes inv: "heap_inv s as live" and fuel: "length as < fuel" and m: "m = (if nu < 4096 then 4096 else nu)" "m * HDR < 2 ^ 31"
  shows "if brk s + m * HDR > brk_max s then morecore fuel nu s = Ok (0, s)
    else \<exists>s' as'. morecore fuel nu s = Ok (freep s', s') \<and> heap_inv s' as' live \<and> (\<forall>a \<in> live. hsize s' a = hsize s a) \<and>
      length as' \<le> Suc (length as) \<and> (\<exists>a \<in> set as'. nu \<le> hsize s' a) \<and> base_at s' = base_at s \<and> brk_max s' = brk_max s"
proof -
  have n: "0 < m" "nu \<le> m" using m(1) by auto
  have sb: "sbrk (of_nat (m * HDR)) s = (if brk s + m * HDR > brk_max s then (None, s) else (Some (brk s), s\<lparr>brk := brk s + HDR * m\<rparr>))"
    using sbrk_grow [OF _ m(2)] n(1) by (simp add: HDR_def mult.commute)
  show ?thesis
  proof (cases "brk s + m * HDR > brk_max s")
    case True
    then show ?thesis using sb by (simp add: morecore_def Let_def m(1) [symmetric])
  next
    case False
    define s1 where "s1 = set_size (brk s) m (s\<lparr>brk := brk s + HDR * m\<rparr>)"
    note nb = new_block [OF inv s1_def n(1)]
    obtain s2 as' where s2: "free_mem fuel (brk s + HDR) s1 = Ok s2" "heap_inv s2 as' (insert (brk s) live - {brk s})"
      "\<forall>a \<in> insert (brk s) live - {brk s}. hsize s2 a = hsize s1 a" "length as' \<le> Suc (length as)" "\<exists>a \<in> set as'. hsize s1 (brk s) \<le> hsize s2 a"
      "base_at s2 = base_at s1" "brk_max s2 = brk_max s1"
      using free_mem_does [OF nb(1) insertI1 fuel] by blast
    have live: "insert (brk s) live - {brk s} = live" using nb(3) by auto
    have f: "hsize s1 (brk s) = m" "base_at s1 = base_at s" "brk_max s1 = brk_max s" by (simp_all add: s1_def set_size_def)
    have "morecore fuel nu s = Ok (freep s2, s2)"
      using s2(1) sb False by (simp add: morecore_def Let_def m(1) [symmetric] s1_def)
    then show ?thesis using False s2(2-) nb(2) f n(2) unfolding live by (auto intro: order_trans)
  qed
qed

lemma take_block_does:
  assumes inv: "heap_inv s as live" and pp: "prevp \<in> set (base_at s # as)" "hptr s prevp = p" and n: "0 < n" "n \<le> hsize s p"
  shows "\<exists>q s' as'. take_block n prevp p s = (q + HDR, s') \<and> heap_inv s' as' (insert q live) \<and> q \<notin> live \<and> 0 < q \<and> hsize s' q = n \<and>
     (\<forall>a \<in> live. hsize s' a = hsize s a) \<and> {q..<blk_end s' q} \<subseteq> {p..<blk_end s p} \<and> base_at s' = base_at s \<and> brk s' = brk s \<and> brk_max s' = brk_max s"
proof -
  have hl: "heap_list s as" and bo: "blocks_ok s (set as \<union> live)" and dj: "live \<inter> set as = {}" and fin: "finite live" and bk: "base_at s < brk s"
    "hsize s (base_at s) = 0" "0 < base_at s" using inv by (simp_all add: heap_inv_def heap_list_def)
  obtain us vs where cut: "base_at s # as = us @ prevp # vs" using pp(1) by (metis split_list)
  note c = heap_list_cut [OF hl cut] and cs = heap_list_cut_sets [OF hl cut]
  obtain ws where vs: "vs = p # ws" using c(2) pp(2) n bk(2) by (cases vs) auto
  have p: "p \<in> set as" "p \<notin> live" "base_at s < p" using cs(4) vs dj bo by (auto simp: blocks_ok_def)
  show ?thesis
  proof (cases "hsize s p = n")
    case True
    let ?s' = "(set_ptr prevp (hptr s p) s)\<lparr>freep := prevp\<rparr>" and ?as = "tl (us @ prevp # ws)"
    have hd: "base_at s # ?as = us @ prevp # ws" using cut by (cases us) auto
    have "p \<notin> set us" "p \<noteq> prevp" "p \<notin> set ws" using c(4,7,9) vs by auto
    then have st: "set ?as = set as - {p}" using tl_cut [OF hl cut, of ws] cs(4) vs by auto
    have path: "path_to ((hptr s)(prevp := hptr s p)) (base_at s) (us @ prevp # ws) (base_at s)"
      using c(1,2,5,6) vs by (auto simp: path_to_append)
    have "sorted_wrt (<) (us @ prevp # ws)" using hl cut vs by (simp add: heap_list_def sorted_wrt_append)
    then have "heap_list ?s' ?as" using path hd bk(2,3) by (simp add: heap_list_def set_ptr_def)
    moreover have "blocks_ok ?s' (set as \<union> live)" by (rule blocks_ok_cong [OF _ _ _ bo]) (simp_all add: set_ptr_def)
    moreover have "set ?as \<union> insert p live = set as \<union> live" using st p by auto
    ultimately have "heap_inv ?s' ?as (insert p live)" using fin dj st bk(1) by (auto simp: heap_inv_def set_ptr_def)
    then show ?thesis using True p bk(3) by (intro exI [of _ p] exI [of _ ?s'] exI [of _ ?as]) (auto simp: take_block_def set_ptr_def blk_end_def)
  next
    case False
    define s1 where "s1 = set_size p (hsize s p - n) s"
    define q where "q = blk_end s1 p"
    define s' where "s' = (set_size q n s1)\<lparr>freep := prevp\<rparr>"
    have h: "0 < hsize s p - n" "hsize s p = (hsize s p - n) + n" using False n by simp_all
    have q: "q = p + HDR * (hsize s p - n)" by (simp add: q_def s1_def blk_end_def set_size_def)
    have qe: "q + HDR * n = blk_end s p" unfolding q blk_end_def using h(2) by (metis add.assoc distrib_left)
    have lt: "p < q" "q < blk_end s p" using q qe h(1) n(1) by (auto simp: HDR_def)
    have nin: "q \<notin> set as \<union> live" using lt bo p(1) unfolding blocks_ok_def by (meson UnI1 leD)
    have f: "hptr s' = hptr s" "hsize s' = (hsize s)(p := hsize s p - n, q := n)" "base_at s' = base_at s" "brk s' = brk s" "brk_max s' = brk_max s" "freep s' = prevp"
      by (simp_all add: s'_def s1_def set_size_def)
    have e: "blk_end s' p = q" "blk_end s' q = blk_end s p" "\<And>a. a \<noteq> p \<Longrightarrow> a \<noteq> q \<Longrightarrow> blk_end s' a = blk_end s a"
      using lt q qe by (auto simp: blk_end_def f(2))
    have "blocks_ok s' (insert q (set as \<union> live))"
      using bo h(1) n(1) f by (intro blocks_split [OF bo _ lt e]) (auto simp: blocks_ok_def p(1))
    moreover have "heap_list s' as" using hl f pp(1) p(3) lt by (simp add: heap_list_def)
    ultimately have "heap_inv s' as (insert q live)" using nin dj fin bk(1) f by (simp add: heap_inv_def)
    moreover have "take_block n prevp p s = (q + HDR, s')"
      using False by (simp add: take_block_def Let_def s1_def [symmetric] q_def [symmetric] s'_def)
    ultimately show ?thesis using nin f lt e p(1,2) dj
      by (intro exI [of _ q] exI [of _ s'] exI [of _ as]) auto
  qed
qed

text \<open>
  The search of \<^verbatim>\<open>malloc\<close> from \<open>p\<close> along \<open>zs\<close> to \<open>freep\<close>: it takes a block that is big enough, or finds none
  and asks for more memory.
\<close>

definition grow_and_retry :: "nat \<Rightarrow> nat \<Rightarrow> umem \<Rightarrow> (nat \<times> umem) outcome" where
  "grow_and_retry fuel n s = andThen (morecore fuel n s) (\<lambda>(p1, s1).
     if p1 = 0 then Ok (0, s1) else case fuel of 0 \<Rightarrow> Spin | Suc k \<Rightarrow> malloc_loop k n p1 (hptr s1 p1) s1)"

lemma malloc_walk:
  assumes "set zs \<subseteq> L" and "path_to (hptr s) p zs (freep s)" and "freep s \<notin> set zs" and "prevp \<in> L" and "hptr s prevp = p" and "length zs \<le> fuel"
  shows "(\<exists>prevq q. prevq \<in> L \<and> hptr s prevq = q \<and> n \<le> hsize s q \<and> malloc_loop fuel n prevp p s = Ok (take_block n prevq q s)) \<or>
     (\<forall>a \<in> set zs \<union> {freep s}. hsize s a < n) \<and> malloc_loop fuel n prevp p s = grow_and_retry (fuel - length zs) n s"
  using assms
proof (induction zs arbitrary: p prevp fuel)
  case Nil
  then have p: "p = freep s" by simp
  show ?case
  proof (cases "n \<le> hsize s p")
    case True
    then have "malloc_loop fuel n prevp p s = Ok (take_block n prevp p s)" by (subst malloc_loop.simps) simp
    then show ?thesis using True Nil by blast
  next
    case False
    then have "malloc_loop fuel n prevp p s = grow_and_retry fuel n s" using p by (subst malloc_loop.simps) (simp add: grow_and_retry_def)
    then show ?thesis using False p by simp
  qed
next
  case (Cons z zs)
  then have z: "z = p" "path_to (hptr s) (hptr s p) zs (freep s)" "p \<noteq> freep s" "p \<in> L" by auto
  show ?case
  proof (cases "n \<le> hsize s p")
    case True
    then have "malloc_loop fuel n prevp p s = Ok (take_block n prevp p s)" by (subst malloc_loop.simps) simp
    then show ?thesis using True Cons.prems by blast
  next
    case False
    obtain k where k: "fuel = Suc k" using Cons.prems by (cases fuel) auto
    have "malloc_loop fuel n prevp p s = malloc_loop k n p (hptr s p) s" using False z k by (subst malloc_loop.simps) simp
    then show ?thesis using Cons.IH [OF _ z(2) _ z(4) refl, of k] Cons.prems False z(1) k by auto
  qed
qed

text \<open>One round of the list, from behind \<open>freep\<close> back to it.\<close>

lemma malloc_round:
  assumes inv: "heap_inv s as live" and fuel: "length as \<le> fuel" and n: "0 < n"
  shows "(\<exists>q s' as'. malloc_loop fuel n (freep s) (hptr s (freep s)) s = Ok (q + HDR, s') \<and> heap_inv s' as' (insert q live) \<and> q \<notin> live \<and>
       0 < q \<and> hsize s' q = n \<and> (\<forall>a \<in> live. hsize s' a = hsize s a) \<and> base_at s' = base_at s \<and> brk_max s' = brk_max s) \<or>
     (\<forall>a \<in> set as. hsize s a < n) \<and> malloc_loop fuel n (freep s) (hptr s (freep s)) s = grow_and_retry (fuel - length as) n s"
proof -
  have hl: "heap_list s as" and fr: "freep s \<in> set (base_at s # as)" using inv by (simp_all add: heap_inv_def heap_list_def)
  obtain us vs where cut: "base_at s # as = us @ freep s # vs" using fr by (metis split_list)
  note c = heap_list_cut [OF hl cut]
  have path: "path_to (hptr s) (hptr s (freep s)) (vs @ us) (freep s)" using c(1,2) by (auto simp: path_to_append)
  have all: "set (vs @ us) \<union> {freep s} = set (base_at s # as)" unfolding cut by auto
  have len: "length (vs @ us) = length as" using arg_cong [OF cut, of length] by simp
  have pre: "set (vs @ us) \<subseteq> set (base_at s # as)" "freep s \<notin> set (vs @ us)" "length (vs @ us) \<le> fuel" using all c(5,6) len fuel by auto
  from malloc_walk [OF pre(1) path pre(2) fr refl pre(3), of n, unfolded all len]
  consider (found) prevq q where "prevq \<in> set (base_at s # as)" "hptr s prevq = q" "n \<le> hsize s q"
      "malloc_loop fuel n (freep s) (hptr s (freep s)) s = Ok (take_block n prevq q s)"
    | (none) "\<forall>a \<in> set (base_at s # as). hsize s a < n" "malloc_loop fuel n (freep s) (hptr s (freep s)) s = grow_and_retry (fuel - length as) n s"
    by blast
  then show ?thesis
  proof cases
    case found
    then show ?thesis using take_block_does [OF inv found(1,2) n found(3)] by auto
  qed auto
qed

lemma malloc_loop_does:
  assumes inv: "heap_inv s as live" and fuel: "2 * length as + 4 \<le> fuel" and n: "0 < n" "n * HDR < 2 ^ 31"
  shows "\<exists>r s' as'. malloc_loop fuel n (freep s) (hptr s (freep s)) s = Ok (r, s') \<and> base_at s' = base_at s \<and> (\<forall>a \<in> live. hsize s' a = hsize s a) \<and>
     (r = 0 \<and> heap_inv s' as' live \<and> brk s + max n 4096 * HDR > brk_max s \<and> (\<forall>a \<in> set as. hsize s a < n) \<or>
      (\<exists>q. r = q + HDR \<and> heap_inv s' as' (insert q live) \<and> q \<notin> live \<and> hsize s' q = n))"
proof -
  define m where "m = (if n < 4096 then 4096 else n)"
  have m: "m = max n 4096" "m * HDR < 2 ^ 31" using n(2) by (auto simp: m_def HDR_def)
  from malloc_round [OF inv _ n(1), of fuel] fuel
  consider (found) q s' as' where "malloc_loop fuel n (freep s) (hptr s (freep s)) s = Ok (q + HDR, s')" "heap_inv s' as' (insert q live)" "q \<notin> live"
      "hsize s' q = n" "\<forall>a \<in> live. hsize s' a = hsize s a" "base_at s' = base_at s"
    | (none) "\<forall>a \<in> set as. hsize s a < n" "malloc_loop fuel n (freep s) (hptr s (freep s)) s = grow_and_retry (fuel - length as) n s"
    by auto
  then show ?thesis
  proof cases
    case found
    then show ?thesis by blast
  next
    case none
    define k where "k = fuel - length as - 1"
    have k: "fuel - length as = Suc k" "length as < Suc k" "Suc (length as) \<le> k" using fuel by (auto simp: k_def)
    note mc = morecore_does [OF inv k(2) m_def m(2)]
    show ?thesis
    proof (cases "brk s + m * HDR > brk_max s")
      case True
      then have "grow_and_retry (Suc k) n s = Ok (0, s)" using mc by (simp add: grow_and_retry_def)
      then show ?thesis using none k(1) inv True m(1) by auto
    next
      case False
      then obtain s1 as1 where s1: "morecore (Suc k) n s = Ok (freep s1, s1)" "heap_inv s1 as1 live" "\<forall>a \<in> live. hsize s1 a = hsize s a"
        "length as1 \<le> Suc (length as)" "\<exists>a \<in> set as1. n \<le> hsize s1 a" "base_at s1 = base_at s"
        using mc by auto
      have "0 < freep s1" using s1(2) by (auto simp: heap_inv_def heap_list_def)
      then have g: "grow_and_retry (Suc k) n s = malloc_loop k n (freep s1) (hptr s1 (freep s1)) s1" using s1(1) by (simp add: grow_and_retry_def)
      from malloc_round [OF s1(2) _ n(1), of k] s1(4,5) k(3) obtain q s' as' where
        "malloc_loop k n (freep s1) (hptr s1 (freep s1)) s1 = Ok (q + HDR, s')" "heap_inv s' as' (insert q live)" "q \<notin> live"
        "hsize s' q = n" "\<forall>a \<in> live. hsize s' a = hsize s1 a" "base_at s' = base_at s1" by fastforce
      then show ?thesis using none(2) k(1) g s1(3,6) by auto
    qed
  qed
qed

section \<open>Properties\<close>

text \<open>Before the first call, or in the course of the program.\<close>

definition heap_ready :: "umem \<Rightarrow> nat list \<Rightarrow> nat set \<Rightarrow> bool" where
  "heap_ready s as live \<longleftrightarrow> heap_inv s as live \<or>
     freep s = 0 \<and> as = [] \<and> live = {} \<and> 0 < base_at s \<and> base_at s < brk s"

lemma malloc_init_ready:
  assumes "heap_ready s as live"
  shows "heap_inv (malloc_init s) as live" "\<forall>a \<in> set as \<union> live. hsize (malloc_init s) a = hsize s a"
    "brk (malloc_init s) = brk s" "brk_max (malloc_init s) = brk_max s"
proof -
  have "heap_inv (malloc_init s) as live \<and> (\<forall>a \<in> set as \<union> live. hsize (malloc_init s) a = hsize s a)"
  proof (cases "heap_inv s as live")
    case True
    then have "freep s \<noteq> 0" by (auto simp: heap_inv_def heap_list_def)
    then show ?thesis using True by (simp add: malloc_init_def)
  next
    case False
    then have "freep s = 0" "as = []" "live = {}" "0 < base_at s" "base_at s < brk s" using assms by (simp_all add: heap_ready_def)
    then show ?thesis
      by (simp add: malloc_init_def heap_inv_def heap_list_def blocks_ok_def set_ptr_def set_size_def)
  qed
  then show "heap_inv (malloc_init s) as live" "\<forall>a \<in> set as \<union> live. hsize (malloc_init s) a = hsize s a" by blast+
qed (simp_all add: malloc_init_def set_ptr_def set_size_def)


definition umem_demo :: umem where
  "umem_demo = \<lparr>hptr = \<lambda>_. 0, hsize = \<lambda>_. 0, freep = 0, base_at = 4096, brk = 8192, brk_max = 1000000\<rparr>"


text \<open>
  C25. \<^verbatim>\<open>free\<close> of a live block returns within one round of the list. Exactly the bytes of the block are added
  to the free memory, whether or not the block is merged with its neighbours, the list is well formed
  again, and the remaining live blocks keep their sizes.
\<close>

theorem free_returns_block:
  assumes "heap_inv s as live" and "bp \<in> live" and "length as < fuel"
  shows "\<exists>s' as'. free_mem fuel (bp + HDR) s = Ok s' \<and> heap_inv s' as' (live - {bp}) \<and> (\<forall>a \<in> live - {bp}. hsize s' a = hsize s a) \<and>
     span s' (set as') = span s (set as) \<union> {bp..<blk_end s bp} \<and> brk s' = brk s"
  using free_mem_does [OF assms] by (auto simp: span_def Un_commute)

lemma free_demo: "\<exists>s :: umem. heap_inv s [] {8192} \<and> hsize s 8192 = 2"
  by (intro exI [of _ "umem_demo\<lparr>hptr := (\<lambda>_. 4096), hsize := (\<lambda>_. 0)(8192 := 2), freep := 4096, brk := 9000\<rparr>"])
    (simp add: heap_inv_def heap_list_def blocks_ok_def umem_demo_def blk_end_def HDR_def)

theorem free_returns_block_witness:
  "\<exists>s s' as'. heap_inv s [] {8192} \<and> free_mem 1 (8192 + HDR) s = Ok s' \<and> heap_inv s' as' {} \<and> span s' (set as') = {8192..<8224}"
proof -
  obtain s :: umem where s: "heap_inv s [] {8192}" "hsize s 8192 = 2" using free_demo by blast
  have "span s {} = {}" "blk_end s 8192 = 8224" using s(2) by (simp_all add: span_def blk_end_def HDR_def)
  then show ?thesis using free_returns_block [OF s(1), of 8192 1] s(1) by auto
qed

end
