(* ===== verification/Grep.thy ===== *)
theory Grep
  imports Splitting
begin

text \<open>
  user/grep.c: the regular expression matcher and the loop that reads a file in pieces. A C string
  is the list of the bytes before its terminating zero byte, so \<^verbatim>\<open>*text == 0\<close> is \<open>text = []\<close>.
  The lemmas show that the matcher decides the language of the pattern, and that the loop prints
  the matching lines however the reads cut the file.
\<close>

section \<open>The matcher\<close>

definition CARET :: uint8 where "CARET = 94"
definition DOLLAR :: uint8 where "DOLLAR = 36"
definition STAR :: uint8 where "STAR = 42"
definition DOT :: uint8 where "DOT = 46"
definition NEWLINE :: uint8 where "NEWLINE = 10"

function matchhere :: "uint8 list \<Rightarrow> uint8 list \<Rightarrow> bool"
  and matchstar :: "uint8 \<Rightarrow> uint8 list \<Rightarrow> uint8 list \<Rightarrow> bool" where
  "matchhere re text =
     (case re of
        [] \<Rightarrow> True
      | c # re' \<Rightarrow>
          if re' \<noteq> [] \<and> hd re' = STAR then matchstar c (tl re') text
          else if c = DOLLAR \<and> re' = [] then text = []
          else if text \<noteq> [] \<and> (c = DOT \<or> c = hd text) then matchhere re' (tl text)
          else False)"
| "matchstar c re text =
     (if matchhere re text then True
      else if text \<noteq> [] \<and> (hd text = c \<or> c = DOT) then matchstar c re (tl text)
      else False)"
  by pat_completeness auto
termination
  by (relation "measure (\<lambda>x. case x of Inl (re, text) \<Rightarrow> 2 * (length re + length text)
      | Inr (c, re, text) \<Rightarrow> 2 * (length re + length text) + 1)") (auto simp: neq_Nil_conv)

declare matchhere.simps [simp del] matchstar.simps [simp del]

text \<open>The \<^verbatim>\<open>do\<close> loop of \<^verbatim>\<open>match\<close>.\<close>

fun match_from :: "uint8 list \<Rightarrow> uint8 list \<Rightarrow> bool" where
  "match_from re text =
     (if matchhere re text then True
      else case text of [] \<Rightarrow> False | _ # t \<Rightarrow> match_from re t)"

declare match_from.simps [simp del]

definition match_re :: "uint8 list \<Rightarrow> uint8 list \<Rightarrow> bool" where
  "match_re re text =
     (if re \<noteq> [] \<and> hd re = CARET then matchhere (tl re) text else match_from re text)"

section \<open>The loop over the file\<close>

text \<open>\<^verbatim>\<open>strchr\<close> of user/ulib.c as an offset into the string; it stops at a zero byte.\<close>

fun strchr :: "uint8 list \<Rightarrow> uint8 \<Rightarrow> nat option" where
  "strchr [] c = None"
| "strchr (x # xs) c = (if x = 0 then None else if x = c then Some 0 else map_option Suc (strchr xs c))"

lemma strchr_less: "strchr s c = Some i \<Longrightarrow> i < length s"
  by (induction s arbitrary: i) (auto split: if_splits)

text \<open>The inner loop: what it writes, and the bytes from \<^verbatim>\<open>p\<close> on that are left.\<close>

function grep_lines :: "uint8 list \<Rightarrow> uint8 list \<Rightarrow> uint8 list list \<times> uint8 list" where
  "grep_lines re p =
     (case strchr p NEWLINE of
        None \<Rightarrow> ([], p)
      | Some i \<Rightarrow>
          let (out, rest) = grep_lines re (drop (i + 1) p)
          in ((if match_re re (take i p) then [take (i + 1) p] else []) @ out, rest))"
  by pat_completeness auto
termination
  by (relation "measure (\<lambda>(re, p). length p)") (auto dest: strchr_less)

declare grep_lines.simps [simp del]

text \<open>
  \<open>grep re ks inp pend\<close>: the outer loop, with the bytes \<open>pend\<close> kept at the front of the buffer and
  \<open>inp\<close> still to be read. A call of \<^verbatim>\<open>read\<close> for \<open>want\<close> bytes returns as many as the file has up to
  \<open>want\<close> or to the bound that \<open>ks\<close> gives for this call, at least one. The result is the sequence
  of the writes.
\<close>

definition read_count :: "nat list \<Rightarrow> nat \<Rightarrow> nat" where
  "read_count ks want = (case ks of [] \<Rightarrow> want | k # _ \<Rightarrow> min (Suc k) want)"

function grep :: "uint8 list \<Rightarrow> nat list \<Rightarrow> uint8 list \<Rightarrow> uint8 list \<Rightarrow> uint8 list list" where
  "grep re ks inp pend =
     (let got = take (read_count ks (1024 - length pend - 1)) inp in
      if got = [] then []
      else let (out, rest) = grep_lines re (pend @ got)
           in out @ grep re (tl ks) (drop (length got) inp) rest)"
  by pat_completeness auto
termination
  by (relation "measure (\<lambda>(re, ks, inp, pend). length inp)") auto

declare grep.simps [simp del]

section \<open>The language of a pattern\<close>

datatype atom = AnyByte | Byte uint8

datatype piece = One atom | Many atom

definition atom_of :: "uint8 \<Rightarrow> atom" where
  "atom_of c = (if c = DOT then AnyByte else Byte c)"

fun accepts :: "atom \<Rightarrow> uint8 \<Rightarrow> bool" where
  "accepts AnyByte x = True"
| "accepts (Byte c) x = (x = c)"

text \<open>The pieces of a pattern after a leading caret, and whether it is anchored at the end.\<close>

fun pieces :: "uint8 list \<Rightarrow> piece list \<times> bool" where
  "pieces [] = ([], False)"
| "pieces [c] = (if c = DOLLAR then ([], True) else ([One (atom_of c)], False))"
| "pieces (c # d # re) =
     (if d = STAR then let (ps, anchored) = pieces re in (Many (atom_of c) # ps, anchored)
      else let (ps, anchored) = pieces (d # re) in (One (atom_of c) # ps, anchored))"

inductive in_lang :: "piece list \<Rightarrow> uint8 list \<Rightarrow> bool" where
  nil: "in_lang [] []"
| one: "accepts a x \<Longrightarrow> in_lang ps w \<Longrightarrow> in_lang (One a # ps) (x # w)"
| none: "in_lang ps w \<Longrightarrow> in_lang (Many a # ps) w"
| more: "accepts a x \<Longrightarrow> in_lang (Many a # ps) w \<Longrightarrow> in_lang (Many a # ps) (x # w)"

code_pred in_lang .

inductive_cases in_lang_NilE: "in_lang [] w"
inductive_cases in_lang_OneE: "in_lang (One a # ps) w"
inductive_cases in_lang_ManyE: "in_lang (Many a # ps) w"

text \<open>A prefix of the text, all of it when anchored, is in the language.\<close>

definition prefix_match :: "piece list \<times> bool \<Rightarrow> uint8 list \<Rightarrow> bool" where
  "prefix_match r text \<longleftrightarrow> (\<exists>u v. text = u @ v \<and> in_lang (fst r) u \<and> (snd r \<longrightarrow> v = []))"

lemma accepts_atom_of: "accepts (atom_of c) x \<longleftrightarrow> c = DOT \<or> c = x"
  by (auto simp: atom_of_def)

lemma prefix_match_Nil: "prefix_match ([], anchored) text \<longleftrightarrow> (anchored \<longrightarrow> text = [])"
  by (auto simp: prefix_match_def intro: in_lang.nil elim: in_lang_NilE)

lemma prefix_matchI: "in_lang ps u \<Longrightarrow> (anchored \<longrightarrow> v = []) \<Longrightarrow> prefix_match (ps, anchored) (u @ v)"
  by (auto simp: prefix_match_def)

lemma prefix_match_One:
  "prefix_match (One a # ps, anchored) text \<longleftrightarrow> text \<noteq> [] \<and> accepts a (hd text) \<and> prefix_match (ps, anchored) (tl text)"
proof
  assume "prefix_match (One a # ps, anchored) text"
  then obtain u v where "text = u @ v" "in_lang (One a # ps) u" "anchored \<longrightarrow> v = []" by (auto simp: prefix_match_def)
  then show "text \<noteq> [] \<and> accepts a (hd text) \<and> prefix_match (ps, anchored) (tl text)"
    by (elim in_lang_OneE) (simp add: prefix_matchI)
next
  assume r: "text \<noteq> [] \<and> accepts a (hd text) \<and> prefix_match (ps, anchored) (tl text)"
  then obtain u v where "tl text = u @ v" "in_lang ps u" "anchored \<longrightarrow> v = []" by (auto simp: prefix_match_def)
  then have "text = (hd text # u) @ v" "in_lang (One a # ps) (hd text # u)"
    using r by (cases "text", simp_all add: in_lang.one)+
  then show "prefix_match (One a # ps, anchored) text"
    using \<open>anchored \<longrightarrow> v = []\<close> unfolding prefix_match_def fst_conv snd_conv by blast
qed

lemma prefix_match_Many:
  "prefix_match (Many a # ps, anchored) text \<longleftrightarrow>
     prefix_match (ps, anchored) text \<or> text \<noteq> [] \<and> accepts a (hd text) \<and> prefix_match (Many a # ps, anchored) (tl text)"
  (is "?l \<longleftrightarrow> ?now \<or> ?later")
proof
  assume ?l
  then obtain u v where uv: "text = u @ v" "in_lang (Many a # ps) u" "anchored \<longrightarrow> v = []" by (auto simp: prefix_match_def)
  from uv(2) consider (none) "in_lang ps u" | (more) x w where "u = x # w" "accepts a x" "in_lang (Many a # ps) w"
    by (rule in_lang_ManyE) auto
  then show "?now \<or> ?later"
  proof cases
    case none
    then show ?thesis using prefix_matchI [OF none uv(3)] uv(1) by simp
  next
    case (more x w)
    then show ?thesis using prefix_matchI [OF more(3) uv(3)] uv(1) by simp
  qed
next
  assume "?now \<or> ?later"
  then show ?l
  proof
    assume ?now
    then obtain u v where uv: "text = u @ v" "in_lang ps u" "anchored \<longrightarrow> v = []" by (auto simp: prefix_match_def)
    show ?l unfolding uv(1) by (rule prefix_matchI [OF in_lang.none [OF uv(2)] uv(3)])
  next
    assume r: ?later
    then obtain u v where uv: "tl text = u @ v" "in_lang (Many a # ps) u" "anchored \<longrightarrow> v = []" by (auto simp: prefix_match_def)
    have "text = (hd text # u) @ v" using r uv(1) by (metis append_Cons list.collapse)
    then show ?l using prefix_matchI [OF in_lang.more [OF _ uv(2)] uv(3), of "hd text"] r by simp
  qed
qed

lemma matchhere_lang:
  "matchhere re t \<longleftrightarrow> prefix_match (pieces re) t"
  "matchstar c re t \<longleftrightarrow> prefix_match (Many (atom_of c) # fst (pieces re), snd (pieces re)) t"
proof (induction re t and c re t rule: matchhere_matchstar.induct)
  case (1 re t)
  show ?case
  proof (cases re rule: pieces.cases)
    case 1
    then show ?thesis by (simp add: matchhere.simps prefix_match_Nil)
  next
    case (2 c)
    have "matchhere [] (tl t)" by (simp add: matchhere.simps)
    then show ?thesis unfolding 2 by (subst matchhere.simps) (auto simp: prefix_match_Nil prefix_match_One accepts_atom_of)
  next
    case (3 c d r)
    show ?thesis
    proof (cases "d = STAR")
      case True
      then have "matchstar c r t \<longleftrightarrow> prefix_match (Many (atom_of c) # fst (pieces r), snd (pieces r)) t"
        using "1.IH"(1) [OF 3] by simp
      then show ?thesis unfolding 3 using True by (subst matchhere.simps) (simp add: case_prod_beta)
    next
      case False
      then have "t \<noteq> [] \<and> (c = DOT \<or> c = hd t) \<Longrightarrow> matchhere (d # r) (tl t) \<longleftrightarrow> prefix_match (pieces (d # r)) (tl t)"
        using "1.IH"(2) [OF 3] by simp
      moreover have "pieces (c # d # r) = (One (atom_of c) # fst (pieces (d # r)), snd (pieces (d # r)))"
        using False by (simp add: case_prod_beta)
      ultimately show ?thesis unfolding 3 using False
        by (subst matchhere.simps) (auto simp: prefix_match_One accepts_atom_of simp del: pieces.simps)
    qed
  qed
next
  case (2 c re t)
  show ?case
    using 2 by (subst matchstar.simps, subst prefix_match_Many) (auto simp: accepts_atom_of)
qed

lemma match_from_iff: "match_from re t \<longleftrightarrow> (\<exists>a b. t = a @ b \<and> matchhere re b)"
proof (induction t)
  case Nil
  show ?case by (subst match_from.simps) simp
next
  case (Cons x t)
  have "(\<exists>a b. x # t = a @ b \<and> matchhere re b) \<longleftrightarrow> matchhere re (x # t) \<or> (\<exists>a b. t = a @ b \<and> matchhere re b)"
    by (auto simp: Cons_eq_append_conv)
  then show ?case using Cons by (subst match_from.simps) simp
qed

section \<open>Lines\<close>

text \<open>The finished lines of a file, without their newlines.\<close>

definition file_lines :: "uint8 list \<Rightarrow> uint8 list list" where
  "file_lines inp = butlast (split_on NEWLINE inp)"

definition matching_lines :: "uint8 list \<Rightarrow> uint8 list \<Rightarrow> uint8 list list" where
  "matching_lines re inp = map (\<lambda>l. l @ [NEWLINE]) (filter (match_re re) (file_lines inp))"

lemma strchr_None: "0 \<notin> set s \<Longrightarrow> strchr s c = None \<longleftrightarrow> c \<notin> set s"
  by (induction s) auto

lemma strchr_Some: "strchr s c = Some i \<Longrightarrow> c \<notin> set (take i s) \<and> s = take i s @ c # drop (Suc i) s"
  by (induction s arbitrary: i) (auto split: if_splits)

lemma grep_lines_split:
  "0 \<notin> set p \<Longrightarrow> grep_lines re p = (matching_lines re p, last (split_on NEWLINE p))"
proof (induction re p rule: grep_lines.induct)
  case (1 re p)
  show ?case
  proof (cases "strchr p NEWLINE")
    case None
    then have "split_on NEWLINE p = [p]" using strchr_None [OF 1(2)] split_on_no_sep by metis
    then show ?thesis using None by (subst grep_lines.simps) (simp add: matching_lines_def file_lines_def)
  next
    case (Some i)
    note s = strchr_Some [OF Some]
    have sp: "split_on NEWLINE p = take i p # split_on NEWLINE (drop (Suc i) p)" using s split_on_cut by metis
    have "take (Suc i) p = take i p @ [NEWLINE]" using s strchr_less [OF Some] by (metis nth_append_length take_Suc_conv_app_nth length_take min.absorb4)
    moreover have "0 \<notin> set (drop (Suc i) p)" using 1(2) by (meson in_set_dropD)
    ultimately show ?thesis using 1(1) [OF Some] Some sp
      by (subst grep_lines.simps) (simp add: matching_lines_def file_lines_def)
  qed
qed

lemma matching_lines_append:
  "matching_lines re (xs @ ys) = matching_lines re xs @ matching_lines re (last (split_on NEWLINE xs) @ ys)"
  by (simp add: matching_lines_def file_lines_def split_on_append [of _ xs] butlast_append)

section \<open>Properties\<close>

text \<open>
  C22. The matcher decides the pattern language: a pattern is a sequence of bytes, dots and starred
  bytes or dots, possibly anchored by a leading caret or a final dollar, and \<^verbatim>\<open>match\<close> returns 1 exactly when a
  part of the text (at the start, up to the end when anchored) is in the pattern's language. The
  mutually recursive functions terminate on every input.
\<close>

theorem match_decides_language:
  "match_re re t \<longleftrightarrow>
     (\<exists>a u v. t = a @ u @ v \<and> in_lang (fst (pieces (if re \<noteq> [] \<and> hd re = CARET then tl re else re))) u \<and>
        (re \<noteq> [] \<and> hd re = CARET \<longrightarrow> a = []) \<and>
        (snd (pieces (if re \<noteq> [] \<and> hd re = CARET then tl re else re)) \<longrightarrow> v = []))"
  by (auto simp: match_re_def match_from_iff matchhere_lang prefix_match_def)

theorem match_decides_language_witness: "match_re [94, 97, 46, 42, 98, 36] [97, 120, 98, 98]"
proof -
  let ?re = "[94, 97, 46, 42, 98, 36] :: uint8 list"
  have p: "pieces (tl ?re) = ([One (Byte 97), Many AnyByte, One (Byte 98)], True)"
    by (simp add: STAR_def DOLLAR_def atom_of_def DOT_def)
  have "in_lang [One (Byte 97), Many AnyByte, One (Byte 98)] [97, 120, 98, 98]"
    by (rule in_lang.one, simp, rule in_lang.more, simp, rule in_lang.more, simp, rule in_lang.none, rule in_lang.one, simp, rule in_lang.nil)
  then show ?thesis using match_decides_language [of ?re "[97, 120, 98, 98]"] p by (fastforce simp: CARET_def)
qed

text \<open>The outer loop with \<open>pend\<close>, part of a line, at the front of the buffer.\<close>

lemma grep_pending:
  "0 \<notin> set inp \<Longrightarrow> 0 \<notin> set pend \<Longrightarrow> NEWLINE \<notin> set pend \<Longrightarrow> \<forall>l \<in> set (split_on NEWLINE (pend @ inp)). length l < 1023 \<Longrightarrow>
     grep re ks inp pend = matching_lines re (pend @ inp)"
proof (induction re ks inp pend rule: grep.induct)
  case (1 re ks inp pend)
  define got where "got = take (read_count ks (1024 - length pend - 1)) inp"
  have "length pend < 1023" using hd_split_on [OF 1(4), of inp] 1(5) by (meson hd_in_set le_less_trans split_on_not_Nil)
  then have pos: "0 < read_count ks (1024 - length pend - 1)" by (simp add: read_count_def split: list.splits)
  show ?case
  proof (cases "got = []")
    case True
    then have "inp = []" using pos by (simp add: got_def)
    then show ?thesis using True split_on_no_sep [OF 1(4)]
      by (subst grep.simps) (simp add: got_def matching_lines_def file_lines_def)
  next
    case False
    define rest where "rest = last (split_on NEWLINE (pend @ got))"
    have inp: "inp = got @ drop (length got) inp" by (auto simp: got_def min_def)
    have nz: "0 \<notin> set got" "0 \<notin> set (drop (length got) inp)" using 1(2) inp by (metis UnCI set_append)+
    have gl: "grep_lines re (pend @ got) = (matching_lines re (pend @ got), rest)"
      using grep_lines_split [of "pend @ got" re] nz 1(3) by (simp add: rest_def)
    have sp: "split_on NEWLINE (pend @ inp) = butlast (split_on NEWLINE (pend @ got)) @ split_on NEWLINE (rest @ drop (length got) inp)"
      using split_on_append [of NEWLINE "pend @ got" "drop (length got) inp"] inp by (simp add: rest_def)
    have r: "rest \<in> set (split_on NEWLINE (pend @ got))" by (simp add: rest_def)
    then have rest: "NEWLINE \<notin> set rest" "0 \<notin> set rest"
      using split_on_pieces [OF r] split_on_subset [OF r] nz(1) 1(3) by auto
    have "grep re (tl ks) (drop (length got) inp) rest = matching_lines re (rest @ drop (length got) inp)"
      using 1(1) [OF got_def False gl [symmetric] refl nz(2) rest(2,1)] 1(5) unfolding sp by simp
    moreover have "matching_lines re (pend @ inp) = matching_lines re (pend @ got) @ matching_lines re (rest @ drop (length got) inp)"
      using matching_lines_append [of re "pend @ got" "drop (length got) inp"] inp by (simp add: rest_def)
    ultimately show ?thesis
      using False gl by (subst grep.simps, unfold Let_def, fold got_def) simp
  qed
qed

text \<open>
  C30. However the reads cut the file, \<^verbatim>\<open>grep\<close> writes exactly the lines that match, in order and once
  each, provided no line is longer than its buffer and the file has no zero byte. An unfinished last
  line is not looked at.
\<close>

theorem grep_prints_matching_lines:
  assumes "0 \<notin> set inp" and "\<forall>l \<in> set (split_on NEWLINE inp). length l < 1023"
  shows "grep re ks inp [] = matching_lines re inp"
  using grep_pending [of inp "[]"] assms by simp

theorem grep_prints_matching_lines_witness:
  "grep [98] [0, 2] [97, 98, 10, 99, 10, 98, 10] [] = [[97, 98, 10], [98, 10]]"
proof -
  let ?inp = "[97, 98, 10, 99, 10, 98, 10] :: uint8 list"
  have sp: "split_on NEWLINE ?inp = [[97, 98], [99], [98], []]" by (simp add: NEWLINE_def)
  have m: "matchhere [98] (98 # t)" "\<not> matchhere [98] []" "c \<noteq> 98 \<Longrightarrow> \<not> matchhere [98] (c # t)" for c t
    by (simp_all add: matchhere.simps DOLLAR_def DOT_def)
  have "match_re [98] [97, 98]" "\<not> match_re [98] [99]" "match_re [98] [98]"
    by (simp_all add: match_re_def CARET_def match_from.simps m)
  then have "matching_lines [98] ?inp = [[97, 98, 10], [98, 10]]" by (simp add: matching_lines_def file_lines_def sp NEWLINE_def)
  then show ?thesis using grep_prints_matching_lines [of ?inp "[98]" "[0, 2]"] sp by simp
qed

text \<open>A line that does not fit in the buffer ends the loop: nothing after it is looked at.\<close>

theorem grep_stops_at_long_line:
  assumes "NEWLINE \<notin> set (take 1023 inp)" and "0 \<notin> set inp" and "1023 \<le> length inp"
  shows "grep re [] inp [] = []"
proof -
  have "split_on NEWLINE (take 1023 inp) = [take 1023 inp]" using assms(1) by (rule split_on_no_sep)
  moreover have "0 \<notin> set (take 1023 inp)" using assms(2) by (meson in_set_takeD)
  ultimately have gl: "grep_lines re (take 1023 inp) = ([], take 1023 inp)"
    by (simp add: grep_lines_split matching_lines_def file_lines_def)
  have full: "grep re [] (drop 1023 inp) (take 1023 inp) = []"
    using assms(3) by (subst grep.simps) (simp add: read_count_def)
  show ?thesis using assms(3) gl full by (subst grep.simps) (auto simp: read_count_def Let_def)
qed

end
