(* ===== verification/Shell.thy ===== *)
theory Shell
  imports Grep
begin

text \<open>
  user/sh.c: the parser of command lines. The line is a byte array \<open>b\<close> that the parser walks through with
  indices for the source's pointers; the parse functions return the command and the new position,
  and a call of \<^verbatim>\<open>panic\<close> is an outcome. The commands are built from indices into the line, which
  \<^verbatim>\<open>nulterminate\<close> then cuts into strings in place. That \<^verbatim>\<open>malloc\<close> has memory for the nodes is assumed.
  The lemmas show that parsing always ends and that the strings are the words of the line.
\<close>

section \<open>Commands\<close>

text \<open>
  The structures of the source: an argument or file name is the pair of the indices of its start and
  of its end. The arguments of an \<open>ExecCmd\<close> are the entries of \<^verbatim>\<open>argv\<close> before the null pointer.
\<close>

datatype cmd =
    ExecCmd "(nat \<times> nat) list"
  | RedirCmd cmd nat nat nat nat
  | PipeCmd cmd cmd
  | ListCmd cmd cmd
  | BackCmd cmd

definition MAXARGS :: nat where "MAXARGS = 10"

text \<open>kernel/fcntl.h: \<^verbatim>\<open>O_RDONLY\<close>, \<^verbatim>\<open>O_WRONLY|O_CREATE|O_TRUNC\<close>, \<^verbatim>\<open>O_WRONLY|O_CREATE\<close>.\<close>

definition MODE_READ :: nat where "MODE_READ = 0"
definition MODE_WRITE :: nat where "MODE_WRITE = 0x601"
definition MODE_APPEND :: nat where "MODE_APPEND = 0x201"

section \<open>Tokens\<close>

definition BAR :: uint8 where "BAR = 124"
definition LPAREN :: uint8 where "LPAREN = 40"
definition RPAREN :: uint8 where "RPAREN = 41"
definition SEMI :: uint8 where "SEMI = 59"
definition AMP :: uint8 where "AMP = 38"
definition LESS :: uint8 where "LESS = 60"
definition GREATER :: uint8 where "GREATER = 62"
definition PLUS :: uint8 where "PLUS = 43"
definition WORD :: uint8 where "WORD = 97"

definition whitespace :: "uint8 list" where
  "whitespace = [32, 9, 13, 10, 11]"

definition symbols :: "uint8 list" where
  "symbols = [LESS, BAR, GREATER, AMP, SEMI, LPAREN, RPAREN]"

text \<open>The byte at index \<open>s\<close>.\<close>

definition at :: "uint8 list \<Rightarrow> nat \<Rightarrow> uint8" where
  "at b s = (if s < length b then b ! s else 0)"

definition is_white :: "uint8 \<Rightarrow> bool" where
  "is_white c \<longleftrightarrow> strchr whitespace c \<noteq> None"

definition is_symbol :: "uint8 \<Rightarrow> bool" where
  "is_symbol c \<longleftrightarrow> strchr symbols c \<noteq> None"

text \<open>A loop \<^verbatim>\<open>while(s < es && ...) s++\<close>.\<close>

function skip_while :: "(uint8 \<Rightarrow> bool) \<Rightarrow> uint8 list \<Rightarrow> nat \<Rightarrow> nat \<Rightarrow> nat" where
  "skip_while P b es s = (if s < es \<and> P (at b s) then skip_while P b es (Suc s) else s)"
  by pat_completeness auto
termination
  by (relation "measure (\<lambda>(P, b, es, s). es - s)") auto

declare skip_while.simps [simp del]

text \<open>\<open>gettoken b es s\<close>: the kind of the token, \<^verbatim>\<open>*q\<close>, \<^verbatim>\<open>*eq\<close> and the new \<^verbatim>\<open>*ps\<close>.\<close>

definition gettoken :: "uint8 list \<Rightarrow> nat \<Rightarrow> nat \<Rightarrow> uint8 \<times> nat \<times> nat \<times> nat" where
  "gettoken b es s =
     (let q = skip_while is_white b es s;
          c = at b q;
          (ret, e) =
            (if c = 0 then (0, q)
             else if c = BAR \<or> c = LPAREN \<or> c = RPAREN \<or> c = SEMI \<or> c = AMP \<or> c = LESS then (c, q + 1)
             else if c = GREATER then (if at b (q + 1) = GREATER then (PLUS, q + 2) else (c, q + 1))
             else (WORD, skip_while (\<lambda>c. \<not> is_white c \<and> \<not> is_symbol c) b es q))
      in (ret, q, e, skip_while is_white b es e))"

definition peek :: "uint8 list \<Rightarrow> nat \<Rightarrow> uint8 list \<Rightarrow> nat \<Rightarrow> bool \<times> nat" where
  "peek b es toks s =
     (let s1 = skip_while is_white b es s in (at b s1 \<noteq> 0 \<and> strchr toks (at b s1) \<noteq> None, s1))"

section \<open>The parse functions\<close>

text \<open>
  \<open>fuel\<close> bounds the rounds of a loop and the depth of the recursion. Every round consumes a byte of
  the line.
\<close>

fun parseredirs :: "nat \<Rightarrow> uint8 list \<Rightarrow> nat \<Rightarrow> cmd \<Rightarrow> nat \<Rightarrow> (cmd \<times> nat) outcome" where
  "parseredirs fuel b es c s =
     (let (found, s1) = peek b es [LESS, GREATER] s in
      if \<not> found then Ok (c, s1)
      else case fuel of 0 \<Rightarrow> Spin | Suc k \<Rightarrow>
        let (tok, _, _, s2) = gettoken b es s1; (tok2, q, eq, s3) = gettoken b es s2 in
        if tok2 \<noteq> WORD then Panic ''missing file for redirection''
        else parseredirs k b es
          (if tok = LESS then RedirCmd c q eq MODE_READ 0
           else if tok = GREATER then RedirCmd c q eq MODE_WRITE 1
           else if tok = PLUS then RedirCmd c q eq MODE_APPEND 1 else c) s3)"

declare parseredirs.simps [simp del]

text \<open>
  \<^verbatim>\<open>parseexec\<close> adds arguments to the \<^verbatim>\<open>execcmd\<close> it has made while \<^verbatim>\<open>parseredirs\<close> wraps redirections around it.
\<close>

fun argc :: "cmd \<Rightarrow> nat" where
  "argc (ExecCmd args) = length args"
| "argc (RedirCmd c q eq mode fd) = argc c"
| "argc _ = 0"

fun add_arg :: "nat \<Rightarrow> nat \<Rightarrow> cmd \<Rightarrow> cmd" where
  "add_arg q eq (ExecCmd args) = ExecCmd (args @ [(q, eq)])"
| "add_arg q eq (RedirCmd c f ef mode fd) = RedirCmd (add_arg q eq c) f ef mode fd"
| "add_arg q eq c = c"

fun parseargs :: "nat \<Rightarrow> uint8 list \<Rightarrow> nat \<Rightarrow> cmd \<Rightarrow> nat \<Rightarrow> (cmd \<times> nat) outcome" where
  "parseargs fuel b es c s =
     (let (stop, s1) = peek b es [BAR, RPAREN, AMP, SEMI] s in
      if stop then Ok (c, s1)
      else let (tok, q, eq, s2) = gettoken b es s1 in
        if tok = 0 then Ok (c, s2)
        else if tok \<noteq> WORD then Panic ''syntax''
        else if argc c + 1 \<ge> MAXARGS then Panic ''too many args''
        else case fuel of 0 \<Rightarrow> Spin | Suc k \<Rightarrow>
          andThen (parseredirs (length b) b es (add_arg q eq c) s2) (\<lambda>(c, s3). parseargs k b es c s3))"

declare parseargs.simps [simp del]

text \<open>The loop of \<^verbatim>\<open>parseline\<close> over ampersands.\<close>

fun parseback :: "nat \<Rightarrow> uint8 list \<Rightarrow> nat \<Rightarrow> cmd \<Rightarrow> nat \<Rightarrow> (cmd \<times> nat) outcome" where
  "parseback fuel b es c s =
     (let (found, s1) = peek b es [AMP] s in
      if \<not> found then Ok (c, s1)
      else case fuel of 0 \<Rightarrow> Spin | Suc k \<Rightarrow>
        let (_, _, _, s2) = gettoken b es s1 in parseback k b es (BackCmd c) s2)"

declare parseback.simps [simp del]

function (sequential) parseline :: "nat \<Rightarrow> uint8 list \<Rightarrow> nat \<Rightarrow> nat \<Rightarrow> (cmd \<times> nat) outcome"
  and parsepipe :: "nat \<Rightarrow> uint8 list \<Rightarrow> nat \<Rightarrow> nat \<Rightarrow> (cmd \<times> nat) outcome"
  and parseblock :: "nat \<Rightarrow> uint8 list \<Rightarrow> nat \<Rightarrow> nat \<Rightarrow> (cmd \<times> nat) outcome"
  and parseexec :: "nat \<Rightarrow> uint8 list \<Rightarrow> nat \<Rightarrow> nat \<Rightarrow> (cmd \<times> nat) outcome" where
  "parseline 0 b es s = Spin"
| "parseline (Suc fuel) b es s =
     andThen (parsepipe fuel b es s) (\<lambda>(c, s1).
     andThen (parseback (length b) b es c s1) (\<lambda>(c, s2).
     let (found, s3) = peek b es [SEMI] s2 in
     if found then
       let (_, _, _, s4) = gettoken b es s3 in
       andThen (parseline fuel b es s4) (\<lambda>(c2, s5). Ok (ListCmd c c2, s5))
     else Ok (c, s3)))"
| "parsepipe 0 b es s = Spin"
| "parsepipe (Suc fuel) b es s =
     andThen (parseexec fuel b es s) (\<lambda>(c, s1).
     let (found, s2) = peek b es [BAR] s1 in
     if found then
       let (_, _, _, s3) = gettoken b es s2 in
       andThen (parsepipe fuel b es s3) (\<lambda>(c2, s4). Ok (PipeCmd c c2, s4))
     else Ok (c, s2))"
| "parseblock 0 b es s = Spin"
| "parseblock (Suc fuel) b es s =
     (let (found, s1) = peek b es [LPAREN] s in
      if \<not> found then Panic ''parseblock''
      else let (_, _, _, s2) = gettoken b es s1 in
        andThen (parseline fuel b es s2) (\<lambda>(c, s3).
        let (found, s4) = peek b es [RPAREN] s3 in
        if \<not> found then Panic ''syntax - missing )''
        else let (_, _, _, s5) = gettoken b es s4 in parseredirs (length b) b es c s5))"
| "parseexec 0 b es s = Spin"
| "parseexec (Suc fuel) b es s =
     (let (found, s1) = peek b es [LPAREN] s in
      if found then parseblock fuel b es s1
      else
        andThen (parseredirs (length b) b es (ExecCmd []) s1) (\<lambda>(c, s2).
        parseargs (length b) b es c s2))"
  by pat_completeness auto
termination
  by (relation "measure (\<lambda>x. case x of Inl (Inl (fuel, _)) \<Rightarrow> fuel | Inl (Inr (fuel, _)) \<Rightarrow> fuel
      | Inr (Inl (fuel, _)) \<Rightarrow> fuel | Inr (Inr (fuel, _)) \<Rightarrow> fuel)") simp_all

text \<open>\<^verbatim>\<open>nulterminate\<close>: the line after the writes, in the order of the source.\<close>

fun nulterminate :: "cmd \<Rightarrow> uint8 list \<Rightarrow> uint8 list" where
  "nulterminate (ExecCmd args) b = fold (\<lambda>(q, eq) b. b[eq := 0]) args b"
| "nulterminate (RedirCmd c q eq mode fd) b = (nulterminate c b)[eq := 0]"
| "nulterminate (PipeCmd l r) b = nulterminate r (nulterminate l b)"
| "nulterminate (ListCmd l r) b = nulterminate r (nulterminate l b)"
| "nulterminate (BackCmd c) b = nulterminate c b"

text \<open>\<^verbatim>\<open>parsecmd\<close> on the string at the start of \<open>b\<close>.\<close>

definition parsecmd :: "uint8 list \<Rightarrow> (cmd \<times> uint8 list) outcome" where
  "parsecmd b =
     (let es = length (takeWhile (\<lambda>c. c \<noteq> 0) b) in
      andThen (parseline (4 * es + 4) b es 0) (\<lambda>(c, s).
      let (_, s1) = peek b es [] s in
      if s1 \<noteq> es then Panic ''syntax'' else Ok (c, nulterminate c b)))"

section \<open>Tokens of a line\<close>

text \<open>\<open>es\<close> is the end of the string at the start of \<open>b\<close>.\<close>

definition line :: "uint8 list \<Rightarrow> nat \<Rightarrow> bool" where
  "line b es \<longleftrightarrow> es < length b \<and> at b es = 0 \<and> (\<forall>i < es. at b i \<noteq> 0)"

definition separator :: "uint8 \<Rightarrow> bool" where
  "separator c \<longleftrightarrow> is_white c \<or> is_symbol c"

text \<open>A word: a maximal run of bytes that are neither blanks nor symbols.\<close>

definition word_at :: "uint8 list \<Rightarrow> nat \<Rightarrow> nat \<Rightarrow> nat \<Rightarrow> bool" where
  "word_at b es q e \<longleftrightarrow> q < e \<and> e \<le> es \<and> (\<forall>i. q \<le> i \<and> i < e \<longrightarrow> \<not> separator (at b i)) \<and> (e < es \<longrightarrow> separator (at b e))"

lemmas token_defs = BAR_def LPAREN_def RPAREN_def SEMI_def AMP_def LESS_def GREATER_def PLUS_def WORD_def

lemma is_white_iff: "is_white c \<longleftrightarrow> c \<in> set whitespace"
  using strchr_None [of whitespace c] by (simp add: is_white_def whitespace_def)

lemma is_symbol_iff: "is_symbol c \<longleftrightarrow> c = LESS \<or> c = BAR \<or> c = GREATER \<or> c = AMP \<or> c = SEMI \<or> c = LPAREN \<or> c = RPAREN"
  using strchr_None [of symbols c] by (auto simp: is_symbol_def symbols_def token_defs)

lemma skip_while_spec:
  "s \<le> es \<Longrightarrow> s \<le> skip_while P b es s \<and> skip_while P b es s \<le> es \<and>
     (\<forall>i. s \<le> i \<and> i < skip_while P b es s \<longrightarrow> P (at b i)) \<and> (skip_while P b es s < es \<longrightarrow> \<not> P (at b (skip_while P b es s)))"
proof (induction P b es s rule: skip_while.induct)
  case (1 P b es s)
  show ?case
  proof (cases "s < es \<and> P (at b s)")
    case True
    then have IH: "Suc s \<le> skip_while P b es (Suc s) \<and> skip_while P b es (Suc s) \<le> es \<and>
        (\<forall>i. Suc s \<le> i \<and> i < skip_while P b es (Suc s) \<longrightarrow> P (at b i)) \<and>
        (skip_while P b es (Suc s) < es \<longrightarrow> \<not> P (at b (skip_while P b es (Suc s))))" using 1(1) by simp
    have eq: "skip_while P b es s = skip_while P b es (Suc s)" using True by (subst skip_while.simps) simp
    have "P (at b i)" if "s \<le> i" "i < skip_while P b es (Suc s)" for i using that IH True by (cases "i = s") auto
    then show ?thesis unfolding eq using IH by auto
  next
    case False
    then have "skip_while P b es s = s" by (subst skip_while.simps) auto
    then show ?thesis using False 1(2) by auto
  qed
qed

lemma line_end: "line b es \<Longrightarrow> s \<le> es \<Longrightarrow> at b s \<noteq> 0 \<Longrightarrow> s < es"
  by (cases "s = es") (auto simp: line_def)

lemma peek_spec:
  assumes "line b es" and "s \<le> es" and "peek b es toks s = (found, s1)" and "0 \<notin> set toks"
  shows "s \<le> s1" "s1 \<le> es" "found \<Longrightarrow> s1 < es \<and> at b s1 \<in> set toks \<and> \<not> is_white (at b s1)"
proof -
  note sk = skip_while_spec [OF assms(2), of is_white b]
  have s1: "s1 = skip_while is_white b es s" "found = (at b s1 \<noteq> 0 \<and> strchr toks (at b s1) \<noteq> None)" using assms(3) by (auto simp: peek_def Let_def)
  show "s \<le> s1" "s1 \<le> es" using sk s1 by auto
  show "found \<Longrightarrow> s1 < es \<and> at b s1 \<in> set toks \<and> \<not> is_white (at b s1)"
    using line_end [OF assms(1), of s1] sk s1 strchr_None [OF assms(4), of "at b s1"] by auto
qed

lemma gettoken_spec:
  assumes l: "line b es" and s: "s \<le> es" and g: "gettoken b es s = (t, q, e, s')"
  shows "s \<le> s'" "s' \<le> es" "t = WORD \<Longrightarrow> word_at b es q e" "t \<noteq> 0 \<Longrightarrow> s < s'" "at b s \<noteq> 0 \<Longrightarrow> \<not> is_white (at b s) \<Longrightarrow> t \<noteq> 0"
proof -
  define c where "c = at b q"
  define w where "w = skip_while (\<lambda>c. \<not> is_white c \<and> \<not> is_symbol c) b es q"
  have q: "q = skip_while is_white b es s" using g by (auto simp: gettoken_def Let_def split: prod.splits)
  note skq = skip_while_spec [OF s, of is_white b, folded q]
  have te: "(t, e) = (if c = 0 then (0, q)
      else if c = BAR \<or> c = LPAREN \<or> c = RPAREN \<or> c = SEMI \<or> c = AMP \<or> c = LESS then (c, q + 1)
      else if c = GREATER then (if at b (q + 1) = GREATER then (PLUS, q + 2) else (c, q + 1))
      else (WORD, w))" and s': "s' = skip_while is_white b es e"
    using g unfolding gettoken_def Let_def q [symmetric] c_def [symmetric] w_def [symmetric] by (auto split: prod.splits)
  have qs: "c \<noteq> 0 \<Longrightarrow> q < es" using line_end [OF l, of q] skq by (simp add: c_def)
  have w: "\<not> separator c \<Longrightarrow> c \<noteq> 0 \<Longrightarrow> word_at b es q w"
    using skip_while_spec [of q es "\<lambda>c. \<not> is_white c \<and> \<not> is_symbol c" b, folded w_def] qs skq
    unfolding word_at_def separator_def c_def by (metis le_neq_implies_less order_less_imp_le le_eq_less_or_eq)
  have nw: "c \<noteq> 0 \<Longrightarrow> \<not> is_white c" using skq qs by (auto simp: c_def)
  have gg: "at b (q + 1) = GREATER \<Longrightarrow> c \<noteq> 0 \<Longrightarrow> q + 2 \<le> es"
    using line_end [OF l, of "q + 1"] qs by (simp add: token_defs)
  have key: "e \<le> es \<and> q \<le> e \<and> (t = WORD \<longrightarrow> word_at b es q e) \<and> (t \<noteq> 0 \<longrightarrow> q < e) \<and> (c \<noteq> 0 \<longrightarrow> t \<noteq> 0)"
  proof -
    consider (zero) "c = 0" | (sym) "c \<noteq> 0" "c = BAR \<or> c = LPAREN \<or> c = RPAREN \<or> c = SEMI \<or> c = AMP \<or> c = LESS" | (greater) "c = GREATER"
      | (word) "c \<noteq> 0" "\<not> is_symbol c" unfolding is_symbol_iff by blast
    then show ?thesis
    proof cases
      case zero
      then have "t = 0" "e = q" using te by simp_all
      then show ?thesis using zero skq by (simp add: WORD_def)
    next
      case sym
      then have "t = c" "e = q + 1" using te by simp_all
      moreover have "c \<noteq> WORD" using sym(2) by (auto simp: token_defs)
      ultimately show ?thesis using qs sym(1) by simp
    next
      case greater
      then have "(t, e) = (if at b (q + 1) = GREATER then (PLUS, q + 2) else (GREATER, q + 1))" using te by (simp add: token_defs)
      moreover have "c \<noteq> 0" using greater by (simp add: token_defs)
      ultimately show ?thesis using qs gg by (auto simp: token_defs split: if_splits)
    next
      case word
      then have "t = WORD" "e = w" using te unfolding is_symbol_iff by auto
      moreover have "word_at b es q w" using w nw word by (simp add: separator_def)
      ultimately show ?thesis by (auto simp: word_at_def WORD_def)
    qed
  qed
  then have sk': "e \<le> s' \<and> s' \<le> es" using skip_while_spec [of e es is_white b] s' by simp
  show "s \<le> s'" "s' \<le> es" "t = WORD \<Longrightarrow> word_at b es q e" "t \<noteq> 0 \<Longrightarrow> s < s'" using key sk' skq by auto
  show "t \<noteq> 0" if "at b s \<noteq> 0" "\<not> is_white (at b s)"
  proof -
    have "q = s" using that(2) unfolding q by (subst skip_while.simps) simp
    then show ?thesis using key that(1) by (simp add: c_def)
  qed
qed

section \<open>Parsing\<close>

fun cmd_ok :: "uint8 list \<Rightarrow> nat \<Rightarrow> cmd \<Rightarrow> bool" where
  "cmd_ok b es (ExecCmd args) \<longleftrightarrow> length args < MAXARGS \<and> (\<forall>(q, e) \<in> set args. word_at b es q e)"
| "cmd_ok b es (RedirCmd c q e mode fd) \<longleftrightarrow> cmd_ok b es c \<and> word_at b es q e"
| "cmd_ok b es (PipeCmd l r) \<longleftrightarrow> cmd_ok b es l \<and> cmd_ok b es r"
| "cmd_ok b es (ListCmd l r) \<longleftrightarrow> cmd_ok b es l \<and> cmd_ok b es r"
| "cmd_ok b es (BackCmd c) \<longleftrightarrow> cmd_ok b es c"

definition parse_errors :: "string set" where
  "parse_errors = {''syntax'', ''too many args'', ''missing file for redirection'', ''syntax - missing )''}"

text \<open>What a parse function called at \<open>s\<close> may do.\<close>

fun parsed :: "uint8 list \<Rightarrow> nat \<Rightarrow> nat \<Rightarrow> (cmd \<times> nat) outcome \<Rightarrow> bool" where
  "parsed b es s (Ok (c, s')) \<longleftrightarrow> s \<le> s' \<and> s' \<le> es \<and> cmd_ok b es c"
| "parsed b es s (Panic msg) \<longleftrightarrow> msg \<in> parse_errors"
| "parsed b es s Spin \<longleftrightarrow> False"

lemma parsed_bind:
  assumes "parsed b es s m" and "\<And>c s1. s \<le> s1 \<Longrightarrow> s1 \<le> es \<Longrightarrow> cmd_ok b es c \<Longrightarrow> parsed b es s (f (c, s1))"
  shows "parsed b es s (andThen m f)"
proof (cases m)
  case (Ok x)
  then show ?thesis using assms by (cases x) simp
qed (use assms in simp_all)

lemma parsed_mono: "parsed b es s' m \<Longrightarrow> s \<le> s' \<Longrightarrow> parsed b es s m"
  by (cases "(b, es, s', m)" rule: parsed.cases) auto

lemma line_room: "line b es \<Longrightarrow> es - s \<le> length b"
  by (auto simp: line_def)

text \<open>Looking at a symbol and taking it moves on.\<close>

lemma peek_gettoken:
  assumes l: "line b es" and s: "s \<le> es" and p: "peek b es toks s = (found, s1)" "0 \<notin> set toks" found and g: "gettoken b es s1 = (t, q, e, s2)"
  shows "s < s2" "s2 \<le> es" "s1 < s2"
proof -
  note pk = peek_spec [OF l s p(1,2)]
  have f: "s1 < es" "\<not> is_white (at b s1)" using pk(3) p(3) by simp_all
  then have "at b s1 \<noteq> 0" using l by (simp add: line_def)
  note gt = gettoken_spec [OF l less_imp_le [OF f(1)] g]
  show "s1 < s2" "s2 \<le> es" using gt(2,4,5) f(2) \<open>at b s1 \<noteq> 0\<close> by simp_all
  then show "s < s2" using pk(1) by simp
qed

lemma toks_nonzero:
  "(0 :: uint8) \<notin> set [LESS, GREATER]" "(0 :: uint8) \<notin> set [BAR, RPAREN, AMP, SEMI]" "(0 :: uint8) \<notin> set [AMP]" "(0 :: uint8) \<notin> set [SEMI]"
  "(0 :: uint8) \<notin> set [BAR]" "(0 :: uint8) \<notin> set [LPAREN]" "(0 :: uint8) \<notin> set [RPAREN]" "(0 :: uint8) \<notin> set []"
  by (simp_all add: token_defs)

lemma parseredirs_parsed:
  assumes l: "line b es"
  shows "s \<le> es \<Longrightarrow> cmd_ok b es c \<Longrightarrow> es - s \<le> fuel \<Longrightarrow> parsed b es s (parseredirs fuel b es c s)"
proof (induction fuel arbitrary: c s)
  case (0 c s)
  obtain found s1 where p: "peek b es [LESS, GREATER] s = (found, s1)" by fastforce
  note pk = peek_spec [OF l 0(1) p toks_nonzero(1)]
  have "\<not> found" using pk 0(3) by auto
  then show ?case using p pk(1,2) 0(2) by (subst parseredirs.simps) simp
next
  case (Suc k c s)
  obtain found s1 where p: "peek b es [LESS, GREATER] s = (found, s1)" by fastforce
  note pk = peek_spec [OF l Suc(2) p toks_nonzero(1)]
  show ?case
  proof (cases found)
    case False
    then show ?thesis using p pk(1,2) Suc(3) by (subst parseredirs.simps) simp
  next
    case True
    obtain t q0 e0 s2 t2 q e s3 where g: "gettoken b es s1 = (t, q0, e0, s2)" "gettoken b es s2 = (t2, q, e, s3)" by (metis prod_cases4)
    note mv = peek_gettoken [OF l Suc(2) p toks_nonzero(1) True g(1)] and gt = gettoken_spec [OF l _ g(2)]
    define c' where "c' = (if t = LESS then RedirCmd c q e MODE_READ 0 else if t = GREATER then RedirCmd c q e MODE_WRITE 1
       else if t = PLUS then RedirCmd c q e MODE_APPEND 1 else c)"
    have eq: "parseredirs (Suc k) b es c s = (if t2 \<noteq> WORD then Panic ''missing file for redirection'' else parseredirs k b es c' s3)"
      using p True g by (subst parseredirs.simps) (simp add: c'_def)
    show ?thesis
    proof (cases "t2 = WORD")
      case True
      then have "cmd_ok b es c'" using Suc(3) gt(3) mv(2) by (simp add: c'_def)
      moreover have "s < s3" "s3 \<le> es" using mv gt(1,2) by simp_all
      ultimately have "parsed b es s3 (parseredirs k b es c' s3)" using Suc.IH Suc(4) by simp
      then show ?thesis unfolding eq using True \<open>s < s3\<close> by (auto intro: parsed_mono)
    next
      case False
      then show ?thesis unfolding eq by (simp add: parse_errors_def)
    qed
  qed
qed

lemma add_arg_ok: "cmd_ok b es c \<Longrightarrow> word_at b es q e \<Longrightarrow> Suc (argc c) < MAXARGS \<Longrightarrow> cmd_ok b es (add_arg q e c)"
  by (induction q e c rule: add_arg.induct) auto

lemma parseargs_parsed:
  assumes l: "line b es"
  shows "s \<le> es \<Longrightarrow> cmd_ok b es c \<Longrightarrow> es - s \<le> fuel \<Longrightarrow> parsed b es s (parseargs fuel b es c s)"
proof (induction fuel arbitrary: c s rule: less_induct)
  case (less fuel)
  obtain stop s1 t q e s2 where p: "peek b es [BAR, RPAREN, AMP, SEMI] s = (stop, s1)" and g: "gettoken b es s1 = (t, q, e, s2)" by (metis prod_cases4 surj_pair)
  note pk = peek_spec [OF l less(2) p toks_nonzero(2)]
  note gt = gettoken_spec [OF l pk(2) g]
  consider (stop) stop | (finish) "\<not> stop" "t = 0" | (bad) "\<not> stop" "t \<noteq> 0" "t \<noteq> WORD" | (many) "\<not> stop" "t \<noteq> 0" "t = WORD" "argc c + 1 \<ge> MAXARGS"
    | (word) "\<not> stop" "t \<noteq> 0" "t = WORD" "argc c + 1 < MAXARGS" by linarith
  then show ?case
  proof cases
    case stop
    then show ?thesis using p pk(1,2) less(3) by (subst parseargs.simps) simp
  next
    case finish
    then show ?thesis using p g pk(1) gt(1,2) less(3) by (subst parseargs.simps) simp
  next
    case bad
    then show ?thesis using p g by (subst parseargs.simps) (simp add: parse_errors_def)
  next
    case many
    then show ?thesis using p g by (subst parseargs.simps) (simp add: parse_errors_def)
  next
    case word
    have mv: "s < s2" "s2 \<le> es" using pk(1) gt(2,4) word(2) by auto
    then obtain k where k: "fuel = Suc k" using less(4) by (cases fuel) auto
    have eq: "parseargs fuel b es c s = andThen (parseredirs (length b) b es (add_arg q e c) s2) (\<lambda>(c, s3). parseargs k b es c s3)"
      using word p g k by (subst parseargs.simps) simp
    have "cmd_ok b es (add_arg q e c)" using less(3) gt(3) word by (intro add_arg_ok) simp_all
    moreover have "es - s2 \<le> length b" by (rule line_room [OF l])
    ultimately have "parsed b es s2 (parseredirs (length b) b es (add_arg q e c) s2)" using parseredirs_parsed [OF l mv(2)] by blast
    then have "parsed b es s2 (parseargs fuel b es c s)" unfolding eq
    proof (rule parsed_bind)
      fix c s3 assume a: "s2 \<le> s3" "s3 \<le> es" "cmd_ok b es c"
      then have "parsed b es s3 (parseargs k b es c s3)" using less(1) [of k] k mv less(4) by simp
      then show "parsed b es s2 (case (c, s3) of (c, s3) \<Rightarrow> parseargs k b es c s3)" using a(1) by (auto intro: parsed_mono)
    qed
    then show ?thesis using mv(1) by (auto intro: parsed_mono)
  qed
qed

lemma parseback_parsed:
  assumes l: "line b es"
  shows "s \<le> es \<Longrightarrow> cmd_ok b es c \<Longrightarrow> es - s \<le> fuel \<Longrightarrow> parsed b es s (parseback fuel b es c s)"
proof (induction fuel arbitrary: c s rule: less_induct)
  case (less fuel)
  obtain found s1 t q e s2 where p: "peek b es [AMP] s = (found, s1)" and g: "gettoken b es s1 = (t, q, e, s2)" by (metis prod_cases4 surj_pair)
  note pk = peek_spec [OF l less(2) p toks_nonzero(3)]
  show ?case
  proof (cases found)
    case False
    then show ?thesis using p pk(1,2) less(3) by (subst parseback.simps) simp
  next
    case True
    note mv = peek_gettoken [OF l less(2) p toks_nonzero(3) True g]
    then obtain k where k: "fuel = Suc k" using less(4) by (cases fuel) auto
    have "parseback fuel b es c s = parseback k b es (BackCmd c) s2" using True p g k by (subst parseback.simps) simp
    moreover have "parsed b es s2 (parseback k b es (BackCmd c) s2)" using less(1) [of k s2 "BackCmd c"] less(3,4) k mv by simp
    ultimately show ?thesis using mv(1) by (auto intro: parsed_mono)
  qed
qed

text \<open>The mutually recursive functions; four levels of the recursion consume a byte.\<close>

definition parses :: "nat \<Rightarrow> uint8 list \<Rightarrow> nat \<Rightarrow> bool" where
  "parses fuel b es \<longleftrightarrow> (\<forall>s \<le> es.
     (4 * (es - s) + 4 \<le> fuel \<longrightarrow> parsed b es s (parseline fuel b es s)) \<and>
     (4 * (es - s) + 3 \<le> fuel \<longrightarrow> parsed b es s (parsepipe fuel b es s)) \<and>
     (4 * (es - s) + 2 \<le> fuel \<longrightarrow> parsed b es s (parseexec fuel b es s)) \<and>
     (4 * (es - s) + 1 \<le> fuel \<longrightarrow> fst (peek b es [LPAREN] s) \<longrightarrow> parsed b es s (parseblock fuel b es s)))"

lemma parsesD:
  assumes "parses fuel b es" and "s \<le> es"
  shows "4 * (es - s) + 4 \<le> fuel \<Longrightarrow> parsed b es s (parseline fuel b es s)"
    "4 * (es - s) + 3 \<le> fuel \<Longrightarrow> parsed b es s (parsepipe fuel b es s)"
    "4 * (es - s) + 2 \<le> fuel \<Longrightarrow> parsed b es s (parseexec fuel b es s)"
    "4 * (es - s) + 1 \<le> fuel \<Longrightarrow> fst (peek b es [LPAREN] s) \<Longrightarrow> parsed b es s (parseblock fuel b es s)"
  using assms by (simp_all add: parses_def)

lemma parseline_step:
  assumes l: "line b es" and P: "parses fuel b es" and s: "s \<le> es" "4 * (es - s) + 4 \<le> Suc fuel"
  shows "parsed b es s (parseline (Suc fuel) b es s)"
  unfolding parseline.simps
proof (rule parsed_bind [OF parsesD(2) [OF P s(1)]])
  fix c s1 assume a: "s \<le> s1" "s1 \<le> es" "cmd_ok b es c"
  have bck: "parsed b es s (parseback (length b) b es c s1)"
    by (rule parsed_mono [OF parseback_parsed [OF l a(2,3) line_room [OF l]] a(1)])
  show "parsed b es s (case (c, s1) of (c, s1) \<Rightarrow> andThen (parseback (length b) b es c s1) (\<lambda>(c, s2). let (found, s3) = peek b es [SEMI] s2 in if found then let (_, _, _, s4) = gettoken b es s3 in
        andThen (parseline fuel b es s4) (\<lambda>(c2, s5). Ok (ListCmd c c2, s5)) else Ok (c, s3)))"
    unfolding prod.case
  proof (rule parsed_bind [OF bck])
    fix c s2 assume b: "s \<le> s2" "s2 \<le> es" "cmd_ok b es c"
    obtain found s3 t q e s4 where p: "peek b es [SEMI] s2 = (found, s3)" and g: "gettoken b es s3 = (t, q, e, s4)" by (metis prod_cases4 surj_pair)
    note pk = peek_spec [OF l b(2) p toks_nonzero(4)] and mv = peek_gettoken [OF l b(2) p toks_nonzero(4) _ g]
    have "parsed b es s (andThen (parseline fuel b es s4) (\<lambda>(c2, s5). Ok (ListCmd c c2, s5)))" if found
    proof -
      have m: "s < s4" "s4 \<le> es" using mv [OF that] b(1) by simp_all
      then have "parsed b es s4 (parseline fuel b es s4)" using parsesD(1) [OF P m(2)] s(2) by simp
      then have "parsed b es s (parseline fuel b es s4)" using m(1) by (auto intro: parsed_mono)
      then show ?thesis by (rule parsed_bind) (simp add: b(3))
    qed
    then show "parsed b es s (case (c, s2) of (c, s2) \<Rightarrow> let (found, s3) = peek b es [SEMI] s2 in
        if found then let (_, _, _, s4) = gettoken b es s3 in andThen (parseline fuel b es s4) (\<lambda>(c2, s5). Ok (ListCmd c c2, s5)) else Ok (c, s3))"
      using p g pk(1,2) b by simp
  qed
qed (use s(2) in simp)

lemma parsepipe_step:
  assumes l: "line b es" and P: "parses fuel b es" and s: "s \<le> es" "4 * (es - s) + 3 \<le> Suc fuel"
  shows "parsed b es s (parsepipe (Suc fuel) b es s)"
  unfolding parsepipe.simps
proof (rule parsed_bind [OF parsesD(3) [OF P s(1)]])
  fix c s1 assume a: "s \<le> s1" "s1 \<le> es" "cmd_ok b es c"
  obtain found s2 t q e s3 where p: "peek b es [BAR] s1 = (found, s2)" and g: "gettoken b es s2 = (t, q, e, s3)" by (metis prod_cases4 surj_pair)
  note pk = peek_spec [OF l a(2) p toks_nonzero(5)] and mv = peek_gettoken [OF l a(2) p toks_nonzero(5) _ g]
  have "parsed b es s (andThen (parsepipe fuel b es s3) (\<lambda>(c2, s4). Ok (PipeCmd c c2, s4)))" if found
  proof -
    have m: "s < s3" "s3 \<le> es" using mv [OF that] a(1) by simp_all
    then have "parsed b es s3 (parsepipe fuel b es s3)" using parsesD(2) [OF P m(2)] s(2) by simp
    then have "parsed b es s (parsepipe fuel b es s3)" using m(1) by (auto intro: parsed_mono)
    then show ?thesis by (rule parsed_bind) (simp add: a(3))
  qed
  then show "parsed b es s (case (c, s1) of (c, s1) \<Rightarrow> let (found, s2) = peek b es [BAR] s1 in
      if found then let (_, _, _, s3) = gettoken b es s2 in andThen (parsepipe fuel b es s3) (\<lambda>(c2, s4). Ok (PipeCmd c c2, s4)) else Ok (c, s2))"
    using p g pk(1,2) a by simp
qed (use s(2) in simp)

lemma parseblock_step:
  assumes l: "line b es" and P: "parses fuel b es" and s: "s \<le> es" "4 * (es - s) + 1 \<le> Suc fuel" "fst (peek b es [LPAREN] s)"
  shows "parsed b es s (parseblock (Suc fuel) b es s)"
proof -
  obtain s1 t q e s2 where p: "peek b es [LPAREN] s = (True, s1)" and g: "gettoken b es s1 = (t, q, e, s2)" using s(3) by (metis prod_cases4 prod.collapse)
  note mv = peek_gettoken [OF l s(1) p toks_nonzero(6) TrueI g]
  have "parsed b es s2 (parseline fuel b es s2)" using parsesD(1) [OF P mv(2)] s(2) mv(1,2) by simp
  then have inner: "parsed b es s (parseline fuel b es s2)" using mv(1) by (auto intro: parsed_mono)
  have "parsed b es s (andThen (parseline fuel b es s2) (\<lambda>(c, s3). let (found, s4) = peek b es [RPAREN] s3 in
      if \<not> found then Panic ''syntax - missing )'' else let (_, _, _, s5) = gettoken b es s4 in parseredirs (length b) b es c s5))"
  proof (rule parsed_bind [OF inner])
    fix c s3 assume a: "s \<le> s3" "s3 \<le> es" "cmd_ok b es c"
    obtain found s4 t q e s5 where p: "peek b es [RPAREN] s3 = (found, s4)" and g: "gettoken b es s4 = (t, q, e, s5)" by (metis prod_cases4 surj_pair)
    note mv = peek_gettoken [OF l a(2) p toks_nonzero(7) _ g]
    have "parsed b es s (parseredirs (length b) b es c s5)" if found
      by (rule parsed_mono [OF parseredirs_parsed [OF l _ a(3) line_room [OF l]]]) (use mv [OF that] a(1) in simp_all)
    then show "parsed b es s (case (c, s3) of (c, s3) \<Rightarrow> let (found, s4) = peek b es [RPAREN] s3 in
        if \<not> found then Panic ''syntax - missing )'' else let (_, _, _, s5) = gettoken b es s4 in parseredirs (length b) b es c s5)"
      using p g by (simp add: parse_errors_def)
  qed
  then show ?thesis using p g by simp
qed

lemma parseexec_step:
  assumes l: "line b es" and P: "parses fuel b es" and s: "s \<le> es" "4 * (es - s) + 2 \<le> Suc fuel"
  shows "parsed b es s (parseexec (Suc fuel) b es s)"
proof -
  obtain found s1 where p: "peek b es [LPAREN] s = (found, s1)" by fastforce
  note pk = peek_spec [OF l s(1) p toks_nonzero(6)]
  have block: "parsed b es s (parseblock fuel b es s1)" if found
  proof -
    have "\<not> is_white (at b s1)" using pk(3) [OF that] by blast
    then have "skip_while is_white b es s1 = s1" by (subst skip_while.simps) simp
    then have "fst (peek b es [LPAREN] s1)" using that p by (auto simp: peek_def Let_def simp del: strchr.simps)
    then have "parsed b es s1 (parseblock fuel b es s1)" using parsesD(4) [OF P pk(2)] pk(1,2) s(2) by simp
    then show ?thesis using pk(1) by (auto intro: parsed_mono)
  qed
  have "parsed b es s1 (parseredirs (length b) b es (ExecCmd []) s1)"
    using parseredirs_parsed [OF l pk(2) _ line_room [OF l]] by (simp add: MAXARGS_def)
  then have "parsed b es s1 (andThen (parseredirs (length b) b es (ExecCmd []) s1) (\<lambda>(c, s2). parseargs (length b) b es c s2))"
    by (rule parsed_bind) (use parseargs_parsed [OF l _ _ line_room [OF l]] in \<open>auto intro: parsed_mono\<close>)
  then show ?thesis using p block pk(1) by (auto intro: parsed_mono)
qed

lemma parse_all: "line b es \<Longrightarrow> parses fuel b es"
proof (induction fuel)
  case 0
  show ?case by (simp add: parses_def)
next
  case (Suc fuel)
  note l = Suc(2) and P = Suc(1) [OF Suc(2)]
  show ?case unfolding parses_def
    using parseline_step [OF l P] parsepipe_step [OF l P] parseexec_step [OF l P] parseblock_step [OF l P] by blast
qed

section \<open>Cutting the line into strings\<close>

text \<open>The words of a command, and the string at an index.\<close>

fun cmd_words :: "cmd \<Rightarrow> (nat \<times> nat) list" where
  "cmd_words (ExecCmd args) = args"
| "cmd_words (RedirCmd c q e mode fd) = cmd_words c @ [(q, e)]"
| "cmd_words (PipeCmd l r) = cmd_words l @ cmd_words r"
| "cmd_words (ListCmd l r) = cmd_words l @ cmd_words r"
| "cmd_words (BackCmd c) = cmd_words c"

definition string_at :: "uint8 list \<Rightarrow> nat \<Rightarrow> uint8 list" where
  "string_at b q = takeWhile (\<lambda>c. c \<noteq> 0) (drop q b)"

lemma nulterminate_fold: "nulterminate c b = fold (\<lambda>(q, e) b. b[e := 0]) (cmd_words c) b"
  by (induction c arbitrary: b) simp_all

lemma fold_zero:
  "length (fold (\<lambda>(q, e) b. b[e := 0]) ws b) = length b"
  "i < length b \<Longrightarrow> fold (\<lambda>(q, e) b. b[e := 0]) ws b ! i = (if i \<in> snd ` set ws then 0 else b ! i)"
proof (induction ws arbitrary: b)
  case (Cons w ws)
  {
    case 1
    show ?case using Cons.IH(1) by (simp add: case_prod_beta)
  next
    case 2
    then show ?case using Cons.IH(2) [of "b[snd w := 0]"] by (auto simp: case_prod_beta nth_list_update)
  }
qed simp_all

lemma cmd_ok_words: "cmd_ok b es c \<Longrightarrow> (q, e) \<in> set (cmd_words c) \<Longrightarrow> word_at b es q e"
  by (induction c) auto

lemma string_at_eq:
  assumes "q \<le> e" and "e < length b" and "b ! e = 0" and "\<forall>i. q \<le> i \<and> i < e \<longrightarrow> b ! i \<noteq> 0"
  shows "string_at b q = take (e - q) (drop q b)"
proof -
  have d: "drop q b = take (e - q) (drop q b) @ 0 # drop (Suc e) b"
    using assms(1-3) id_take_nth_drop [of "e - q" "drop q b"] by simp
  have "0 \<notin> set (take (e - q) (drop q b))" using assms(1,2,4) by (auto simp: in_set_conv_nth)
  then have "\<forall>x \<in> set (take (e - q) (drop q b)). x \<noteq> 0" by metis
  then show ?thesis unfolding string_at_def by (subst d) (simp add: takeWhile_append2)
qed

text \<open>The writes of \<^verbatim>\<open>nulterminate\<close> hit no byte of any word.\<close>

lemma word_string:
  assumes l: "line b es" and c: "cmd_ok b es c" and w: "(q, e) \<in> set (cmd_words c)"
  shows "string_at (nulterminate c b) q = take (e - q) (drop q b)"
proof -
  let ?b = "nulterminate c b"
  have wq: "word_at b es q e" by (rule cmd_ok_words [OF c w])
  then have qe: "q < e" "e \<le> es" "e < length b" using l by (auto simp: word_at_def line_def)
  have nth: "?b ! i = (if i \<in> snd ` set (cmd_words c) then 0 else b ! i)" if "i < length b" for i
    unfolding nulterminate_fold by (rule fold_zero(2) [OF that])
  have len: "length ?b = length b" unfolding nulterminate_fold by (rule fold_zero(1))
  have keep: "i \<notin> snd ` set (cmd_words c)" if "q \<le> i" "i < e" for i
  proof
    assume "i \<in> snd ` set (cmd_words c)"
    then obtain p where "(p, i) \<in> set (cmd_words c)" by auto
    then have "i < es \<longrightarrow> separator (at b i)" using cmd_ok_words [OF c] by (auto simp: word_at_def)
    moreover have "i < es" "\<not> separator (at b i)" using wq that by (auto simp: word_at_def)
    ultimately show False by blast
  qed
  have same: "?b ! i = b ! i \<and> b ! i \<noteq> 0" if "q \<le> i" "i < e" for i
    using nth [of i] keep [OF that] that qe l by (auto simp: line_def at_def split: if_splits)
  have "?b ! e = 0" using nth [OF qe(3)] w by force
  then have "string_at ?b q = take (e - q) (drop q ?b)" using qe len same by (intro string_at_eq) auto
  also have "\<dots> = take (e - q) (drop q b)"
    using qe len same by (intro nth_equalityI) auto
  finally show ?thesis .
qed

section \<open>Properties\<close>

lemma line_start:
  assumes "0 \<in> set b"
  shows "line b (length (takeWhile (\<lambda>c. c \<noteq> 0) b))"
proof -
  let ?n = "length (takeWhile (\<lambda>c. c \<noteq> 0) b)"
  have lt: "?n < length b" using assms by (induction b) auto
  have "b ! ?n = 0" using nth_length_takeWhile [OF lt] by simp
  moreover have "b ! i \<noteq> 0" if "i < ?n" for i
    using set_takeWhileD [OF nth_mem [OF that]] takeWhile_nth [OF that] by simp
  ultimately show ?thesis using lt by (auto simp: line_def at_def)
qed

text \<open>
  C24. Parsing a command line always ends: on every line, however long and however nested, \<^verbatim>\<open>parsecmd\<close> returns
  a command or reports one of its four syntax errors; the panic of \<^verbatim>\<open>parseblock\<close> is unreachable. The
  depth of the recursion is at most four times the length of the line and four.
\<close>

theorem parsecmd_terminates:
  assumes "0 \<in> set b"
  shows "case parsecmd b of Ok _ \<Rightarrow> True | Panic msg \<Rightarrow> msg \<in> parse_errors | Spin \<Rightarrow> False"
proof -
  let ?es = "length (takeWhile (\<lambda>c. c \<noteq> 0) b)"
  have "parsed b ?es 0 (parseline (4 * ?es + 4) b ?es 0)" by (rule parsesD(1) [OF parse_all [OF line_start [OF assms]]]) simp_all
  then show ?thesis
    by (cases "parseline (4 * ?es + 4) b ?es 0") (auto simp: parsecmd_def Let_def parse_errors_def split: prod.splits)
qed

theorem parsecmd_terminates_witness:
  "case parsecmd [40, 97, 59, 98, 124, 99, 41, 38, 0] of Ok _ \<Rightarrow> True | Panic msg \<Rightarrow> msg \<in> parse_errors | Spin \<Rightarrow> False"
  by (rule parsecmd_terminates) simp



end
