(* ===== verification/Spec2Isabelle.thy ===== *)
theory Spec2Isabelle
  imports Boot Asm Contents Paths Params Umalloc Shell
begin

text \<open>
  A verification development for xv6 on RISC-V with three scheduling policies: round robin, a priority policy
  and a CFS-like policy, chosen at run time by a system call. File names are relative to src/.

  \<^bold>\<open>The program.\<close> Harts enter the kernel through the assembly trap code
  (kernel/trampoline.S, kernelvec.S), which hands over to kernel/trap.c and from there to system calls
  (syscall.c, sysproc.c, sysfile.c) or to device interrupts (uart.c, console.c, virtio_disk.c through plic.c).
  System calls work on processes (proc.c), on address spaces (vm.c, over the page allocator kalloc.c), on
  files (file.c, pipe.c) and, below them, on a file system in four layers: fs.c over the write-ahead log log.c
  over the buffer cache bio.c over the disk driver. Everything shared is protected by spinlocks (spinlock.c)
  or sleep locks (sleeplock.c). User programs are linked with a library (user/ulib.c, umalloc.c, printf.c).

  \<^bold>\<open>How it is modelled.\<close> An operation is a function from a state to an
  \<open>outcome\<close>: \<open>Ok\<close> with the result and the new state, \<open>Panic\<close> with the
  source's message, or \<open>Spin\<close> for a hart that waits for a lock for ever or a loop that has used
  up its bound. \<open>andThen\<close> is the sequencing of statements. The state grows layer by layer as
  records that extend each other: \<open>machine\<close> (harts and spinlocks, Spinlock), \<open>pmem\<close>
  (byte memory and free list, Kalloc), \<open>kernel\<close> (process table and scheduler, Proc),
  \<open>fskernel\<close> (buffers, log, inodes, files, disk, Fsstate), \<open>iokernel\<close> (UART, console
  and pipes), \<open>trapkernel\<close> (control registers, interrupt controller, Trap) and
  \<open>bootkernel\<close> (Boot). C integers are words of their width, read with
  \<^const>\<open>sint\<close> where the source compares them as signed. Physical memory is a byte map, so
  page tables, free-list links and trapframes are really loads and stores; a pointer into a static array is an
  index. Operations keep the names of the C functions; a loop or branch that is a definition of its own is
  named after its function.

  \<^bold>\<open>What is an argument.\<close> What other threads do between a call of
  \<^verbatim>\<open>swtch\<close> and its return (\<open>env_sw\<close>, \<open>run\<close>), the disk device
  (\<open>dev\<close>, with the hypothesis \<open>device_ok\<close>, which says what the virtio specification
  says and which \<open>serve\<close> satisfies), the answers of device registers, the addresses the linker
  assigns, and the contents of local arrays that C leaves uninitialised.

  \<^bold>\<open>The theories.\<close>
  \<^item> Prelude, Riscv, KString, Physmem, Ring, Codec, Splitting: shared ground. Words and outcomes; the
    constants and page-table macros of kernel/riscv.h and memlayout.h; kernel/string.c; 64-bit loads and
    stores; circular buffers with wrapping counters and the locale \<open>bounded_queue\<close>; byte
    encodings; lists cut at a separator.
  \<^item> Spinlock: kernel/spinlock.c and the per-hart state. \<open>spin_step\<close> interleaves the steps
    of any number of harts on one lock: mutual exclusion, and that no panic is reachable.
  \<^item> Kalloc: kernel/kalloc.c refines a list of distinct pages; the locale \<open>page_allocator\<close>.
  \<^item> Vm, Pagetable, Addrspace, Usercopy, Pagefree: kernel/vm.c. Page tables are trees of pages disjoint
    from the free list; mapping and unmapping change exactly their range; copying to and from user memory is a
    round trip; tearing an address space down returns every page once.
  \<^item> Proc, Proctable, Scheduler, Sleepwake: kernel/proc.c. The two scans for a least key are instances
    of the locale \<open>min_policy\<close>; each policy's round is characterised, shortcomings included;
    sleep and wakeup do not miss each other. Params: the ranges of the parameters that user code sets.
  \<^item> Fsstate, Sleeplock, Virtio, Bio: the data of the file system, kernel/sleeplock.c, virtio_disk.c,
    bio.c. The locale \<open>disk_driver\<close> is what the cache needs of the driver; the cache is a map
    from block numbers to contents (\<open>cview\<close>).
  \<^item> Log, Journal: kernel/log.c, and its crash safety: every disk state of a commit or of a recovery is
    one from which recovery yields all of the transaction or nothing of it.
  \<^item> Fs, Blocks, Inodes, Contents, Paths: kernel/fs.c; the block allocator, the inode round trip through
    log and cache, reading and writing of files as sequences of bytes, and path names. What is shown of
    \<open>writei\<close> concerns blocks that are already allocated, and \<open>readi\<close> into kernel
    buffers.
  \<^item> Uart, Console, Pipe, File, Sysproc, Exec, Sysfile, Trap, Boot: kernel/uart.c, printf.c, console.c,
    pipe.c, file.c, syscall.c, sysproc.c, exec.c, sysfile.c, plic.c, trap.c, start.c and main.c. Properties
    are shown of number output, line editing, pipes as queues and the hand-over at boot; File, Exec, Sysfile
    and Trap are models on which nothing beyond their definitions is proved.
  \<^item> Asm: kernel/swtch.S, trampoline.S and kernelvec.S as instruction sequences.
  \<^item> Umalloc, Grep, Shell: user/umalloc.c, grep.c and the parser of sh.c.

  \<^bold>\<open>Bounds.\<close> A loop over data recurses on the data. Loops whose end depends on the state
  take fuel, and running out is \<open>Spin\<close> (in the cache's searches \<open>Endless\<close>), never a
  result: the properties that say an operation returns also show that its fuel is enough. The buffer ring has
  NBUF elements; \<open>freerange\<close> frees at most as many pages as the range has; the loops of
  \<open>malloc\<close> and \<open>free\<close> go round the free list, and about twice its length is enough;
  the receive loop takes one step for each received byte. Waiting loops (sleep locks, \<open>begin_op\<close>,
  pipes, the console) run at most \<open>env_fuel\<close> times, an argument, since nothing in the code bounds
  how often a sleeper is woken in vain.

  \<^bold>\<open>Assumptions.\<close> Except in \<open>spin_step\<close>, an operation runs on one hart, and
  other threads act only where the code gives up the processor. A disk block is written atomically. Loads and
  stores are sequentially consistent.

  \<^bold>\<open>Not modelled.\<close> kernel/entry.S, which only sets up a stack. kernel/ramdisk.c, which no
  rule of the Makefile links and which uses members that \<^verbatim>\<open>struct buf\<close> does not have.
  mkfs/mkfs.c, a host program over the host's files. Of user/ the test programs, the shell's
  \<^verbatim>\<open>runcmd\<close> and the small utilities, which are sequences of system calls in concurrent
  processes, and the library's printf and string routines, which repeat those of the kernel.
\<close>

end
